(* ===== verification/Prelude.thy ===== *)
theory Prelude
  imports Main "HOL-Library.Word" "HOL-Library.Sublist"
begin

text \<open>
  Shared vocabulary of the development: the machine types of the Go sources as words, results
  as sums, the fixed-width little-endian and the variable-length integer encodings of Go's
  \<^verbatim>\<open>encoding/binary\<close>, and the order on byte strings of \<^verbatim>\<open>bytes.Compare\<close>, each with
  the lemmas the components use.
\<close>

unbundle bit_operations_syntax

section \<open>Types\<close>

type_synonym byte = "8 word"
type_synonym bytes = "byte list"
type_synonym u16 = "16 word"
type_synonym u32 = "32 word"
type_synonym u64 = "64 word"

text \<open>
  A fallible Go function returns \<open>Inl e\<close> for the error it returns (or the panic it raises) and
  \<open>Inr v\<close> for the value; \<open>rbind\<close> is the idiom \<^verbatim>\<open>if err != nil { return err }\<close>.
\<close>

definition rbind :: "'e + 'a \<Rightarrow> ('a \<Rightarrow> 'e + 'b) \<Rightarrow> 'e + 'b" where
  "rbind r f = (case r of Inl e \<Rightarrow> Inl e | Inr v \<Rightarrow> f v)"

section \<open>Little-endian integers\<close>

text \<open>\<open>le_encode n w\<close> is \<^verbatim>\<open>binary.LittleEndian.PutUint{16,32,64}\<close> for \<open>n\<close> = 2, 4, 8.\<close>

definition le_encode :: "nat \<Rightarrow> 'a::len word \<Rightarrow> bytes" where
  "le_encode n w = map (\<lambda>i. ucast (drop_bit (8 * i) w)) [0..<n]"

text \<open>
  \<open>le_decode\<close> reads all its bytes, the first one the least significant. Go's
  \<^verbatim>\<open>Uint16/32/64\<close> read the first 2, 4, 8 bytes of their argument and panic when there are
  fewer: \<open>le_read\<close> is \<open>None\<close> there.
\<close>

fun le_decode :: "bytes \<Rightarrow> 'a::len word" where
  "le_decode [] = 0"
| "le_decode (b # bs) = ucast b OR push_bit 8 (le_decode bs)"

definition le_read :: "nat \<Rightarrow> bytes \<Rightarrow> 'a::len word option" where
  "le_read n bs = (if length bs < n then None else Some (le_decode (take n bs)))"

section \<open>Variable-length integers\<close>

text \<open>\<^verbatim>\<open>binary.PutUvarint\<close>: seven bits per byte, the high bit set on all but the last.\<close>

function put_uvarint :: "u64 \<Rightarrow> bytes" where
  "put_uvarint x = (if x < 128 then [ucast x] else (ucast x OR 128) # put_uvarint (drop_bit 7 x))"
  by pat_completeness auto
termination
proof (relation "measure unat")
  fix x :: u64
  assume "\<not> x < 128"
  then have "128 \<le> unat x"
    by (simp add: word_less_nat_alt)
  then have "unat x div 128 < unat x"
    by simp
  then show "(drop_bit 7 x, x) \<in> measure unat"
    by (simp add: drop_bit_eq_div unat_div)
qed simp

declare put_uvarint.simps [simp del]

text \<open>
  The loop of \<^verbatim>\<open>binary.ReadUvarint\<close>: \<open>i\<close> counts the bytes read (the shift is \<open>7 * i\<close>),
  \<open>x\<close> is the value so far; a tenth byte above 1, or an eleventh byte, is an overflow.
\<close>

datatype uvarint_result =
    UVal u64 bytes   \<comment> \<open>the value and the rest of the input\<close>
  | UEmpty           \<comment> \<open>no byte at all: \<^verbatim>\<open>io.EOF\<close>\<close>
  | UTruncated       \<comment> \<open>the input ended inside the integer: \<^verbatim>\<open>io.ErrUnexpectedEOF\<close>\<close>
  | UOverflow        \<comment> \<open>more than 64 bits\<close>

fun uvarint_loop :: "nat \<Rightarrow> u64 \<Rightarrow> bytes \<Rightarrow> uvarint_result" where
  "uvarint_loop i x bs =
     (if 10 \<le> i then UOverflow
      else case bs of
        [] \<Rightarrow> (if i = 0 then UEmpty else UTruncated)
      | b # bs' \<Rightarrow>
          if b < 128
          then (if i = 9 \<and> b > 1 then UOverflow else UVal (x OR push_bit (7 * i) (ucast b)) bs')
          else uvarint_loop (Suc i) (x OR push_bit (7 * i) (ucast (b AND 127))) bs')"

declare uvarint_loop.simps [simp del]

definition read_uvarint :: "bytes \<Rightarrow> uvarint_result" where
  "read_uvarint bs = uvarint_loop 0 0 bs"

text \<open>\<^verbatim>\<open>binary.Uvarint\<close>: the value and the number of bytes read, 0 or negative on failure.\<close>

fun Uvarint_from :: "nat \<Rightarrow> u64 \<Rightarrow> bytes \<Rightarrow> u64 \<times> int" where
  "Uvarint_from i x [] = (0, 0)"
| "Uvarint_from i x (b # bs) =
     (if i = 10 then (0, - (int i + 1))
      else if b < 128
      then (if i = 9 \<and> b > 1 then (0, - (int i + 1)) else (x OR push_bit (7 * i) (ucast b), int i + 1))
      else Uvarint_from (Suc i) (x OR push_bit (7 * i) (ucast (b AND 127))) bs)"

definition Uvarint :: "bytes \<Rightarrow> u64 \<times> int" where
  "Uvarint bs = Uvarint_from 0 0 bs"

section \<open>The order of byte strings\<close>

text \<open>\<^verbatim>\<open>bytes.Compare\<close>: lexicographic, a proper prefix first; the result is -1, 0 or 1.\<close>

fun bytes_compare :: "bytes \<Rightarrow> bytes \<Rightarrow> int" where
  "bytes_compare [] [] = 0"
| "bytes_compare [] (_ # _) = -1"
| "bytes_compare (_ # _) [] = 1"
| "bytes_compare (a # as) (b # bs) =
     (if a < b then -1 else if b < a then 1 else bytes_compare as bs)"

text \<open>\<^verbatim>\<open>bytes.HasPrefix\<close> and \<^verbatim>\<open>strings.HasPrefix\<close>, and their suffix counterparts.\<close>

definition has_prefix :: "'a list \<Rightarrow> 'a list \<Rightarrow> bool" where
  "has_prefix s p = (length p \<le> length s \<and> take (length p) s = p)"

definition has_suffix :: "'a list \<Rightarrow> 'a list \<Rightarrow> bool" where
  "has_suffix s p = (length p \<le> length s \<and> drop (length s - length p) s = p)"

section \<open>Lemmas\<close>

lemma rbind_simps [simp]:
  "rbind (Inl e) f = Inl e"
  "rbind (Inr v) f = f v"
  by (simp_all add: rbind_def)

lemma rbind_cong [fundef_cong]:
  "r = r' \<Longrightarrow> (\<And>v. r' = Inr v \<Longrightarrow> f v = f' v) \<Longrightarrow> rbind r f = rbind r' f'"
  by (cases r') simp_all

lemma rbind_eq_Inr [simp]: "rbind r f = Inr y \<longleftrightarrow> (\<exists>v. r = Inr v \<and> f v = Inr y)"
  by (cases r) auto

lemma rbind_assoc: "rbind (rbind r f) g = rbind r (\<lambda>v. rbind (f v) g)"
  by (cases r) simp_all

lemma rbind_return: "rbind r Inr = r"
  by (cases r) simp_all

lemma rbind_eq_Inl: "rbind r f = Inl e \<longleftrightarrow> r = Inl e \<or> (\<exists>v. r = Inr v \<and> f v = Inl e)"
  by (cases r) auto

lemma length_le_encode [simp]: "length (le_encode n w) = n"
  by (simp add: le_encode_def)

lemma nth_le_encode [simp]: "i < n \<Longrightarrow> le_encode n w ! i = ucast (drop_bit (8 * i) w)"
  by (simp add: le_encode_def)

lemma bit_le_decode:
  "bit (le_decode bs :: 'a::len word) i \<longleftrightarrow>
     i < LENGTH('a) \<and> i div 8 < length bs \<and> bit (bs ! (i div 8)) (i mod 8)"
proof (induction bs arbitrary: i)
  case Nil
  then show ?case by simp
next
  case (Cons b bs)
  show ?case
  proof (cases "i < 8")
    case True
    then show ?thesis
      by (auto simp add: bit_simps)
  next
    case False
    then obtain j where j: "i = j + 8"
      by (metis add.commute le_Suc_ex not_less)
    have "(j + 8) div 8 = Suc (j div 8)" by simp
    then show ?thesis
      using Cons.IH [of j] by (auto simp add: j bit_simps dest: bit_imp_le_length)
  qed
qed

lemma le_decode_encode:
  "8 * n = LENGTH('a) \<Longrightarrow> le_decode (le_encode n w) = (w :: 'a::len word)"
  by (rule bit_word_eqI) (auto simp add: bit_le_decode bit_simps less_mult_imp_div_less mult.commute)

lemma le_encode_decode:
  assumes "8 * length bs = LENGTH('a)"
  shows "le_encode (length bs) (le_decode bs :: 'a::len word) = bs"
proof (rule nth_equalityI)
  fix i assume "i < length (le_encode (length bs) (le_decode bs :: 'a word))"
  then have i: "i < length bs" by simp
  show "le_encode (length bs) (le_decode bs :: 'a word) ! i = bs ! i"
  proof (rule bit_word_eqI)
    fix k assume "k < LENGTH(8)"
    then have "k < 8" by simp
    then show "bit (le_encode (length bs) (le_decode bs :: 'a word) ! i) k = bit (bs ! i) k"
      using i assms by (auto simp add: bit_simps bit_le_decode)
  qed
qed simp

lemma le64_roundtrip [simp]: "le_decode (le_encode 8 (w :: u64)) = w"
  by (rule le_decode_encode) simp

lemma le32_roundtrip [simp]: "le_decode (le_encode 4 (w :: u32)) = w"
  by (rule le_decode_encode) simp

lemma le16_roundtrip [simp]: "le_decode (le_encode 2 (w :: u16)) = w"
  by (rule le_decode_encode) simp

lemma le64_inj [simp]: "le_encode 8 (v :: u64) = le_encode 8 w \<longleftrightarrow> v = w"
  by (metis le64_roundtrip)

lemma le_read_encode [simp]:
  "8 * n = LENGTH('a) \<Longrightarrow> le_read n (le_encode n w @ bs) = Some (w :: 'a::len word)"
  by (simp add: le_read_def le_decode_encode)

subsection \<open>Variable-length integers\<close>

lemma put_uvarint_small [simp]: "x < 128 \<Longrightarrow> put_uvarint x = [ucast x]"
  by (simp add: put_uvarint.simps)

lemma put_uvarint_nonempty [simp]: "put_uvarint x \<noteq> []"
  by (subst put_uvarint.simps) simp

lemma bit_127_iff:
  "bit (127 :: 'a::ring_bit_operations) j \<longleftrightarrow> possible_bit TYPE('a) j \<and> j < 7"
  "bit (127 :: nat) j \<longleftrightarrow> j < 7"
proof -
  have "127 = (mask 7 :: 'a)" by (simp add: mask_eq_exp_minus_1)
  then show "bit (127 :: 'a) j \<longleftrightarrow> possible_bit TYPE('a) j \<and> j < 7"
    by (simp only: bit_mask_iff)
  have "127 = (mask 7 :: nat)" by (simp add: mask_eq_exp_minus_1)
  then show "bit (127 :: nat) j \<longleftrightarrow> j < 7"
    by (simp only: bit_mask_iff) simp
qed

lemma bit_128_iff:
  "bit (128 :: 'a::semiring_bit_operations) j \<longleftrightarrow> possible_bit TYPE('a) j \<and> j = 7"
proof -
  have "128 = (2 ^ 7 :: 'a)" by simp
  then show ?thesis by (simp only: bit_exp_iff)
qed

lemma uvarint_step_bits:
  "take_bit s v OR push_bit s (ucast ((ucast (drop_bit s v) :: byte) AND 127)) =
     take_bit (7 + s) (v :: u64)"
proof (rule bit_word_eqI)
  fix k assume "k < LENGTH(64)"
  then show "bit (take_bit s v OR push_bit s (ucast ((ucast (drop_bit s v) :: byte) AND 127))) k
      = bit (take_bit (7 + s) v) k"
    by (auto simp add: bit_simps bit_127_iff)
qed

lemma ucast_ucast_byte: "x < 256 \<Longrightarrow> ucast (ucast x :: byte) = (x :: u64)"
  by (simp add: word_unat_eq_iff unsigned_ucast_eq word_less_nat_alt take_bit_eq_mod unat_mod)

lemma uvarint_last_bits:
  assumes "drop_bit s v < 128"
  shows "take_bit s v OR push_bit s (ucast (ucast (drop_bit s v) :: byte)) = (v :: u64)"
proof -
  have "ucast (ucast (drop_bit s v) :: byte) = drop_bit s v"
    using assms by (intro ucast_ucast_byte) (simp add: word_less_nat_alt)
  moreover have "take_bit s v OR push_bit s (drop_bit s v) = v"
    by (rule bit_word_eqI) (simp add: bit_simps, metis le_add_diff_inverse not_less)
  ultimately show ?thesis by simp
qed

lemma drop_bit_63: "drop_bit 63 (v :: u64) \<le> 1"
proof -
  have "unat (drop_bit 63 v) \<le> 1"
    using unsigned_less [of v, where 'a = nat] by (simp add: drop_bit_eq_div unat_div)
  then show ?thesis by (simp add: word_le_nat_alt)
qed

lemma unat_ucast_byte: "(x :: u64) < 256 \<Longrightarrow> unat (ucast x :: byte) = unat x"
  by (simp add: unsigned_ucast_eq take_bit_eq_mod word_less_nat_alt)

lemma or_128: "\<not> (b :: byte) OR 128 < 128"
  by (metis le_word_or1 leD)

lemma or_128_and_127: "(b OR 128) AND 127 = (b :: byte) AND 127"
  by (rule bit_word_eqI) (auto simp add: bit_simps bit_127_iff bit_128_iff)

lemma uvarint_loop_put:
  "i \<le> 9 \<Longrightarrow>
   uvarint_loop i (take_bit (7 * i) v) (put_uvarint (drop_bit (7 * i) v) @ rest) = UVal v rest"
proof (induction "9 - i" arbitrary: i)
  case 0
  then have i: "i = 9" by simp
  let ?d = "drop_bit 63 v"
  have "?d < 128" "unat (ucast ?d :: byte) \<le> 1"
    using drop_bit_63 [of v] by (simp_all add: word_le_nat_alt word_less_nat_alt unat_ucast_byte)
  then show ?case
    using uvarint_last_bits [of 63 v]
    by (simp add: i uvarint_loop.simps [of 9] word_less_nat_alt)
next
  case (Suc n)
  show ?case
  proof (cases "drop_bit (7 * i) v < 128")
    case True
    then have "(ucast (drop_bit (7 * i) v) :: byte) < 128"
      by (simp add: word_less_nat_alt unat_ucast_byte)
    then show ?thesis
      using True Suc.prems Suc.hyps(2) uvarint_last_bits [of "7 * i" v]
      by (simp add: uvarint_loop.simps [of i])
  next
    case False
    have "uvarint_loop (Suc i) (take_bit (7 * Suc i) v) (put_uvarint (drop_bit (7 * Suc i) v) @ rest) = UVal v rest"
      using Suc.hyps(1) [of "Suc i"] Suc.hyps(2) by simp
    then show ?thesis
      using False Suc.hyps(2)
      by (simp add: put_uvarint.simps [of "drop_bit (7 * i) v"] uvarint_loop.simps [of i]
          or_128 or_128_and_127 uvarint_step_bits)
  qed
qed

lemma read_put_uvarint [simp]: "read_uvarint (put_uvarint v @ rest) = UVal v rest"
  using uvarint_loop_put [of 0 v rest] by (simp add: read_uvarint_def)

lemma Uvarint_from_loop:
  "uvarint_loop i x bs = UVal v rest \<Longrightarrow> Uvarint_from i x bs = (v, int i + (int (length bs) - int (length rest)))"
proof (induction i x bs rule: Uvarint_from.induct)
  case (1 i x)
  then show ?case by (simp add: uvarint_loop.simps [of i] split: if_splits)
next
  case (2 i x b bs)
  then show ?case by (auto simp add: uvarint_loop.simps [of i] split: if_splits)
qed

lemma Uvarint_put: "Uvarint (put_uvarint v) = (v, int (length (put_uvarint v)))"
  using read_put_uvarint [of v "[]"] Uvarint_from_loop [of 0 0 "put_uvarint v" v "[]"]
  by (simp add: Uvarint_def read_uvarint_def)

lemma Uvarint_put_append: "Uvarint (put_uvarint v @ rest) = (v, int (length (put_uvarint v)))"
  using read_put_uvarint [of v rest] Uvarint_from_loop [of 0 0 "put_uvarint v @ rest" v rest]
  by (simp add: Uvarint_def read_uvarint_def)

lemma length_put_uvarint_le: "unat x < 128 ^ Suc n \<Longrightarrow> length (put_uvarint x) \<le> Suc n"
proof (induction n arbitrary: x)
  case 0
  then have "x < 128" by (simp add: word_less_nat_alt)
  then show ?case by simp
next
  case (Suc n)
  show ?case
  proof (cases "x < 128")
    case False
    have "unat (drop_bit 7 x) = unat x div 128" by (simp add: drop_bit_eq_div unat_div)
    moreover have "unat x div 128 < 128 ^ Suc n" using Suc.prems by (intro less_mult_imp_div_less) (simp add: mult.commute)
    ultimately have "length (put_uvarint (drop_bit 7 x)) \<le> Suc n" using Suc.IH by simp
    then show ?thesis using False by (simp add: put_uvarint.simps [of x])
  qed simp
qed

lemma length_put_uvarint_ge: "128 ^ n \<le> unat x \<Longrightarrow> n < length (put_uvarint x)"
proof (induction n arbitrary: x)
  case (Suc n)
  have "(128::nat) \<le> 128 ^ Suc n" by simp
  from order_trans [OF this Suc.prems] have "128 \<le> unat x" .
  then have "\<not> x < 128" by (simp add: word_less_nat_alt)
  moreover have "128 ^ n \<le> unat (drop_bit 7 x)" using Suc.prems by (simp add: drop_bit_eq_div unat_div less_eq_div_iff_mult_less_eq mult.commute)
  ultimately show ?case using Suc.IH [of "drop_bit 7 x"] by (simp add: put_uvarint.simps [of x])
qed simp

lemma length_put_uvarint_10: "length (put_uvarint x) \<le> 10"
  using length_put_uvarint_le [of x 9] unsigned_less [of x, where 'a = nat] by simp

lemma unat_of_nat64: "n < 2 ^ 64 \<Longrightarrow> unat (of_nat n :: u64) = n"
  by (simp add: unsigned_of_nat take_bit_nat_eq_self)

subsection \<open>Byte strings\<close>

lemma bytes_compare_refl [simp]: "bytes_compare a a = 0"
  by (induction a) auto

lemma bytes_compare_eq_0 [simp]: "bytes_compare a b = 0 \<longleftrightarrow> a = b"
  by (induction a b rule: bytes_compare.induct) auto

lemma bytes_compare_range: "bytes_compare a b \<in> {-1, 0, 1}"
  by (induction a b rule: bytes_compare.induct) auto

lemma bytes_compare_swap: "bytes_compare b a = - bytes_compare a b"
  by (induction a b rule: bytes_compare.induct) auto

lemma bytes_compare_trans:
  "bytes_compare a b \<le> 0 \<Longrightarrow> bytes_compare b c \<le> 0 \<Longrightarrow> bytes_compare a c \<le> 0"
proof (induction a b arbitrary: c rule: bytes_compare.induct)
  case (4 a as b bs)
  then show ?case by (cases c) (auto split: if_splits)
qed (case_tac [!] c; simp)+

lemma bytes_compare_Nil [simp]: "bytes_compare [] a \<le> 0"
  by (cases a) auto

lemma bytes_compare_append [simp]: "bytes_compare (p @ a) (p @ b) = bytes_compare a b"
  by (induction p) auto

lemma has_prefix_append [simp]: "has_prefix (p @ s) p"
  by (simp add: has_prefix_def)

lemma has_prefix_iff: "has_prefix s p \<longleftrightarrow> (\<exists>t. s = p @ t)"
  by (metis append_take_drop_id has_prefix_append has_prefix_def)

lemma has_suffix_append [simp]: "has_suffix (s @ p) p"
  by (simp add: has_suffix_def)

lemma has_suffix_iff: "has_suffix s p \<longleftrightarrow> (\<exists>t. s = t @ p)"
  by (metis append_take_drop_id has_suffix_append has_suffix_def)

section \<open>Big-endian encodings\<close>

definition be_encode :: "nat \<Rightarrow> 'a::len word \<Rightarrow> bytes" where
  "be_encode n w = rev (le_encode n w)"

definition be_decode :: "bytes \<Rightarrow> 'a::len word" where
  "be_decode bs = le_decode (rev bs)"

section \<open>Strings and numbers\<close>

text \<open>Go strings are byte sequences; the ones the code builds are written as HOL strings.\<close>

definition str_bytes :: "string \<Rightarrow> bytes" where
  "str_bytes s = map (of_nat \<circ> of_char) s"

text \<open>
  \<^verbatim>\<open>strconv.ParseUint(s, 10, 64)\<close>: the value and whether there is an error. A syntax error
  gives 0, a value out of range the largest one.
\<close>

datatype parse_error = ErrSyntax | ErrRange

definition digit_of :: "char \<Rightarrow> nat option" where
  "digit_of c = (let k = (of_char c :: nat) in if 48 \<le> k \<and> k \<le> 57 then Some (k - 48) else None)"

fun parse_digits :: "nat \<Rightarrow> string \<Rightarrow> nat \<times> parse_error option" where
  "parse_digits n [] = (n, None)"
| "parse_digits n (c # cs) =
     (case digit_of c of
        None \<Rightarrow> (0, Some ErrSyntax)
      | Some d \<Rightarrow> if 10 * n + d < 2 ^ 64 then parse_digits (10 * n + d) cs else (2 ^ 64 - 1, Some ErrRange))"

definition ParseUint :: "string \<Rightarrow> u64 \<times> parse_error option" where
  "ParseUint s = (if s = [] then (0, Some ErrSyntax) else map_prod of_nat id (parse_digits 0 s))"

text \<open>Decimal digits, and \<^verbatim>\<open>fmt.Sprintf("%06d")\<close>.\<close>

fun digits :: "nat \<Rightarrow> string" where
  "digits n = (if n < 10 then [char_of (48 + n)] else digits (n div 10) @ [char_of (48 + n mod 10)])"

declare digits.simps [simp del]

definition format06 :: "nat \<Rightarrow> string" where
  "format06 n = replicate (6 - length (digits n)) (char_of (48 :: nat)) @ digits n"

lemma digit_of_digit [simp]: "k < 10 \<Longrightarrow> digit_of (char_of (48 + k)) = Some k"
  by (simp add: digit_of_def Let_def take_bit_eq_mod)

lemma digit_of_zero [simp]: "digit_of (char_of (48 :: nat)) = Some 0"
  by (simp add: digit_of_def Let_def)

lemma parse_digits_append:
  "parse_digits n (s @ t) =
     (case parse_digits n s of (m, None) \<Rightarrow> parse_digits m t | r \<Rightarrow> r)"
  by (induction n s rule: parse_digits.induct) (auto split: option.splits)

lemma parse_digits_digits: "n < 2 ^ 64 \<Longrightarrow> parse_digits 0 (digits n) = (n, None)"
proof (induction n rule: digits.induct)
  case (1 n)
  show ?case
  proof (cases "n < 10")
    case True
    then show ?thesis by (simp add: digits.simps [of n])
  next
    case False
    moreover have "10 * (n div 10) + n mod 10 = n" by simp
    ultimately show ?thesis
      using 1 by (simp add: digits.simps [of n] parse_digits_append)
  qed
qed

lemma parse_digits_zeros: "parse_digits 0 (replicate k (char_of (48 :: nat)) @ s) = parse_digits 0 s"
  by (induction k) simp_all

lemma digits_nonempty [simp]: "digits n \<noteq> []"
  by (simp add: digits.simps [of n])

lemma unat64: "unat (n :: u64) < 2 ^ 64"
  by (rule order_less_le_trans [OF unsigned_less]) simp

lemma ParseUint_digits: "ParseUint (digits (unat n)) = (n, None)"
  using parse_digits_digits [OF unat64 [of n]] by (simp add: ParseUint_def)

lemma ParseUint_format06: "ParseUint (format06 (unat n)) = (n, None)"
  using parse_digits_digits [OF unat64 [of n]]
  by (simp add: ParseUint_def format06_def parse_digits_zeros)

lemma digits_set: "c \<in> set (digits n) \<Longrightarrow> \<exists>k<10. c = char_of (48 + k :: nat)"
proof (induction n rule: digits.induct)
  case (1 n)
  show ?case
  proof (cases "n < 10")
    case True
    then show ?thesis using 1(2) by (auto simp add: digits.simps [of n])
  next
    case False
    then have "c \<in> set (digits (n div 10)) \<or> c = char_of (48 + n mod 10)"
      using 1(2) by (auto simp add: digits.simps [of n])
    moreover have "n mod 10 < 10" by simp
    ultimately show ?thesis using 1(1) False by blast
  qed
qed

lemma format06_set:
  assumes "c \<in> set (format06 n)"
  shows "\<exists>k<10. c = char_of (48 + k :: nat)"
proof (cases "c \<in> set (digits n)")
  case True
  then show ?thesis by (rule digits_set)
next
  case False
  then have "c = char_of (48 + 0 :: nat)" using assms by (auto simp add: format06_def split: if_splits)
  then show ?thesis by (metis zero_less_numeral)
qed

section \<open>Slices\<close>

text \<open>Go's \<^verbatim>\<open>xs[a:b]\<close>, and \<^verbatim>\<open>copy(buf[i:], src)\<close>, which stops at the end of \<^verbatim>\<open>buf\<close>.\<close>

definition slice :: "nat \<Rightarrow> nat \<Rightarrow> 'a list \<Rightarrow> 'a list" where
  "slice a b xs = take (b - a) (drop a xs)"

definition copy_at :: "nat \<Rightarrow> 'a list \<Rightarrow> 'a list \<Rightarrow> 'a list" where
  "copy_at i src buf = take i buf @ take (length buf - i) src @ drop (i + length src) buf"

lemma length_slice [simp]: "length (slice a b xs) = min (b - a) (length xs - a)"
  by (simp add: slice_def min.commute)

lemma length_copy_at [simp]: "i \<le> length buf \<Longrightarrow> length (copy_at i src buf) = length buf"
  by (simp add: copy_at_def)

lemma slice_empty [simp]: "b \<le> a \<Longrightarrow> slice a b xs = []"
  by (simp add: slice_def)

lemma slice_all: "length xs \<le> b \<Longrightarrow> slice a b xs = drop a xs"
  by (simp add: slice_def)

lemma slice_append: "a \<le> b \<Longrightarrow> b \<le> c \<Longrightarrow> slice a b xs @ slice b c xs = slice a c xs"
  using take_add [of "b - a" "c - b" "drop a xs"] by (simp add: slice_def)

lemma slice_alt: "slice a b xs = drop a (take b xs)"
  by (simp add: slice_def drop_take)

lemma slice_copy_before:
  assumes "b \<le> i"
  shows "slice a b (copy_at i src buf) = slice a b buf"
proof -
  have "take b (copy_at i src buf) = take b buf"
    using assms by (cases "i \<le> length buf") (simp_all add: copy_at_def min_def)
  then show ?thesis by (simp add: slice_alt)
qed

lemma slice_copy_after:
  "i + length src \<le> a \<Longrightarrow> i \<le> length buf \<Longrightarrow> slice a b (copy_at i src buf) = slice a b buf"
  by (cases "i + length src \<le> length buf") (auto simp add: slice_def copy_at_def)

lemma slice_copy_same:
  "i + length src \<le> length buf \<Longrightarrow> b = i + length src \<Longrightarrow> slice i b (copy_at i src buf) = src"
  by (simp add: slice_def copy_at_def)

lemma slice_slice: "slice a b (slice c d xs) = slice (c + a) (min d (c + b)) xs"
proof -
  have "min (b - a) (d - c - a) = min d (c + b) - (c + a)" by arith
  then show ?thesis by (simp add: slice_def drop_take add.commute)
qed

lemma take_slice: "take k (slice a b xs) = slice a (min b (a + k)) xs"
proof -
  have "min k (b - a) = min b (a + k) - a" by arith
  then show ?thesis by (simp add: slice_def)
qed

lemma slice_append1: "b \<le> length xs \<Longrightarrow> slice a b (xs @ ys) = slice a b xs"
  by (auto simp add: slice_def)

lemma slice_append2: "length xs \<le> a \<Longrightarrow> slice a b (xs @ ys) = slice (a - length xs) (b - length xs) ys"
  by (auto simp add: slice_def)

end
