(* ===== verification/Crypto.thy ===== *)
theory Crypto
  imports Prelude
begin

text \<open>
  The primitives of Go's standard library that the encryption layer uses: AES
  (\<^verbatim>\<open>crypto/aes\<close>), its Galois/Counter mode with 12-byte nonces and 16-byte tags
  (\<^verbatim>\<open>cipher.NewGCM\<close>), SHA-256 and HMAC. An AEAD value is, as in Go, an interface: a record of
  its operations. The locale \<open>cipher_provider\<close> states what the clients rely on: sealing succeeds
  within the size limit and adds a tag, opening inverts sealing, and only sealed texts open.
  It is interpreted for \<^verbatim>\<open>GetCipher\<close>, with AES-GCM, in theory \<open>Edg\<close>.
\<close>

section \<open>AES\<close>

definition sbox :: "byte list" where
  "sbox = [
    99, 124, 119, 123, 242, 107, 111, 197, 48, 1, 103, 43, 254, 215, 171, 118,
    202, 130, 201, 125, 250, 89, 71, 240, 173, 212, 162, 175, 156, 164, 114, 192,
    183, 253, 147, 38, 54, 63, 247, 204, 52, 165, 229, 241, 113, 216, 49, 21,
    4, 199, 35, 195, 24, 150, 5, 154, 7, 18, 128, 226, 235, 39, 178, 117,
    9, 131, 44, 26, 27, 110, 90, 160, 82, 59, 214, 179, 41, 227, 47, 132,
    83, 209, 0, 237, 32, 252, 177, 91, 106, 203, 190, 57, 74, 76, 88, 207,
    208, 239, 170, 251, 67, 77, 51, 133, 69, 249, 2, 127, 80, 60, 159, 168,
    81, 163, 64, 143, 146, 157, 56, 245, 188, 182, 218, 33, 16, 255, 243, 210,
    205, 12, 19, 236, 95, 151, 68, 23, 196, 167, 126, 61, 100, 93, 25, 115,
    96, 129, 79, 220, 34, 42, 144, 136, 70, 238, 184, 20, 222, 94, 11, 219,
    224, 50, 58, 10, 73, 6, 36, 92, 194, 211, 172, 98, 145, 149, 228, 121,
    231, 200, 55, 109, 141, 213, 78, 169, 108, 86, 244, 234, 101, 122, 174, 8,
    186, 120, 37, 46, 28, 166, 180, 198, 232, 221, 116, 31, 75, 189, 139, 138,
    112, 62, 181, 102, 72, 3, 246, 14, 97, 53, 87, 185, 134, 193, 29, 158,
    225, 248, 152, 17, 105, 217, 142, 148, 155, 30, 135, 233, 206, 85, 40, 223,
    140, 161, 137, 13, 191, 230, 66, 104, 65, 153, 45, 15, 176, 84, 187, 22]"

definition sub_byte :: "byte \<Rightarrow> byte" where
  "sub_byte b = sbox ! unat b"

definition xtime :: "byte \<Rightarrow> byte" where
  "xtime b = push_bit 1 b XOR (if bit b 7 then 27 else 0)"

definition xor_bytes :: "bytes \<Rightarrow> bytes \<Rightarrow> bytes" where
  "xor_bytes a b = map (\<lambda>(x, y). x XOR y) (zip a b)"

text \<open>The state is the 16 input bytes in order: byte \<open>r + 4 * c\<close> is row \<open>r\<close>, column \<open>c\<close>.\<close>

definition shift_rows :: "bytes \<Rightarrow> bytes" where
  "shift_rows s = map (\<lambda>i. s ! ((i + 4 * (i mod 4)) mod 16)) [0..<16]"

fun mix_columns :: "bytes \<Rightarrow> bytes" where
  "mix_columns (a # b # c # d # s) =
     (xtime a XOR xtime b XOR b XOR c XOR d) #
     (a XOR xtime b XOR xtime c XOR c XOR d) #
     (a XOR b XOR xtime c XOR xtime d XOR d) #
     (xtime a XOR a XOR b XOR c XOR xtime d) # mix_columns s"
| "mix_columns s = []"

text \<open>
  Key expansion: \<open>expand_key nk n i rcon w\<close> appends \<open>n\<close> four-byte words to the schedule
  \<open>w\<close>, whose length is \<open>i\<close>; \<open>nk\<close> is the number of words of the key.
\<close>

definition expand_word :: "nat \<Rightarrow> nat \<Rightarrow> byte \<Rightarrow> bytes \<Rightarrow> bytes" where
  "expand_word nk i rcon t =
     (if i mod nk = 0 then xor_bytes (map sub_byte (rotate1 t)) [rcon, 0, 0, 0]
      else if 6 < nk \<and> i mod nk = 4 then map sub_byte t
      else t)"

fun expand_key :: "nat \<Rightarrow> nat \<Rightarrow> nat \<Rightarrow> byte \<Rightarrow> bytes list \<Rightarrow> bytes list" where
  "expand_key nk 0 i rcon w = w"
| "expand_key nk (Suc n) i rcon w =
     expand_key nk n (Suc i) (if i mod nk = 0 then xtime rcon else rcon)
       (w @ [xor_bytes (w ! (i - nk)) (expand_word nk i rcon (w ! (i - 1)))])"

fun key_words :: "bytes \<Rightarrow> bytes list" where
  "key_words (a # b # c # d # k) = [a, b, c, d] # key_words k"
| "key_words k = []"

definition round_keys :: "bytes \<Rightarrow> bytes list" where
  "round_keys k =
     (let nk = length k div 4;
          w = expand_key nk (4 * (nk + 7) - nk) nk 1 (key_words k)
      in map (\<lambda>r. concat (take 4 (drop (4 * r) w))) [0..<nk + 7])"

fun aes_rounds :: "bytes list \<Rightarrow> bytes \<Rightarrow> bytes" where
  "aes_rounds [] s = s"
| "aes_rounds [rk] s = xor_bytes (shift_rows (map sub_byte s)) rk"
| "aes_rounds (rk # rks) s = aes_rounds rks (xor_bytes (mix_columns (shift_rows (map sub_byte s))) rk)"

definition aes_encrypt :: "bytes \<Rightarrow> bytes \<Rightarrow> bytes" where
  "aes_encrypt k blk = (case round_keys k of [] \<Rightarrow> blk | rk # rks \<Rightarrow> aes_rounds rks (xor_bytes blk rk))"

section \<open>Galois/Counter mode\<close>

type_synonym gf128 = "128 word"

fun gf_mult_loop :: "nat \<Rightarrow> gf128 \<Rightarrow> gf128 \<Rightarrow> gf128 \<Rightarrow> gf128" where
  "gf_mult_loop 0 x v z = z"
| "gf_mult_loop (Suc i) x v z =
     gf_mult_loop i x
       (if bit v 0 then drop_bit 1 v XOR push_bit 120 0xe1 else drop_bit 1 v)
       (if bit x i then z XOR v else z)"

definition gf_mult :: "gf128 \<Rightarrow> gf128 \<Rightarrow> gf128" where
  "gf_mult x y = gf_mult_loop 128 x y 0"

definition pad16 :: "bytes \<Rightarrow> bytes" where
  "pad16 bs = bs @ replicate ((16 - length bs mod 16) mod 16) 0"

function ghash :: "gf128 \<Rightarrow> gf128 \<Rightarrow> bytes \<Rightarrow> gf128" where
  "ghash h y bs = (if bs = [] then y else ghash h (gf_mult (y XOR be_decode (take 16 bs)) h) (drop 16 bs))"
  by pat_completeness auto
termination
  by (relation "measure (\<lambda>(h, y, bs). length bs)") auto

declare ghash.simps [simp del]

text \<open>The key stream from counter value \<open>i\<close> on, cut to the length of the text it covers.\<close>

function ctr_xor :: "(bytes \<Rightarrow> bytes) \<Rightarrow> bytes \<Rightarrow> u32 \<Rightarrow> bytes \<Rightarrow> bytes" where
  "ctr_xor e nonce i bs =
     (if bs = [] then []
      else xor_bytes (take 16 bs) (e (nonce @ be_encode 4 i)) @ ctr_xor e nonce (i + 1) (drop 16 bs))"
  by pat_completeness auto
termination
  by (relation "measure (\<lambda>(e, nonce, i, bs). length bs)") auto

declare ctr_xor.simps [simp del]

definition gcm_tag :: "(bytes \<Rightarrow> bytes) \<Rightarrow> bytes \<Rightarrow> bytes \<Rightarrow> bytes \<Rightarrow> bytes" where
  "gcm_tag e nonce ct aad =
     (let h = be_decode (e (replicate 16 0));
          lens = be_encode 8 (of_nat (8 * length aad) :: u64) @ be_encode 8 (of_nat (8 * length ct) :: u64)
      in be_encode 16 (ghash h 0 (pad16 aad @ pad16 ct @ lens) XOR be_decode (e (nonce @ be_encode 4 (1 :: u32)))))"

datatype aead_error =
    IncorrectNonceLength   \<comment> \<open>panic of \<^verbatim>\<open>Seal\<close> and \<^verbatim>\<open>Open\<close>\<close>
  | MessageTooLarge        \<comment> \<open>panic of \<^verbatim>\<open>Seal\<close>\<close>
  | AuthFailed             \<comment> \<open>\<^verbatim>\<open>cipher: message authentication failed\<close>\<close>

record aead =
  NonceSize :: nat
  Seal :: "bytes \<Rightarrow> bytes \<Rightarrow> bytes \<Rightarrow> aead_error + bytes"
  Open :: "bytes \<Rightarrow> bytes \<Rightarrow> bytes \<Rightarrow> aead_error + bytes"

definition GCMTagSize :: nat where "GCMTagSize = 16"
definition gcm_max :: nat where "gcm_max = (2 ^ 32 - 2) * 16"

definition gcm_seal :: "(bytes \<Rightarrow> bytes) \<Rightarrow> bytes \<Rightarrow> bytes \<Rightarrow> bytes \<Rightarrow> aead_error + bytes" where
  "gcm_seal e nonce pt aad =
     (if length nonce \<noteq> 12 then Inl IncorrectNonceLength
      else if gcm_max < length pt then Inl MessageTooLarge
      else let ct = ctr_xor e nonce 2 pt in Inr (ct @ gcm_tag e nonce ct aad))"

definition gcm_open :: "(bytes \<Rightarrow> bytes) \<Rightarrow> bytes \<Rightarrow> bytes \<Rightarrow> bytes \<Rightarrow> aead_error + bytes" where
  "gcm_open e nonce ciphertext aad =
     (if length nonce \<noteq> 12 then Inl IncorrectNonceLength
      else if length ciphertext < 16 \<or> gcm_max + 16 < length ciphertext then Inl AuthFailed
      else let n = length ciphertext - 16; ct = take n ciphertext; tag = drop n ciphertext
           in if tag = gcm_tag e nonce ct aad then Inr (ctr_xor e nonce 2 ct) else Inl AuthFailed)"

definition aes_gcm :: "bytes \<Rightarrow> aead" where
  "aes_gcm key = \<lparr>NonceSize = 12, Seal = gcm_seal (aes_encrypt key), Open = gcm_open (aes_encrypt key)\<rparr>"

section \<open>SHA-256, HMAC and HKDF\<close>

text \<open>
  The constants of SHA-256 are the first 32 bits of the fractional parts of roots of primes:
  cube roots of the first 64 primes for the rounds, square roots of the first 8 for the
  initial state. \<open>root_floor\<close> finds the integer root bit by bit, from bit \<open>k - 1\<close> down.
\<close>

fun root_floor :: "nat \<Rightarrow> int \<Rightarrow> nat \<Rightarrow> int \<Rightarrow> int" where
  "root_floor e n 0 r = r"
| "root_floor e n (Suc k) r = root_floor e n k (if (r + 2 ^ k) ^ e \<le> n then r + 2 ^ k else r)"

definition root_bits :: "nat \<Rightarrow> nat \<Rightarrow> u32" where
  "root_bits e p = word_of_int (root_floor e (int p * 2 ^ (32 * e)) 37 0)"

definition sha256_k :: "u32 list" where
  "sha256_k = map (root_bits 3) (filter (\<lambda>p. list_all (\<lambda>d. p mod d \<noteq> 0) [2..<p]) [2..<312])"

definition sha256_init :: "u32 list" where
  "sha256_init = map (root_bits 2) [2, 3, 5, 7, 11, 13, 17, 19]"

definition rotr :: "nat \<Rightarrow> u32 \<Rightarrow> u32" where
  "rotr n x = drop_bit n x OR push_bit (32 - n) x"

fun sha256_schedule :: "nat \<Rightarrow> u32 list \<Rightarrow> u32 list" where
  "sha256_schedule 0 w = w"
| "sha256_schedule (Suc n) w =
     (let m = length w; w15 = w ! (m - 15); w2 = w ! (m - 2);
          s0 = rotr 7 w15 XOR rotr 18 w15 XOR drop_bit 3 w15;
          s1 = rotr 17 w2 XOR rotr 19 w2 XOR drop_bit 10 w2
      in sha256_schedule n (w @ [w ! (m - 16) + s0 + w ! (m - 7) + s1]))"

fun sha256_round :: "u32 list \<Rightarrow> u32 \<times> u32 \<Rightarrow> u32 list" where
  "sha256_round [a, b, c, d, e, f, g, h] (k, w) =
     (let t1 = h + (rotr 6 e XOR rotr 11 e XOR rotr 25 e) + ((e AND f) XOR (NOT e AND g)) + k + w;
          t2 = (rotr 2 a XOR rotr 13 a XOR rotr 22 a) + ((a AND b) XOR (a AND c) XOR (b AND c))
      in [t1 + t2, a, b, c, d + t1, e, f, g])"
| "sha256_round s _ = s"

definition sha256_block :: "u32 list \<Rightarrow> bytes \<Rightarrow> u32 list" where
  "sha256_block hs blk =
     (let w = sha256_schedule 48 (map (\<lambda>i. be_decode (take 4 (drop (4 * i) blk))) [0..<16])
      in map (\<lambda>(x, y). x + y) (zip hs (foldl sha256_round hs (zip sha256_k w))))"

definition sha256_pad :: "bytes \<Rightarrow> bytes" where
  "sha256_pad m =
     m @ [128] @ replicate ((119 - length m mod 64) mod 64) 0 @ be_encode 8 (of_nat (8 * length m) :: u64)"

function sha256_blocks :: "u32 list \<Rightarrow> bytes \<Rightarrow> u32 list" where
  "sha256_blocks hs m = (if m = [] then hs else sha256_blocks (sha256_block hs (take 64 m)) (drop 64 m))"
  by pat_completeness auto
termination
  by (relation "measure (\<lambda>(hs, m). length m)") auto

declare sha256_blocks.simps [simp del]

definition sha256 :: "bytes \<Rightarrow> bytes" where
  "sha256 m = concat (map (be_encode 4) (sha256_blocks sha256_init (sha256_pad m)))"

definition hmac_sha256 :: "bytes \<Rightarrow> bytes \<Rightarrow> bytes" where
  "hmac_sha256 key m =
     (let k0 = (if 64 < length key then sha256 key else key);
          k = k0 @ replicate (64 - length k0) 0
      in sha256 (map (\<lambda>b. b XOR 0x5c) k @ sha256 (map (\<lambda>b. b XOR 0x36) k @ m)))"

text \<open>HKDF (RFC 5869) without info, as \<^verbatim>\<open>golang.org/x/crypto/hkdf\<close> documents it.\<close>

fun hkdf_expand :: "bytes \<Rightarrow> bytes \<Rightarrow> nat \<Rightarrow> nat \<Rightarrow> bytes" where
  "hkdf_expand prk t i 0 = []"
| "hkdf_expand prk t i (Suc n) =
     (let t' = hmac_sha256 prk (t @ [of_nat i]) in t' @ hkdf_expand prk t' (Suc i) n)"

definition hkdf_sha256 :: "bytes \<Rightarrow> bytes \<Rightarrow> nat \<Rightarrow> bytes option" where
  "hkdf_sha256 secret salt n =
     (if 255 * 32 < n then None
      else Some (take n (hkdf_expand (hmac_sha256 salt secret) [] 1 ((n + 31) div 32))))"

section \<open>Lemmas\<close>

lemma length_xor_bytes [simp]: "length (xor_bytes a b) = min (length a) (length b)"
  by (simp add: xor_bytes_def)

lemma xor_bytes_invol: "length a \<le> length b \<Longrightarrow> xor_bytes (xor_bytes a b) b = a"
  by (rule nth_equalityI) (auto simp add: xor_bytes_def xor.assoc)

lemma length_be_encode [simp]: "length (be_encode n w) = n"
  by (simp add: be_encode_def)

lemma length_gcm_tag [simp]: "length (gcm_tag e nonce ct aad) = 16"
  by (simp add: gcm_tag_def Let_def)

subsection \<open>AES blocks\<close>

lemma length_shift_rows [simp]: "length (shift_rows s) = 16"
  by (simp add: shift_rows_def)

lemma length_mix_columns: "4 dvd length s \<Longrightarrow> length (mix_columns s) = length s"
proof (induction s rule: mix_columns.induct)
  case (1 a b c d s)
  have "length (a # b # c # d # s) = length s + 4" by simp
  with "1.prems" have "4 dvd length s" by (metis dvd_add_left_iff dvd_refl)
  with "1.IH" show ?case by simp
qed (auto, presburger+)

lemma length_key_words: "length (key_words k) = length k div 4"
  by (induction k rule: key_words.induct) auto

lemma key_words_length4: "w \<in> set (key_words k) \<Longrightarrow> length w = 4"
  by (induction k rule: key_words.induct) auto

lemma length_expand_word: "length t = 4 \<Longrightarrow> length (expand_word nk i rcon t) = 4"
  by (simp add: expand_word_def)

lemma expand_key_words:
  "\<lbrakk>0 < nk; nk \<le> i; length w = i; \<forall>x \<in> set w. length x = 4\<rbrakk> \<Longrightarrow>
   length (expand_key nk n i rcon w) = i + n \<and> (\<forall>x \<in> set (expand_key nk n i rcon w). length x = 4)"
proof (induction nk n i rcon w rule: expand_key.induct)
  case (2 nk n i rcon w)
  let ?x = "xor_bytes (w ! (i - nk)) (expand_word nk i rcon (w ! (i - 1)))"
  have "length (w ! (i - nk)) = 4" "length (w ! (i - 1)) = 4"
    using "2.prems" by auto
  then have "length ?x = 4"
    by (simp add: length_expand_word)
  then have "\<forall>x \<in> set (w @ [?x]). length x = 4"
    using "2.prems" by (simp del: length_xor_bytes)
  moreover have "nk \<le> Suc i" "length (w @ [?x]) = Suc i"
    using "2.prems" by simp_all
  ultimately show ?case
    using "2.IH" [OF "2.prems"(1)] by simp
qed simp

lemma length_concat_4:
  "\<forall>x \<in> set w. length x = 4 \<Longrightarrow> length (concat w) = 4 * length w"
  by (induction w) auto

lemma round_keys_16:
  assumes "length k \<in> {16, 24, 32}" and rk: "rk \<in> set (round_keys k)"
  shows "length rk = 16"
proof -
  define nk where "nk = length k div 4"
  define w where "w = expand_key nk (4 * (nk + 7) - nk) nk 1 (key_words k)"
  have nk: "0 < nk" "nk \<le> 4 * (nk + 7)" using assms(1) by (auto simp add: nk_def)
  have len: "length w = nk + (4 * (nk + 7) - nk) \<and> (\<forall>x \<in> set w. length x = 4)"
    unfolding w_def using nk(1)
    by (intro expand_key_words) (simp_all add: nk_def length_key_words key_words_length4)
  from rk obtain r where r: "r < nk + 7" "rk = concat (take 4 (drop (4 * r) w))"
    unfolding round_keys_def Let_def nk_def [symmetric] w_def [symmetric] by auto
  have "length (take 4 (drop (4 * r) w)) = 4"
    using r(1) nk(2) len by simp
  moreover have "\<forall>x \<in> set (take 4 (drop (4 * r) w)). length x = 4"
    using len by (meson in_set_dropD in_set_takeD)
  ultimately show ?thesis
    using r(2) by (simp add: length_concat_4)
qed

lemma length_aes_rounds:
  "length s = 16 \<Longrightarrow> \<forall>rk \<in> set rks. length rk = 16 \<Longrightarrow> length (aes_rounds rks s) = 16"
  by (induction rks s rule: aes_rounds.induct) (auto simp add: length_mix_columns)

lemma length_aes_encrypt:
  assumes "length k \<in> {16, 24, 32}" and "length blk = 16"
  shows "length (aes_encrypt k blk) = 16"
proof (cases "round_keys k")
  case Nil
  then show ?thesis using assms(2) by (simp add: aes_encrypt_def)
next
  case (Cons rk rks)
  then have "\<forall>x \<in> set (rk # rks). length x = 16"
    using round_keys_16 [OF assms(1)] by metis
  then show ?thesis
    using assms(2) Cons by (simp add: aes_encrypt_def length_aes_rounds)
qed

subsection \<open>Counter mode\<close>

lemma length_ctr_xor:
  assumes e: "\<And>blk. length blk = 16 \<Longrightarrow> length (e blk) = 16" and nonce: "length nonce = 12"
  shows "length (ctr_xor e nonce i bs) = length bs"
proof (induction "length bs" arbitrary: i bs rule: less_induct)
  case less
  show ?case
  proof (cases "bs = []")
    case False
    then have "length (drop 16 bs) < length bs" by (cases bs) auto
    from less [OF this, of "i + 1"] show ?thesis
      using False nonce by (simp add: ctr_xor.simps [of e nonce i bs] e)
  qed (simp add: ctr_xor.simps)
qed

lemma ctr_xor_invol:
  assumes e: "\<And>blk. length blk = 16 \<Longrightarrow> length (e blk) = 16" and nonce: "length nonce = 12"
  shows "ctr_xor e nonce i (ctr_xor e nonce i bs) = bs"
proof (induction "length bs" arbitrary: i bs rule: less_induct)
  case less
  show ?case
  proof (cases "bs = []")
    case False
    then have "length (drop 16 bs) < length bs" by (cases bs) auto
    note IH = less [OF this, of "i + 1"]
    let ?ks = "e (nonce @ be_encode 4 i)"
    let ?x = "xor_bytes (take 16 bs) ?ks" and ?y = "ctr_xor e nonce (i + 1) (drop 16 bs)"
    have ks: "length ?ks = 16" using nonce by (simp add: e)
    have y: "length ?y = length bs - 16" by (simp add: length_ctr_xor [OF e nonce])
    have split: "take 16 (?x @ ?y) = ?x" "drop 16 (?x @ ?y) = ?y"
      using ks y by (auto simp add: min_def)
    have "length ?x \<noteq> 0" using False ks by (cases bs) simp_all
    then have "?x @ ?y \<noteq> []" by force
    then have "ctr_xor e nonce i (?x @ ?y) = xor_bytes ?x ?ks @ ctr_xor e nonce (i + 1) ?y"
      by (subst ctr_xor.simps) (simp only: split if_False)
    also have "\<dots> = bs" using IH ks by (simp add: xor_bytes_invol)
    finally show ?thesis using False by (simp add: ctr_xor.simps [of e nonce i bs])
  qed (simp add: ctr_xor.simps)
qed

subsection \<open>Sealing and opening\<close>

lemma gcm_seal_length:
  assumes "\<And>blk. length blk = 16 \<Longrightarrow> length (e blk) = 16" and "gcm_seal e n p a = Inr ct"
  shows "length ct = length p + 16"
  using assms by (auto simp add: gcm_seal_def Let_def length_ctr_xor split: if_splits)

lemma gcm_open_seal:
  assumes "\<And>blk. length blk = 16 \<Longrightarrow> length (e blk) = 16" and "gcm_seal e n p a = Inr ct"
  shows "gcm_open e n ct a = Inr p"
  using assms by (auto simp add: gcm_seal_def gcm_open_def Let_def length_ctr_xor ctr_xor_invol split: if_splits)

lemma gcm_seal_open:
  assumes e: "\<And>blk. length blk = 16 \<Longrightarrow> length (e blk) = 16" and op: "gcm_open e n ct a = Inr p"
  shows "gcm_seal e n p a = Inr ct"
proof -
  let ?m = "length ct - 16"
  from op have n: "length n = 12" and len: "16 \<le> length ct" "length ct \<le> gcm_max + 16"
    and tag: "drop ?m ct = gcm_tag e n (take ?m ct) a" and p: "p = ctr_xor e n 2 (take ?m ct)"
    by (auto simp add: gcm_open_def Let_def split: if_splits)
  have "length p = ?m" by (simp add: p length_ctr_xor [OF e n])
  moreover have "ctr_xor e n 2 p = take ?m ct" by (simp add: p ctr_xor_invol [OF e n])
  moreover have "take ?m ct @ gcm_tag e n (take ?m ct) a = ct" by (simp flip: tag)
  ultimately show ?thesis using n len by (simp add: gcm_seal_def)
qed

section \<open>The interface of the encrypted file formats\<close>

text \<open>
  What the file formats rely on when they ask \<open>get_cipher\<close> (\<^verbatim>\<open>edg.GetCipher\<close>) for the
  cipher of a key. The last law says that GCM ciphertexts are unique: a text that opens is
  the one that sealing its plaintext produces.
\<close>

locale cipher_provider =
  fixes get_cipher :: "bytes \<Rightarrow> 'e + aead"
  assumes nonce_size: "get_cipher k = Inr c \<Longrightarrow> NonceSize c = 12"
    and seal_total: "get_cipher k = Inr c \<Longrightarrow> length n = 12 \<Longrightarrow> length p \<le> gcm_max \<Longrightarrow>
          \<exists>ct. Seal c n p a = Inr ct"
    and seal_length: "get_cipher k = Inr c \<Longrightarrow> Seal c n p a = Inr ct \<Longrightarrow> length ct = length p + GCMTagSize"
    and open_seal: "get_cipher k = Inr c \<Longrightarrow> Seal c n p a = Inr ct \<Longrightarrow> Open c n ct a = Inr p"
    and seal_open: "get_cipher k = Inr c \<Longrightarrow> Open c n ct a = Inr p \<Longrightarrow> Seal c n p a = Inr ct"
begin

lemma open_length:
  assumes "get_cipher k = Inr c" and "Open c n ct a = Inr p"
  shows "length ct = length p + GCMTagSize"
  using seal_length [OF assms(1) seal_open [OF assms]] .

lemma seal_inj:
  assumes "get_cipher k = Inr c" and "Seal c n p a = Inr ct" and "Seal c n p' a = Inr ct"
  shows "p = p'"
  using open_seal [OF assms(1,2)] open_seal [OF assms(1,3)] by simp

lemma open_inj:
  assumes "get_cipher k = Inr c" and "Open c n ct a = Inr p" and "Open c n ct' a = Inr p"
  shows "ct = ct'"
  using seal_open [OF assms(1,2)] seal_open [OF assms(1,3)] by simp

end

lemma cipher_provider_aes:
  assumes "\<And>k c. g k = Inr c \<Longrightarrow> \<exists>k'. c = aes_gcm k' \<and> length k' \<in> {16, 24, 32}"
  shows "cipher_provider g"
proof unfold_locales
  fix k c n p a ct
  assume "g k = Inr c"
  then obtain k' where c: "c = aes_gcm k'" and k': "length k' \<in> {16, 24, 32}"
    using assms by blast
  note e = length_aes_encrypt [OF k']
  show "NonceSize c = 12" by (simp add: c aes_gcm_def)
  show "length n = 12 \<Longrightarrow> length p \<le> gcm_max \<Longrightarrow> \<exists>ct. Seal c n p a = Inr ct"
    by (simp add: c aes_gcm_def gcm_seal_def Let_def)
  show "Seal c n p a = Inr ct \<Longrightarrow> length ct = length p + GCMTagSize"
    by (simp add: c aes_gcm_def GCMTagSize_def gcm_seal_length [OF e])
  show "Seal c n p a = Inr ct \<Longrightarrow> Open c n ct a = Inr p"
    by (simp add: c aes_gcm_def gcm_open_seal [OF e])
  show "Open c n ct a = Inr p \<Longrightarrow> Seal c n p a = Inr ct"
    by (simp add: c aes_gcm_def gcm_seal_open [OF e])
qed

subsection \<open>Digest lengths\<close>

lemma length_sha256_round [simp]: "length (sha256_round s x) = length s"
  by (induction s x rule: sha256_round.induct) (auto simp add: Let_def)

lemma length_sha256_rounds [simp]: "length (foldl sha256_round s xs) = length s"
  by (induction xs arbitrary: s) auto

lemma length_sha256_block: "length hs = 8 \<Longrightarrow> length (sha256_block hs blk) = 8"
  by (simp add: sha256_block_def Let_def)

lemma length_sha256_blocks: "length hs = 8 \<Longrightarrow> length (sha256_blocks hs m) = 8"
proof (induction hs m rule: sha256_blocks.induct)
  case (1 hs m)
  then show ?case
    by (subst sha256_blocks.simps) (simp add: length_sha256_block)
qed

lemma length_sha256 [simp]: "length (sha256 m) = 32"
proof -
  have "length (sha256_blocks sha256_init (sha256_pad m)) = 8"
    by (rule length_sha256_blocks) (simp add: sha256_init_def)
  then show ?thesis
    by (simp add: sha256_def length_concat comp_def sum_list_triv)
qed

lemma length_hmac_sha256 [simp]: "length (hmac_sha256 k m) = 32"
  by (simp add: hmac_sha256_def Let_def)

lemma length_hkdf_expand: "length (hkdf_expand prk t i n) = 32 * n"
  by (induction n arbitrary: t i) (simp_all add: Let_def)

lemma length_hkdf_sha256: "hkdf_sha256 secret salt n = Some key \<Longrightarrow> length key = n"
  by (auto simp add: hkdf_sha256_def length_hkdf_expand split: if_splits)

lemma hkdf_sha256_total: "n \<le> 255 * 32 \<Longrightarrow> \<exists>key. hkdf_sha256 secret salt n = Some key"
  by (simp add: hkdf_sha256_def)

end
