(* ===== verification/Vfs.thy ===== *)
theory Vfs
  imports Prelude
begin

text \<open>
  The file layer under \<^verbatim>\<open>src/vfs\<close>: the memory-backed file of \<^verbatim>\<open>mem_fs.go\<close> (one
  position shared by reads and writes, writes only through \<^verbatim>\<open>WriteApproved\<close>, a synced copy of
  the data in strict mode), the error-injecting wrapper of \<^verbatim>\<open>errorfs\<close>, the out-of-space
  wrapper of \<^verbatim>\<open>vfs/edg.go\<close>, and \<^verbatim>\<open>io.ReadFull\<close> on such a file.
\<close>

section \<open>Files\<close>

datatype vfs_error =
    NotOpenedForReading
  | CannotReadDirectory
  | NotCreatedForWriting
  | CannotWriteDirectory
  | Eof                  \<comment> \<open>\<^verbatim>\<open>io.EOF\<close>\<close>
  | UnexpectedEof        \<comment> \<open>\<^verbatim>\<open>io.ErrUnexpectedEOF\<close>\<close>
  | InjectedError        \<comment> \<open>an error of the injector, standing for any I/O failure\<close>
  | Enospc               \<comment> \<open>no space left on device\<close>
  | UnapprovedWrite      \<comment> \<open>panic: \<^verbatim>\<open>unapproved write\<close>\<close>
  | SliceBounds          \<comment> \<open>panic: position beyond the data\<close>
  | NilDereference       \<comment> \<open>panic: use of a closed file\<close>
  | CloseOfUnopenedFile  \<comment> \<open>panic of \<^verbatim>\<open>Close\<close>\<close>

text \<open>A node holds a file's data or a directory's children (by the index of the child node).\<close>

record memNode =
  node_name :: string
  isDir :: bool
  refs :: int
  mdata :: bytes
  syncedData :: bytes
  children :: "string \<rightharpoonup> nat"
  syncedChildren :: "string \<rightharpoonup> nat"

text \<open>
  An open file: its node (\<open>None\<close> once closed), the \<^verbatim>\<open>strict\<close> and \<^verbatim>\<open>ignoreSyncs\<close> flags of
  the file system (\<open>None\<close> for a standalone file), the position, and the open mode.
\<close>

record memFile =
  mf_node :: "memNode option"
  mf_fs :: "(bool \<times> bool) option"
  wpos :: nat
  mf_read :: bool
  mf_write :: bool

definition NewMemFile :: "bytes \<Rightarrow> memFile" where
  "NewMemFile d =
     \<lparr>mf_node = Some \<lparr>node_name = [], isDir = False, refs = 1, mdata = d, syncedData = [],
                children = Map.empty, syncedChildren = Map.empty\<rparr>,
      mf_fs = None, wpos = 0, mf_read = True, mf_write = False\<rparr>"

text \<open>\<^verbatim>\<open>Close\<close> drops the file's reference to its node; the result is that node with its new count.\<close>

definition memFile_Close :: "memFile \<Rightarrow> memFile \<times> (vfs_error + memNode)" where
  "memFile_Close f =
     (case mf_node f of
        None \<Rightarrow> (f, Inl NilDereference)
      | Some nd \<Rightarrow>
          let nd' = nd\<lparr>refs := refs nd - 1\<rparr>
          in if refs nd' < 0 then (f\<lparr>mf_node := Some nd'\<rparr>, Inl CloseOfUnopenedFile)
             else (f\<lparr>mf_node := None\<rparr>, Inr nd'))"

text \<open>\<open>k\<close> is the length of the buffer; the result is the bytes copied into it.\<close>

definition memFile_Read :: "memFile \<Rightarrow> nat \<Rightarrow> memFile \<times> (vfs_error + bytes)" where
  "memFile_Read f k =
     (if \<not> mf_read f then (f, Inl NotOpenedForReading)
      else case mf_node f of
        None \<Rightarrow> (f, Inl NilDereference)
      | Some nd \<Rightarrow>
          if isDir nd then (f, Inl CannotReadDirectory)
          else if wpos f \<ge> length (mdata nd) then (f, Inl Eof)
          else let p = take k (drop (wpos f) (mdata nd))
               in (f\<lparr>wpos := wpos f + length p\<rparr>, Inr p))"

text \<open>\<^verbatim>\<open>ReadAt\<close> returns what it copied also with its error (a short read at the end).\<close>

definition memFile_ReadAt :: "memFile \<Rightarrow> nat \<Rightarrow> nat \<Rightarrow> bytes \<times> vfs_error option" where
  "memFile_ReadAt f k off =
     (if \<not> mf_read f then ([], Some NotOpenedForReading)
      else case mf_node f of
        None \<Rightarrow> ([], Some NilDereference)
      | Some nd \<Rightarrow>
          if isDir nd then ([], Some CannotReadDirectory)
          else if off \<ge> length (mdata nd) then ([], Some Eof)
          else let p = take k (drop off (mdata nd))
               in (p, if length p < k then Some Eof else None))"

definition memFile_Write :: "memFile \<Rightarrow> bytes \<Rightarrow> memFile \<times> (vfs_error + nat)" where
  "memFile_Write f p = (f, Inl UnapprovedWrite)"

definition memFile_WriteApproved :: "memFile \<Rightarrow> bytes \<Rightarrow> memFile \<times> (vfs_error + nat)" where
  "memFile_WriteApproved f p =
     (if \<not> mf_write f then (f, Inl NotCreatedForWriting)
      else case mf_node f of
        None \<Rightarrow> (f, Inl NilDereference)
      | Some nd \<Rightarrow>
          if isDir nd then (f, Inl CannotWriteDirectory)
          else if length (mdata nd) < wpos f then (f, Inl SliceBounds)
          else let d = mdata nd; k = length p;
                   d' = (if wpos f + k \<le> length d
                         then take (wpos f) d @ p @ drop (wpos f + k) d
                         else take (wpos f) d @ p)
               in (f\<lparr>mf_node := Some (nd\<lparr>mdata := d'\<rparr>), wpos := wpos f + k\<rparr>, Inr k))"

definition memFile_Sync :: "memFile \<Rightarrow> memFile \<times> (vfs_error + unit)" where
  "memFile_Sync f =
     (case mf_fs f of
        Some (strict, ignoreSyncs) \<Rightarrow>
          if strict \<and> \<not> ignoreSyncs
          then (case mf_node f of
                  None \<Rightarrow> (f, Inl NilDereference)
                | Some nd \<Rightarrow>
                    if isDir nd then (f\<lparr>mf_node := Some (nd\<lparr>syncedChildren := children nd\<rparr>)\<rparr>, Inr ())
                    else (f\<lparr>mf_node := Some (nd\<lparr>syncedData := mdata nd\<rparr>)\<rparr>, Inr ()))
          else (f, Inr ())
      | None \<Rightarrow> (f, Inr ()))"

text \<open>What a crash leaves of a file of a strict file system: the branch for files of \<^verbatim>\<open>resetToSyncedState\<close>.\<close>

definition file_resetToSyncedState :: "memNode \<Rightarrow> memNode" where
  "file_resetToSyncedState nd = nd\<lparr>mdata := syncedData nd\<rparr>"

section \<open>Injected errors\<close>

text \<open>
  The injector of an \<^verbatim>\<open>errorFile\<close> decides at each operation whether it fails: a schedule of
  booleans, one consumed per operation, with no more failures once it is used up.
\<close>

record errorFile =
  efile :: memFile
  injector :: "bool list"

definition MaybeError :: "errorFile \<Rightarrow> errorFile \<times> bool" where
  "MaybeError f = (case injector f of [] \<Rightarrow> (f, False) | b # bs \<Rightarrow> (f\<lparr>injector := bs\<rparr>, b))"

definition errorFile_Read :: "errorFile \<Rightarrow> nat \<Rightarrow> errorFile \<times> (vfs_error + bytes)" where
  "errorFile_Read f k =
     (case MaybeError f of
        (f', True) \<Rightarrow> (f', Inl InjectedError)
      | (f', False) \<Rightarrow> (case memFile_Read (efile f') k of (mf, r) \<Rightarrow> (f'\<lparr>efile := mf\<rparr>, r)))"

definition errorFile_WriteApproved :: "errorFile \<Rightarrow> bytes \<Rightarrow> errorFile \<times> (vfs_error + nat)" where
  "errorFile_WriteApproved f p =
     (case MaybeError f of
        (f', True) \<Rightarrow> (f', Inl InjectedError)
      | (f', False) \<Rightarrow> (case memFile_WriteApproved (efile f') p of (mf, r) \<Rightarrow> (f'\<lparr>efile := mf\<rparr>, r)))"

definition errorFile_Sync :: "errorFile \<Rightarrow> errorFile \<times> (vfs_error + unit)" where
  "errorFile_Sync f =
     (case MaybeError f of
        (f', True) \<Rightarrow> (f', Inl InjectedError)
      | (f', False) \<Rightarrow> (case memFile_Sync (efile f') of (mf, r) \<Rightarrow> (f'\<lparr>efile := mf\<rparr>, r)))"

definition errorFile_Close :: "errorFile \<Rightarrow> errorFile \<times> (vfs_error + memNode)" where
  "errorFile_Close f = (case memFile_Close (efile f) of (mf, r) \<Rightarrow> (f\<lparr>efile := mf\<rparr>, r))"

text \<open>
  \<^verbatim>\<open>io.ReadFull\<close>: reads until the buffer of \<open>k\<close> bytes is full; \<^verbatim>\<open>io.EOF\<close> only when
  nothing was read. A read that returns no bytes and no error would be repeated; the files
  above never do that (\<open>errorFile_Read_progress\<close>), so the loop may stop there.
\<close>

function ReadFull_loop :: "errorFile \<Rightarrow> nat \<Rightarrow> bytes \<Rightarrow> errorFile \<times> bytes \<times> vfs_error option" where
  "ReadFull_loop f k acc =
     (if k = 0 then (f, acc, None)
      else case errorFile_Read f k of
        (f', Inl e) \<Rightarrow> (f', acc, Some (if e = Eof \<and> acc \<noteq> [] then UnexpectedEof else e))
      | (f', Inr p) \<Rightarrow>
          if p = [] then (f', acc, Some UnexpectedEof) else ReadFull_loop f' (k - length p) (acc @ p))"
  by pat_completeness auto
termination
  by (relation "measure (\<lambda>(f, k, acc). k)") auto

declare ReadFull_loop.simps [simp del]

text \<open>The bytes read, also when they are too few, and the error; and the same without those bytes.\<close>

definition ReadFull_n :: "errorFile \<Rightarrow> nat \<Rightarrow> errorFile \<times> bytes \<times> vfs_error option" where
  "ReadFull_n f k = ReadFull_loop f k []"

definition ReadFull :: "errorFile \<Rightarrow> nat \<Rightarrow> errorFile \<times> (vfs_error + bytes)" where
  "ReadFull f k = (case ReadFull_n f k of (f', p, None) \<Rightarrow> (f', Inr p) | (f', p, Some e) \<Rightarrow> (f', Inl e))"

section \<open>The out-of-space wrapper\<close>

text \<open>
  A Go write returns the number of bytes written together with an error, or panics.
  \<^verbatim>\<open>enospcFile.WriteApproved\<close> first calls the \<^verbatim>\<open>Write\<close> of the wrapped file \<open>inner\<close> and,
  when that reports no space, writes the rest with \<^verbatim>\<open>WriteApproved\<close>. The wait for, and the
  run of, the disk-full callback between the two calls change no file and are left out.
\<close>

datatype write_result = WPanic vfs_error | WRet nat "vfs_error option"

definition enospcFile_WriteApproved ::
    "('f \<Rightarrow> bytes \<Rightarrow> 'f \<times> write_result) \<Rightarrow> ('f \<Rightarrow> bytes \<Rightarrow> 'f \<times> write_result)
       \<Rightarrow> 'f \<Rightarrow> bytes \<Rightarrow> 'f \<times> write_result" where
  "enospcFile_WriteApproved innerWrite innerWriteApproved f p =
     (case innerWrite f p of
        (f', WRet k (Some Enospc)) \<Rightarrow>
          (case innerWriteApproved f' (drop k p) of
             (f'', WRet k2 e) \<Rightarrow> (f'', WRet (k + k2) e)
           | (f'', WPanic e) \<Rightarrow> (f'', WPanic e))
      | (f', r) \<Rightarrow> (f', r))"

text \<open>The writes of a memory-backed file in that form.\<close>

definition is_panic :: "vfs_error \<Rightarrow> bool" where
  "is_panic e = (e \<in> {UnapprovedWrite, NilDereference, SliceBounds, CloseOfUnopenedFile})"

definition as_write_result :: "vfs_error + nat \<Rightarrow> write_result" where
  "as_write_result r =
     (case r of Inl e \<Rightarrow> if is_panic e then WPanic e else WRet 0 (Some e) | Inr k \<Rightarrow> WRet k None)"

definition inner_Write :: "memFile \<Rightarrow> bytes \<Rightarrow> memFile \<times> write_result" where
  "inner_Write f p = map_prod id as_write_result (memFile_Write f p)"

definition inner_WriteApproved :: "memFile \<Rightarrow> bytes \<Rightarrow> memFile \<times> write_result" where
  "inner_WriteApproved f p = map_prod id as_write_result (memFile_WriteApproved f p)"

section \<open>Lemmas\<close>

abbreviation node_data :: "errorFile \<Rightarrow> bytes" where
  "node_data f \<equiv> mdata (the (mf_node (efile f)))"

text \<open>An open, readable and writable regular file whose position is at \<open>i\<close>.\<close>

definition file_at :: "errorFile \<Rightarrow> bytes \<Rightarrow> nat \<Rightarrow> bool" where
  "file_at f d i =
     (mf_read (efile f) \<and> mf_write (efile f) \<and> wpos (efile f) = i \<and>
      (case mf_node (efile f) of None \<Rightarrow> False | Some nd \<Rightarrow> \<not> isDir nd \<and> mdata nd = d))"

lemma memFile_Read_progress:
  "memFile_Read f k = (f', Inr p) \<Longrightarrow> 0 < k \<Longrightarrow> p \<noteq> []"
  by (auto simp add: memFile_Read_def Let_def split: if_splits option.splits)

lemma MaybeError_nil [simp]: "injector f = [] \<Longrightarrow> MaybeError f = (f, False)"
  by (simp add: MaybeError_def)

lemma errorFile_Read_at:
  assumes "file_at f d i" and "injector f = []" and "i < length d"
  shows "\<exists>f'. errorFile_Read f k = (f', Inr (take k (drop i d))) \<and>
           file_at f' d (i + length (take k (drop i d))) \<and> injector f' = [] \<and> mf_fs (efile f') = mf_fs (efile f)"
  using assms
  by (auto simp add: errorFile_Read_def memFile_Read_def file_at_def Let_def split: option.splits)

lemma errorFile_Read_end:
  assumes "file_at f d i" and "injector f = []" and "length d \<le> i"
  shows "errorFile_Read f k = (f, Inl Eof)"
  using assms
  by (auto simp add: errorFile_Read_def memFile_Read_def file_at_def split: option.splits)

lemma ReadFull_n_ok:
  assumes "file_at f d i" and "injector f = []" and "i + k \<le> length d" and "0 < k"
  shows "\<exists>f'. ReadFull_n f k = (f', take k (drop i d), None) \<and> file_at f' d (i + k) \<and>
           injector f' = [] \<and> mf_fs (efile f') = mf_fs (efile f)"
proof -
  from assms obtain f' where r: "errorFile_Read f k = (f', Inr (take k (drop i d)))"
    and f': "file_at f' d (i + length (take k (drop i d)))" "injector f' = []" "mf_fs (efile f') = mf_fs (efile f)"
    using errorFile_Read_at [of f d i k] by auto
  have "length (take k (drop i d)) = k" using assms(3) by simp
  moreover from this have "take k (drop i d) \<noteq> []" using assms(4) by auto
  ultimately show ?thesis
    using r f' assms(4)
    by (simp add: ReadFull_n_def ReadFull_loop.simps [of f k] ReadFull_loop.simps [of f' 0])
qed

lemma ReadFull_n_eof:
  assumes "file_at f d i" and "injector f = []" and "length d \<le> i" and "0 < k"
  shows "ReadFull_n f k = (f, [], Some Eof)"
  using errorFile_Read_end [OF assms(1-3), of k] assms(4)
  by (simp add: ReadFull_n_def ReadFull_loop.simps [of f k])

lemma ReadFull_n_short:
  assumes "file_at f d i" and "injector f = []" and "i < length d" and "length d < i + k"
  shows "\<exists>f'. ReadFull_n f k = (f', drop i d, Some UnexpectedEof) \<and> file_at f' d (length d) \<and> injector f' = []"
proof -
  let ?p = "take k (drop i d)"
  from assms obtain f' where r: "errorFile_Read f k = (f', Inr ?p)"
    and f': "file_at f' d (i + length ?p)" "injector f' = []"
    using errorFile_Read_at [of f d i k] by auto
  have p: "?p \<noteq> []" "length ?p = length d - i" "?p = drop i d" using assms(3,4) by auto
  have "errorFile_Read f' (k - length ?p) = (f', Inl Eof)"
    using errorFile_Read_end [OF f'] p(2) assms(3) by simp
  moreover have "k - length ?p \<noteq> 0" using p(2) assms(3,4) by simp
  ultimately have "ReadFull_loop f' (k - length ?p) ?p = (f', ?p, Some UnexpectedEof)"
    using p(1) by (simp add: ReadFull_loop.simps [of f'])
  moreover have "k \<noteq> 0" using assms(3,4) by simp
  ultimately have "ReadFull_n f k = (f', ?p, Some UnexpectedEof)"
    using r p(1) by (simp add: ReadFull_n_def ReadFull_loop.simps [of f k])
  then show ?thesis using f' p(2,3) assms(3) by (auto simp add: p(3))
qed

lemma ReadFull_ok:
  assumes "file_at f d i" and "injector f = []" and "i + k \<le> length d" and "0 < k"
  shows "\<exists>f'. ReadFull f k = (f', Inr (take k (drop i d))) \<and> file_at f' d (i + k) \<and>
           injector f' = [] \<and> mf_fs (efile f') = mf_fs (efile f)"
  using ReadFull_n_ok [OF assms] by (auto simp add: ReadFull_def)

lemma ReadFull_eof:
  assumes "file_at f d i" and "injector f = []" and "length d \<le> i" and "0 < k"
  shows "ReadFull f k = (f, Inl Eof)"
  using ReadFull_n_eof [OF assms] by (simp add: ReadFull_def)

lemma ReadFull_short:
  assumes "file_at f d i" and "injector f = []" and "i < length d" and "length d < i + k"
  shows "\<exists>f'. ReadFull f k = (f', Inl UnexpectedEof)"
  using ReadFull_n_short [OF assms] by (auto simp add: ReadFull_def)

text \<open>What is left to read: the measure of the loops that read a file to its end.\<close>

definition remaining :: "errorFile \<Rightarrow> nat" where
  "remaining f = (case mf_node (efile f) of None \<Rightarrow> 0 | Some nd \<Rightarrow> length (mdata nd) - wpos (efile f))"

lemma errorFile_Read_remaining:
  "errorFile_Read f k = (f', r) \<Longrightarrow> remaining f = remaining f' + (case r of Inl _ \<Rightarrow> 0 | Inr p \<Rightarrow> length p)"
  by (auto simp add: errorFile_Read_def MaybeError_def memFile_Read_def remaining_def Let_def
      split: list.splits bool.splits option.splits if_splits)

lemma errorFile_Read_progress: "errorFile_Read f k = (f', Inr p) \<Longrightarrow> 0 < k \<Longrightarrow> p \<noteq> []"
  by (auto simp add: errorFile_Read_def dest: memFile_Read_progress split: prod.splits bool.splits)

lemma errorFile_Read_UnexpectedEof: "errorFile_Read f k \<noteq> (f', Inl UnexpectedEof)"
  by (auto simp add: errorFile_Read_def memFile_Read_def Let_def split: prod.splits bool.splits option.splits if_splits)

lemma errorFile_Read_length: "errorFile_Read f k = (f', Inr p) \<Longrightarrow> length p \<le> k"
  by (auto simp add: errorFile_Read_def MaybeError_def memFile_Read_def Let_def
      split: list.splits bool.splits option.splits if_splits)

lemma ReadFull_loop_remaining:
  "ReadFull_loop f k acc = (f', p, e) \<Longrightarrow>
   remaining f + length acc = remaining f' + length p \<and> length acc \<le> length p \<and> length p \<le> length acc + k \<and>
   (e = None \<longrightarrow> length p = length acc + k) \<and> (e = Some UnexpectedEof \<longrightarrow> p \<noteq> [])"
proof (induction f k acc rule: ReadFull_loop.induct)
  case (1 f k acc)
  show ?case
  proof (cases "k = 0")
    case True
    with "1.prems" show ?thesis by (simp add: ReadFull_loop.simps)
  next
    case False
    obtain g r where gr: "errorFile_Read f k = (g, r)" by fastforce
    note rem = errorFile_Read_remaining [OF gr]
    show ?thesis
    proof (cases "\<exists>q. r = Inr q \<and> q \<noteq> []")
      case True
      then obtain q where q: "r = Inr q" "q \<noteq> []" by blast
      then have rec: "ReadFull_loop g (k - length q) (acc @ q) = (f', p, e)"
        using "1.prems" False gr by (simp add: ReadFull_loop.simps [of f k acc])
      have "length q \<le> k" using errorFile_Read_length gr q(1) by simp
      moreover have "0 < length q" using q(2) by simp
      ultimately show ?thesis
        using "1.IH" [OF False gr [symmetric] q(1) q(2) rec] rem q(1) by auto
    next
      case no: False
      then obtain x where x: "r = Inl x"
        using errorFile_Read_progress [of f k g] gr False by (cases r) auto
      then show ?thesis
        using "1.prems" False gr rem errorFile_Read_UnexpectedEof [of f k g]
        by (auto simp add: ReadFull_loop.simps [of f k acc] split: if_splits)
    qed
  qed
qed

lemma WriteApproved_end:
  assumes "file_at f d (length d)" and "injector f = []"
  shows "\<exists>f'. errorFile_WriteApproved f p = (f', Inr (length p)) \<and>
           file_at f' (d @ p) (length (d @ p)) \<and> injector f' = [] \<and> mf_fs (efile f') = mf_fs (efile f)"
  using assms
  by (auto simp add: errorFile_WriteApproved_def memFile_WriteApproved_def file_at_def Let_def
      split: option.splits)

lemma Sync_at:
  assumes "file_at f d i" and "injector f = []"
  shows "\<exists>f'. errorFile_Sync f = (f', Inr ()) \<and> file_at f' d i \<and> injector f' = [] \<and>
           mf_fs (efile f') = mf_fs (efile f) \<and>
           (mf_fs (efile f) = Some (True, False) \<longrightarrow> syncedData (the (mf_node (efile f'))) = d)"
  using assms
  by (auto simp add: errorFile_Sync_def memFile_Sync_def file_at_def split: option.splits prod.splits)

lemma WriteApproved_injected:
  "injector f = True # is \<Longrightarrow> errorFile_WriteApproved f p = (f\<lparr>injector := is\<rparr>, Inl InjectedError)"
  by (simp add: errorFile_WriteApproved_def MaybeError_def)

lemma ReadFull_n_remaining:
  assumes "ReadFull_n f k = (f', p, e)" and "e = None \<or> e = Some UnexpectedEof" and "0 < k"
  shows "remaining f' < remaining f" and "length p \<le> k"
  using ReadFull_loop_remaining [of f k "[]" f' p e] assms by (auto simp add: ReadFull_n_def)

end
