(* ===== verification/Edg.thy ===== *)
theory Edg
  imports Crypto Vfs
begin

text \<open>
  Package \<^verbatim>\<open>internal/edg\<close>: the cipher of a key, the encryption of OPTIONS files, and the key
  manager with its salt chain. HKDF is third-party code: the parameter \<open>kdf\<close>, given the
  secret, the salt and the number of bytes to read. The bytes of \<^verbatim>\<open>rand.Read\<close> are the
  parameter \<open>rnd\<close> of \<open>Create\<close>, \<open>None\<close> when it fails.
\<close>

section \<open>Ciphers\<close>

datatype edg_error =
    KeySizeError nat          \<comment> \<open>\<^verbatim>\<open>aes.NewCipher\<close>: the key is not 16, 24 or 32 bytes\<close>
  | InvalidKeySize            \<comment> \<open>invalid key size\<close>
  | InvalidSaltBlockSize      \<comment> \<open>invalid salt block size\<close>
  | InvalidMac                \<comment> \<open>invalid mac\<close>
  | FileNumNotFound           \<comment> \<open>fileNum not found\<close>
  | RandError
  | KdfError
  | FileError vfs_error
  | CipherError aead_error

definition GetCipher :: "bytes \<Rightarrow> bytes \<Rightarrow> edg_error + aead" where
  "GetCipher randomTestKey key =
     (let key' = (if length key = 0 \<and> length randomTestKey = 16 then randomTestKey else key)
      in if length key' \<in> {16, 24, 32} then Inr (aes_gcm key') else Inl (KeySizeError (length key')))"

section \<open>The salt chain\<close>

definition minKeySize :: nat where "minKeySize = 16"
definition fileNumSize :: nat where "fileNumSize = 8"
definition saltSize :: nat where "saltSize = 16"
definition macSize :: nat where "macSize = 32"
definition saltBlockSize :: nat where "saltBlockSize = fileNumSize + saltSize + macSize"

record saltBlock =
  fileNum :: u64
  salt :: bytes
  mac :: bytes

definition MarshalBinary :: "saltBlock \<Rightarrow> bytes" where
  "MarshalBinary b = le_encode 8 (fileNum b) @ salt b @ mac b"

definition UnmarshalBinary :: "bytes \<Rightarrow> edg_error + saltBlock" where
  "UnmarshalBinary d =
     (if length d \<noteq> saltBlockSize then Inl InvalidSaltBlockSize
      else Inr \<lparr>fileNum = le_decode (take 8 d),
                salt = take saltSize (drop fileNumSize d),
                mac = drop (fileNumSize + saltSize) d\<rparr>)"

text \<open>A nil master key is \<open>None\<close>; \<open>key_bytes\<close> reads it as the empty slice it then is.\<close>

record KeyManager =
  masterKey :: "bytes option"
  saltFile :: errorFile
  salts :: "u64 \<rightharpoonup> bytes"
  lastMAC :: bytes

definition key_bytes :: "bytes option \<Rightarrow> bytes" where
  "key_bytes k = (case k of None \<Rightarrow> [] | Some b \<Rightarrow> b)"

definition hmac :: "bytes option \<Rightarrow> u64 \<Rightarrow> bytes \<Rightarrow> bytes \<Rightarrow> bytes" where
  "hmac mk fn sal previousMAC = hmac_sha256 (key_bytes mk) (le_encode 8 fn @ sal @ previousMAC)"

definition derive :: "(bytes \<Rightarrow> bytes \<Rightarrow> nat \<Rightarrow> bytes option) \<Rightarrow> KeyManager \<Rightarrow> bytes \<Rightarrow> edg_error + bytes" where
  "derive kdf m sal =
     (case kdf (key_bytes (masterKey m)) sal (length (key_bytes (masterKey m))) of
        None \<Rightarrow> Inl KdfError | Some key \<Rightarrow> Inr key)"

text \<open>Every block that is read moves the position on, so the loop over the chain ends.\<close>

lemma ReadFull_remaining:
  "ReadFull f k = (f', Inr p) \<Longrightarrow> remaining f = remaining f' + k"
  by (auto simp add: ReadFull_def ReadFull_n_def dest!: ReadFull_loop_remaining split: prod.splits option.splits)

function loadChain :: "KeyManager \<Rightarrow> edg_error + KeyManager" where
  "loadChain m =
     (case ReadFull (saltFile m) saltBlockSize of
        (f, Inl Eof) \<Rightarrow> Inr (m\<lparr>saltFile := f\<rparr>)
      | (f, Inl e) \<Rightarrow> Inl (FileError e)
      | (f, Inr rawBlock) \<Rightarrow>
          (case UnmarshalBinary rawBlock of
             Inl e \<Rightarrow> Inl e
           | Inr block \<Rightarrow>
               let mc = hmac (masterKey m) (fileNum block) (salt block) (lastMAC m)
               in if mc \<noteq> mac block then Inl InvalidMac
                  else loadChain (m\<lparr>saltFile := f, lastMAC := mc,
                                    salts := (salts m)(fileNum block \<mapsto> salt block)\<rparr>)))"
  by pat_completeness auto
termination
  by (relation "measure (\<lambda>m. remaining (saltFile m))")
    (auto simp add: saltBlockSize_def fileNumSize_def saltSize_def macSize_def
      dest!: ReadFull_remaining [OF sym])

declare loadChain.simps [simp del]

definition NewKeyManager ::
    "bytes \<Rightarrow> vfs_error + errorFile \<Rightarrow> bytes option \<Rightarrow> edg_error + KeyManager" where
  "NewKeyManager randomTestKey opened mk =
     (if length (key_bytes mk) < minKeySize \<and> \<not> (mk = None \<and> length randomTestKey = 16)
      then Inl InvalidKeySize
      else case opened of
        Inl e \<Rightarrow> Inl (FileError e)
      | Inr f \<Rightarrow> loadChain \<lparr>masterKey = mk, saltFile = f, salts = Map.empty, lastMAC = []\<rparr>)"

definition KeyManager_Close :: "KeyManager \<Rightarrow> KeyManager \<times> (vfs_error + memNode)" where
  "KeyManager_Close m = (case errorFile_Close (saltFile m) of (f, r) \<Rightarrow> (m\<lparr>saltFile := f\<rparr>, r))"

definition Create ::
    "(bytes \<Rightarrow> bytes \<Rightarrow> nat \<Rightarrow> bytes option) \<Rightarrow> bytes option \<Rightarrow> KeyManager \<Rightarrow> u64
       \<Rightarrow> KeyManager \<times> (edg_error + bytes)" where
  "Create kdf rnd m fn =
     (case rnd of
        None \<Rightarrow> (m, Inl RandError)
      | Some sal \<Rightarrow>
          (case derive kdf m sal of
             Inl e \<Rightarrow> (m, Inl e)
           | Inr key \<Rightarrow>
               let block = \<lparr>fileNum = fn, salt = sal, mac = hmac (masterKey m) fn sal (lastMAC m)\<rparr>
               in case errorFile_WriteApproved (saltFile m) (MarshalBinary block) of
                    (f, Inl e) \<Rightarrow> (m\<lparr>saltFile := f\<rparr>, Inl (FileError e))
                  | (f, Inr _) \<Rightarrow>
                      (case errorFile_Sync f of
                         (f', Inl e) \<Rightarrow> (m\<lparr>saltFile := f'\<rparr>, Inl (FileError e))
                       | (f', Inr _) \<Rightarrow>
                           (m\<lparr>saltFile := f', lastMAC := mac block, salts := (salts m)(fn \<mapsto> sal)\<rparr>,
                            Inr key))))"

definition Get ::
    "(bytes \<Rightarrow> bytes \<Rightarrow> nat \<Rightarrow> bytes option) \<Rightarrow> bytes \<Rightarrow> KeyManager \<Rightarrow> u64 \<Rightarrow> edg_error + bytes" where
  "Get kdf randomTestKey m fn =
     (case salts m fn of
        Some sal \<Rightarrow> derive kdf m sal
      | None \<Rightarrow>
          if masterKey m = None \<and> length randomTestKey = 16 then Inr randomTestKey
          else Inl FileNumNotFound)"

section \<open>OPTIONS files\<close>

definition seal_with :: "aead \<Rightarrow> bytes \<Rightarrow> bytes \<Rightarrow> edg_error + bytes" where
  "seal_with c nonce p = (case Seal c nonce p [] of Inl e \<Rightarrow> Inl (CipherError e) | Inr ct \<Rightarrow> Inr ct)"

definition open_with :: "aead \<Rightarrow> bytes \<Rightarrow> bytes \<Rightarrow> edg_error + bytes" where
  "open_with c nonce ct = (case Open c nonce ct [] of Inl e \<Rightarrow> Inl (CipherError e) | Inr p \<Rightarrow> Inr p)"

definition EncryptOptions ::
    "(bytes \<Rightarrow> bytes \<Rightarrow> nat \<Rightarrow> bytes option) \<Rightarrow> bytes option \<Rightarrow> bytes \<Rightarrow> bytes \<Rightarrow> u64 \<Rightarrow> KeyManager
       \<Rightarrow> KeyManager \<times> (edg_error + bytes)" where
  "EncryptOptions kdf rnd randomTestKey serializedOpts fn m =
     (case Create kdf rnd m fn of
        (m', Inl e) \<Rightarrow> (m', Inl e)
      | (m', Inr key) \<Rightarrow>
          (m', rbind (GetCipher randomTestKey key)
                 (\<lambda>c. seal_with c (replicate (NonceSize c) 0) serializedOpts)))"

definition DecryptOptions ::
    "(bytes \<Rightarrow> bytes \<Rightarrow> nat \<Rightarrow> bytes option) \<Rightarrow> bytes \<Rightarrow> bytes \<Rightarrow> u64 \<Rightarrow> KeyManager \<Rightarrow> edg_error + bytes" where
  "DecryptOptions kdf randomTestKey ciphertext fn m =
     rbind (Get kdf randomTestKey m fn) (\<lambda>key.
     rbind (GetCipher randomTestKey key) (\<lambda>c.
       open_with c (replicate (NonceSize c) 0) ciphertext))"

section \<open>The chain as data\<close>

text \<open>
  What the file holds after keys were created for \<open>xs\<close> (file number and salt, in order),
  starting from the MAC \<open>prev\<close>; the MAC of its last block; and the salts it defines.
\<close>

fun chain :: "bytes option \<Rightarrow> bytes \<Rightarrow> (u64 \<times> bytes) list \<Rightarrow> bytes" where
  "chain mk prev [] = []"
| "chain mk prev ((fn, s) # xs) =
     MarshalBinary \<lparr>fileNum = fn, salt = s, mac = hmac mk fn s prev\<rparr> @ chain mk (hmac mk fn s prev) xs"

fun chain_mac :: "bytes option \<Rightarrow> bytes \<Rightarrow> (u64 \<times> bytes) list \<Rightarrow> bytes" where
  "chain_mac mk prev [] = prev"
| "chain_mac mk prev ((fn, s) # xs) = chain_mac mk (hmac mk fn s prev) xs"

definition salts_ok :: "(u64 \<times> bytes) list \<Rightarrow> bool" where
  "salts_ok xs = (\<forall>(fn, s) \<in> set xs. length s = saltSize)"

text \<open>The manager's invariant: its fields and its file agree on the list \<open>xs\<close> of created keys.\<close>

definition km_ok :: "KeyManager \<Rightarrow> (u64 \<times> bytes) list \<Rightarrow> bool" where
  "km_ok m xs =
     (salts_ok xs \<and> salts m = map_of (rev xs) \<and> lastMAC m = chain_mac (masterKey m) [] xs \<and>
      injector (saltFile m) = [] \<and>
      file_at (saltFile m) (chain (masterKey m) [] xs) (length (chain (masterKey m) [] xs)))"

lemmas size_defs = saltBlockSize_def fileNumSize_def saltSize_def macSize_def

lemma length_hmac [simp]: "length (hmac mk fn s prev) = 32"
  by (simp add: hmac_def)

lemma chain_append: "chain mk prev (xs @ ys) = chain mk prev xs @ chain mk (chain_mac mk prev xs) ys"
  by (induction mk prev xs rule: chain.induct) auto

lemma chain_mac_append: "chain_mac mk prev (xs @ ys) = chain_mac mk (chain_mac mk prev xs) ys"
  by (induction mk prev xs rule: chain_mac.induct) auto

lemma salts_ok_simps [simp]:
  "salts_ok []"
  "salts_ok ((fn, s) # xs) \<longleftrightarrow> length s = 16 \<and> salts_ok xs"
  "salts_ok (xs @ ys) \<longleftrightarrow> salts_ok xs \<and> salts_ok ys"
  by (auto simp add: salts_ok_def saltSize_def)

subsection \<open>Blocks\<close>

lemma length_Marshal [simp]:
  "length (MarshalBinary b) = 8 + length (salt b) + length (mac b)"
  by (simp add: MarshalBinary_def)

lemma Unmarshal_Marshal:
  "length (salt b) = 16 \<Longrightarrow> length (mac b) = 32 \<Longrightarrow> UnmarshalBinary (MarshalBinary b) = Inr b"
  by (simp add: UnmarshalBinary_def MarshalBinary_def size_defs)

lemma Marshal_Unmarshal:
  assumes "UnmarshalBinary d = Inr b"
  shows "MarshalBinary b = d" "length (salt b) = 16" "length (mac b) = 32" "length d = saltBlockSize"
proof -
  from assms have d: "length d = 56" and b: "b = \<lparr>fileNum = le_decode (take 8 d),
      salt = take 16 (drop 8 d), mac = drop 24 d\<rparr>"
    by (auto simp add: UnmarshalBinary_def size_defs split: if_splits)
  have "le_encode (length (take 8 d)) (le_decode (take 8 d) :: u64) = take 8 d"
    by (rule le_encode_decode) (simp add: d)
  then have "le_encode 8 (le_decode (take 8 d) :: u64) = take 8 d" using d by simp
  moreover have "take 8 d @ take 16 (drop 8 d) @ drop 24 d = d"
    using append_take_drop_id [of 8 d] append_take_drop_id [of 16 "drop 8 d"] by simp
  ultimately show "MarshalBinary b = d" by (simp add: b MarshalBinary_def)
  show "length (salt b) = 16" "length (mac b) = 32" "length d = saltBlockSize"
    using d by (simp_all add: b size_defs)
qed

subsection \<open>Loading a chain\<close>

lemma loadChain_prefix:
  assumes "file_at (saltFile m) (pre @ chain (masterKey m) (lastMAC m) xs @ rest) (length pre)"
    and "injector (saltFile m) = []" and "salts_ok xs"
  shows "\<exists>m'. loadChain m = loadChain m' \<and> masterKey m' = masterKey m \<and>
           salts m' = salts m ++ map_of (rev xs) \<and> lastMAC m' = chain_mac (masterKey m) (lastMAC m) xs \<and>
           injector (saltFile m') = [] \<and> mf_fs (efile (saltFile m')) = mf_fs (efile (saltFile m)) \<and>
           file_at (saltFile m') (pre @ chain (masterKey m) (lastMAC m) xs @ rest)
             (length (pre @ chain (masterKey m) (lastMAC m) xs))"
  using assms
proof (induction xs arbitrary: m pre)
  case Nil
  then show ?case by auto
next
  case (Cons x xs)
  obtain fn s where x: "x = (fn, s)" by fastforce
  let ?mc = "hmac (masterKey m) fn s (lastMAC m)"
  let ?b = "\<lparr>fileNum = fn, salt = s, mac = ?mc\<rparr>"
  let ?d = "pre @ MarshalBinary ?b @ chain (masterKey m) ?mc xs @ rest"
  have s: "length s = 16" "salts_ok xs" using Cons.prems(3) by (simp_all add: x)
  have fa: "file_at (saltFile m) ?d (length pre)" using Cons.prems(1) by (simp add: x)
  have len: "length (MarshalBinary ?b) = saltBlockSize" using s by (simp add: size_defs)
  obtain f where f: "ReadFull (saltFile m) saltBlockSize = (f, Inr (MarshalBinary ?b))"
      "file_at f ?d (length pre + saltBlockSize)" "injector f = []"
      "mf_fs (efile f) = mf_fs (efile (saltFile m))"
    using ReadFull_ok [OF fa Cons.prems(2), of saltBlockSize] len by (auto simp add: size_defs)
  let ?m = "m\<lparr>saltFile := f, lastMAC := ?mc, salts := (salts m)(fn \<mapsto> s)\<rparr>"
  have "loadChain m = loadChain ?m"
    using f(1) Unmarshal_Marshal [of ?b] s(1) by (simp add: loadChain.simps [of m] Let_def)
  moreover have "file_at (saltFile ?m) ((pre @ MarshalBinary ?b) @ chain (masterKey ?m) (lastMAC ?m) xs @ rest)
      (length (pre @ MarshalBinary ?b))"
    using f(2) len by simp
  moreover have "(\<lambda>a. if a = fn then Some s else salts m a) ++ map_of (rev xs) = salts m ++ map_of (rev (x # xs))"
    by (rule ext) (simp add: x map_add_def split: option.split)
  ultimately show ?case
    using Cons.IH [of ?m "pre @ MarshalBinary ?b"] f(3,4) s(2) by (simp add: x)
qed

lemma loadChain_chain:
  assumes "file_at (saltFile m) (pre @ chain (masterKey m) (lastMAC m) xs) (length pre)"
    and "injector (saltFile m) = []" and "salts_ok xs"
  shows "\<exists>m'. loadChain m = Inr m' \<and> masterKey m' = masterKey m \<and>
           salts m' = salts m ++ map_of (rev xs) \<and> lastMAC m' = chain_mac (masterKey m) (lastMAC m) xs \<and>
           injector (saltFile m') = [] \<and> mf_fs (efile (saltFile m')) = mf_fs (efile (saltFile m)) \<and>
           file_at (saltFile m') (pre @ chain (masterKey m) (lastMAC m) xs)
             (length (pre @ chain (masterKey m) (lastMAC m) xs))"
proof -
  from loadChain_prefix [of m pre xs "[]"] assms obtain m' where m': "loadChain m = loadChain m'"
    "masterKey m' = masterKey m" "salts m' = salts m ++ map_of (rev xs)"
    "lastMAC m' = chain_mac (masterKey m) (lastMAC m) xs" "injector (saltFile m') = []"
    "mf_fs (efile (saltFile m')) = mf_fs (efile (saltFile m))"
    "file_at (saltFile m') (pre @ chain (masterKey m) (lastMAC m) xs) (length (pre @ chain (masterKey m) (lastMAC m) xs))"
    by auto
  then have "ReadFull (saltFile m') saltBlockSize = (saltFile m', Inl Eof)"
    by (intro ReadFull_eof) (auto simp add: size_defs)
  then show ?thesis using m' by (simp add: loadChain.simps [of m'])
qed

lemma loadChain_wrong_mac:
  assumes "file_at (saltFile m) (pre @ MarshalBinary b @ rest) (length pre)"
    and "injector (saltFile m) = []" and "length (salt b) = 16" "length (mac b) = 32"
    and "mac b \<noteq> hmac (masterKey m) (fileNum b) (salt b) (lastMAC m)"
  shows "loadChain m = Inl InvalidMac"
proof -
  have len: "length (MarshalBinary b) = saltBlockSize" using assms(3,4) by (simp add: size_defs)
  obtain f where "ReadFull (saltFile m) saltBlockSize = (f, Inr (MarshalBinary b))"
    using ReadFull_ok [OF assms(1,2), of saltBlockSize] len by (auto simp add: size_defs)
  then show ?thesis
    using Unmarshal_Marshal [OF assms(3,4)] assms(5) by (simp add: loadChain.simps [of m] Let_def)
qed

lemma loadChain_sound:
  assumes "loadChain m = Inr m'" and "file_at (saltFile m) d i" and "injector (saltFile m) = []"
    and "i \<le> length d"
  shows "\<exists>xs. salts_ok xs \<and> drop i d = chain (masterKey m) (lastMAC m) xs"
  using assms
proof (induction m arbitrary: i rule: loadChain.induct)
  case (1 m)
  show ?case
  proof (cases "i < length d")
    case False
    then have "drop i d = chain (masterKey m) (lastMAC m) []" by simp
    then show ?thesis by (metis salts_ok_simps(1))
  next
    case True
    have long: "i + saltBlockSize \<le> length d"
    proof (rule ccontr)
      assume "\<not> i + saltBlockSize \<le> length d"
      then obtain f where "ReadFull (saltFile m) saltBlockSize = (f, Inl UnexpectedEof)"
        using ReadFull_short [OF "1.prems"(2,3) True, of saltBlockSize] by auto
      then show False using "1.prems"(1) by (simp add: loadChain.simps [of m])
    qed
    obtain f where f: "ReadFull (saltFile m) saltBlockSize = (f, Inr (take saltBlockSize (drop i d)))"
        "file_at f d (i + saltBlockSize)" "injector f = []"
      using ReadFull_ok [OF "1.prems"(2,3) long] by (auto simp add: size_defs)
    from "1.prems"(1) f(1) obtain b where b: "UnmarshalBinary (take saltBlockSize (drop i d)) = Inr b"
      and mac: "hmac (masterKey m) (fileNum b) (salt b) (lastMAC m) = mac b"
      and rec: "loadChain (m\<lparr>saltFile := f, lastMAC := mac b, salts := (salts m)(fileNum b \<mapsto> salt b)\<rparr>) = Inr m'"
      by (auto simp add: loadChain.simps [of m] Let_def split: sum.splits if_splits)
    have "\<exists>xs. salts_ok xs \<and> drop (i + saltBlockSize) d = chain (masterKey m) (mac b) xs"
      using "1.IH" [OF f(1) [symmetric] refl b refl, of "i + saltBlockSize"] f(2,3) rec long mac
      by simp
    then obtain xs where xs: "salts_ok xs" "drop (i + saltBlockSize) d = chain (masterKey m) (mac b) xs"
      by blast
    have "drop i d = take saltBlockSize (drop i d) @ drop (i + saltBlockSize) d"
      by (metis add.commute append_take_drop_id drop_drop)
    also have "\<dots> = chain (masterKey m) (lastMAC m) ((fileNum b, salt b) # xs)"
      using Marshal_Unmarshal(1) [OF b] xs(2) mac by (simp add: MarshalBinary_def)
    finally show ?thesis
      using xs(1) Marshal_Unmarshal(2) [OF b] by (metis salts_ok_simps(2))
  qed
qed


subsection \<open>Creating keys\<close>

lemma Create_after_write:
  assumes "errorFile_WriteApproved (saltFile m) (MarshalBinary \<lparr>fileNum = fn, salt = s, mac = hmac (masterKey m) fn s (lastMAC m)\<rparr>)
           = (f, Inr k)"
    and "errorFile_Sync f = (g, sr)"
  shows "Create kdf (Some s) m fn =
     (case derive kdf m s of
        Inl e \<Rightarrow> (m, Inl e)
      | Inr key \<Rightarrow>
          (case sr of
             Inl e \<Rightarrow> (m\<lparr>saltFile := g\<rparr>, Inl (FileError e))
           | Inr _ \<Rightarrow> (m\<lparr>saltFile := g, lastMAC := hmac (masterKey m) fn s (lastMAC m),
                          salts := (salts m)(fn \<mapsto> s)\<rparr>, Inr key)))"
  using assms by (simp add: Create_def Let_def split: sum.split)

lemma Create_Inr:
  assumes "Create kdf rnd m fn = (m', Inr key)"
  shows "\<exists>s. rnd = Some s \<and> derive kdf m s = Inr key \<and> salts m' = (salts m)(fn \<mapsto> s) \<and> masterKey m' = masterKey m"
proof (cases rnd)
  case None
  with assms show ?thesis by (simp add: Create_def)
next
  case (Some s)
  let ?w = "errorFile_WriteApproved (saltFile m) (MarshalBinary \<lparr>fileNum = fn, salt = s, mac = hmac (masterKey m) fn s (lastMAC m)\<rparr>)"
  obtain f r where w: "?w = (f, r)" by fastforce
  obtain g sr where sy: "errorFile_Sync f = (g, sr)" by fastforce
  have "r \<noteq> Inl e" for e using assms w by (auto simp add: Some Create_def Let_def split: sum.splits)
  then obtain k where "r = Inr k" by (cases r) auto
  with assms w sy show ?thesis
    by (auto simp add: Some Create_after_write [of m fn s f k g sr] split: sum.splits)
qed

lemma derive_error: "derive kdf m s = Inl e \<Longrightarrow> e = KdfError"
  by (auto simp add: derive_def split: option.splits)

lemma Create_ok:
  assumes ok: "km_ok m xs" and sal: "length s = saltSize"
    and cr: "Create kdf (Some s) m fn = (m', Inr key)"
  shows "km_ok m' (xs @ [(fn, s)])" "masterKey m' = masterKey m" "derive kdf m' s = Inr key"
    "mf_fs (efile (saltFile m')) = mf_fs (efile (saltFile m))"
    "mf_fs (efile (saltFile m)) = Some (True, False) \<Longrightarrow>
       syncedData (the (mf_node (efile (saltFile m')))) = chain (masterKey m) [] (xs @ [(fn, s)])"
proof -
  let ?b = "\<lparr>fileNum = fn, salt = s, mac = hmac (masterKey m) fn s (lastMAC m)\<rparr>"
  let ?c = "chain (masterKey m) [] xs"
  from ok have fa: "file_at (saltFile m) ?c (length ?c)" "injector (saltFile m) = []"
    by (simp_all add: km_ok_def)
  obtain f where f: "errorFile_WriteApproved (saltFile m) (MarshalBinary ?b) = (f, Inr (length (MarshalBinary ?b)))"
    "file_at f (?c @ MarshalBinary ?b) (length (?c @ MarshalBinary ?b))" "injector f = []"
    "mf_fs (efile f) = mf_fs (efile (saltFile m))"
    using WriteApproved_end [OF fa] by blast
  obtain g where g: "errorFile_Sync f = (g, Inr ())"
    "file_at g (?c @ MarshalBinary ?b) (length (?c @ MarshalBinary ?b))" "injector g = []"
    "mf_fs (efile g) = mf_fs (efile f)"
    "mf_fs (efile f) = Some (True, False) \<longrightarrow> syncedData (the (mf_node (efile g))) = ?c @ MarshalBinary ?b"
    using Sync_at [OF f(2,3)] by blast
  from cr have dk: "derive kdf m s = Inr key"
    and m': "m' = m\<lparr>saltFile := g, lastMAC := mac ?b, salts := (salts m)(fn \<mapsto> s)\<rparr>"
    by (auto simp add: Create_after_write [OF f(1) g(1)] split: sum.splits)
  have ch: "chain (masterKey m) [] (xs @ [(fn, s)]) = ?c @ MarshalBinary ?b"
    using ok by (simp add: chain_append km_ok_def)
  show "km_ok m' (xs @ [(fn, s)])"
    using ok g(2,3) sal by (simp add: km_ok_def m' ch chain_mac_append saltSize_def)
  show "masterKey m' = masterKey m" "derive kdf m' s = Inr key"
    using dk by (simp_all add: m' derive_def)
  show "mf_fs (efile (saltFile m')) = mf_fs (efile (saltFile m))"
    by (simp add: m' g(4) f(4))
  show "mf_fs (efile (saltFile m)) = Some (True, False) \<Longrightarrow>
       syncedData (the (mf_node (efile (saltFile m')))) = chain (masterKey m) [] (xs @ [(fn, s)])"
    using g(5) f(4) by (simp add: m' ch)
qed


text \<open>A file as it is opened again: at its start, after a crash with its synced data only.\<close>

definition reopen :: "bool \<Rightarrow> errorFile \<Rightarrow> errorFile" where
  "reopen crash f =
     \<lparr>efile = (efile f)\<lparr>mf_node := map_option (if crash then file_resetToSyncedState else id) (mf_node (efile f)),
                        wpos := 0\<rparr>,
      injector = []\<rparr>"

text \<open>
  Calls of \<^verbatim>\<open>Create\<close> in order, for file numbers and the salts that the random source gives. The
  result has the key that each call returned to its caller, who encrypts the file with it.
\<close>

fun creates ::
    "(bytes \<Rightarrow> bytes \<Rightarrow> nat \<Rightarrow> bytes option) \<Rightarrow> KeyManager \<Rightarrow> (u64 \<times> bytes) list \<Rightarrow>
       edg_error + (KeyManager \<times> (u64 \<times> bytes) list)" where
  "creates kdf m [] = Inr (m, [])"
| "creates kdf m ((fn, s) # ops) =
     (case Create kdf (Some s) m fn of
        (m', Inl e) \<Rightarrow> Inl e
      | (m', Inr key) \<Rightarrow> rbind (creates kdf m' ops) (\<lambda>(m'', keys). Inr (m'', (fn, key) # keys)))"

lemma Get_after_Create:
  assumes "km_ok m xs" and "length s = saltSize" and "Create kdf (Some s) m fn = (m', Inr key)"
  shows "Get kdf rtk m' fn' = (if fn' = fn then Inr key else Get kdf rtk m fn')"
proof -
  note c = Create_ok [OF assms]
  have "derive kdf m' = derive kdf m" using c(2) by (simp add: derive_def fun_eq_iff)
  moreover have "salts m' = (salts m)(fn \<mapsto> s)" using c(1) assms(1) by (simp add: km_ok_def)
  ultimately show ?thesis using c(2,3) by (cases "salts m fn'") (auto simp add: Get_def)
qed

lemma creates_ok:
  assumes "km_ok m xs" and "salts_ok ops" and "creates kdf m ops = Inr (m', keys)"
  shows "km_ok m' (xs @ ops) \<and> masterKey m' = masterKey m \<and>
     mf_fs (efile (saltFile m')) = mf_fs (efile (saltFile m)) \<and>
     (ops \<noteq> [] \<and> mf_fs (efile (saltFile m)) = Some (True, False) \<longrightarrow>
        syncedData (the (mf_node (efile (saltFile m')))) = chain (masterKey m) [] (xs @ ops))"
  using assms
proof (induction ops arbitrary: m xs keys)
  case (Cons x ops)
  obtain fn s where x: "x = (fn, s)" by fastforce
  from Cons.prems(3) obtain m1 key keys1 where c: "Create kdf (Some s) m fn = (m1, Inr key)"
    and r: "creates kdf m1 ops = Inr (m', keys1)"
    by (auto simp add: x rbind_eq_Inr split: prod.splits sum.splits)
  have s: "length s = saltSize" "salts_ok ops" using Cons.prems(2) by (simp_all add: x saltSize_def)
  note m1 = Create_ok [OF Cons.prems(1) s(1) c]
  show ?case
    using Cons.IH [OF m1(1) s(2) r] m1(2,4,5) r by (cases ops) (auto simp add: x)
qed simp

lemma creates_keys:
  assumes "km_ok m xs" and "salts_ok ops" and "creates kdf m ops = Inr (m', keys)"
  shows "map fst keys = map fst ops \<and>
     Get kdf rtk m' fn = (case map_of (rev keys) fn of Some key \<Rightarrow> Inr key | None \<Rightarrow> Get kdf rtk m fn)"
  using assms
proof (induction ops arbitrary: m xs keys)
  case (Cons x ops)
  obtain fn1 s where x: "x = (fn1, s)" by fastforce
  from Cons.prems(3) obtain m1 key keys1 where c: "Create kdf (Some s) m fn1 = (m1, Inr key)"
    and r: "creates kdf m1 ops = Inr (m', keys1)" "keys = (fn1, key) # keys1"
    by (auto simp add: x rbind_eq_Inr split: prod.splits sum.splits)
  have s: "length s = saltSize" "salts_ok ops" using Cons.prems(2) by (simp_all add: x saltSize_def)
  note m1 = Create_ok [OF Cons.prems(1) s(1) c]
  show ?case
    using Cons.IH [OF m1(1) s(2) r(1)] Get_after_Create [OF Cons.prems(1) s(1) c, of rtk fn]
    by (auto simp add: x r(2) map_add_def split: option.split)
qed simp

lemma NewKeyManager_ok:
  assumes "file_at f (chain mk [] xs) 0" and "injector f = []" and "salts_ok xs"
    and "minKeySize \<le> length (key_bytes mk)"
  shows "\<exists>m. NewKeyManager rtk (Inr f) mk = Inr m \<and> km_ok m xs \<and> masterKey m = mk \<and>
           mf_fs (efile (saltFile m)) = mf_fs (efile f)"
  using loadChain_chain [of "\<lparr>masterKey = mk, saltFile = f, salts = Map.empty, lastMAC = []\<rparr>" "[]" xs] assms
  by (auto simp add: NewKeyManager_def km_ok_def)

lemma NewKeyManager_sound:
  assumes "NewKeyManager rtk (Inr f) mk = Inr m" and "file_at f d 0" and "injector f = []"
  shows "\<exists>xs. d = chain mk [] xs \<and> km_ok m xs \<and> masterKey m = mk \<and>
           mf_fs (efile (saltFile m)) = mf_fs (efile f)"
proof -
  let ?m = "\<lparr>masterKey = mk, saltFile = f, salts = Map.empty, lastMAC = []\<rparr>"
  from assms(1) have l: "loadChain ?m = Inr m"
    by (simp add: NewKeyManager_def split: if_splits)
  from loadChain_sound [OF l, of d 0] assms(2,3) obtain xs where xs: "salts_ok xs" "d = chain mk [] xs"
    by auto
  then show ?thesis
    using loadChain_chain [of ?m "[]" xs] l assms(2,3) by (auto simp add: km_ok_def)
qed

lemma km_ok_salts: "km_ok m xs \<Longrightarrow> km_ok m' xs \<Longrightarrow> salts m' = salts m"
  by (simp add: km_ok_def)

lemma Get_cong: "salts m' = salts m \<Longrightarrow> masterKey m' = masterKey m \<Longrightarrow> Get kdf rtk m' = Get kdf rtk m"
proof (rule ext)
  fix fn assume "salts m' = salts m" "masterKey m' = masterKey m"
  moreover from this have "derive kdf m' = derive kdf m" by (simp add: derive_def fun_eq_iff)
  ultimately show "Get kdf rtk m' fn = Get kdf rtk m fn" by (simp add: Get_def split: option.split)
qed

lemma injector_reopen [simp]: "injector (reopen crash f) = []"
  by (simp add: reopen_def)

lemma file_at_reopen:
  "file_at f d i \<Longrightarrow> (crash \<Longrightarrow> syncedData (the (mf_node (efile f))) = d) \<Longrightarrow> file_at (reopen crash f) d 0"
  by (auto simp add: file_at_def reopen_def file_resetToSyncedState_def split: option.splits)

text \<open>
  C3. Keys survive a restart and a crash. Open a salt chain, create any sequence of keys
  successfully, and open the file again, possibly after a crash that discards everything not
  synced: for every file number the new manager returns the key that the last \<^verbatim>\<open>Create\<close> for
  this number returned to its caller, or, for a number no key was created for, what was returned
  at the start; it is also what the old manager returned at the end.
\<close>

theorem keys_survive_reopen:
  assumes "NewKeyManager [] (Inr f) (Some mk) = Inr m" and "file_at f d 0" and "injector f = []"
    and "mf_fs (efile f) = Some (True, False)"
    and "salts_ok ops" and "creates kdf m ops = Inr (m', keys)" and "crash \<Longrightarrow> ops \<noteq> []"
  shows "\<exists>m''. NewKeyManager [] (Inr (reopen crash (saltFile m'))) (Some mk) = Inr m'' \<and>
           map fst keys = map fst ops \<and>
           (\<forall>fn. Get kdf [] m'' fn = (case map_of (rev keys) fn of Some key \<Rightarrow> Inr key | None \<Rightarrow> Get kdf [] m fn) \<and>
                 Get kdf [] m'' fn = Get kdf [] m' fn)"
proof -
  from NewKeyManager_sound [OF assms(1-3)] assms(4) obtain xs where xs: "km_ok m xs"
    "masterKey m = Some mk" "mf_fs (efile (saltFile m)) = Some (True, False)" by auto
  note m' = creates_ok [OF xs(1) assms(5,6)]
  let ?c = "chain (Some mk) [] (xs @ ops)"
  have "file_at (saltFile m') ?c (length ?c)" "salts_ok (xs @ ops)"
    using m' xs(2) by (auto simp add: km_ok_def)
  moreover have "crash \<Longrightarrow> syncedData (the (mf_node (efile (saltFile m')))) = ?c"
    using m' xs assms(7) by simp
  ultimately obtain m'' where m'': "NewKeyManager [] (Inr (reopen crash (saltFile m'))) (Some mk) = Inr m''"
    "km_ok m'' (xs @ ops)" "masterKey m'' = Some mk"
    using NewKeyManager_ok [of "reopen crash (saltFile m')" "Some mk" "xs @ ops" "[]"] assms(1)
    by (auto simp add: file_at_reopen NewKeyManager_def split: if_splits)
  moreover have "Get kdf [] m'' = Get kdf [] m'"
    using km_ok_salts [of m' "xs @ ops" m''] m' m''(2,3) xs(2) by (intro Get_cong) auto
  ultimately show ?thesis using creates_keys [OF xs(1) assms(5,6)] by auto
qed


subsection \<open>The last MAC binds the chain\<close>

text \<open>
  The messages that the blocks of a chain authenticate, and a collision between two given lists
  of messages. Some two messages always collide (there are more messages than MACs), so the
  statements name the messages: they are the ones the chains at hand are made of.
\<close>

fun chain_msgs :: "bytes option \<Rightarrow> bytes \<Rightarrow> (u64 \<times> bytes) list \<Rightarrow> bytes list" where
  "chain_msgs mk prev [] = []"
| "chain_msgs mk prev ((fn, s) # xs) = (le_encode 8 fn @ s @ prev) # chain_msgs mk (hmac mk fn s prev) xs"

definition hmac_collision :: "bytes option \<Rightarrow> bytes list \<Rightarrow> bytes list \<Rightarrow> bool" where
  "hmac_collision mk ms ms' =
     list_ex (\<lambda>x. list_ex (\<lambda>y. x \<noteq> y \<and> hmac_sha256 (key_bytes mk) x = hmac_sha256 (key_bytes mk) y) ms') ms"

lemma chain_msgs_append:
  "chain_msgs mk prev (xs @ ys) = chain_msgs mk prev xs @ chain_msgs mk (chain_mac mk prev xs) ys"
  by (induction mk prev xs rule: chain_msgs.induct) auto

lemma hmac_collisionI:
  "\<lbrakk>hmac_sha256 (key_bytes mk) x = hmac_sha256 (key_bytes mk) y; x \<noteq> y; x \<in> set ms; y \<in> set ms'\<rbrakk>
     \<Longrightarrow> hmac_collision mk ms ms'"
  by (auto simp add: hmac_collision_def list_ex_iff)

lemma hmac_collision_mono:
  "\<lbrakk>hmac_collision mk ms ms'; set ms \<subseteq> set ns; set ms' \<subseteq> set ns'\<rbrakk> \<Longrightarrow> hmac_collision mk ns ns'"
  unfolding hmac_collision_def list_ex_iff by blast

lemma length_chain_mac: "length (chain_mac mk prev xs) = (if xs = [] then length prev else 32)"
  by (induction mk prev xs rule: chain_mac.induct) auto

lemma chain_mac_binding:
  "\<lbrakk>chain_mac mk [] xs = chain_mac mk [] ys; salts_ok xs; salts_ok ys\<rbrakk>
     \<Longrightarrow> xs = ys \<or> hmac_collision mk (chain_msgs mk [] xs) (chain_msgs mk [] ys)"
proof (induction xs arbitrary: ys rule: rev_induct)
  case Nil
  then show ?case using length_chain_mac [of mk "[]" ys] by (auto split: if_splits)
next
  case (snoc x xs)
  then have "ys \<noteq> []" using length_chain_mac [of mk "[]" "xs @ [x]"] by auto
  then obtain zs y where ys: "ys = zs @ [y]" by (metis rev_exhaust)
  obtain fn s gn t where xy: "x = (fn, s)" "y = (gn, t)" by fastforce
  let ?mx = "le_encode 8 fn @ s @ chain_mac mk [] xs" and ?my = "le_encode 8 gn @ t @ chain_mac mk [] zs"
  have eq: "hmac_sha256 (key_bytes mk) ?mx = hmac_sha256 (key_bytes mk) ?my"
    using snoc.prems(1) by (simp add: ys xy chain_mac_append hmac_def)
  have len: "length s = 16" "length t = 16" "salts_ok xs" "salts_ok zs"
    using snoc.prems(2,3) by (simp_all add: ys xy)
  show ?case
  proof (cases "?mx = ?my")
    case True
    then have "fn = gn \<and> s = t \<and> chain_mac mk [] xs = chain_mac mk [] zs"
      using len by simp
    then have *: "fn = gn" "s = t" "chain_mac mk [] xs = chain_mac mk [] zs" by simp_all
    from snoc.IH [OF *(3) len(3,4)] show ?thesis
    proof
      assume "hmac_collision mk (chain_msgs mk [] xs) (chain_msgs mk [] zs)"
      then have "hmac_collision mk (chain_msgs mk [] (xs @ [x])) (chain_msgs mk [] ys)"
        by (rule hmac_collision_mono) (auto simp add: ys chain_msgs_append)
      then show ?thesis ..
    qed (simp add: ys xy *)
  next
    case False
    have "hmac_collision mk (chain_msgs mk [] (xs @ [x])) (chain_msgs mk [] ys)"
      by (rule hmac_collisionI [OF eq False]) (simp_all add: ys xy chain_msgs_append)
    then show ?thesis ..
  qed
qed

text \<open>
  C4. The last MAC binds the whole SALTCHAIN file. Two files that the same master key accepts
  and that leave the manager with the same last MAC are byte for byte equal, unless two
  different messages among those that the blocks of the two files authenticate have the same
  HMAC.
\<close>

theorem saltchain_binding:
  assumes "NewKeyManager [] (Inr f) mk = Inr m" and "file_at f d 0" and "injector f = []"
    and "NewKeyManager [] (Inr f') mk = Inr m'" and "file_at f' d' 0" and "injector f' = []"
    and "lastMAC m = lastMAC m'"
  shows "\<exists>xs ys. d = chain mk [] xs \<and> d' = chain mk [] ys \<and>
           (d = d' \<or> hmac_collision mk (chain_msgs mk [] xs) (chain_msgs mk [] ys))"
proof -
  from NewKeyManager_sound [OF assms(1-3)] obtain xs where xs: "d = chain mk [] xs" "km_ok m xs" "masterKey m = mk"
    by auto
  from NewKeyManager_sound [OF assms(4-6)] obtain ys where ys: "d' = chain mk [] ys" "km_ok m' ys" "masterKey m' = mk"
    by auto
  show ?thesis
    using chain_mac_binding [of mk xs ys] xs ys assms(7) by (auto simp add: km_ok_def)
qed

subsection \<open>A sync that fails\<close>

lemma WriteApproved_then_failed_Sync:
  assumes "file_at f d (length d)" and "injector f = [False, True]"
  shows "\<exists>f' f''. errorFile_WriteApproved f p = (f', Inr (length p)) \<and>
           errorFile_Sync f' = (f'', Inl InjectedError) \<and>
           file_at f'' (d @ p) (length (d @ p)) \<and> injector f'' = []"
  using assms
  by (auto simp add: errorFile_WriteApproved_def errorFile_Sync_def memFile_WriteApproved_def
      MaybeError_def file_at_def Let_def split: option.splits)

lemma broken_chain_refused:
  assumes fa: "file_at f (chain mk [] ((xs @ [x])) @ MarshalBinary \<lparr>fileNum = fn, salt = s, mac = hmac mk fn s prev\<rparr>) 0"
    and "injector f = []" and prev: "prev = chain_mac mk [] xs" and sal: "salts_ok (xs @ [x])" and "length s = 16"
    and "minKeySize \<le> length (key_bytes mk)"
  shows "NewKeyManager [] (Inr f) mk = Inl InvalidMac \<or>
         hmac_collision mk ((le_encode 8 fn @ s @ prev) # chain_msgs mk [] xs) (chain_msgs mk [] (xs @ [x, (fn, s)]))"
    (is "_ \<or> ?coll")
proof -
  let ?xs = "xs @ [x]" and ?b = "\<lparr>fileNum = fn, salt = s, mac = hmac mk fn s prev\<rparr>"
  let ?m0 = "\<lparr>masterKey = mk, saltFile = f, salts = Map.empty, lastMAC = []\<rparr>"
  obtain m3 where m3: "loadChain ?m0 = loadChain m3" "masterKey m3 = mk" "injector (saltFile m3) = []"
    "lastMAC m3 = chain_mac mk [] ?xs"
    "file_at (saltFile m3) (chain mk [] ?xs @ MarshalBinary ?b @ []) (length (chain mk [] ?xs))"
    using loadChain_prefix [of ?m0 "[]" ?xs "MarshalBinary ?b"] assms by auto
  show ?thesis
  proof (cases "mac ?b = hmac mk fn s (lastMAC m3)")
    case False
    then have "loadChain ?m0 = Inl InvalidMac"
      using loadChain_wrong_mac [OF m3(5,3)] m3(1,2) assms(5) by simp
    then show ?thesis using assms(6) by (simp add: NewKeyManager_def)
  next
    case True
    show ?thesis
    proof (cases "prev = lastMAC m3")
      case False
      have "hmac_sha256 (key_bytes mk) (le_encode 8 fn @ s @ prev) =
            hmac_sha256 (key_bytes mk) (le_encode 8 fn @ s @ lastMAC m3)"
        using True by (simp add: hmac_def)
      then have ?coll
        by (rule hmac_collisionI)
          (use False m3(4) in \<open>simp_all add: chain_msgs_append [of _ _ "xs @ [x]" "[(fn, s)]", simplified]\<close>)
      then show ?thesis ..
    next
      case True
      then have "hmac_collision mk (chain_msgs mk [] xs) (chain_msgs mk [] ?xs)"
        using chain_mac_binding [of mk xs ?xs] prev m3(4) sal by simp
      then have ?coll
        by (rule hmac_collision_mono) (auto simp add: chain_msgs_append [of _ _ "xs @ [x]" "[(fn, s)]", simplified])
      then show ?thesis ..
    qed
  qed
qed

text \<open>
  C5. A failed sync leaves the chain broken. When \<^verbatim>\<open>Create\<close> writes its block and the sync
  then fails, the block stays in the file but the manager keeps the old last MAC; the next
  successful \<^verbatim>\<open>Create\<close> appends a block that does not continue the chain, and the database
  can no longer be opened (short of an HMAC collision).
\<close>

theorem failed_sync_breaks_chain:
  assumes "km_ok m xs" and "minKeySize \<le> length (key_bytes (masterKey m))"
    and "\<And>sal. \<exists>key. kdf (key_bytes (masterKey m)) sal (length (key_bytes (masterKey m))) = Some key"
    and "length s1 = saltSize" and "length s2 = saltSize"
  shows "\<exists>m1 m2 key.
     Create kdf (Some s1) (m\<lparr>saltFile := (saltFile m)\<lparr>injector := [False, True]\<rparr>\<rparr>) fn1
       = (m1, Inl (FileError InjectedError)) \<and>
     Create kdf (Some s2) m1 fn2 = (m2, Inr key) \<and>
     (NewKeyManager [] (Inr (reopen False (saltFile m2))) (masterKey m) = Inl InvalidMac
      \<or> hmac_collision (masterKey m)
           ((le_encode 8 fn2 @ s2 @ lastMAC m) # chain_msgs (masterKey m) [] xs)
           (chain_msgs (masterKey m) [] (xs @ [(fn1, s1), (fn2, s2)])))"
proof -
  let ?mk = "masterKey m" and ?c = "chain (masterKey m) [] xs" and ?prev = "lastMAC m"
  let ?b1 = "\<lparr>fileNum = fn1, salt = s1, mac = hmac ?mk fn1 s1 ?prev\<rparr>"
  let ?b2 = "\<lparr>fileNum = fn2, salt = s2, mac = hmac ?mk fn2 s2 ?prev\<rparr>"
  let ?f = "(saltFile m)\<lparr>injector := [False, True]\<rparr>" and ?m = "m\<lparr>saltFile := (saltFile m)\<lparr>injector := [False, True]\<rparr>\<rparr>"
  let ?xs = "xs @ [(fn1, s1)]"
  have prev: "?prev = chain_mac ?mk [] xs" and sal: "salts_ok ?xs"
    using assms(1,4) by (simp_all add: km_ok_def saltSize_def)
  have "file_at ?f ?c (length ?c)" using assms(1) by (simp add: km_ok_def file_at_def)
  then obtain f g where f: "errorFile_WriteApproved ?f (MarshalBinary ?b1) = (f, Inr (length (MarshalBinary ?b1)))"
    and g: "errorFile_Sync f = (g, Inl InjectedError)"
      "file_at g (?c @ MarshalBinary ?b1) (length (?c @ MarshalBinary ?b1))" "injector g = []"
    using WriteApproved_then_failed_Sync [of ?f ?c "MarshalBinary ?b1"] by auto
  obtain k1 where "derive kdf ?m s1 = Inr k1" using assms(3) [of s1] by (auto simp add: derive_def)
  then have m1: "Create kdf (Some s1) ?m fn1 = (m\<lparr>saltFile := g\<rparr>, Inl (FileError InjectedError))"
    using Create_after_write [of ?m fn1 s1 f "length (MarshalBinary ?b1)" g "Inl InjectedError" kdf] f g(1) by simp
  obtain h where h: "errorFile_WriteApproved g (MarshalBinary ?b2) = (h, Inr (length (MarshalBinary ?b2)))"
    "file_at h ((?c @ MarshalBinary ?b1) @ MarshalBinary ?b2) (length ((?c @ MarshalBinary ?b1) @ MarshalBinary ?b2))"
    "injector h = []"
    using WriteApproved_end [OF g(2,3)] by blast
  obtain i where i: "errorFile_Sync h = (i, Inr ())"
    "file_at i ((?c @ MarshalBinary ?b1) @ MarshalBinary ?b2) (length ((?c @ MarshalBinary ?b1) @ MarshalBinary ?b2))"
    using Sync_at [OF h(2,3)] by blast
  obtain k2 where "derive kdf (m\<lparr>saltFile := g\<rparr>) s2 = Inr k2" using assms(3) [of s2] by (auto simp add: derive_def)
  then obtain m2 where m2: "Create kdf (Some s2) (m\<lparr>saltFile := g\<rparr>) fn2 = (m2, Inr k2)" "saltFile m2 = i"
    using Create_after_write [of "m\<lparr>saltFile := g\<rparr>" fn2 s2 h "length (MarshalBinary ?b2)" i "Inr ()" kdf] h(1) i(1)
    by simp
  have "NewKeyManager [] (Inr (reopen False i)) ?mk = Inl InvalidMac \<or>
    hmac_collision ?mk ((le_encode 8 fn2 @ s2 @ ?prev) # chain_msgs ?mk [] xs)
      (chain_msgs ?mk [] (xs @ [(fn1, s1), (fn2, s2)]))"
  proof (rule broken_chain_refused)
    show "file_at (reopen False i) (chain ?mk [] ?xs @ MarshalBinary ?b2) 0"
      using file_at_reopen [OF i(2), of False] by (simp add: chain_append prev)
  qed (use assms(2,5) sal prev in \<open>simp_all add: saltSize_def\<close>)
  then show ?thesis using m1 m2 by blast
qed

section \<open>Ciphers and OPTIONS files\<close>

interpretation edg: cipher_provider "GetCipher rtk" for rtk
  by (rule cipher_provider_aes) (auto simp add: GetCipher_def Let_def split: if_splits)

lemma seal_with_Inr [simp]: "seal_with c nonce p = Inr ct \<longleftrightarrow> Seal c nonce p [] = Inr ct"
  by (simp add: seal_with_def split: sum.split)

lemma open_with_Inr [simp]: "open_with c nonce ct = Inr p \<longleftrightarrow> Open c nonce ct [] = Inr p"
  by (simp add: open_with_def split: sum.split)

text \<open>
  C6. OPTIONS files. After \<^verbatim>\<open>EncryptOptions\<close> succeeded, exactly one ciphertext decrypts to
  the serialized options under the file's key: the one it returned.
\<close>

theorem options_roundtrip:
  assumes "EncryptOptions kdf rnd [] opts fn m = (m', Inr ct)"
  shows "DecryptOptions kdf [] ct' fn m' = Inr opts \<longleftrightarrow> ct' = ct"
proof -
  obtain r where r: "Create kdf rnd m fn = (m', r)"
    using assms by (auto simp add: EncryptOptions_def split: prod.splits sum.splits)
  with assms obtain key c where key: "Create kdf rnd m fn = (m', Inr key)"
    and c: "GetCipher [] key = Inr c" and ct: "Seal c (replicate (NonceSize c) 0) opts [] = Inr ct"
    by (auto simp add: EncryptOptions_def split: sum.splits)
  from Create_Inr [OF key] obtain s where "salts m' fn = Some s" "derive kdf m' s = Inr key"
    by (auto simp add: derive_def)
  then have "Get kdf [] m' fn = Inr key" by (simp add: Get_def)
  then show ?thesis
    using edg.open_seal [OF c ct] edg.open_inj [OF c] c
    by (auto simp add: DecryptOptions_def)
qed

text \<open>
  C7. Key sizes. Keys derived from an accepted master key yield a cipher exactly when the
  master key has 16, 24 or 32 bytes; for the other lengths the manager opens and creates
  keys, but no file can be encrypted with them.
\<close>

theorem derived_key_usable:
  assumes "\<And>secret sal k key. kdf secret sal k = Some key \<Longrightarrow> length key = k"
    and "Create kdf rnd m fn = (m', Inr key)"
  shows "(\<exists>c. GetCipher [] key = Inr c) \<longleftrightarrow> length (key_bytes (masterKey m)) \<in> {16, 24, 32}"
proof -
  from Create_Inr [OF assms(2)] have "length key = length (key_bytes (masterKey m))"
    by (auto simp add: derive_def dest: assms(1) split: option.splits)
  then show ?thesis by (auto simp add: GetCipher_def Let_def)
qed


section \<open>Concrete instances\<close>

text \<open>A new, empty SALTCHAIN file of a strict file system, and a file with given contents.\<close>

definition salt_file :: "bytes \<Rightarrow> errorFile" where
  "salt_file d =
     \<lparr>efile = \<lparr>mf_node = Some \<lparr>node_name = ''SALTCHAIN'', isDir = False, refs = 1, mdata = d,
                               syncedData = d, children = Map.empty, syncedChildren = Map.empty\<rparr>,
               mf_fs = Some (True, False), wpos = 0, mf_read = True, mf_write = True\<rparr>,
      injector = []\<rparr>"

lemma salt_file_at: "file_at (salt_file d) d 0" "injector (salt_file d) = []"
  "mf_fs (efile (salt_file d)) = Some (True, False)"
  by (simp_all add: salt_file_def file_at_def)

lemma Create_total:
  assumes "km_ok m xs" and "kdf (key_bytes (masterKey m)) s (length (key_bytes (masterKey m))) = Some key"
  shows "\<exists>m'. Create kdf (Some s) m fn = (m', Inr key)"
proof -
  let ?b = "\<lparr>fileNum = fn, salt = s, mac = hmac (masterKey m) fn s (lastMAC m)\<rparr>"
  let ?c = "chain (masterKey m) [] xs"
  have "file_at (saltFile m) ?c (length ?c)" "injector (saltFile m) = []"
    using assms(1) by (simp_all add: km_ok_def)
  from WriteApproved_end [OF this, of "MarshalBinary ?b"] obtain f
    where f: "errorFile_WriteApproved (saltFile m) (MarshalBinary ?b) = (f, Inr (length (MarshalBinary ?b)))"
      "file_at f (?c @ MarshalBinary ?b) (length (?c @ MarshalBinary ?b))" "injector f = []" by blast
  from Sync_at [OF f(2,3)] obtain g where g: "errorFile_Sync f = (g, Inr ())" by blast
  show ?thesis
    using assms(2) by (simp add: Create_after_write [OF f(1) g] derive_def)
qed

definition demo_chain :: bytes where
  "demo_chain = chain (Some (replicate 16 0)) [] [(7, replicate 16 1)]"

lemma demo_manager:
  "\<exists>m. NewKeyManager [] (Inr (salt_file [])) (Some (replicate 16 0)) = Inr m \<and> km_ok m [] \<and>
       masterKey m = Some (replicate 16 0) \<and> mf_fs (efile (saltFile m)) = Some (True, False)"
  using NewKeyManager_ok [of "salt_file []" "Some (replicate 16 0)" "[]" "[]"]
  by (simp add: salt_file_at minKeySize_def key_bytes_def)

theorem keys_survive_reopen_witness:
  "\<exists>m m' m'' key1 key2. NewKeyManager [] (Inr (salt_file [])) (Some (replicate 16 0)) = Inr m \<and>
     creates hkdf_sha256 m [(7, replicate 16 1), (7, replicate 16 2)] = Inr (m', [(7, key1), (7, key2)]) \<and>
     NewKeyManager [] (Inr (reopen True (saltFile m'))) (Some (replicate 16 0)) = Inr m'' \<and>
     Get hkdf_sha256 [] m'' 7 = Inr key2"
proof -
  obtain m where m: "NewKeyManager [] (Inr (salt_file [])) (Some (replicate 16 0)) = Inr m" "km_ok m []"
    "masterKey m = Some (replicate 16 0)"
    using demo_manager by blast
  have k: "\<exists>key. hkdf_sha256 (key_bytes (masterKey m)) sal (length (key_bytes (masterKey m))) = Some key" for sal
    by (rule hkdf_sha256_total) (simp add: m(3) key_bytes_def)
  from k obtain key1 where "hkdf_sha256 (key_bytes (masterKey m)) (replicate 16 1) (length (key_bytes (masterKey m))) = Some key1"
    by blast
  from Create_total [where kdf = hkdf_sha256, OF m(2) this, of 7] obtain m1 where
    c1: "Create hkdf_sha256 (Some (replicate 16 1)) m 7 = (m1, Inr key1)" by auto
  note m1 = Create_ok [OF m(2) _ c1, simplified saltSize_def, simplified]
  from k obtain key2 where "hkdf_sha256 (key_bytes (masterKey m1)) (replicate 16 2) (length (key_bytes (masterKey m1))) = Some key2"
    using m1(2) by auto
  from Create_total [where kdf = hkdf_sha256, OF m1(1) this, of 7] obtain m' where
    c2: "Create hkdf_sha256 (Some (replicate 16 2)) m1 7 = (m', Inr key2)" by auto
  have c: "creates hkdf_sha256 m [(7, replicate 16 1), (7, replicate 16 2)] = Inr (m', [(7, key1), (7, key2)])"
    by (simp add: c1 c2)
  have "salts_ok [(7, replicate 16 1), (7, replicate 16 2)]" by simp
  from keys_survive_reopen [OF m(1) salt_file_at this c, of True] show ?thesis
    using m(1) c by auto
qed

theorem saltchain_binding_witness:
  "\<exists>m xs ys. NewKeyManager [] (Inr (salt_file demo_chain)) (Some (replicate 16 0)) = Inr m \<and>
     demo_chain = chain (Some (replicate 16 0)) [] xs \<and> demo_chain = chain (Some (replicate 16 0)) [] ys"
proof -
  obtain m where m: "NewKeyManager [] (Inr (salt_file demo_chain)) (Some (replicate 16 0)) = Inr m"
    using NewKeyManager_ok [of "salt_file demo_chain" "Some (replicate 16 0)" "[(7, replicate 16 1)]" "[]"]
    by (auto simp add: salt_file_at minKeySize_def key_bytes_def demo_chain_def)
  from saltchain_binding [OF m salt_file_at(1,2) m salt_file_at(1,2) refl] m show ?thesis by blast
qed

theorem failed_sync_breaks_chain_witness:
  "\<exists>m m1 m2 key. masterKey m = Some (replicate 16 0) \<and>
     Create hkdf_sha256 (Some (replicate 16 1)) (m\<lparr>saltFile := (saltFile m)\<lparr>injector := [False, True]\<rparr>\<rparr>) 5
       = (m1, Inl (FileError InjectedError)) \<and>
     Create hkdf_sha256 (Some (replicate 16 2)) m1 6 = (m2, Inr key) \<and>
     (NewKeyManager [] (Inr (reopen False (saltFile m2))) (Some (replicate 16 0)) = Inl InvalidMac
      \<or> hmac_collision (Some (replicate 16 0)) [le_encode 8 (6 :: u64) @ replicate 16 2]
           (chain_msgs (Some (replicate 16 0)) [] [(5, replicate 16 1), (6, replicate 16 2)]))"
proof -
  obtain m where m: "km_ok m []" "masterKey m = Some (replicate 16 0)"
    using demo_manager by blast
  have k: "\<exists>key. hkdf_sha256 (key_bytes (masterKey m)) sal (length (key_bytes (masterKey m))) = Some key" for sal
    by (rule hkdf_sha256_total) (simp add: m(2) key_bytes_def)
  have p: "lastMAC m = []" using m(1) by (simp add: km_ok_def)
  have "minKeySize \<le> length (key_bytes (masterKey m))" by (simp add: m(2) minKeySize_def key_bytes_def)
  from failed_sync_breaks_chain [where kdf = hkdf_sha256 and ?s1.0 = "replicate 16 1" and ?s2.0 = "replicate 16 2"
      and ?fn1.0 = 5 and ?fn2.0 = 6, OF m(1) this k] m(2) p
  show ?thesis by (auto simp add: saltSize_def)
qed

theorem options_roundtrip_witness:
  "\<exists>m m' ct. EncryptOptions hkdf_sha256 (Some (replicate 16 1)) [] [1, 2, 3] 9 m = (m', Inr ct) \<and>
     DecryptOptions hkdf_sha256 [] ct 9 m' = Inr [1, 2, 3]"
proof -
  obtain m where m: "km_ok m []" "masterKey m = Some (replicate 16 0)"
    using demo_manager by blast
  obtain key where key: "hkdf_sha256 (key_bytes (masterKey m)) (replicate 16 1) (length (key_bytes (masterKey m))) = Some key"
    using hkdf_sha256_total [of "length (key_bytes (masterKey m))"] by (auto simp add: m(2) key_bytes_def)
  from Create_total [where kdf = hkdf_sha256, OF m(1) this, of 9] obtain m' where
    c: "Create hkdf_sha256 (Some (replicate 16 1)) m 9 = (m', Inr key)" by auto
  have "length key = 16" using length_hkdf_sha256 [OF key] by (simp add: m(2) key_bytes_def)
  then have gc: "GetCipher [] key = Inr (aes_gcm key)" by (simp add: GetCipher_def)
  obtain ct where "Seal (aes_gcm key) (replicate 12 0) [1, 2, 3] [] = Inr ct"
    using edg.seal_total [OF gc, of "replicate 12 0" "[1, 2, 3]" "[]"] by (auto simp add: gcm_max_def)
  then have enc: "EncryptOptions hkdf_sha256 (Some (replicate 16 1)) [] [1, 2, 3] 9 m = (m', Inr ct)"
    using c gc edg.nonce_size [OF gc] by (simp add: EncryptOptions_def)
  show ?thesis using enc options_roundtrip [OF enc, of ct] by blast
qed

theorem derived_key_usable_witness:
  "\<exists>m m' key. Create hkdf_sha256 (Some (replicate 16 1)) m 9 = (m', Inr key) \<and> (\<exists>c. GetCipher [] key = Inr c)"
proof -
  obtain m where m: "km_ok m []" "masterKey m = Some (replicate 16 0)"
    using demo_manager by blast
  obtain key where key: "hkdf_sha256 (key_bytes (masterKey m)) (replicate 16 1) (length (key_bytes (masterKey m))) = Some key"
    using hkdf_sha256_total [of "length (key_bytes (masterKey m))"] by (auto simp add: m(2) key_bytes_def)
  from Create_total [where kdf = hkdf_sha256, OF m(1) this, of 9] obtain m' where
    c: "Create hkdf_sha256 (Some (replicate 16 1)) m 9 = (m', Inr key)" by auto
  have "\<exists>c. GetCipher [] key = Inr c"
    by (rule derived_key_usable [where kdf = hkdf_sha256, OF _ c, THEN iffD2]) (auto simp add: m(2) key_bytes_def dest: length_hkdf_sha256)
  then show ?thesis using c by blast
qed

end
