(* ===== verification/RecordLog.thy ===== *)
theory RecordLog
  imports Edg
begin

text \<open>
  Package \<^verbatim>\<open>record\<close>: the log format of the WAL and the MANIFEST. A log is a sequence of
  32 KiB blocks that hold encrypted chunks; a record is one or more chunks. Definitions follow
  \<^verbatim>\<open>record/record.go\<close> and \<^verbatim>\<open>record/edg.go\<close>; the cipher of a key is the parameter
  \<open>gc\<close>. Positions and block numbers are unbounded; the chunk number is a 64-bit word.
\<close>

section \<open>Format\<close>

definition fullChunkType :: byte where "fullChunkType = 1"
definition firstChunkType :: byte where "firstChunkType = 2"
definition middleChunkType :: byte where "middleChunkType = 3"
definition lastChunkType :: byte where "lastChunkType = 4"

definition blockSize :: nat where "blockSize = 32 * 1024"
definition legacyHeaderSize :: nat where "legacyHeaderSize = 19"

datatype 'e rec_error =
    RFile vfs_error        \<comment> \<open>errors of the file, \<^verbatim>\<open>io.EOF\<close> and \<^verbatim>\<open>io.ErrUnexpectedEOF\<close>\<close>
  | RCipher 'e
  | ErrNotAnIOSeeker
  | ErrNoLastRecord
  | ErrInvalidChunk
  | StaleReader
  | StaleWriter
  | ClosedWriter

datatype 'e rec_panic = BadWriterState | CipherPanic 'e | SealPanic aead_error | SlicePanic

definition edgMakeNonce :: "u64 \<Rightarrow> bytes" where
  "edgMakeNonce iv = copy_at 0 (le_encode 8 iv) (replicate 12 0)"

section \<open>Writer\<close>

record 'e Writer =
  w_w :: errorFile
  w_seq :: nat
  w_f :: bool                  \<comment> \<open>the underlying writer is a flusher\<close>
  w_i :: nat
  w_j :: nat
  w_written :: nat
  w_baseOffset :: int
  w_blockNumber :: int
  w_lastRecordOffset :: int
  w_first :: bool
  w_pending :: bool
  w_err :: "'e rec_error option"
  w_buf :: bytes
  w_EncryptionKey :: bytes
  w_chunkNum :: u64

text \<open>
  \<open>flusher\<close>: whether the file has a \<^verbatim>\<open>Flush\<close> method; \<open>seeked\<close>: the result of its
  \<^verbatim>\<open>Seek\<close> if it has one. The caller sets the encryption key after the call.
\<close>

definition NewWriter :: "errorFile \<Rightarrow> bool \<Rightarrow> (vfs_error + int) option \<Rightarrow> 'e Writer" where
  "NewWriter f flusher seeked =
     (let off = (case seeked of Some (Inr k) \<Rightarrow> k | _ \<Rightarrow> 0)
      in \<lparr>w_w = f, w_seq = 0, w_f = flusher, w_i = 0, w_j = 0, w_written = 0, w_baseOffset = off,
          w_blockNumber = 0, w_lastRecordOffset = -1, w_first = False, w_pending = False,
          w_err = None, w_buf = replicate blockSize 0, w_EncryptionKey = [], w_chunkNum = 0\<rparr>)"

definition fillHeader :: "(bytes \<Rightarrow> 'e + aead) \<Rightarrow> bool \<Rightarrow> 'e Writer \<Rightarrow> 'e rec_panic + 'e Writer" where
  "fillHeader gc lst w =
     (if w_i w + legacyHeaderSize > w_j w \<or> w_j w > blockSize then Inl BadWriterState
      else
        let typ = (if lst then if w_first w then fullChunkType else lastChunkType
                   else if w_first w then firstChunkType else middleChunkType);
            buf1 = copy_at (w_i w + 18) [typ] (w_buf w);
            buf2 = copy_at (w_i w + 16) (le_encode 2 (of_nat (w_j w - w_i w - legacyHeaderSize) :: u16)) buf1
        in case gc (w_EncryptionKey w) of
             Inl e \<Rightarrow> Inl (CipherPanic e)
           | Inr aead \<Rightarrow>
               let num = w_chunkNum w + 1
               in case Seal aead (edgMakeNonce num) (slice (w_i w + 18) (w_j w) buf2) [] of
                    Inl e \<Rightarrow> Inl (SealPanic e)
                  | Inr ciphertext \<Rightarrow>
                      let k = length ciphertext - 16;
                          buf3 = copy_at (w_i w) (drop k ciphertext) buf2;
                          buf4 = copy_at (w_i w + 18) (take k ciphertext) buf3
                      in Inr (w\<lparr>w_chunkNum := num, w_buf := buf4\<rparr>))"

definition write_err :: "vfs_error + nat \<Rightarrow> 'e rec_error option" where
  "write_err r = (case r of Inl e \<Rightarrow> Some (RFile e) | Inr _ \<Rightarrow> None)"

definition writeBlock :: "'e Writer \<Rightarrow> 'e Writer" where
  "writeBlock w =
     (case errorFile_WriteApproved (w_w w) (drop (w_written w) (w_buf w)) of
        (f, r) \<Rightarrow> w\<lparr>w_w := f, w_err := write_err r, w_i := 0, w_j := legacyHeaderSize,
                    w_written := 0, w_blockNumber := w_blockNumber w + 1\<rparr>)"

definition writePending :: "(bytes \<Rightarrow> 'e + aead) \<Rightarrow> 'e Writer \<Rightarrow> 'e rec_panic + 'e Writer" where
  "writePending gc w =
     (if w_err w \<noteq> None then Inr w
      else rbind (if w_pending w
                  then rbind (fillHeader gc True w) (\<lambda>w1. Inr (w1\<lparr>w_pending := False\<rparr>))
                  else Inr w)
        (\<lambda>w1. case errorFile_WriteApproved (w_w w1) (slice (w_written w1) (w_j w1) (w_buf w1)) of
                (f, r) \<Rightarrow> Inr (w1\<lparr>w_w := f, w_err := write_err r, w_written := w_j w1\<rparr>)))"

definition Writer_Close ::
    "(bytes \<Rightarrow> 'e + aead) \<Rightarrow> 'e Writer \<Rightarrow> 'e rec_panic + 'e Writer \<times> ('e rec_error + unit)" where
  "Writer_Close gc w =
     rbind (writePending gc (w\<lparr>w_seq := w_seq w + 1\<rparr>))
       (\<lambda>w1. Inr (case w_err w1 of Some e \<Rightarrow> (w1, Inl e) | None \<Rightarrow> (w1\<lparr>w_err := Some ClosedWriter\<rparr>, Inr ())))"

text \<open>\<open>flush\<close> is the \<^verbatim>\<open>Flush\<close> method of the underlying writer.\<close>

definition Writer_Flush ::
    "(bytes \<Rightarrow> 'e + aead) \<Rightarrow> (errorFile \<Rightarrow> errorFile \<times> vfs_error option) \<Rightarrow> 'e Writer
       \<Rightarrow> 'e rec_panic + 'e Writer \<times> ('e rec_error + unit)" where
  "Writer_Flush gc flush w =
     rbind (writePending gc (w\<lparr>w_seq := w_seq w + 1\<rparr>))
       (\<lambda>w1. Inr (case w_err w1 of
                Some e \<Rightarrow> (w1, Inl e)
              | None \<Rightarrow>
                  if w_f w1 then
                    (case flush (w_w w1) of
                       (f, Some e) \<Rightarrow> (w1\<lparr>w_w := f, w_err := Some (RFile e)\<rparr>, Inl (RFile e))
                     | (f, None) \<Rightarrow> (w1\<lparr>w_w := f\<rparr>, Inr ()))
                  else (w1, Inr ())))"

text \<open>
  \<^verbatim>\<open>Next\<close>: \<open>openChunk\<close> is the part that makes room for the header of a new chunk. The
  result is the sequence number of the \<^verbatim>\<open>singleWriter\<close> that is returned.
\<close>

definition openChunk :: "'e Writer \<Rightarrow> 'e Writer" where
  "openChunk w =
     (let w1 = w\<lparr>w_i := w_j w, w_j := w_j w + legacyHeaderSize\<rparr>
      in if w_j w1 > blockSize
         then writeBlock (w1\<lparr>w_buf := copy_at (w_i w1) (replicate (blockSize - w_i w1) 0) (w_buf w1)\<rparr>)
         else w1)"

definition Writer_Next ::
    "(bytes \<Rightarrow> 'e + aead) \<Rightarrow> 'e Writer \<Rightarrow> 'e rec_panic + 'e Writer \<times> ('e rec_error + nat)" where
  "Writer_Next gc w =
     (let w1 = w\<lparr>w_seq := w_seq w + 1\<rparr>
      in case w_err w1 of
           Some e \<Rightarrow> Inr (w1, Inl e)
         | None \<Rightarrow>
             rbind (if w_pending w1 then fillHeader gc True w1 else Inr w1)
               (\<lambda>w2. let w4 = openChunk w2
                    in case w_err w4 of
                         Some e \<Rightarrow> Inr (w4, Inl e)
                       | None \<Rightarrow>
                           Inr (w4\<lparr>w_lastRecordOffset := w_baseOffset w4 + w_blockNumber w4 * int blockSize + int (w_i w4),
                                   w_first := True, w_pending := True\<rparr>, Inr (w_seq w4))))"

text \<open>
  The loop of \<^verbatim>\<open>singleWriter.Write\<close>. Slicing the buffer beyond its end panics. After the
  first step the buffer is never full, so at least one byte is copied and \<open>k = 0\<close> cannot occur.
\<close>

function Write_loop ::
    "(bytes \<Rightarrow> 'e + aead) \<Rightarrow> 'e Writer \<Rightarrow> bytes \<Rightarrow> 'e rec_panic + 'e Writer" where
  "Write_loop gc w p =
     (if p = [] then Inr w
      else rbind (if w_j w = blockSize
                  then rbind (fillHeader gc False w)
                    (\<lambda>w1. let w2 = writeBlock w1
                          in Inr (if w_err w2 \<noteq> None then w2 else w2\<lparr>w_first := False\<rparr>))
                  else Inr w)
        (\<lambda>w3. if w_err w3 \<noteq> None then Inr w3
              else if blockSize < w_j w3 then Inl SlicePanic
              else let k = min (blockSize - w_j w3) (length p)
                   in if k = 0 then Inl SlicePanic
                      else Write_loop gc (w3\<lparr>w_buf := copy_at (w_j w3) (take k p) (w_buf w3), w_j := w_j w3 + k\<rparr>) (drop k p)))"
  by pat_completeness auto
termination
  by (relation "measure (\<lambda>(gc, w, p). length p)") auto

declare Write_loop.simps [simp del]

definition singleWriter_Write ::
    "(bytes \<Rightarrow> 'e + aead) \<Rightarrow> nat \<Rightarrow> bytes \<Rightarrow> 'e Writer \<Rightarrow> 'e rec_panic + 'e Writer \<times> ('e rec_error + nat)" where
  "singleWriter_Write gc x p w =
     (if w_seq w \<noteq> x then Inr (w, Inl StaleWriter)
      else case w_err w of
        Some e \<Rightarrow> Inr (w, Inl e)
      | None \<Rightarrow> rbind (Write_loop gc w p)
          (\<lambda>w1. Inr (case w_err w1 of Some e \<Rightarrow> (w1, Inl e) | None \<Rightarrow> (w1, Inr (length p)))))"

definition WriteRecord ::
    "(bytes \<Rightarrow> 'e + aead) \<Rightarrow> bytes \<Rightarrow> 'e Writer \<Rightarrow> 'e rec_panic + 'e Writer \<times> ('e rec_error + int)" where
  "WriteRecord gc p w =
     (case w_err w of
        Some e \<Rightarrow> Inr (w, Inl e)
      | None \<Rightarrow>
          rbind (Writer_Next gc w) (\<lambda>(w1, t).
            case t of
              Inl e \<Rightarrow> Inr (w1, Inl e)
            | Inr x \<Rightarrow>
                rbind (singleWriter_Write gc x p w1) (\<lambda>(w2, r).
                  case r of
                    Inl e \<Rightarrow> Inr (w2, Inl e)
                  | Inr _ \<Rightarrow>
                      rbind (writePending gc w2) (\<lambda>w3.
                        Inr (w3, case w_err w3 of
                                   Some e \<Rightarrow> Inl e
                                 | None \<Rightarrow> Inr (w_blockNumber w3 * int blockSize + int (w_j w3)))))))"

definition Writer_Size :: "'e Writer option \<Rightarrow> int" where
  "Writer_Size w = (case w of None \<Rightarrow> 0 | Some w \<Rightarrow> w_blockNumber w * int blockSize + int (w_j w))"

definition LastRecordOffset :: "'e Writer \<Rightarrow> 'e rec_error + int" where
  "LastRecordOffset w =
     (case w_err w of
        Some e \<Rightarrow> Inl e
      | None \<Rightarrow> if w_lastRecordOffset w < 0 then Inl ErrNoLastRecord else Inr (w_lastRecordOffset w))"

section \<open>Reader\<close>

record 'e Reader =
  r_r :: errorFile
  r_logNum :: u32
  r_blockNum :: int
  r_seq :: nat
  r_begin :: nat
  r_end :: nat
  r_n :: nat
  r_recovering :: bool
  r_last :: bool
  r_err :: "'e rec_error option"
  r_buf :: bytes
  r_EncryptionKey :: bytes
  r_chunkNum :: u64

definition NewReader :: "errorFile \<Rightarrow> u64 \<Rightarrow> 'e Reader" where
  "NewReader f logNum =
     \<lparr>r_r = f, r_logNum = ucast logNum, r_blockNum = -1, r_seq = 0, r_begin = 0, r_end = 0, r_n = 0,
      r_recovering = False, r_last = False, r_err = None, r_buf = replicate blockSize 0,
      r_EncryptionKey = [], r_chunkNum = 0\<rparr>"

text \<open>
  \<^verbatim>\<open>nextChunk\<close> in three parts: decrypting the chunk at \<open>r_end\<close>, which returns the chunk
  type; loading the next block; and the loop.
\<close>

definition decodeChunk :: "(bytes \<Rightarrow> 'e + aead) \<Rightarrow> 'e Reader \<Rightarrow> 'e Reader \<times> ('e rec_error + byte)" where
  "decodeChunk gc r =
     (let tag = slice (r_end r) (r_end r + 16) (r_buf r);
          len = (le_decode (slice (r_end r + 16) (r_end r + 18) (r_buf r)) :: u16);
          b = r_end r + legacyHeaderSize;
          e = b + unat len;
          r1 = r\<lparr>r_begin := b, r_end := e\<rparr>
      in if r_n r < e then (r1, Inl ErrInvalidChunk)
         else case gc (r_EncryptionKey r) of
           Inl er \<Rightarrow> (r1, Inl (RCipher er))
         | Inr aead \<Rightarrow>
             let ciphertext = slice (b - 1) e (r_buf r) @ tag;
                 r2 = r1\<lparr>r_chunkNum := r_chunkNum r + 1\<rparr>
             in case Open aead (edgMakeNonce (r_chunkNum r2)) ciphertext [] of
                  Inl _ \<Rightarrow> (r2, Inl ErrInvalidChunk)
                | Inr plaintext \<Rightarrow>
                    let r3 = r2\<lparr>r_buf := copy_at (b - 1) plaintext (r_buf r)\<rparr>
                    in (r3, Inr (r_buf r3 ! (b - 1))))"

definition loadBlock :: "'e Reader \<Rightarrow> bool \<Rightarrow> 'e Reader \<times> 'e rec_error option" where
  "loadBlock r wantFirst =
     (if r_n r < blockSize \<and> 0 \<le> r_blockNum r then
        (r, Some (if \<not> wantFirst \<or> r_end r \<noteq> r_n r then ErrInvalidChunk else RFile Eof))
      else
        case ReadFull_n (r_r r) blockSize of
          (f, p, err) \<Rightarrow>
            let r1 = r\<lparr>r_r := f, r_buf := copy_at 0 p (r_buf r)\<rparr>
            in if err \<noteq> None \<and> err \<noteq> Some UnexpectedEof
               then (r1, Some (RFile (if err = Some Eof \<and> \<not> wantFirst then UnexpectedEof else the err)))
               else (r1\<lparr>r_begin := 0, r_end := 0, r_n := length p, r_blockNum := r_blockNum r + 1\<rparr>, None))"

lemma decodeChunk_progress:
  "decodeChunk gc r = (r', Inr t) \<Longrightarrow>
     r_r r' = r_r r \<and> r_n r' = r_n r \<and> r_end r + legacyHeaderSize \<le> r_end r' \<and> r_end r' \<le> r_n r"
  by (auto simp add: decodeChunk_def Let_def split: if_splits sum.splits)

lemma loadBlock_progress: "loadBlock r wantFirst = (r', None) \<Longrightarrow> remaining (r_r r') < remaining (r_r r)"
  by (auto simp add: loadBlock_def Let_def blockSize_def split: if_splits prod.splits
      dest: ReadFull_n_remaining(1))

function nextChunk ::
    "(bytes \<Rightarrow> 'e + aead) \<Rightarrow> 'e Reader \<Rightarrow> bool \<Rightarrow> 'e Reader \<times> 'e rec_error option" where
  "nextChunk gc r wantFirst =
     (if r_end r + legacyHeaderSize \<le> r_n r then
        case decodeChunk gc r of
          (r1, Inl e) \<Rightarrow> (r1, Some e)
        | (r1, Inr chunkType) \<Rightarrow>
            if wantFirst \<and> chunkType \<noteq> fullChunkType \<and> chunkType \<noteq> firstChunkType
            then nextChunk gc r1 wantFirst
            else (r1\<lparr>r_last := (chunkType = fullChunkType \<or> chunkType = lastChunkType),
                     r_recovering := False\<rparr>, None)
      else
        case loadBlock r wantFirst of
          (r1, Some e) \<Rightarrow> (r1, Some e)
        | (r1, None) \<Rightarrow> nextChunk gc r1 wantFirst)"
  by pat_completeness auto
termination
  by (relation "measures [\<lambda>(gc, r, b). remaining (r_r r), \<lambda>(gc, r, b). r_n r - r_end r]")
    (auto simp add: legacyHeaderSize_def dest!: decodeChunk_progress [OF sym] loadBlock_progress [OF sym])

declare nextChunk.simps [simp del]

text \<open>Every chunk that is returned moves the reader on, so the loops over chunks end.\<close>

lemma nextChunk_progress:
  "nextChunk gc r wantFirst = (r', None) \<Longrightarrow>
     remaining (r_r r') < remaining (r_r r) \<or>
     remaining (r_r r') = remaining (r_r r) \<and> r_n r' - r_end r' < r_n r - r_end r"
proof (induction gc r wantFirst rule: nextChunk.induct)
  case (1 gc r wantFirst)
  show ?case
  proof (cases "r_end r + legacyHeaderSize \<le> r_n r")
    case True
    with "1.prems" obtain r1 t where d: "decodeChunk gc r = (r1, Inr t)"
      by (auto simp add: nextChunk.simps [of gc r wantFirst] split: prod.splits sum.splits)
    from "1.prems" True d "1.IH"(1) [OF True d [symmetric] refl] decodeChunk_progress [OF d] show ?thesis
      by (auto simp add: nextChunk.simps [of gc r wantFirst] legacyHeaderSize_def split: if_splits)
  next
    case False
    with "1.prems" obtain r1 where l: "loadBlock r wantFirst = (r1, None)"
      by (auto simp add: nextChunk.simps [of gc r wantFirst] split: prod.splits option.splits)
    from "1.prems" False l "1.IH"(2) [OF False l [symmetric] refl] loadBlock_progress [OF l] show ?thesis
      by (auto simp add: nextChunk.simps [of gc r wantFirst])
  qed
qed

definition Reader_Next :: "(bytes \<Rightarrow> 'e + aead) \<Rightarrow> 'e Reader \<Rightarrow> 'e Reader \<times> ('e rec_error + nat)" where
  "Reader_Next gc r =
     (let r1 = r\<lparr>r_seq := r_seq r + 1\<rparr>
      in case r_err r1 of
           Some e \<Rightarrow> (r1, Inl e)
         | None \<Rightarrow>
             (case nextChunk gc (r1\<lparr>r_begin := r_end r1\<rparr>) True of
                (r2, Some e) \<Rightarrow> (r2\<lparr>r_err := Some e\<rparr>, Inl e)
              | (r2, None) \<Rightarrow> (r2\<lparr>r_err := None\<rparr>, Inr (r_seq r2))))"

definition Reader_Offset :: "'e Reader \<Rightarrow> int" where
  "Reader_Offset r = (if r_blockNum r < 0 then 0 else r_blockNum r * int blockSize + int (r_end r))"

definition Reader_recover :: "'e Reader \<Rightarrow> 'e Reader" where
  "Reader_recover r =
     (if r_err r = None then r
      else r\<lparr>r_recovering := True, r_err := None, r_begin := r_n r, r_end := r_n r, r_last := False,
             r_seq := r_seq r + 1\<rparr>)"

text \<open>\<open>seek\<close> is the \<^verbatim>\<open>Seek\<close> method of the underlying reader, if it has one.\<close>

definition seekRecord ::
    "(bytes \<Rightarrow> 'e + aead) \<Rightarrow> (errorFile \<Rightarrow> nat \<Rightarrow> errorFile \<times> vfs_error option) option \<Rightarrow> nat
       \<Rightarrow> 'e Reader \<Rightarrow> 'e Reader \<times> 'e rec_error option" where
  "seekRecord gc seek offset r =
     (let r1 = r\<lparr>r_seq := r_seq r + 1\<rparr>
      in case r_err r1 of
           Some e \<Rightarrow> (r1, Some e)
         | None \<Rightarrow>
             (case seek of
                None \<Rightarrow> (r1, Some ErrNotAnIOSeeker)
              | Some sk \<Rightarrow>
                  let c = offset mod blockSize
                  in case sk (r_r r1) (offset - c) of
                       (f, Some e) \<Rightarrow> (r1\<lparr>r_r := f, r_err := Some (RFile e)\<rparr>, Some (RFile e))
                     | (f, None) \<Rightarrow>
                         let r2 = r1\<lparr>r_r := f, r_begin := 0, r_end := 0, r_n := 0, r_blockNum := -1,
                                     r_recovering := False, r_last := False\<rparr>
                         in case nextChunk gc r2 False of
                              (r3, Some e) \<Rightarrow> (r3\<lparr>r_err := Some e\<rparr>, Some e)
                            | (r3, None) \<Rightarrow> (r3\<lparr>r_err := None, r_begin := c, r_end := c\<rparr>, None)))"

function fill :: "(bytes \<Rightarrow> 'e + aead) \<Rightarrow> 'e Reader \<Rightarrow> 'e Reader \<times> 'e rec_error option" where
  "fill gc r =
     (if r_begin r \<noteq> r_end r then (r, None)
      else if r_last r then (r, Some (RFile Eof))
      else case nextChunk gc r False of
        (r1, Some e) \<Rightarrow> (r1\<lparr>r_err := Some e\<rparr>, Some e)
      | (r1, None) \<Rightarrow> fill gc (r1\<lparr>r_err := None\<rparr>))"
  by pat_completeness auto
termination
  by (relation "measures [\<lambda>(gc, r). remaining (r_r r), \<lambda>(gc, r). r_n r - r_end r]")
    (auto dest: nextChunk_progress [OF sym])

declare fill.simps [simp del]

definition singleReader_Read ::
    "(bytes \<Rightarrow> 'e + aead) \<Rightarrow> nat \<Rightarrow> nat \<Rightarrow> 'e Reader \<Rightarrow> 'e Reader \<times> ('e rec_error + bytes)" where
  "singleReader_Read gc x k r =
     (if r_seq r \<noteq> x then (r, Inl StaleReader)
      else case r_err r of
        Some e \<Rightarrow> (r, Inl e)
      | None \<Rightarrow>
          (case fill gc r of
             (r1, Some e) \<Rightarrow> (r1, Inl e)
           | (r1, None) \<Rightarrow>
               let p = take k (slice (r_begin r1) (r_end r1) (r_buf r1))
               in (r1\<lparr>r_begin := r_begin r1 + length p\<rparr>, Inr p)))"

section \<open>Reading a whole log\<close>

text \<open>
  The clients' loops: \<^verbatim>\<open>io.ReadAll\<close> on the reader of one record, with a buffer of
  \<open>Suc k\<close> bytes, and the loop over all records, which ends with the reader's error
  (\<^verbatim>\<open>io.EOF\<close> at the end of a complete log).
\<close>

lemma fill_progress:
  "fill gc r = (r', None) \<Longrightarrow> r' = r \<or> remaining (r_r r') < remaining (r_r r) \<or>
     remaining (r_r r') = remaining (r_r r) \<and> r_n r' - r_end r' < r_n r - r_end r"
proof (induction gc r rule: fill.induct)
  case (1 gc r)
  show ?case
  proof (cases "r_begin r \<noteq> r_end r \<or> r_last r")
    case True
    then show ?thesis using "1.prems" by (auto simp add: fill.simps [of gc r] split: if_splits)
  next
    case False
    then obtain r1 where n: "nextChunk gc r False = (r1, None)"
      using "1.prems" by (auto simp add: fill.simps [of gc r] split: prod.splits option.splits)
    from False n "1.prems" "1.IH" [OF _ _ n [symmetric] refl] nextChunk_progress [OF n] show ?thesis
      by (auto simp add: fill.simps [of gc r])
  qed
qed

lemma Read_progress:
  assumes "singleReader_Read gc x k r = (r', Inr p)" and "p \<noteq> []"
  shows "remaining (r_r r') < remaining (r_r r) \<or>
    remaining (r_r r') = remaining (r_r r) \<and>
    (r_n r' - r_end r' < r_n r - r_end r \<or>
     r_n r' - r_end r' = r_n r - r_end r \<and> r_end r' - r_begin r' < r_end r - r_begin r)"
proof -
  from assms(1) obtain r1 where f: "fill gc r = (r1, None)"
    and p: "p = take k (slice (r_begin r1) (r_end r1) (r_buf r1))" "r' = r1\<lparr>r_begin := r_begin r1 + length p\<rparr>"
    by (auto simp add: singleReader_Read_def Let_def split: if_splits option.splits prod.splits)
  from assms(2) p(1) have "r_begin r1 < r_end r1"
    by (metis leI slice_empty take_Nil)
  moreover obtain a q where "p = a # q" using assms(2) by (cases p) auto
  ultimately show ?thesis using fill_progress [OF f] p(2) by auto
qed

function ReadAll ::
    "(bytes \<Rightarrow> 'e + aead) \<Rightarrow> nat \<Rightarrow> nat \<Rightarrow> bytes \<Rightarrow> 'e Reader \<Rightarrow> 'e Reader \<times> ('e rec_error + bytes)" where
  "ReadAll gc k x acc r =
     (case singleReader_Read gc x (Suc k) r of
        (r1, Inl e) \<Rightarrow> (r1, if e = RFile Eof then Inr acc else Inl e)
      | (r1, Inr p) \<Rightarrow> if p = [] then (r1, Inr acc) else ReadAll gc k x (acc @ p) r1)"
  by pat_completeness auto
termination
  by (relation "measures [\<lambda>(gc, k, x, acc, r). remaining (r_r r), \<lambda>(gc, k, x, acc, r). r_n r - r_end r,
        \<lambda>(gc, k, x, acc, r). r_end r - r_begin r]")
    (auto dest!: Read_progress [OF sym])

declare ReadAll.simps [simp del]

text \<open>No operation moves the reader back.\<close>

definition not_back :: "'e Reader \<Rightarrow> 'e Reader \<Rightarrow> bool" where
  "not_back r r' = (remaining (r_r r') < remaining (r_r r) \<or>
     remaining (r_r r') = remaining (r_r r) \<and> r_n r' - r_end r' \<le> r_n r - r_end r)"

lemma not_back_refl [simp]: "not_back r r"
  by (simp add: not_back_def)

lemma not_back_trans: "not_back r r' \<Longrightarrow> not_back r' r'' \<Longrightarrow> not_back r r''"
  by (auto simp add: not_back_def)

lemma decodeChunk_not_back: "decodeChunk gc r = (r', t) \<Longrightarrow> not_back r r'"
  by (auto simp add: decodeChunk_def not_back_def Let_def split: if_splits sum.splits)

lemma loadBlock_not_back: "loadBlock r b = (r', e) \<Longrightarrow> not_back r r'"
  by (auto simp add: loadBlock_def not_back_def Let_def ReadFull_n_def blockSize_def split: if_splits prod.splits
      dest!: ReadFull_loop_remaining)

lemma nextChunk_not_back: "nextChunk gc r b = (r', e) \<Longrightarrow> not_back r r'"
proof (induction gc r b rule: nextChunk.induct)
  case (1 gc r b)
  obtain r1 t where d: "decodeChunk gc r = (r1, t)" by fastforce
  obtain r2 u where l: "loadBlock r b = (r2, u)" by fastforce
  note nb = decodeChunk_not_back [OF d] loadBlock_not_back [OF l]
  show ?case
  proof (cases "r_end r + legacyHeaderSize \<le> r_n r")
    case True
    have "nextChunk gc r1 b = (r', e) \<Longrightarrow> t = Inr ct \<Longrightarrow> b \<and> ct \<noteq> fullChunkType \<and> ct \<noteq> firstChunkType \<Longrightarrow> not_back r r'" for ct
      using "1.IH"(1) [OF True d [symmetric]] nb(1) not_back_trans by blast
    then show ?thesis using "1.prems" True d nb(1)
      by (auto simp add: nextChunk.simps [of gc r b] not_back_def split: if_splits sum.splits)
  next
    case False
    have "nextChunk gc r2 b = (r', e) \<Longrightarrow> u = None \<Longrightarrow> not_back r r'"
      using "1.IH"(2) [OF False l [symmetric]] nb(2) not_back_trans by blast
    then show ?thesis using "1.prems" False l nb(2)
      by (auto simp add: nextChunk.simps [of gc r b] split: option.splits)
  qed
qed

lemma fill_not_back: "fill gc r = (r', e) \<Longrightarrow> not_back r r'"
proof (induction gc r rule: fill.induct)
  case (1 gc r)
  obtain r1 u where n: "nextChunk gc r False = (r1, u)" by fastforce
  have r1: "not_back r (r1\<lparr>r_err := x\<rparr>)" for x
    using nextChunk_not_back [OF n] by (simp add: not_back_def)
  show ?case
  proof (cases "r_begin r \<noteq> r_end r \<or> r_last r \<or> u \<noteq> None")
    case True
    then show ?thesis using "1.prems" n r1 by (auto simp add: fill.simps [of gc r] split: if_splits)
  next
    case False
    then show ?thesis
      using "1.IH" [OF _ _ n [symmetric]] "1.prems" n r1 [of None] not_back_trans by (auto simp add: fill.simps [of gc r])
  qed
qed

lemma Read_not_back: "singleReader_Read gc x k r = (r', p) \<Longrightarrow> not_back r r'"
  by (auto simp add: singleReader_Read_def Let_def not_back_def dest!: fill_not_back
      split: if_splits option.splits prod.splits)

lemma ReadAll_not_back: "ReadAll gc k x acc r = (r', p) \<Longrightarrow> not_back r r'"
proof (induction gc k x acc r rule: ReadAll.induct)
  case (1 gc k x acc r)
  obtain r1 q where q: "singleReader_Read gc x (Suc k) r = (r1, q)" by fastforce
  note r1 = Read_not_back [OF q]
  show ?case
  proof (cases "\<exists>b. q = Inr b \<and> b \<noteq> []")
    case True
    then obtain b where b: "q = Inr b" "b \<noteq> []" by blast
    then have "ReadAll gc k x (acc @ b) r1 = (r', p)"
      using "1.prems" q by (simp add: ReadAll.simps [of gc k x acc r])
    then show ?thesis using "1.IH" [OF q [symmetric] b] r1 not_back_trans by blast
  next
    case False
    then have "r' = r1" using "1.prems" q
      by (auto simp add: ReadAll.simps [of gc k x acc r] split: sum.splits if_splits)
    then show ?thesis using r1 by simp
  qed
qed

lemma Next_progress:
  "Reader_Next gc r = (r', Inr x) \<Longrightarrow> not_back r' r'' \<Longrightarrow>
     remaining (r_r r'') < remaining (r_r r) \<or>
     remaining (r_r r'') = remaining (r_r r) \<and> r_n r'' - r_end r'' < r_n r - r_end r"
  by (auto simp add: Reader_Next_def Let_def not_back_def dest!: nextChunk_progress split: option.splits prod.splits)

function ReadRecords :: "(bytes \<Rightarrow> 'e + aead) \<Rightarrow> nat \<Rightarrow> 'e Reader \<Rightarrow> bytes list \<times> 'e rec_error" where
  "ReadRecords gc k r =
     (case Reader_Next gc r of
        (r1, Inl e) \<Rightarrow> ([], e)
      | (r1, Inr x) \<Rightarrow>
          (case ReadAll gc k x [] r1 of
             (r2, Inl e) \<Rightarrow> ([], e)
           | (r2, Inr p) \<Rightarrow> map_prod (Cons p) id (ReadRecords gc k r2)))"
  by pat_completeness auto
termination
  by (relation "measures [\<lambda>(gc, k, r). remaining (r_r r), \<lambda>(gc, k, r). r_n r - r_end r]")
    (auto dest!: Next_progress [OF sym] ReadAll_not_back [OF sym])

declare ReadRecords.simps [simp del]

end
