(* ===== verification/RecordProofs.thy ===== *)
theory RecordProofs
  imports RecordLog
begin

text \<open>
  Correctness of the record log: the reader, which works on a buffer of one block, against the
  whole file; the layout of a log; and the writer, which produces that layout.
\<close>

section \<open>The reader over the whole file\<close>

text \<open>
  Where the next chunk after \<open>pos\<close> is in the file \<open>d\<close>, without buffering: its payload's
  bounds; or that the file ends there (at a block boundary or not); or that what follows is no
  chunk. The rest of a block that has no room for a header is skipped.
\<close>

datatype loc = AtEnd bool | NoChunk | At nat nat

function locate :: "bytes \<Rightarrow> nat \<Rightarrow> loc" where
  "locate d pos =
     (let be = (pos div blockSize + 1) * blockSize; bn = min be (length d)
      in if pos mod blockSize = 0 \<and> length d \<le> pos then AtEnd True
         else if pos + legacyHeaderSize \<le> bn then
           let b = pos + legacyHeaderSize;
               e = b + unat (le_decode (slice (pos + 16) (pos + 18) d) :: u16)
           in if bn < e then NoChunk else At b e
         else if length d < be then if pos = length d then AtEnd False else NoChunk
         else locate d be)"
  by pat_completeness auto
termination
proof (relation "measure (\<lambda>(d, pos). length d - pos)", goal_cases)
  case (2 d pos be bn)
  have "pos < (pos div blockSize + 1) * blockSize"
    using dividend_less_div_times [of blockSize pos] by (simp add: blockSize_def)
  then show ?case using 2 by auto
qed simp

declare locate.simps [simp del]

text \<open>The reader's buffer agrees with the file, and the next unread byte is at \<open>pos\<close>.\<close>

definition reader_at :: "'e Reader \<Rightarrow> bytes \<Rightarrow> nat \<Rightarrow> bool" where
  "reader_at r d pos =
     (length (r_buf r) = blockSize \<and> injector (r_r r) = [] \<and>
      (if r_blockNum r < 0
       then r_blockNum r = -1 \<and> r_n r = 0 \<and> r_end r = 0 \<and> pos = 0 \<and> file_at (r_r r) d 0
       else let m = nat (r_blockNum r) * blockSize
            in pos = m + r_end r \<and> r_end r \<le> r_n r \<and> m < length d \<and> r_n r = min blockSize (length d - m) \<and>
               file_at (r_r r) d (m + r_n r) \<and> slice (r_end r) (r_n r) (r_buf r) = slice pos (m + r_n r) d))"

lemma blockSize_pos [simp]: "0 < blockSize" "blockSize \<noteq> 0" "legacyHeaderSize < blockSize" "legacyHeaderSize = 19"
  by (simp_all add: blockSize_def legacyHeaderSize_def)

lemma slice_sub:
  assumes "slice a b xs = slice c d ys" and "a \<le> a'" and "a' \<le> b'" and "b' \<le> b" and "b - a = d - c" and "c \<le> d"
  shows "slice a' b' xs = slice (c + (a' - a)) (c + (b' - a)) ys"
proof -
  have "slice (a' - a) (b' - a) (slice a b xs) = slice a' b' xs"
    using assms(2-4) by (simp add: slice_slice min_def)
  moreover have "min d (c + (b' - a)) = c + (b' - a)" using assms(2-6) by arith
  then have "slice (a' - a) (b' - a) (slice c d ys) = slice (c + (a' - a)) (c + (b' - a)) ys"
    by (simp only: slice_slice)
  ultimately show ?thesis using assms(1) by simp
qed

definition keeps :: "'e Reader \<Rightarrow> 'e Reader \<Rightarrow> bool" where
  "keeps r r' = (r_EncryptionKey r' = r_EncryptionKey r \<and> r_chunkNum r' = r_chunkNum r \<and>
     r_seq r' = r_seq r \<and> r_err r' = r_err r)"

lemma keeps_refl [simp]: "keeps r r"
  by (simp add: keeps_def)

lemma loadBlock_eof:
  assumes "file_at (r_r r) d q" and "injector (r_r r) = []" and "length d \<le> q"
    and "\<not> (r_n r < blockSize \<and> 0 \<le> r_blockNum r)"
  shows "\<exists>r'. loadBlock r wantFirst = (r', Some (RFile (if wantFirst then Eof else UnexpectedEof)))"
  using assms ReadFull_n_eof [OF assms(1-3)] by (auto simp add: loadBlock_def Let_def)

lemma loadBlock_next:
  assumes "file_at (r_r r) d (k * blockSize)" and "injector (r_r r) = []" and "k * blockSize < length d"
    and "\<not> (r_n r < blockSize \<and> 0 \<le> r_blockNum r)" and "r_blockNum r + 1 = int k" and "length (r_buf r) = blockSize"
  shows "\<exists>r'. loadBlock r wantFirst = (r', None) \<and> reader_at r' d (k * blockSize) \<and>
           r_blockNum r' = int k \<and> r_end r' = 0 \<and> keeps r r'"
proof -
  let ?q = "k * blockSize" and ?n = "min blockSize (length d - k * blockSize)"
  have "\<exists>f e. ReadFull_n (r_r r) blockSize = (f, slice ?q (?q + ?n) d, e) \<and> (e = None \<or> e = Some UnexpectedEof) \<and>
          file_at f d (?q + ?n) \<and> injector f = []"
  proof (cases "?q + blockSize \<le> length d")
    case True
    then have "?n = blockSize" by simp
    then show ?thesis
      using ReadFull_n_ok [OF assms(1,2) True] by (auto simp add: slice_def)
  next
    case False
    then have "?q + ?n = length d" using assms(3) by simp
    then show ?thesis
      using ReadFull_n_short [OF assms(1-3), of blockSize] False by (auto simp add: slice_def)
  qed
  then obtain f e where rf: "ReadFull_n (r_r r) blockSize = (f, slice ?q (?q + ?n) d, e)"
    "e = None \<or> e = Some UnexpectedEof" "file_at f d (?q + ?n)" "injector f = []" by blast
  let ?p = "slice ?q (?q + ?n) d"
  have len: "length ?p = ?n" using assms(3) by auto
  let ?r = "r\<lparr>r_r := f, r_buf := copy_at 0 ?p (r_buf r), r_begin := 0, r_end := 0, r_n := ?n,
              r_blockNum := r_blockNum r + 1\<rparr>"
  have "loadBlock r wantFirst = (?r, None)"
    using assms(4) rf(1,2) len by (auto simp add: loadBlock_def Let_def)
  moreover have "slice 0 ?n (copy_at 0 ?p (r_buf r)) = ?p"
    by (rule slice_copy_same) (use assms(6) len in auto)
  then have "reader_at ?r d ?q"
    using assms(3,5,6) rf(3,4) by (auto simp add: reader_at_def Let_def)
  ultimately show ?thesis using assms(5) by (intro exI [of _ ?r]) (simp add: keeps_def)
qed

text \<open>
  The loop brings the reader to the chunk that \<open>locate\<close> finds, or ends with an error.
\<close>

lemma mod_block: "(m * blockSize + x) mod blockSize = x mod blockSize" "x < blockSize \<Longrightarrow> (m * blockSize + x) div blockSize = m"
  by simp_all

lemma locate_boundary_skip:
  assumes "x < blockSize" and "blockSize < x + 19" and "(m + 1) * blockSize \<le> length d"
  shows "locate d (m * blockSize + x) = locate d ((m + 1) * blockSize)"
  using assms
  by (subst locate.simps) (auto simp add: Let_def mod_block)


lemma reader_at_block:
  assumes "reader_at r d pos" and "0 < r_n r"
  obtains m where "r_blockNum r = int m" and "pos = m * blockSize + r_end r" and "r_end r \<le> r_n r"
    and "m * blockSize < length d" and "r_n r = min blockSize (length d - m * blockSize)"
    and "file_at (r_r r) d (m * blockSize + r_n r)"
    and "slice (r_end r) (r_n r) (r_buf r) = slice pos (m * blockSize + r_n r) d"
    and "length (r_buf r) = blockSize" and "injector (r_r r) = []"
proof -
  from assms have "\<not> r_blockNum r < 0" by (auto simp add: reader_at_def)
  then obtain m where m: "r_blockNum r = int m" by (metis linorder_not_less nonneg_int_cases)
  have nn: "\<not> int m < 0" by simp
  have "pos = m * blockSize + r_end r \<and> r_end r \<le> r_n r \<and> m * blockSize < length d \<and>
      r_n r = min blockSize (length d - m * blockSize) \<and> file_at (r_r r) d (m * blockSize + r_n r) \<and>
      slice (r_end r) (r_n r) (r_buf r) = slice pos (m * blockSize + r_n r) d \<and>
      length (r_buf r) = blockSize \<and> injector (r_r r) = []"
    using assms(1) unfolding reader_at_def Let_def m nat_int if_not_P [OF nn] by blast
  with m show ?thesis using that by blast
qed

lemma locate_in_block:
  assumes "reader_at r d pos" and "r_end r + 19 \<le> r_n r"
  shows "locate d pos =
     (let e = r_end r + 19 + unat (le_decode (slice (r_end r + 16) (r_end r + 18) (r_buf r)) :: u16)
      in if r_n r < e then NoChunk else At (pos + 19) (pos + (e - r_end r)))"
    and "slice (r_end r + 16) (r_end r + 18) (r_buf r) = slice (pos + 16) (pos + 18) d"
proof -
  have "0 < r_n r" using assms(2) by simp
  from reader_at_block [OF assms(1) this] obtain m where
    m: "pos = m * blockSize + r_end r" "r_end r \<le> r_n r" "m * blockSize < length d"
       "r_n r = min blockSize (length d - m * blockSize)"
       "slice (r_end r) (r_n r) (r_buf r) = slice pos (m * blockSize + r_n r) d" by metis
  show sl: "slice (r_end r + 16) (r_end r + 18) (r_buf r) = slice (pos + 16) (pos + 18) d"
    using slice_sub [OF m(5), of "r_end r + 16" "r_end r + 18"] m(1) assms(2) by simp
  have lt: "r_end r < blockSize" using assms(2) m(4) by simp
  have bn: "min ((m + 1) * blockSize) (length d) = m * blockSize + r_n r" using m(3,4) by simp
  have "pos div blockSize = m" using lt m(1) by simp
  then have bn': "min ((pos div blockSize + 1) * blockSize) (length d) = m * blockSize + r_n r" using bn by simp
  have "r_n r \<le> length d - m * blockSize" using m(4) by simp
  then have c1: "\<not> (pos mod blockSize = 0 \<and> length d \<le> pos)" using m(1,3) assms(2) by linarith
  have c2: "pos + legacyHeaderSize \<le> m * blockSize + r_n r" using m(1) assms(2) by simp
  show "locate d pos =
     (let e = r_end r + 19 + unat (le_decode (slice (r_end r + 16) (r_end r + 18) (r_buf r)) :: u16)
      in if r_n r < e then NoChunk else At (pos + 19) (pos + (e - r_end r)))"
    unfolding locate.simps [of d pos] Let_def bn' if_not_P [OF c1] if_P [OF c2] sl
    using m(1) by simp
qed

lemma nextChunk_load:
  assumes "\<not> r_end r + 19 \<le> r_n r"
  shows "nextChunk gc r wantFirst = (case loadBlock r wantFirst of (r1, Some e) \<Rightarrow> (r1, Some e) | (r1, None) \<Rightarrow> nextChunk gc r1 wantFirst)"
  using assms by (subst nextChunk.simps) simp

lemma locate_partial:
  assumes "reader_at r d pos" and "\<not> r_end r + 19 \<le> r_n r" and "r_n r < blockSize" and "0 \<le> r_blockNum r"
  shows "locate d pos = (if pos = length d then AtEnd False else NoChunk)" and "pos = length d \<longleftrightarrow> r_end r = r_n r"
proof -
  let ?m = "nat (r_blockNum r)"
  have m: "pos = ?m * blockSize + r_end r" "r_end r \<le> r_n r" "?m * blockSize < length d"
    "r_n r = min blockSize (length d - ?m * blockSize)" using assms(1,4) by (auto simp add: reader_at_def Let_def)
  have len: "length d = ?m * blockSize + r_n r" using m(3,4) assms(3) by simp
  show "pos = length d \<longleftrightarrow> r_end r = r_n r" using len m(1) by simp
  have lt: "r_end r < blockSize" using m(2) assms(3) by simp
  have "pos div blockSize = ?m" "pos mod blockSize = r_end r" using lt m(1) by simp_all
  then show "locate d pos = (if pos = length d then AtEnd False else NoChunk)"
    using m(1,3) assms(2,3) len by (subst locate.simps) (auto simp add: Let_def)
qed

lemma nextChunk_full_block:
  assumes "reader_at r d pos" and "\<not> r_end r + 19 \<le> r_n r" and "\<not> (r_n r < blockSize \<and> 0 \<le> r_blockNum r)"
  shows "\<exists>k. locate d pos = locate d (k * blockSize) \<and>
     (if length d \<le> k * blockSize
      then locate d pos = AtEnd True \<and>
           (\<exists>r'. nextChunk gc r wantFirst = (r', Some (RFile (if wantFirst then Eof else UnexpectedEof))))
      else \<exists>r'. nextChunk gc r wantFirst = nextChunk gc r' wantFirst \<and> reader_at r' d (k * blockSize) \<and>
             r_blockNum r' = int k \<and> r_end r' = 0 \<and> keeps r r')"
proof -
  have "\<exists>k. locate d pos = locate d (k * blockSize) \<and> file_at (r_r r) d (k * blockSize) \<and> r_blockNum r + 1 = int k"
  proof (cases "r_blockNum r < 0")
    case True
    then show ?thesis using assms(1) by (intro exI [of _ 0]) (simp add: reader_at_def)
  next
    case False
    then have n: "r_n r = blockSize" using assms(1,3) by (simp add: reader_at_def Let_def min_def split: if_splits)
    then have "0 < r_n r" by simp
    from reader_at_block [OF assms(1) this] obtain m where
      m: "r_blockNum r = int m" "pos = m * blockSize + r_end r" "r_end r \<le> r_n r" "m * blockSize < length d"
        "r_n r = min blockSize (length d - m * blockSize)" "file_at (r_r r) d (m * blockSize + r_n r)" by metis
    have "blockSize \<le> length d - m * blockSize" using n m(5) by simp
    then have le: "(m + 1) * blockSize \<le> length d" using m(4) by simp
    have "locate d pos = locate d ((m + 1) * blockSize)"
    proof (cases "r_end r < blockSize")
      case True
      then show ?thesis using locate_boundary_skip [OF True _ le] assms(2) n m(2) by simp
    next
      case False
      then show ?thesis using m(2,3) n by (simp add: add.commute)
    qed
    then show ?thesis using m(1,6) n by (intro exI [of _ "m + 1"]) (simp add: add.commute)
  qed
  then obtain k where k: "locate d pos = locate d (k * blockSize)" "file_at (r_r r) d (k * blockSize)"
    "r_blockNum r + 1 = int k" by blast
  have r: "injector (r_r r) = []" "length (r_buf r) = blockSize" using assms(1) by (simp_all add: reader_at_def)
  show ?thesis
  proof (cases "length d \<le> k * blockSize")
    case True
    then have "locate d (k * blockSize) = AtEnd True" by (subst locate.simps) (simp add: Let_def)
    then show ?thesis
      using loadBlock_eof [OF k(2) r(1) True assms(3), of wantFirst] k(1) True nextChunk_load [OF assms(2), of gc wantFirst]
      by (intro exI [of _ k]) auto
  next
    case False
    then obtain r' where "loadBlock r wantFirst = (r', None)" "reader_at r' d (k * blockSize)" "r_blockNum r' = int k"
      "r_end r' = 0" "keeps r r'"
      using loadBlock_next [OF k(2) r(1) _ assms(3) k(3) r(2), of wantFirst] by auto
    then show ?thesis
      using k(1) False nextChunk_load [OF assms(2), of gc wantFirst] by (intro exI [of _ k]) auto
  qed
qed

text \<open>The three outcomes of looking for a chunk.\<close>

lemma nextChunk_invalid:
  assumes "reader_at r d pos" and "r_end r + 19 \<le> r_n r" and "locate d pos = NoChunk"
  shows "\<exists>r'. nextChunk gc r wantFirst = (r', Some ErrInvalidChunk)"
proof -
  let ?e = "r_end r + 19 + unat (le_decode (slice (r_end r + 16) (r_end r + 18) (r_buf r)) :: u16)"
  have "r_n r < ?e" using assms(3) unfolding locate_in_block(1) [OF assms(1,2)] Let_def by (simp split: if_splits)
  then have "\<exists>r'. decodeChunk gc r = (r', Inl ErrInvalidChunk)" by (simp add: decodeChunk_def Let_def)
  then show ?thesis using assms(2) by (subst nextChunk.simps) auto
qed

definition outcome :: "(bytes \<Rightarrow> 'e + aead) \<Rightarrow> 'e Reader \<Rightarrow> bool \<Rightarrow> bytes \<Rightarrow> loc \<Rightarrow> bool" where
  "outcome gc r wantFirst d l =
     (case l of
        AtEnd a \<Rightarrow> (\<exists>r'. nextChunk gc r wantFirst =
           (r', Some (if wantFirst then RFile Eof else if a then RFile UnexpectedEof else ErrInvalidChunk)))
      | NoChunk \<Rightarrow> (\<exists>r'. nextChunk gc r wantFirst = (r', Some ErrInvalidChunk))
      | At b e \<Rightarrow> (\<exists>r0. nextChunk gc r wantFirst = nextChunk gc r0 wantFirst \<and> reader_at r0 d (b - 19) \<and>
           19 \<le> b \<and> r_end r0 + 19 \<le> r_n r0 \<and> keeps r r0 \<and> locate d (b - 19) = At b e))"

lemma outcome_in_block:
  assumes "reader_at r d pos" and "r_end r + 19 \<le> r_n r"
  shows "outcome gc r wantFirst d (locate d pos)"
proof (cases "locate d pos")
  case (AtEnd a)
  then show ?thesis using locate_in_block(1) [OF assms] by (simp add: Let_def split: if_splits)
next
  case NoChunk
  then show ?thesis using nextChunk_invalid [OF assms NoChunk] by (simp add: outcome_def)
next
  case (At b e)
  then have "b = pos + 19" using locate_in_block(1) [OF assms] by (simp add: Let_def split: if_splits)
  then show ?thesis using assms At by (auto simp add: outcome_def intro!: exI [of _ r])
qed

lemma outcome_partial:
  assumes "reader_at r d pos" and "\<not> r_end r + 19 \<le> r_n r" and "r_n r < blockSize" and "0 \<le> r_blockNum r"
  shows "outcome gc r wantFirst d (locate d pos)"
proof -
  have "nextChunk gc r wantFirst = (r, Some (if \<not> wantFirst \<or> r_end r \<noteq> r_n r then ErrInvalidChunk else RFile Eof))"
    unfolding nextChunk_load [OF assms(2)] loadBlock_def using assms(3,4) by simp
  then show ?thesis
    using locate_partial [OF assms] by (cases "pos = length d") (simp_all add: outcome_def)
qed

lemma nextChunk_outcome:
  assumes "reader_at r d pos"
  shows "outcome gc r wantFirst d (locate d pos)"
proof (cases "r_end r + 19 \<le> r_n r \<or> (r_n r < blockSize \<and> 0 \<le> r_blockNum r)")
  case True
  then show ?thesis using outcome_in_block outcome_partial assms by blast
next
  case False
  from nextChunk_full_block [OF assms, of gc wantFirst] False obtain k where
    k: "locate d pos = locate d (k * blockSize)"
    "if length d \<le> k * blockSize
      then locate d pos = AtEnd True \<and>
           (\<exists>r'. nextChunk gc r wantFirst = (r', Some (RFile (if wantFirst then Eof else UnexpectedEof))))
      else \<exists>r'. nextChunk gc r wantFirst = nextChunk gc r' wantFirst \<and> reader_at r' d (k * blockSize) \<and>
             r_blockNum r' = int k \<and> r_end r' = 0 \<and> keeps r r'" by blast
  show ?thesis
  proof (cases "length d \<le> k * blockSize")
    case True
    then show ?thesis using k(2) by (auto simp add: outcome_def)
  next
    case False
    then obtain r' where r': "nextChunk gc r wantFirst = nextChunk gc r' wantFirst" "reader_at r' d (k * blockSize)"
      "r_blockNum r' = int k" "keeps r r'" "r_end r' = 0" using k(2) by auto
    have "r_n r' \<le> blockSize" "r_end r' = 0" using r'(2,3,5) by (simp_all add: reader_at_def Let_def)
    then have "r_end r' + 19 \<le> r_n r' \<or> (\<not> r_end r' + 19 \<le> r_n r' \<and> r_n r' < blockSize \<and> 0 \<le> r_blockNum r')"
      using r'(3) blockSize_pos(3) by auto
    then have "outcome gc r' wantFirst d (locate d (k * blockSize))"
      using outcome_in_block outcome_partial r'(2) by blast
    then show ?thesis unfolding k(1)
      using r'(1,4) by (auto simp add: outcome_def keeps_def split: loc.splits)
  qed
qed

context cipher_provider
begin

lemma decodeChunk_at:
  assumes "reader_at r d pos" and "r_end r + 19 \<le> r_n r" and "locate d pos = At b e"
    and "get_cipher (r_EncryptionKey r) = Inr c"
  shows "case Open c (edgMakeNonce (r_chunkNum r + 1)) (slice (b - 1) e d @ slice pos (pos + 16) d) [] of
      Inl x \<Rightarrow> \<exists>r'. decodeChunk get_cipher r = (r', Inl ErrInvalidChunk)
    | Inr pt \<Rightarrow> \<exists>r'. decodeChunk get_cipher r = (r', Inr (hd pt)) \<and> pt \<noteq> [] \<and> reader_at r' d e \<and>
        slice (r_begin r') (r_end r') (r_buf r') = tl pt \<and> r_begin r' \<le> r_end r' \<and>
        r_EncryptionKey r' = r_EncryptionKey r \<and> r_chunkNum r' = r_chunkNum r + 1 \<and> r_seq r' = r_seq r \<and> r_err r' = r_err r"
proof -
  have "0 < r_n r" using assms(2) by simp
  from reader_at_block [OF assms(1) this] obtain m where
    m: "r_blockNum r = int m" "pos = m * blockSize + r_end r" "m * blockSize < length d"
       "r_n r = min blockSize (length d - m * blockSize)" "file_at (r_r r) d (m * blockSize + r_n r)"
       "slice (r_end r) (r_n r) (r_buf r) = slice pos (m * blockSize + r_n r) d"
       "length (r_buf r) = blockSize" "injector (r_r r) = []" by metis
  let ?u = "unat (le_decode (slice (r_end r + 16) (r_end r + 18) (r_buf r)) :: u16)"
  let ?e = "r_end r + 19 + ?u"
  have le: "?e \<le> r_n r" and be: "b = pos + 19" "e = m * blockSize + ?e"
    using assms(3) m(2) unfolding locate_in_block(1) [OF assms(1,2)] Let_def by (simp_all split: if_splits)
  have n: "r_n r \<le> blockSize" using m(4) by simp
  have b1: "b - 1 = m * blockSize + (r_end r + 18)" using be(1) m(2) by simp
  have sub: "slice (r_end r + 18) ?e (r_buf r) = slice (b - 1) e d" "slice (r_end r) (r_end r + 16) (r_buf r) = slice pos (pos + 16) d"
    using slice_sub [OF m(6), of "r_end r + 18" ?e] slice_sub [OF m(6), of "r_end r" "r_end r + 16"] le m(2) be(2) b1 assms(2)
    by (simp_all add: add.assoc)
  define ct where "ct = slice (b - 1) e d @ slice pos (pos + 16) d"
  have ctlen: "length ct = ?u + 1 + 16"
  proof -
    have "length (slice (r_end r + 18) ?e (r_buf r)) = ?u + 1" "length (slice (r_end r) (r_end r + 16) (r_buf r)) = 16"
      using le n m(7) by simp_all
    then show ?thesis unfolding ct_def length_append sub(1) sub(2) by (simp only:)
  qed
  let ?r = "\<lambda>pt. r\<lparr>r_begin := r_end r + 19, r_end := ?e, r_chunkNum := r_chunkNum r + 1,
                  r_buf := copy_at (r_end r + 18) pt (r_buf r)\<rparr>"
  have dec: "decodeChunk get_cipher r = (case Open c (edgMakeNonce (r_chunkNum r + 1)) ct [] of
      Inl _ \<Rightarrow> (r\<lparr>r_begin := r_end r + 19, r_end := ?e, r_chunkNum := r_chunkNum r + 1\<rparr>, Inl ErrInvalidChunk)
    | Inr pt \<Rightarrow> (?r pt, Inr (copy_at (r_end r + 18) pt (r_buf r) ! (r_end r + 18))))"
    using le assms(4) sub by (simp add: decodeChunk_def Let_def ct_def add.commute [of 18 "r_end r"] split: sum.splits)
  show ?thesis
  proof (cases "Open c (edgMakeNonce (r_chunkNum r + 1)) ct []")
    case (Inl x)
    then show ?thesis using dec by (simp add: ct_def)
  next
    case (Inr pt)
    have pt: "length pt = ?u + 1"
      using open_length [OF assms(4) Inr] ctlen by (simp add: GCMTagSize_def)
    then obtain t p where tp: "pt = t # p" "length p = ?u" by (cases pt) auto
    have bound: "r_end r + 18 + length pt \<le> length (r_buf r)" using pt le n m(7) by simp
    have "slice (r_end r + 18) ?e (copy_at (r_end r + 18) pt (r_buf r)) = pt"
      by (rule slice_copy_same [OF bound]) (simp add: pt)
    then have pl: "slice (r_end r + 19) ?e (copy_at (r_end r + 18) pt (r_buf r)) = p"
      using slice_slice [of 1 "1 + ?u" "r_end r + 18" ?e "copy_at (r_end r + 18) pt (r_buf r)"] tp
      by (simp add: slice_def add.assoc add.commute [of 19 "r_end r"])
    have hd: "copy_at (r_end r + 18) pt (r_buf r) ! (r_end r + 18) = t"
      using bound tp by (simp add: copy_at_def nth_append)
    have "slice ?e (r_n r) (copy_at (r_end r + 18) pt (r_buf r)) = slice ?e (r_n r) (r_buf r)"
      by (rule slice_copy_after) (use bound pt in auto)
    also have "\<dots> = slice e (m * blockSize + r_n r) d"
      using slice_sub [OF m(6), of ?e "r_n r"] le m(2) be assms(2) by (simp add: add.assoc)
    finally have "reader_at (?r pt) d e"
      using m(1,3-5,7,8) le be bound unfolding reader_at_def Let_def by simp
    then show ?thesis
      unfolding ct_def [symmetric] using dec Inr pl hd tp by simp
  qed
qed

text \<open>The next chunk, if it opens and is one that the caller wants; and if it does not open.\<close>

lemma nextChunk_opens:
  assumes "reader_at r d pos" and "locate d pos = At b e" and "get_cipher (r_EncryptionKey r) = Inr c"
    and "Open c (edgMakeNonce (r_chunkNum r + 1)) (slice (b - 1) e d @ slice (b - 19) (b - 3) d) [] = Inr (t # p)"
    and "wantFirst \<longrightarrow> t = fullChunkType \<or> t = firstChunkType"
  shows "\<exists>r'. nextChunk get_cipher r wantFirst = (r', None) \<and> reader_at r' d e \<and>
     slice (r_begin r') (r_end r') (r_buf r') = p \<and> r_begin r' \<le> r_end r' \<and>
     (r_last r' \<longleftrightarrow> t = fullChunkType \<or> t = lastChunkType) \<and>
     r_EncryptionKey r' = r_EncryptionKey r \<and> r_chunkNum r' = r_chunkNum r + 1 \<and> r_seq r' = r_seq r \<and> r_err r' = r_err r"
proof -
  from nextChunk_outcome [OF assms(1), of get_cipher wantFirst] assms(2) obtain r0 where
    r0: "nextChunk get_cipher r wantFirst = nextChunk get_cipher r0 wantFirst" "reader_at r0 d (b - 19)" "19 \<le> b"
      "r_end r0 + 19 \<le> r_n r0" "keeps r r0" "locate d (b - 19) = At b e" by (auto simp add: outcome_def)
  have k: "get_cipher (r_EncryptionKey r0) = Inr c" "r_chunkNum r0 = r_chunkNum r" "b - 19 + 16 = b - 3"
    using r0(3,5) assms(3) by (simp_all add: keeps_def)
  from decodeChunk_at [OF r0(2,4,6) k(1)] assms(4) k(2,3) obtain r1 where
    r1: "decodeChunk get_cipher r0 = (r1, Inr t)" "reader_at r1 d e" "slice (r_begin r1) (r_end r1) (r_buf r1) = p"
      "r_begin r1 \<le> r_end r1" "r_EncryptionKey r1 = r_EncryptionKey r0" "r_chunkNum r1 = r_chunkNum r0 + 1"
      "r_seq r1 = r_seq r0" "r_err r1 = r_err r0" by auto
  have "nextChunk get_cipher r0 wantFirst =
      (r1\<lparr>r_last := (t = fullChunkType \<or> t = lastChunkType), r_recovering := False\<rparr>, None)"
    using r0(4) r1(1) assms(5) by (subst nextChunk.simps) auto
  then show ?thesis
    using r0(1,5) r1 by (auto simp add: keeps_def reader_at_def)
qed

lemma nextChunk_skips:
  assumes "reader_at r d pos" and "locate d pos = At b e" and "get_cipher (r_EncryptionKey r) = Inr c"
    and "Open c (edgMakeNonce (r_chunkNum r + 1)) (slice (b - 1) e d @ slice (b - 19) (b - 3) d) [] = Inr (t # p)"
    and "t \<noteq> fullChunkType" and "t \<noteq> firstChunkType"
  shows "\<exists>r'. nextChunk get_cipher r True = nextChunk get_cipher r' True \<and> reader_at r' d e \<and>
     r_EncryptionKey r' = r_EncryptionKey r \<and> r_chunkNum r' = r_chunkNum r + 1 \<and> r_seq r' = r_seq r \<and> r_err r' = r_err r"
proof -
  from nextChunk_outcome [OF assms(1), of get_cipher True] assms(2) obtain r0 where
    r0: "nextChunk get_cipher r True = nextChunk get_cipher r0 True" "reader_at r0 d (b - 19)" "19 \<le> b"
      "r_end r0 + 19 \<le> r_n r0" "keeps r r0" "locate d (b - 19) = At b e" by (auto simp add: outcome_def)
  have k: "get_cipher (r_EncryptionKey r0) = Inr c" "r_chunkNum r0 = r_chunkNum r" "b - 19 + 16 = b - 3"
    using r0(3,5) assms(3) by (simp_all add: keeps_def)
  from decodeChunk_at [OF r0(2,4,6) k(1)] assms(4) k(2,3) obtain r1 where
    r1: "decodeChunk get_cipher r0 = (r1, Inr t)" "reader_at r1 d e" "r_EncryptionKey r1 = r_EncryptionKey r0"
      "r_chunkNum r1 = r_chunkNum r0 + 1" "r_seq r1 = r_seq r0" "r_err r1 = r_err r0" by auto
  have "nextChunk get_cipher r0 True = nextChunk get_cipher r1 True"
    using r0(4) r1(1) assms(5,6) by (subst nextChunk.simps) simp
  then show ?thesis using r0(1,5) r1 by (auto simp add: keeps_def)
qed

lemma nextChunk_rejects:
  assumes "reader_at r d pos" and "locate d pos = At b e" and "get_cipher (r_EncryptionKey r) = Inr c"
    and "Open c (edgMakeNonce (r_chunkNum r + 1)) (slice (b - 1) e d @ slice (b - 19) (b - 3) d) [] = Inl x"
  shows "\<exists>r'. nextChunk get_cipher r wantFirst = (r', Some ErrInvalidChunk)"
proof -
  from nextChunk_outcome [OF assms(1), of get_cipher wantFirst] assms(2) obtain r0 where
    r0: "nextChunk get_cipher r wantFirst = nextChunk get_cipher r0 wantFirst" "reader_at r0 d (b - 19)" "19 \<le> b"
      "r_end r0 + 19 \<le> r_n r0" "keeps r r0" "locate d (b - 19) = At b e" by (auto simp add: outcome_def)
  have k: "get_cipher (r_EncryptionKey r0) = Inr c" "r_chunkNum r0 = r_chunkNum r" "b - 19 + 16 = b - 3"
    using r0(3,5) assms(3) by (simp_all add: keeps_def)
  from decodeChunk_at [OF r0(2,4,6) k(1)] assms(4) k(2,3) obtain r1 where
    "decodeChunk get_cipher r0 = (r1, Inl ErrInvalidChunk)" by auto
  then show ?thesis using r0(1,4) by (subst r0(1), subst nextChunk.simps) simp
qed

end

section \<open>The layout of a log\<close>

text \<open>
  A log is a list of chunks, each a type and a payload. \<open>layout c k q cs\<close> is how the chunks
  \<open>cs\<close> are stored from position \<open>q\<close> on when \<open>k\<close> chunks come before them: a block's rest
  that has no room for a header is filled with zeroes, and chunk number \<open>k + 1\<close> is sealed
  with that number as its nonce. \<open>fits\<close> says that no chunk crosses a block boundary.
\<close>

type_synonym chunk = "byte \<times> bytes"

definition pad :: "nat \<Rightarrow> nat" where
  "pad q = (if blockSize < q mod blockSize + legacyHeaderSize then blockSize - q mod blockSize else 0)"

definition enc_chunk :: "aead \<Rightarrow> u64 \<Rightarrow> chunk \<Rightarrow> bytes" where
  "enc_chunk c num ch =
     (case Seal c (edgMakeNonce num) (fst ch # snd ch) [] of
        Inl _ \<Rightarrow> []
      | Inr ct \<Rightarrow> let k = length ct - 16
                  in drop k ct @ le_encode 2 (of_nat (length (snd ch)) :: u16) @ take k ct)"

fun layout :: "aead \<Rightarrow> u64 \<Rightarrow> nat \<Rightarrow> chunk list \<Rightarrow> bytes" where
  "layout c k q [] = []"
| "layout c k q (ch # cs) =
     replicate (pad q) 0 @ enc_chunk c (k + 1) ch @ layout c (k + 1) (q + pad q + 19 + length (snd ch)) cs"

fun fits :: "nat \<Rightarrow> chunk list \<Rightarrow> bool" where
  "fits q [] = True"
| "fits q (ch # cs) =
     ((q + pad q) mod blockSize + 19 + length (snd ch) \<le> blockSize \<and> fits (q + pad q + 19 + length (snd ch)) cs)"

fun layout_end :: "nat \<Rightarrow> chunk list \<Rightarrow> nat" where
  "layout_end q [] = q"
| "layout_end q (ch # cs) = layout_end (q + pad q + 19 + length (snd ch)) cs"

lemma layout_append:
  "layout c k q (cs @ cs') = layout c k q cs @ layout c (k + of_nat (length cs)) (layout_end q cs) cs'"
  by (induction c k q cs rule: layout.induct) (simp_all add: ac_simps)

lemma fits_append: "fits q (cs @ cs') \<longleftrightarrow> fits q cs \<and> fits (layout_end q cs) cs'"
  by (induction q cs rule: fits.induct) auto

lemma layout_end_append: "layout_end q (cs @ cs') = layout_end (layout_end q cs) cs'"
  by (induction q cs rule: layout_end.induct) auto

lemma pad_room: "(q + pad q) mod blockSize + 19 \<le> blockSize"
proof (cases "blockSize < q mod blockSize + 19")
  case True
  have "q mod blockSize + (blockSize - q mod blockSize) = blockSize" by (simp add: less_imp_le)
  then have "(q + (blockSize - q mod blockSize)) mod blockSize = 0"
    by (metis mod_add_left_eq mod_self)
  then show ?thesis using True by (simp add: pad_def blockSize_def)
qed (simp add: pad_def)

lemma length_edgMakeNonce [simp]: "length (edgMakeNonce k) = 12"
  by (simp add: edgMakeNonce_def)

context cipher_provider
begin

lemma enc_chunk_ok:
  assumes "get_cipher key = Inr c" and "length (snd ch) < 2 ^ 16"
  obtains ct tag where "Seal c (edgMakeNonce num) (fst ch # snd ch) [] = Inr (ct @ tag)"
    and "length ct = length (snd ch) + 1" and "length tag = 16"
    and "enc_chunk c num ch = tag @ le_encode 2 (of_nat (length (snd ch)) :: u16) @ ct"
proof -
  have "length (fst ch # snd ch) \<le> gcm_max" using assms(2) by (simp add: gcm_max_def)
  then obtain full where full: "Seal c (edgMakeNonce num) (fst ch # snd ch) [] = Inr full"
    using seal_total [OF assms(1), of "edgMakeNonce num" "fst ch # snd ch" "[]"] by auto
  have len: "length full = length (snd ch) + 1 + 16"
    using seal_length [OF assms(1) full] by (simp add: GCMTagSize_def)
  let ?k = "length full - 16"
  show ?thesis
    by (rule that [of "take ?k full" "drop ?k full"]) (use full len in \<open>simp_all add: enc_chunk_def Let_def\<close>)
qed

lemma length_enc_chunk:
  assumes "get_cipher key = Inr c" and "length (snd ch) < 2 ^ 16"
  shows "length (enc_chunk c num ch) = 19 + length (snd ch)"
proof -
  obtain ct tag where "length ct = length (snd ch) + 1" "length tag = 16"
    "enc_chunk c num ch = tag @ le_encode 2 (of_nat (length (snd ch)) :: u16) @ ct"
    using enc_chunk_ok [OF assms, of num] by metis
  then show ?thesis by simp
qed

lemma length_layout:
  "get_cipher key = Inr c \<Longrightarrow> fits q cs \<Longrightarrow> q + length (layout c k q cs) = layout_end q cs"
proof (induction c k q cs rule: layout.induct)
  case (2 c k q ch cs)
  have "length (snd ch) < 2 ^ 16" using 2(3) by (simp add: blockSize_def)
  then show ?case using 2 length_enc_chunk [OF 2(2), of ch "k + 1"] by simp
qed simp

end

lemma next_block: "(q div blockSize + 1) * blockSize = q + (blockSize - q mod blockSize)"
proof -
  have "q mod blockSize < blockSize" by simp
  moreover have "q = q div blockSize * blockSize + q mod blockSize" by (rule div_mult_mod_eq [symmetric])
  ultimately show ?thesis unfolding add_mult_distrib mult_1 by linarith
qed

lemma locate_here:
  assumes "q mod blockSize + 19 + len \<le> blockSize" and "q + 19 + len \<le> length d"
    and "(le_decode (slice (q + 16) (q + 18) d) :: u16) = of_nat len"
  shows "locate d q = At (q + 19) (q + 19 + len)"
proof -
  have "len < 2 ^ 16" using assms(1) by (simp add: blockSize_def)
  then have u: "unat (of_nat len :: u16) = len" by (simp add: unat_of_nat take_bit_eq_mod)
  have "q + 19 + len \<le> (q div blockSize + 1) * blockSize"
    unfolding next_block using assms(1) by linarith
  then have "q + 19 + len \<le> min ((q div blockSize + 1) * blockSize) (length d)" using assms(2) by simp
  moreover have "\<not> length d \<le> q" using assms(2) by simp
  ultimately show ?thesis by (subst locate.simps) (auto simp add: Let_def assms(3) u not_less)
qed

lemma locate_pad:
  assumes "q + pad q \<le> length d"
  shows "locate d q = locate d (q + pad q)"
proof (cases "blockSize < q mod blockSize + 19")
  case True
  have md: "q mod blockSize < blockSize" by simp
  have be: "(q div blockSize + 1) * blockSize = q + pad q"
    unfolding next_block using True by (simp add: pad_def)
  then have "locate d q = locate d ((q div blockSize + 1) * blockSize)"
    using locate_boundary_skip [of "q mod blockSize" "q div blockSize" d] True assms by simp
  then show ?thesis by (simp only: be)
qed (simp add: pad_def)

lemma pad_twice: "pad (q + pad q) = 0"
  using pad_room [of q] by (simp add: pad_def [of "q + pad q"])

lemma locate_end: "\<exists>a. locate d (length d) = AtEnd a"
proof (cases "length d mod blockSize = 0")
  case True
  then have "locate d (length d) = AtEnd True" by (subst locate.simps) (simp add: Let_def)
  then show ?thesis ..
next
  case False
  have "length d < (length d div blockSize + 1) * blockSize"
    using dividend_less_div_times [of blockSize "length d"] by simp
  then have "locate d (length d) = AtEnd False" using False by (subst locate.simps) (simp add: Let_def)
  then show ?thesis ..
qed

context cipher_provider
begin

lemma locate_layout:
  assumes "get_cipher key = Inr c" and "d = pre @ layout c k (length pre) (ch # cs)" and "fits (length pre) (ch # cs)"
  defines "b \<equiv> length pre + pad (length pre) + 19"
  shows "locate d (length pre) = At b (b + length (snd ch))"
    and "Open c (edgMakeNonce (k + 1)) (slice (b - 1) (b + length (snd ch)) d @ slice (b - 19) (b - 3) d) [] = Inr (fst ch # snd ch)"
proof -
  let ?q = "length pre + pad (length pre)" and ?z = "pre @ replicate (pad (length pre)) 0"
  have len: "length (snd ch) < 2 ^ 16" using assms(3) by (simp add: blockSize_def)
  obtain ct tag where ct: "Seal c (edgMakeNonce (k + 1)) (fst ch # snd ch) [] = Inr (ct @ tag)"
    "length ct = length (snd ch) + 1" "length tag = 16"
    "enc_chunk c (k + 1) ch = tag @ le_encode 2 (of_nat (length (snd ch)) :: u16) @ ct"
    using enc_chunk_ok [OF assms(1) len, of "k + 1"] by metis
  obtain rest where d: "d = ?z @ tag @ le_encode 2 (of_nat (length (snd ch)) :: u16) @ ct @ rest"
    using assms(2) ct(4) by simp
  have z: "length ?z = ?q" by simp
  have s1: "slice (?q + 16) (?q + 18) d = le_encode 2 (of_nat (length (snd ch)) :: u16)"
    unfolding d using ct(3) z by (simp add: slice_def)
  have s2: "slice ?q (?q + 16) d = tag" unfolding d using ct(3) z by (simp add: slice_def)
  have s3: "slice (?q + 18) (?q + 19 + length (snd ch)) d = ct" unfolding d using ct(2,3) z by (simp add: slice_def)
  have dl: "?q + 19 + length (snd ch) \<le> length d" unfolding d using ct(2,3) by simp
  have "locate d ?q = At (?q + 19) (?q + 19 + length (snd ch))"
    by (rule locate_here) (use assms(3) dl s1 in auto)
  then show "locate d (length pre) = At b (b + length (snd ch))"
    using locate_pad [of "length pre" d] dl by (simp add: b_def)
  have "b - 1 = ?q + 18" "b + length (snd ch) = ?q + 19 + length (snd ch)" "b - 19 = ?q" "b - 3 = ?q + 16"
    by (simp_all add: b_def)
  then show "Open c (edgMakeNonce (k + 1)) (slice (b - 1) (b + length (snd ch)) d @ slice (b - 19) (b - 3) d) [] = Inr (fst ch # snd ch)"
    using open_seal [OF assms(1) ct(1)] s2 s3 by (simp only:)
qed

text \<open>Reading the next chunk of a layout, and its end.\<close>

lemma nextChunk_layout:
  assumes "get_cipher (r_EncryptionKey r) = Inr c" and "reader_at r d q" and "r_chunkNum r = k"
    and "d = pre @ layout c k q (ch # cs)" and "q = length pre" and "fits q (ch # cs)"
    and "wantFirst \<longrightarrow> fst ch = fullChunkType \<or> fst ch = firstChunkType"
  shows "\<exists>r'. nextChunk get_cipher r wantFirst = (r', None) \<and> reader_at r' d (layout_end q [ch]) \<and>
     slice (r_begin r') (r_end r') (r_buf r') = snd ch \<and> r_begin r' \<le> r_end r' \<and>
     (r_last r' \<longleftrightarrow> fst ch = fullChunkType \<or> fst ch = lastChunkType) \<and>
     r_EncryptionKey r' = r_EncryptionKey r \<and> r_chunkNum r' = k + 1 \<and> r_seq r' = r_seq r \<and> r_err r' = r_err r"
proof -
  let ?b = "q + pad q + 19"
  have l: "locate d q = At ?b (?b + length (snd ch))"
    "Open c (edgMakeNonce (k + 1)) (slice (?b - 1) (?b + length (snd ch)) d @ slice (?b - 19) (?b - 3) d) [] = Inr (fst ch # snd ch)"
    using locate_layout [OF assms(1), of d pre k ch cs] assms(4-6) by simp_all
  show ?thesis
    using nextChunk_opens [OF assms(2) l(1) assms(1), of "fst ch" "snd ch" wantFirst] l(2) assms(3,7) by simp
qed

end

lemma nextChunk_end:
  assumes "reader_at r d (length d)"
  shows "\<exists>r'. nextChunk gc r True = (r', Some (RFile Eof))"
  using nextChunk_outcome [OF assms, of gc True] locate_end [of d] by (auto simp add: outcome_def)

text \<open>The chunks of a record that was split into pieces.\<close>

fun mid_chunks :: "bytes list \<Rightarrow> chunk list" where
  "mid_chunks [] = []"
| "mid_chunks [p] = [(lastChunkType, p)]"
| "mid_chunks (p # ps) = (middleChunkType, p) # mid_chunks ps"

fun rec_chunks :: "bytes list \<Rightarrow> chunk list" where
  "rec_chunks [] = []"
| "rec_chunks [p] = [(fullChunkType, p)]"
| "rec_chunks (p # ps) = (firstChunkType, p) # mid_chunks ps"

lemmas chunk_types = fullChunkType_def firstChunkType_def middleChunkType_def lastChunkType_def

lemma length_mid_chunks [simp]: "length (mid_chunks ps) = length ps"
  by (induction ps rule: mid_chunks.induct) auto

lemma length_rec_chunks [simp]: "length (rec_chunks ps) = length ps"
  by (cases ps rule: rec_chunks.cases) auto

lemma reader_at_begin [simp]: "reader_at (r\<lparr>r_begin := b\<rparr>) d q = reader_at r d q"
  "reader_at (r\<lparr>r_err := e\<rparr>) d q = reader_at r d q" "reader_at (r\<lparr>r_seq := x\<rparr>) d q = reader_at r d q"
  by (simp_all add: reader_at_def)

lemma reader_at_bounds:
  "reader_at r d q \<Longrightarrow> r_end r \<le> length (r_buf r)"
  by (auto simp add: reader_at_def Let_def split: if_splits)

lemma ReadAll_drain:
  assumes "r_begin r \<le> r_end r" and "r_end r \<le> length (r_buf r)" and "r_seq r = x" and "r_err r = None"
  shows "ReadAll gc n x acc r =
    ReadAll gc n x (acc @ slice (r_begin r) (r_end r) (r_buf r)) (r\<lparr>r_begin := r_end r\<rparr>)"
  using assms
proof (induction "r_end r - r_begin r" arbitrary: r acc rule: less_induct)
  case less
  show ?case
  proof (cases "r_begin r = r_end r")
    case False
    let ?s = "slice (r_begin r) (r_end r) (r_buf r)"
    define k where "k = min (Suc n) (r_end r - r_begin r)"
    have k: "0 < k" "r_begin r + k \<le> r_end r" using False less.prems(1) by (simp_all add: k_def)
    let ?p = "slice (r_begin r) (r_begin r + k) (r_buf r)" and ?r = "r\<lparr>r_begin := r_begin r + k\<rparr>"
    have "min (r_end r) (r_begin r + Suc n) = r_begin r + k" unfolding k_def using less.prems(1) by arith
    then have p: "take (Suc n) ?s = ?p" by (simp only: take_slice)
    have len: "length ?p = k" using k less.prems(2) by simp
    then have "?p \<noteq> []" using k(1) by (metis list.size(3) less_irrefl)
    moreover have "singleReader_Read gc x (Suc n) r = (?r, Inr ?p)"
      using less.prems False len p
      by (simp add: singleReader_Read_def fill.simps [of gc r] Let_def k_def [symmetric] min.commute [of _ "Suc n"])
    ultimately have "ReadAll gc n x acc r = ReadAll gc n x (acc @ ?p) ?r"
      by (simp add: ReadAll.simps [of gc n x acc r])
    also have "\<dots> = ReadAll gc n x ((acc @ ?p) @ slice (r_begin r + k) (r_end r) (r_buf r)) (r\<lparr>r_begin := r_end r\<rparr>)"
      using less.hyps [of ?r "acc @ ?p"] less.prems k by simp
    finally show ?thesis using slice_append [of "r_begin r" "r_begin r + k" "r_end r" "r_buf r"] k by simp
  next
    case True
    then have u: "r\<lparr>r_begin := r_end r\<rparr> = r" by (cases r) simp
    show ?thesis unfolding u using True by simp
  qed
qed

lemma ReadAll_last:
  assumes "r_begin r = r_end r" and "r_last r" and "r_seq r = x" and "r_err r = None"
  shows "ReadAll gc n x acc r = (r, Inr acc)"
  using assms by (simp add: ReadAll.simps [of gc n x acc r] singleReader_Read_def fill.simps [of gc r])

lemma ReadAll_more:
  assumes "r_begin r = r_end r" and "\<not> r_last r" and "r_seq r = x" and "r_err r = None"
    and "nextChunk gc r False = (r', None)" and "r_seq r' = x" and "r_err r' = None"
  shows "ReadAll gc n x acc r = ReadAll gc n x acc r'"
proof -
  have "r'\<lparr>r_err := None\<rparr> = r'" using assms(7) by simp
  then have "fill gc r = fill gc r'" using assms(1,2,5) by (simp add: fill.simps [of gc r])
  then have "singleReader_Read gc x (Suc n) r = singleReader_Read gc x (Suc n) r'"
    using assms(3,4,6,7) by (simp add: singleReader_Read_def)
  then show ?thesis by (simp add: ReadAll.simps [of gc n x acc r] ReadAll.simps [of gc n x acc r'])
qed

lemma ReadAll_error:
  assumes "r_begin r = r_end r" and "\<not> r_last r" and "r_seq r = x" and "r_err r = None"
    and "nextChunk gc r False = (r', Some e)" and "e \<noteq> RFile Eof"
  shows "\<exists>r''. ReadAll gc n x acc r = (r'', Inl e)"
  using assms by (simp add: ReadAll.simps [of gc n x acc r] singleReader_Read_def fill.simps [of gc r])

context cipher_provider
begin

lemma ReadAll_layout:
  assumes "get_cipher (r_EncryptionKey r) = Inr c" and "reader_at r d q" and "r_chunkNum r = k"
    and "d = pre @ layout c k q (mid_chunks ps @ cs)" and "q = length pre" and "fits q (mid_chunks ps @ cs)"
    and "r_seq r = x" and "r_err r = None" and "r_begin r \<le> r_end r" and "r_last r \<longleftrightarrow> ps = []"
  shows "\<exists>r'. ReadAll get_cipher n x acc r = (r', Inr (acc @ slice (r_begin r) (r_end r) (r_buf r) @ concat ps)) \<and>
     reader_at r' d (layout_end q (mid_chunks ps)) \<and> r_EncryptionKey r' = r_EncryptionKey r \<and>
     r_chunkNum r' = k + of_nat (length ps) \<and> r_err r' = None"
  using assms
proof (induction ps arbitrary: r q k pre acc)
  case Nil
  then show ?case
    using ReadAll_drain [OF Nil(9) reader_at_bounds [OF Nil(2)] Nil(7,8), of get_cipher n acc]
      ReadAll_last [of "r\<lparr>r_begin := r_end r\<rparr>" x get_cipher n] by simp
next
  case (Cons p ps)
  let ?s = "slice (r_begin r) (r_end r) (r_buf r)" and ?r = "r\<lparr>r_begin := r_end r\<rparr>"
  define t where "t = (if ps = [] then lastChunkType else middleChunkType)"
  have mid: "mid_chunks (p # ps) = (t, p) # mid_chunks ps" by (cases ps) (simp_all add: t_def)
  have drain: "ReadAll get_cipher n x acc r = ReadAll get_cipher n x (acc @ ?s) ?r"
    by (rule ReadAll_drain [OF Cons.prems(9) reader_at_bounds [OF Cons.prems(2)] Cons.prems(7,8)])
  have d: "d = pre @ layout c k q ((t, p) # mid_chunks ps @ cs)" "fits q ((t, p) # mid_chunks ps @ cs)"
    using Cons.prems(4,6) by (simp_all add: mid)
  from nextChunk_layout [of ?r, OF _ _ _ d(1) Cons.prems(5) d(2), of False] Cons.prems(1-3,7,8)
  obtain r' where r': "nextChunk get_cipher ?r False = (r', None)" "reader_at r' d (layout_end q [(t, p)])"
    "slice (r_begin r') (r_end r') (r_buf r') = p" "r_begin r' \<le> r_end r'"
    "r_last r' \<longleftrightarrow> t = fullChunkType \<or> t = lastChunkType"
    "r_EncryptionKey r' = r_EncryptionKey r" "r_chunkNum r' = k + 1" "r_seq r' = x" "r_err r' = None" by auto
  have "ReadAll get_cipher n x (acc @ ?s) ?r = ReadAll get_cipher n x (acc @ ?s) r'"
    by (rule ReadAll_more) (use Cons.prems r' in auto)
  moreover let ?pre = "pre @ layout c k q [(t, p)]"
  have fit1: "fits q [(t, p)]" using d(2) by simp
  have len: "length ?pre = layout_end q [(t, p)]"
    using length_layout [OF Cons.prems(1) fit1, of k] Cons.prems(5) by simp
  have "d = ?pre @ layout c (k + 1) (layout_end q [(t, p)]) (mid_chunks ps @ cs)"
    using d(1) by simp
  moreover have "r_last r' \<longleftrightarrow> ps = []" using r'(5) by (simp add: t_def chunk_types)
  ultimately show ?case
    using Cons.IH [of r' "layout_end q [(t, p)]" "k + 1" ?pre "acc @ ?s"] r' Cons.prems(1) len d(2) drain
    by (auto simp add: mid ac_simps)
qed

lemma ReadRecords_layout:
  assumes "get_cipher (r_EncryptionKey r) = Inr c" and "reader_at r d q" and "r_chunkNum r = k"
    and "d = pre @ layout c k q (concat (map rec_chunks pss))" and "q = length pre"
    and "fits q (concat (map rec_chunks pss))" and "r_err r = None" and "[] \<notin> set pss"
  shows "ReadRecords get_cipher n r = (map concat pss, RFile Eof)"
  using assms
proof (induction pss arbitrary: r q k pre)
  case Nil
  let ?r = "r\<lparr>r_seq := r_seq r + 1, r_begin := r_end r\<rparr>"
  have "reader_at ?r d (length d)" using Nil by simp
  from nextChunk_end [OF this, of get_cipher] Nil(7) show ?case
    by (auto simp add: ReadRecords.simps [of get_cipher n r] Reader_Next_def Let_def)
next
  case (Cons ps pss)
  then obtain p ps' where ps: "ps = p # ps'" by (cases ps) auto
  define t where "t = (if ps' = [] then fullChunkType else firstChunkType)"
  let ?more = "concat (map rec_chunks pss)"
  have rc: "rec_chunks ps = (t, p) # mid_chunks ps'" by (cases ps') (simp_all add: ps t_def)
  have t: "t = fullChunkType \<or> t = firstChunkType" by (simp add: t_def)
  let ?r = "r\<lparr>r_seq := r_seq r + 1, r_begin := r_end r\<rparr>"
  have d: "d = pre @ layout c k q ((t, p) # mid_chunks ps' @ ?more)" "fits q ((t, p) # mid_chunks ps' @ ?more)"
    using Cons.prems(4,6) by (simp_all add: rc)
  from nextChunk_layout [of ?r, OF _ _ _ d(1) Cons.prems(5) d(2), of True] Cons.prems(1-3,7)
  obtain r1 where r1: "nextChunk get_cipher ?r True = (r1, None)" "reader_at r1 d (layout_end q [(t, p)])"
    "slice (r_begin r1) (r_end r1) (r_buf r1) = p" "r_begin r1 \<le> r_end r1"
    "r_last r1 \<longleftrightarrow> t = fullChunkType \<or> t = lastChunkType" "r_EncryptionKey r1 = r_EncryptionKey r"
    "r_chunkNum r1 = k + 1" "r_seq r1 = r_seq r + 1" "r_err r1 = None" using t by auto
  let ?q = "layout_end q [(t, p)]" and ?pre = "pre @ layout c k q [(t, p)]"
  have d1: "d = ?pre @ layout c (k + 1) ?q (mid_chunks ps' @ ?more)" "?q = length ?pre" "fits ?q (mid_chunks ps' @ ?more)"
    using d length_layout [OF Cons.prems(1), of q "[(t, p)]" k] Cons.prems(5) by simp_all
  have last: "r_last r1 \<longleftrightarrow> ps' = []" using r1(5) by (simp add: t_def chunk_types)
  from ReadAll_layout [of r1 c d ?q "k + 1" ?pre, OF _ r1(2,7) d1 r1(8,9,4) last, of n "[]"] Cons.prems(1) r1(3,6)
  obtain r2 where r2: "ReadAll get_cipher n (r_seq r + 1) [] r1 = (r2, Inr (p @ concat ps'))"
    "reader_at r2 d (layout_end ?q (mid_chunks ps'))" "r_EncryptionKey r2 = r_EncryptionKey r"
    "r_chunkNum r2 = k + 1 + of_nat (length ps')" "r_err r2 = None" by auto
  let ?pre2 = "?pre @ layout c (k + 1) ?q (mid_chunks ps')" and ?q2 = "layout_end ?q (mid_chunks ps')"
  have "d = ?pre2 @ layout c (k + 1 + of_nat (length ps')) ?q2 ?more" "?q2 = length ?pre2" "fits ?q2 ?more"
    using d1 length_layout [OF Cons.prems(1), of ?q "mid_chunks ps'" "k + 1"]
    by (simp_all add: layout_append fits_append)
  then have "ReadRecords get_cipher n r2 = (map concat pss, RFile Eof)"
    using Cons.IH [of r2 ?q2 "k + 1 + of_nat (length ps')" ?pre2] Cons.prems(1,8) r2 by simp
  moreover have "Reader_Next get_cipher r = (r1, Inr (r_seq r + 1))"
    using r1 Cons.prems(7) by (simp add: Reader_Next_def Let_def)
  ultimately show ?case using r2(1) by (simp add: ReadRecords.simps [of get_cipher n r] ps)
qed

end

section \<open>Logs from elsewhere\<close>

text \<open>
  The ciphertext and tag of each chunk of a file, and a forgery: a chunk of \<open>d'\<close> that opens
  under the nonce of its number although the log \<open>d\<close> has no such chunk at that number.
\<close>

lemma locate_At: "locate d pos = At b e \<Longrightarrow> pos + 19 \<le> b \<and> b \<le> e \<and> e \<le> length d"
proof (induction d pos rule: locate.induct)
  case (1 d pos)
  have "pos < (pos div blockSize + 1) * blockSize"
    using dividend_less_div_times [of blockSize pos] by simp
  then show ?case
    using "1.prems" "1.IH" [OF refl refl]
    by (subst (asm) locate.simps) (auto simp add: Let_def split: if_splits)
qed

function stored_chunks :: "bytes \<Rightarrow> nat \<Rightarrow> (bytes \<times> bytes) list" where
  "stored_chunks d pos =
     (case locate d pos of
        At b e \<Rightarrow> (slice (b - 1) e d, slice (b - 19) (b - 3) d) # stored_chunks d e
      | _ \<Rightarrow> [])"
  by pat_completeness auto
termination
  by (relation "measure (\<lambda>(d, pos). length d - pos)") (auto dest: locate_At)

declare stored_chunks.simps [simp del]

definition forged :: "aead \<Rightarrow> bytes \<Rightarrow> bytes \<Rightarrow> bool" where
  "forged c d d' =
     (let xs = stored_chunks d 0; ys = stored_chunks d' 0
      in list_ex (\<lambda>i. (case Open c (edgMakeNonce (of_nat i + 1)) (fst (ys ! i) @ snd (ys ! i)) [] of Inl _ \<Rightarrow> False | Inr _ \<Rightarrow> True) \<and>
                      (length xs \<le> i \<or> xs ! i \<noteq> ys ! i)) [0..<length ys])"

lemma not_forgedD:
  assumes "\<not> forged c d d'" and "i < length (stored_chunks d' 0)"
    and "Open c (edgMakeNonce (of_nat i + 1)) (fst (stored_chunks d' 0 ! i) @ snd (stored_chunks d' 0 ! i)) [] = Inr pt"
  shows "i < length (stored_chunks d 0) \<and> stored_chunks d 0 ! i = stored_chunks d' 0 ! i"
proof (rule ccontr)
  assume "\<not> ?thesis"
  then have "forged c d d'"
    using assms(2,3) unfolding forged_def Let_def list_ex_iff by (intro bexI [of _ i]) auto
  then show False using assms(1) by simp
qed

text \<open>
  A reader on \<open>d'\<close> that has read \<open>i\<close> chunks. Without a forgery the next chunk it accepts is
  chunk \<open>i\<close> of the log \<open>d\<close>.
\<close>

definition reading :: "bytes \<Rightarrow> bytes \<Rightarrow> nat \<Rightarrow> 'e Reader \<Rightarrow> bool" where
  "reading key d' i r =
     (r_EncryptionKey r = key \<and> r_chunkNum r = of_nat i \<and> r_err r = None \<and>
      (\<exists>pos. reader_at r d' pos \<and> stored_chunks d' 0 = take i (stored_chunks d' 0) @ stored_chunks d' pos \<and>
             i \<le> length (stored_chunks d' 0)))"

lemma reading_begin [simp]:
  "reading key d' i (r\<lparr>r_begin := b\<rparr>) = reading key d' i r" "reading key d' i (r\<lparr>r_seq := x\<rparr>) = reading key d' i r"
  by (simp_all add: reading_def)

lemma reading_bounds: "reading key d' i r \<Longrightarrow> r_end r \<le> length (r_buf r)"
  by (auto simp add: reading_def dest: reader_at_bounds)

context cipher_provider
begin

lemma stored_layout:
  assumes "get_cipher key = Inr c" and "d = pre @ layout c k q cs" and "q = length pre" and "fits q cs"
  shows "length (stored_chunks d q) = length cs \<and>
    (\<forall>i < length cs. Open c (edgMakeNonce (k + of_nat i + 1)) (fst (stored_chunks d q ! i) @ snd (stored_chunks d q ! i)) []
       = Inr (fst (cs ! i) # snd (cs ! i)))"
  using assms(2-4)
proof (induction cs arbitrary: pre k q)
  case Nil
  then show ?case using locate_end [of pre] by (auto simp add: stored_chunks.simps [of pre "length pre"])
next
  case (Cons ch cs)
  let ?b = "q + pad q + 19" and ?pre = "pre @ layout c k q [ch]"
  have l: "locate d q = At ?b (?b + length (snd ch))"
    "Open c (edgMakeNonce (k + 1)) (slice (?b - 1) (?b + length (snd ch)) d @ slice (?b - 19) (?b - 3) d) [] = Inr (fst ch # snd ch)"
    using locate_layout [OF assms(1), of d pre k ch cs] Cons.prems by simp_all
  have "length ?pre = ?b + length (snd ch)"
    using length_layout [OF assms(1), of q "[ch]" k] Cons.prems by simp
  then have IH: "length (stored_chunks d (?b + length (snd ch))) = length cs"
    "\<And>i. i < length cs \<Longrightarrow> Open c (edgMakeNonce (k + 1 + of_nat i + 1))
       (fst (stored_chunks d (?b + length (snd ch)) ! i) @ snd (stored_chunks d (?b + length (snd ch)) ! i)) []
       = Inr (fst (cs ! i) # snd (cs ! i))"
    using Cons.IH [of ?pre "k + 1" "?b + length (snd ch)"] Cons.prems by simp_all
  have st: "stored_chunks d q = (slice (?b - 1) (?b + length (snd ch)) d, slice (?b - 19) (?b - 3) d) # stored_chunks d (?b + length (snd ch))"
    by (simp only: stored_chunks.simps [of d q] l(1) loc.case)
  show ?case
  proof (intro conjI allI impI)
    show "length (stored_chunks d q) = length (ch # cs)" unfolding st using IH(1) by simp
    fix i assume "i < length (ch # cs)"
    then show "Open c (edgMakeNonce (k + of_nat i + 1)) (fst (stored_chunks d q ! i) @ snd (stored_chunks d q ! i)) []
       = Inr (fst ((ch # cs) ! i) # snd ((ch # cs) ! i))"
      unfolding st using l(2) IH(2) [of "i - 1"] by (cases i) (simp_all only: nth_Cons_0 nth_Cons_Suc fst_conv snd_conv, simp_all add: ac_simps)
  qed
qed

lemma nextChunk_reading:
  assumes "get_cipher key = Inr c" and d: "d = layout c 0 0 cs" and "fits 0 cs" and nf: "\<not> forged c d d'"
    and rd: "reading key d' i r" and want: "wantFirst \<Longrightarrow> i < length cs \<Longrightarrow> fst (cs ! i) = fullChunkType \<or> fst (cs ! i) = firstChunkType"
  shows "\<exists>r' res. nextChunk get_cipher r wantFirst = (r', res) \<and>
     (case res of
        Some e \<Rightarrow> e = RFile Eof \<longrightarrow> wantFirst
      | None \<Rightarrow> i < length cs \<and> reading key d' (i + 1) r' \<and> slice (r_begin r') (r_end r') (r_buf r') = snd (cs ! i) \<and>
          r_begin r' \<le> r_end r' \<and> r_seq r' = r_seq r \<and>
          (r_last r' \<longleftrightarrow> fst (cs ! i) = fullChunkType \<or> fst (cs ! i) = lastChunkType))"
proof -
  let ?ys = "stored_chunks d' 0"
  from rd obtain pos where r: "r_EncryptionKey r = key" "r_chunkNum r = of_nat i" "r_err r = None" "reader_at r d' pos"
    "?ys = take i ?ys @ stored_chunks d' pos" "i \<le> length ?ys" by (auto simp add: reading_def)
  note out = nextChunk_outcome [OF r(4), of get_cipher wantFirst]
  show ?thesis
  proof (cases "locate d' pos")
    case (At b e)
    let ?y = "(slice (b - 1) e d', slice (b - 19) (b - 3) d')"
    have st: "stored_chunks d' pos = ?y # stored_chunks d' e"
      by (simp only: stored_chunks.simps [of d' pos] At loc.case)
    have i: "i < length ?ys" "?ys ! i = ?y"
      using arg_cong [OF r(5), of length] arg_cong [OF r(5), of "\<lambda>l. l ! i"] r(6) unfolding st
      by (simp_all add: nth_append)
    have step: "?ys = take (i + 1) ?ys @ stored_chunks d' e"
      using r(5) i unfolding st by (simp add: take_Suc_conv_app_nth)
    show ?thesis
    proof (cases "Open c (edgMakeNonce (of_nat i + 1)) (slice (b - 1) e d' @ slice (b - 19) (b - 3) d') []")
      case (Inl x)
      then show ?thesis
        using nextChunk_rejects [OF r(4) At, of c x wantFirst] assms(1) r(1,2) by auto
    next
      case (Inr pt)
      have same: "i < length (stored_chunks d 0)" "stored_chunks d 0 ! i = ?y"
        using not_forgedD [OF nf i(1)] i(2) Inr by simp_all
      have ic: "i < length cs" and "pt = fst (cs ! i) # snd (cs ! i)"
        using stored_layout [OF assms(1), of d "[]" 0 0 cs] d assms(3) same Inr by auto
      then have "\<exists>r'. nextChunk get_cipher r wantFirst = (r', None) \<and> reader_at r' d' e \<and>
         slice (r_begin r') (r_end r') (r_buf r') = snd (cs ! i) \<and> r_begin r' \<le> r_end r' \<and>
         (r_last r' \<longleftrightarrow> fst (cs ! i) = fullChunkType \<or> fst (cs ! i) = lastChunkType) \<and>
         r_EncryptionKey r' = r_EncryptionKey r \<and> r_chunkNum r' = r_chunkNum r + 1 \<and> r_seq r' = r_seq r \<and> r_err r' = r_err r"
        using nextChunk_opens [OF r(4) At, of c "fst (cs ! i)" "snd (cs ! i)" wantFirst] assms(1) r(1,2) Inr want by simp
      then show ?thesis using ic r(1-3) step i(1) by (auto simp add: reading_def add.commute)
    qed
  qed (use out in \<open>auto simp add: outcome_def\<close>)
qed

lemma ReadAll_reading:
  assumes "get_cipher key = Inr c" and "d = layout c 0 0 cs" and "fits 0 cs" and "\<not> forged c d d'"
    and "reading key d' i r" and "drop i cs = mid_chunks ps @ rest" and "r_seq r = x"
    and "r_begin r \<le> r_end r" and "r_last r \<longleftrightarrow> ps = []"
  shows "\<exists>r' res. ReadAll get_cipher n x acc r = (r', res) \<and>
    (\<forall>p. res = Inr p \<longrightarrow> p = acc @ slice (r_begin r) (r_end r) (r_buf r) @ concat ps \<and> reading key d' (i + length ps) r')"
  using assms(5-9)
proof (induction ps arbitrary: r i acc)
  case Nil
  have "r_err r = None" using Nil(1) by (simp add: reading_def)
  then show ?case
    using ReadAll_drain [OF Nil(4) reading_bounds [OF Nil(1)] Nil(3), of get_cipher n acc] Nil
      ReadAll_last [of "r\<lparr>r_begin := r_end r\<rparr>" x get_cipher n] by simp
next
  case (Cons p ps)
  let ?s = "slice (r_begin r) (r_end r) (r_buf r)" and ?r = "r\<lparr>r_begin := r_end r\<rparr>"
  define t where "t = (if ps = [] then lastChunkType else middleChunkType)"
  have mid: "mid_chunks (p # ps) = (t, p) # mid_chunks ps" by (cases ps) (simp_all add: t_def)
  have err: "r_err r = None" using Cons.prems(1) by (simp add: reading_def)
  have drain: "ReadAll get_cipher n x acc r = ReadAll get_cipher n x (acc @ ?s) ?r"
    by (rule ReadAll_drain [OF Cons.prems(4) reading_bounds [OF Cons.prems(1)] Cons.prems(3) err])
  have dr: "drop i cs = (t, p) # mid_chunks ps @ rest" using Cons.prems(2) by (simp add: mid)
  then have ic: "i < length cs" by (metis drop_all linorder_not_less list.distinct(1))
  then have csi: "cs ! i = (t, p)" "drop (i + 1) cs = mid_chunks ps @ rest"
    using dr by (simp_all add: Cons_nth_drop_Suc [symmetric])
  have "reading key d' i ?r" using Cons.prems(1) by simp
  from nextChunk_reading [OF assms(1-4) this, of False] obtain r' res where
    nc: "nextChunk get_cipher ?r False = (r', res)" and
    raw: "case res of
        Some e \<Rightarrow> e = RFile Eof \<longrightarrow> False
      | None \<Rightarrow> i < length cs \<and> reading key d' (i + 1) r' \<and> slice (r_begin r') (r_end r') (r_buf r') = snd (cs ! i) \<and>
          r_begin r' \<le> r_end r' \<and> r_seq r' = r_seq ?r \<and>
          (r_last r' \<longleftrightarrow> fst (cs ! i) = fullChunkType \<or> fst (cs ! i) = lastChunkType)" by blast
  have res: "case res of Some e \<Rightarrow> e \<noteq> RFile Eof
      | None \<Rightarrow> reading key d' (i + 1) r' \<and> slice (r_begin r') (r_end r') (r_buf r') = p \<and> r_begin r' \<le> r_end r' \<and>
          r_seq r' = x \<and> (r_last r' \<longleftrightarrow> t = fullChunkType \<or> t = lastChunkType)"
    using raw csi(1) Cons.prems(3) by (cases res) simp_all
  have last: "\<not> r_last ?r" using Cons.prems(5) by simp
  show ?case
  proof (cases res)
    case None
    then have r': "reading key d' (i + 1) r'" "slice (r_begin r') (r_end r') (r_buf r') = p" "r_begin r' \<le> r_end r'"
      "r_seq r' = x" "r_last r' \<longleftrightarrow> ps = []" "r_err r' = None"
      using res by (auto simp add: t_def chunk_types reading_def)
    have "ReadAll get_cipher n x (acc @ ?s) ?r = ReadAll get_cipher n x (acc @ ?s) r'"
      by (rule ReadAll_more) (use Cons.prems(3) last err nc None r' in auto)
    then show ?thesis using Cons.IH [OF r'(1) csi(2) r'(4,3,5), of "acc @ ?s"] r'(2) drain by simp
  next
    case (Some e)
    then have "\<exists>r''. ReadAll get_cipher n x (acc @ ?s) ?r = (r'', Inl e)"
      by (intro ReadAll_error) (use Cons.prems(3) last err nc res in auto)
    then show ?thesis using drain by auto
  qed
qed

lemma ReadRecords_reading:
  assumes "get_cipher key = Inr c" and "d = layout c 0 0 cs" and "fits 0 cs" and "\<not> forged c d d'"
    and "reading key d' i r" and "drop i cs = concat (map rec_chunks pss)" and "[] \<notin> set pss"
  shows "\<exists>m. fst (ReadRecords get_cipher n r) = take m (map concat pss)"
  using assms(5-7)
proof (induction pss arbitrary: r i)
  case Nil
  have "length cs \<le> i" using Nil(2) by simp
  moreover have "reading key d' i (r\<lparr>r_seq := r_seq r + 1, r_begin := r_end r\<rparr>)" using Nil(1) by simp
  note nextChunk_reading [OF assms(1-4) this, of True]
  moreover have "r_err r = None" using Nil(1) by (simp add: reading_def)
  ultimately show ?case
    by (auto simp add: ReadRecords.simps [of get_cipher n r] Reader_Next_def Let_def split: option.splits)
next
  case (Cons ps pss)
  then obtain p ps' where ps: "ps = p # ps'" by (cases ps) auto
  define t where "t = (if ps' = [] then fullChunkType else firstChunkType)"
  have t: "t = fullChunkType \<or> t = firstChunkType" by (simp add: t_def)
  have rc: "rec_chunks ps = (t, p) # mid_chunks ps'" by (cases ps') (simp_all add: ps t_def)
  let ?more = "concat (map rec_chunks pss)" and ?r = "r\<lparr>r_seq := r_seq r + 1, r_begin := r_end r\<rparr>"
  have dr: "drop i cs = (t, p) # mid_chunks ps' @ ?more" using Cons.prems(2) by (simp add: rc)
  then have ic: "i < length cs" by (metis drop_all linorder_not_less list.distinct(1))
  then have csi: "cs ! i = (t, p)" "drop (i + 1) cs = mid_chunks ps' @ ?more"
    using dr by (simp_all add: Cons_nth_drop_Suc [symmetric])
  have err: "r_err r = None" and "reading key d' i ?r" using Cons.prems(1) by (simp_all add: reading_def)
  from nextChunk_reading [OF assms(1-4) this(2), of True] obtain r1 res where
    nc: "nextChunk get_cipher ?r True = (r1, res)" and
    raw: "case res of
        Some e \<Rightarrow> e = RFile Eof \<longrightarrow> True
      | None \<Rightarrow> i < length cs \<and> reading key d' (i + 1) r1 \<and> slice (r_begin r1) (r_end r1) (r_buf r1) = snd (cs ! i) \<and>
          r_begin r1 \<le> r_end r1 \<and> r_seq r1 = r_seq ?r \<and>
          (r_last r1 \<longleftrightarrow> fst (cs ! i) = fullChunkType \<or> fst (cs ! i) = lastChunkType)"
    using csi(1) t by auto
  have res: "res = None \<Longrightarrow> reading key d' (i + 1) r1 \<and> slice (r_begin r1) (r_end r1) (r_buf r1) = p \<and> r_begin r1 \<le> r_end r1 \<and>
          r_seq r1 = r_seq r + 1 \<and> (r_last r1 \<longleftrightarrow> t = fullChunkType \<or> t = lastChunkType)"
    using raw csi(1) by simp
  show ?case
  proof (cases res)
    case (Some e)
    then have "fst (ReadRecords get_cipher n r) = []"
      using nc err by (simp add: ReadRecords.simps [of get_cipher n r] Reader_Next_def Let_def)
    then show ?thesis by (metis take_0)
  next
    case None
    then have r1: "reading key d' (i + 1) r1" "slice (r_begin r1) (r_end r1) (r_buf r1) = p" "r_begin r1 \<le> r_end r1"
      "r_seq r1 = r_seq r + 1" "r_last r1 \<longleftrightarrow> ps' = []" "r_err r1 = None"
      using res by (auto simp add: t_def chunk_types reading_def)
    have nx: "Reader_Next get_cipher r = (r1, Inr (r_seq r + 1))"
      using nc None err r1(4,6) by (simp add: Reader_Next_def Let_def)
    from ReadAll_reading [OF assms(1-4) r1(1) csi(2) r1(4,3,5), of n "[]"]
    obtain r2 out where all: "ReadAll get_cipher n (r_seq r + 1) [] r1 = (r2, out)" and
      out: "\<And>q. out = Inr q \<Longrightarrow> q = concat ps \<and> reading key d' (i + 1 + length ps') r2"
      unfolding r1(2) ps by auto
    show ?thesis
    proof (cases out)
      case (Inl e)
      then have "fst (ReadRecords get_cipher n r) = []"
        using nx all by (simp add: ReadRecords.simps [of get_cipher n r])
      then show ?thesis by (metis take_0)
    next
      case (Inr q)
      have "drop (i + 1 + length ps') cs = drop (length ps') (drop (i + 1) cs)" by (simp add: ac_simps)
      then have "drop (i + 1 + length ps') cs = ?more" unfolding csi(2) by simp
      then obtain m where "fst (ReadRecords get_cipher n r2) = take m (map concat pss)"
        using Cons.IH [of "i + 1 + length ps'" r2] out [OF Inr] Cons.prems(3) by auto
      then have "fst (ReadRecords get_cipher n r) = take (Suc m) (map concat (ps # pss))"
        using nx all Inr out [OF Inr] by (simp add: ReadRecords.simps [of get_cipher n r])
      then show ?thesis by blast
    qed
  qed
qed

end

section \<open>The writer produces the layout\<close>

text \<open>
  The state of a writer with no errors whose file holds \<open>d\<close>. Either every chunk of \<open>cs\<close> is
  complete in the file and the buffer (\<open>settled\<close>), or another chunk with payload \<open>p\<close>
  is open at \<open>w_i\<close> (\<open>busy\<close>).
\<close>

definition at_end :: "errorFile \<Rightarrow> bytes \<Rightarrow> bool" where
  "at_end f d = (file_at f d (length d) \<and> injector f = [])"

lemma WriteApproved_at_end:
  "at_end f d \<Longrightarrow> \<exists>f'. errorFile_WriteApproved f p = (f', Inr (length p)) \<and> at_end f' (d @ p)"
  unfolding at_end_def using WriteApproved_end [of f d p] by blast

lemma block_19 [simp]: "blockSize \<noteq> 19" "\<not> blockSize < 19" "\<not> blockSize \<le> 19" "19 < blockSize" "19 \<le> blockSize"
  by (simp_all add: blockSize_def)

definition base_ok :: "aead \<Rightarrow> 'e Writer \<Rightarrow> bytes \<Rightarrow> chunk list \<Rightarrow> bool" where
  "base_ok c w d cs =
     (w_err w = None \<and> length (w_buf w) = blockSize \<and> at_end (w_w w) d \<and>
      0 \<le> w_blockNumber w \<and> length d = nat (w_blockNumber w) * blockSize + w_written w \<and>
      w_chunkNum w = of_nat (length cs) \<and> fits 0 cs)"

definition settled :: "aead \<Rightarrow> 'e Writer \<Rightarrow> bytes \<Rightarrow> chunk list \<Rightarrow> bool" where
  "settled c w d cs =
     (base_ok c w d cs \<and> w_written w \<le> w_j w \<and> w_j w \<le> blockSize \<and>
      d @ slice (w_written w) (w_j w) (w_buf w) = layout c 0 0 cs)"

definition busy :: "aead \<Rightarrow> 'e Writer \<Rightarrow> bytes \<Rightarrow> chunk list \<Rightarrow> bytes \<Rightarrow> bool" where
  "busy c w d cs p =
     (base_ok c w d cs \<and> w_pending w \<and> w_written w \<le> w_i w \<and> w_i w + 19 \<le> w_j w \<and> w_j w \<le> blockSize \<and>
      d @ slice (w_written w) (w_i w) (w_buf w) = layout c 0 0 cs @ replicate (pad (layout_end 0 cs)) 0 \<and>
      p = slice (w_i w + 19) (w_j w) (w_buf w))"

definition chunk_type :: "bool \<Rightarrow> bool \<Rightarrow> byte" where
  "chunk_type lst first =
     (if lst then if first then fullChunkType else lastChunkType else if first then firstChunkType else middleChunkType)"

context cipher_provider
begin

lemma fillHeader_busy:
  assumes gc: "get_cipher (w_EncryptionKey w) = Inr c" and "busy c w d cs p"
  shows "\<exists>buf. fillHeader get_cipher lst w = Inr (w\<lparr>w_chunkNum := w_chunkNum w + 1, w_buf := buf\<rparr>) \<and>
     settled c (w\<lparr>w_chunkNum := w_chunkNum w + 1, w_buf := buf\<rparr>) d (cs @ [(chunk_type lst (w_first w), p)])"
proof -
  let ?i = "w_i w" and ?j = "w_j w" and ?t = "chunk_type lst (w_first w)" and ?num = "w_chunkNum w + 1"
  have w: "w_written w \<le> ?i" "?i + 19 \<le> ?j" "?j \<le> blockSize" "length (w_buf w) = blockSize"
    "length d = nat (w_blockNumber w) * blockSize + w_written w" "w_chunkNum w = of_nat (length cs)" "fits 0 cs"
    "d @ slice (w_written w) ?i (w_buf w) = layout c 0 0 cs @ replicate (pad (layout_end 0 cs)) 0"
    "p = slice (?i + 19) ?j (w_buf w)"
    using assms(2) by (simp_all add: busy_def base_ok_def)
  have lp: "length p = ?j - ?i - 19" using w(2-4,9) by simp
  have small: "length (snd (?t, p)) < 2 ^ 16" using lp w(3) by (simp add: blockSize_def)
  obtain ct tag where ct: "Seal c (edgMakeNonce ?num) (?t # p) [] = Inr (ct @ tag)" "length ct = length p + 1"
    "length tag = 16" "enc_chunk c ?num (?t, p) = tag @ le_encode 2 (of_nat (length p) :: u16) @ ct"
    using enc_chunk_ok [OF gc small, of ?num] by (metis fst_conv snd_conv)
  let ?le = "le_encode 2 (of_nat (?j - ?i - 19) :: u16)"
  let ?b1 = "copy_at (?i + 18) [?t] (w_buf w)"
  let ?b2 = "copy_at (?i + 16) ?le ?b1"
  let ?b3 = "copy_at ?i tag ?b2"
  let ?b4 = "copy_at (?i + 18) ct ?b3"
  have l: "length ?b1 = blockSize" "length ?b2 = blockSize" "length ?b3 = blockSize" "length ?b4 = blockSize"
    using w(2-4) by simp_all
  have s2: "slice (?i + 18) ?j ?b2 = ?t # p"
  proof -
    have "slice (?i + 18) (?i + 19) ?b2 = slice (?i + 18) (?i + 19) ?b1"
      by (rule slice_copy_after) (use l w(2,3) in auto)
    also have "\<dots> = [?t]" by (rule slice_copy_same) (use w(2-4) in auto)
    finally have a: "slice (?i + 18) (?i + 19) ?b2 = [?t]" .
    have "slice (?i + 19) ?j ?b2 = slice (?i + 19) ?j ?b1"
      by (rule slice_copy_after) (use l w(2,3) in auto)
    also have "\<dots> = p" unfolding w(9) by (rule slice_copy_after) (use w(2-4) in auto)
    finally show ?thesis using slice_append [of "?i + 18" "?i + 19" ?j ?b2] a w(2) by simp
  qed
  have fill: "fillHeader get_cipher lst w = Inr (w\<lparr>w_chunkNum := ?num, w_buf := ?b4\<rparr>)"
    using w(2,3) gc s2 ct(1-3) by (simp add: fillHeader_def Let_def chunk_type_def)
  have p0: "slice (w_written w) ?i ?b4 = slice (w_written w) ?i (w_buf w)"
    by (simp add: slice_copy_before)
  have "slice ?i (?i + 16) ?b4 = slice ?i (?i + 16) ?b3" by (rule slice_copy_before) simp
  also have "\<dots> = tag" by (rule slice_copy_same) (use l ct(3) w(2,3) in auto)
  finally have p1: "slice ?i (?i + 16) ?b4 = tag" .
  have "slice (?i + 16) (?i + 18) ?b4 = slice (?i + 16) (?i + 18) ?b3" by (rule slice_copy_before) simp
  also have "\<dots> = slice (?i + 16) (?i + 18) ?b2" by (rule slice_copy_after) (use l ct(3) w(2,3) in auto)
  also have "\<dots> = ?le" by (rule slice_copy_same) (use l w(2,3) in auto)
  finally have p2: "slice (?i + 16) (?i + 18) ?b4 = ?le" .
  have p3: "slice (?i + 18) ?j ?b4 = ct" by (rule slice_copy_same) (use l ct(2) lp w(2,3) in auto)
  have "tag @ ?le = slice ?i (?i + 18) ?b4"
    using slice_append [of ?i "?i + 16" "?i + 18" ?b4] unfolding p1 p2 by simp
  moreover have "?i \<le> ?i + 18" "?i + 18 \<le> ?j" using w(2) by simp_all
  note slice_append [OF this, of ?b4, unfolded p3]
  ultimately have "(tag @ ?le) @ ct = slice ?i ?j ?b4" by (simp only:)
  then have enc: "slice ?i ?j ?b4 = enc_chunk c ?num (?t, p)" unfolding ct(4) lp by simp
  have ij: "?i \<le> ?j" using w(2) by simp
  have "d @ slice (w_written w) ?j ?b4 = (d @ slice (w_written w) ?i (w_buf w)) @ enc_chunk c ?num (?t, p)"
    using slice_append [OF w(1) ij, of ?b4] unfolding p0 enc by (metis append.assoc)
  then have whole: "d @ slice (w_written w) ?j ?b4 = layout c 0 0 (cs @ [(?t, p)])"
    unfolding w(6,8) layout_append by simp
  have "layout_end 0 cs + pad (layout_end 0 cs) = nat (w_blockNumber w) * blockSize + ?i"
    using arg_cong [OF w(8), of length] length_layout [OF gc w(7), of 0] w(1-5) by simp
  then have "fits 0 (cs @ [(?t, p)])" using w(2,3,7) lp by (simp add: fits_append)
  then have "settled c (w\<lparr>w_chunkNum := ?num, w_buf := ?b4\<rparr>) d (cs @ [(?t, p)])"
    using assms(2) whole l(4) w(1-3,6) by (auto simp add: settled_def busy_def base_ok_def)
  then show ?thesis using fill by blast
qed

lemma settled_end:
  assumes "get_cipher key = Inr c" and "settled c w d cs"
  shows "layout_end 0 cs = nat (w_blockNumber w) * blockSize + w_j w"
proof -
  have "length d + (w_j w - w_written w) = layout_end 0 cs"
    using assms length_layout [OF assms(1), of 0 cs 0]
    by (auto simp add: settled_def base_ok_def dest: arg_cong [of _ _ length])
  then show ?thesis using assms(2) by (auto simp add: settled_def base_ok_def)
qed

lemma writeBlock_ok:
  assumes "base_ok c w d cs"
  shows "\<exists>f. writeBlock w = w\<lparr>w_w := f, w_err := None, w_i := 0, w_j := 19, w_written := 0, w_blockNumber := w_blockNumber w + 1\<rparr> \<and>
     at_end f (d @ drop (w_written w) (w_buf w))"
  using WriteApproved_at_end [of "w_w w" d "drop (w_written w) (w_buf w)"] assms
  by (auto simp add: base_ok_def writeBlock_def write_err_def)

text \<open>A full block with a finished chunk is written, and the next chunk opens at its start.\<close>

lemma writeBlock_busy:
  assumes "settled c w d cs" and "w_j w = blockSize" and "w_pending w" and "get_cipher key = Inr c"
  shows "\<exists>d' f. busy c (writeBlock w) d' cs [] \<and>
     writeBlock w = w\<lparr>w_w := f, w_err := None, w_i := 0, w_j := 19, w_written := 0, w_blockNumber := w_blockNumber w + 1\<rparr>"
proof -
  have b: "base_ok c w d cs" using assms(1) by (simp add: settled_def)
  from writeBlock_ok [OF b] obtain f where
    f: "writeBlock w = w\<lparr>w_w := f, w_err := None, w_i := 0, w_j := 19, w_written := 0, w_blockNumber := w_blockNumber w + 1\<rparr>"
    "at_end f (d @ drop (w_written w) (w_buf w))" by blast
  let ?d = "d @ drop (w_written w) (w_buf w)"
  have d: "?d = layout c 0 0 cs"
    using assms(1,2) by (auto simp add: settled_def base_ok_def slice_all)
  have "layout_end 0 cs mod blockSize = 0" using settled_end [OF assms(4,1)] assms(2) by simp
  then have "pad (layout_end 0 cs) = 0" by (simp add: pad_def)
  moreover have "length ?d = nat (w_blockNumber w + 1) * blockSize"
    using assms(1,2) by (auto simp add: settled_def base_ok_def nat_add_distrib)
  ultimately have "busy c (writeBlock w) ?d cs []"
    using f d b assms(3) by (auto simp add: busy_def base_ok_def)
  then show ?thesis using f(1) by blast
qed

lemma openChunk_settled:
  assumes "settled c w d cs" and "get_cipher key = Inr c"
  shows "\<exists>d'. busy c ((openChunk w)\<lparr>w_pending := True\<rparr>) d' cs [] \<and> w_err (openChunk w) = None \<and>
     w_seq (openChunk w) = w_seq w \<and> w_EncryptionKey (openChunk w) = w_EncryptionKey w"
proof -
  let ?j = "w_j w"
  have b: "base_ok c w d cs" and j: "w_written w \<le> ?j" "?j \<le> blockSize"
    and d: "d @ slice (w_written w) ?j (w_buf w) = layout c 0 0 cs" and lb: "length (w_buf w) = blockSize"
    using assms(1) by (simp_all add: settled_def base_ok_def)
  note e = settled_end [OF assms(2,1)]
  show ?thesis
  proof (cases "?j + 19 \<le> blockSize")
    case True
    then have "layout_end 0 cs mod blockSize = ?j" using e by simp
    then have "pad (layout_end 0 cs) = 0" using True by (simp add: pad_def)
    then show ?thesis
      using True b j d by (intro exI [of _ d]) (auto simp add: openChunk_def Let_def busy_def base_ok_def)
  next
    case False
    let ?buf = "copy_at ?j (replicate (blockSize - ?j) 0) (w_buf w)"
    let ?w = "w\<lparr>w_i := ?j, w_j := ?j + 19, w_buf := ?buf\<rparr>"
    have w4: "openChunk w = writeBlock ?w" using False by (simp add: openChunk_def Let_def)
    have bw: "base_ok c ?w d cs" using b j lb by (simp add: base_ok_def)
    from writeBlock_ok [OF bw] obtain f where
      f: "writeBlock ?w = ?w\<lparr>w_w := f, w_err := None, w_i := 0, w_j := 19, w_written := 0, w_blockNumber := w_blockNumber w + 1\<rparr>"
      "at_end f (d @ drop (w_written w) ?buf)"
      by auto
    have "drop (w_written w) ?buf = slice (w_written w) ?j (w_buf w) @ replicate (blockSize - ?j) 0"
      using j lb by (simp add: copy_at_def slice_alt)
    moreover have "pad (layout_end 0 cs) = blockSize - ?j"
    proof (cases "?j = blockSize")
      case True
      then show ?thesis using e by (simp add: pad_def)
    next
      case neq: False
      then have "?j < blockSize" using j by simp
      then show ?thesis using False e by (simp add: pad_def)
    qed
    ultimately have dd: "d @ drop (w_written w) ?buf = layout c 0 0 cs @ replicate (pad (layout_end 0 cs)) 0"
      using d by (simp flip: append_assoc)
    have "length (d @ drop (w_written w) ?buf) = nat (w_blockNumber w + 1) * blockSize"
      using b j lb by (auto simp add: base_ok_def nat_add_distrib)
    then have "busy c (writeBlock ?w\<lparr>w_pending := True\<rparr>) (d @ drop (w_written w) ?buf) cs []"
      using f dd bw by (auto simp add: busy_def base_ok_def)
    then show ?thesis unfolding w4 using f(1) by (intro exI conjI) auto
  qed
qed

end

text \<open>The chunks of a record that is still open, after the pieces \<open>ps\<close>.\<close>

definition open_chunks :: "bytes list \<Rightarrow> chunk list" where
  "open_chunks ps = (case ps of [] \<Rightarrow> [] | p # qs \<Rightarrow> (firstChunkType, p) # map (Pair middleChunkType) qs)"

lemma open_chunks_snoc: "open_chunks (ps @ [p]) = open_chunks ps @ [(chunk_type False (ps = []), p)]"
  by (cases ps) (simp_all add: open_chunks_def chunk_type_def)

lemma mid_chunks_snoc: "mid_chunks (ps @ [p]) = map (Pair middleChunkType) ps @ [(lastChunkType, p)]"
proof (induction ps)
  case (Cons q ps)
  then show ?case by (cases "ps @ [p]") simp_all
qed simp

lemma close_chunks: "open_chunks ps @ [(chunk_type True (ps = []), p)] = rec_chunks (ps @ [p])"
proof (cases ps)
  case (Cons q qs)
  then show ?thesis using mid_chunks_snoc [of qs p] by (cases "qs @ [p]") (simp_all add: open_chunks_def chunk_type_def)
qed (simp add: open_chunks_def chunk_type_def)

context cipher_provider
begin

lemma copy_busy:
  assumes "busy c w d cs p" and "k \<le> blockSize - w_j w" and "k \<le> length q"
  shows "busy c (w\<lparr>w_buf := copy_at (w_j w) (take k q) (w_buf w), w_j := w_j w + k\<rparr>) d cs (p @ take k q)"
proof -
  let ?b = "copy_at (w_j w) (take k q) (w_buf w)"
  have w: "w_i w + 19 \<le> w_j w" "w_j w \<le> blockSize" "length (w_buf w) = blockSize" "p = slice (w_i w + 19) (w_j w) (w_buf w)"
    using assms(1) by (simp_all add: busy_def base_ok_def)
  have lq: "length (take k q) = k" using assms(3) by simp
  have "slice (w_i w + 19) (w_j w) ?b = p" unfolding w(4) by (rule slice_copy_before) simp
  moreover have "slice (w_j w) (w_j w + k) ?b = take k q"
    by (rule slice_copy_same) (use assms(2) w(2,3) lq in auto)
  ultimately have "p @ take k q = slice (w_i w + 19) (w_j w + k) ?b"
    using slice_append [of "w_i w + 19" "w_j w" "w_j w + k" ?b] w(1) by simp
  moreover have "slice (w_written w) (w_i w) ?b = slice (w_written w) (w_i w) (w_buf w)"
    by (rule slice_copy_before) (use w(1) in simp)
  ultimately show ?thesis
    using assms w by (auto simp add: busy_def base_ok_def)
qed

lemma Write_loop_copy:
  assumes "busy c w d cs p" and "w_j w \<noteq> blockSize" and "q \<noteq> []"
  shows "\<exists>k. 0 < k \<and> k \<le> length q \<and> k \<le> blockSize - w_j w \<and>
    Write_loop get_cipher w q =
      Write_loop get_cipher (w\<lparr>w_buf := copy_at (w_j w) (take k q) (w_buf w), w_j := w_j w + k\<rparr>) (drop k q)"
proof -
  define k where "k = min (blockSize - w_j w) (length q)"
  have w: "w_err w = None" "\<not> blockSize < w_j w" "w_j w < blockSize" using assms(1,2) by (simp_all add: busy_def base_ok_def)
  have k: "k \<noteq> 0" using w(3) assms(3) by (simp add: k_def min_def)
  have "Write_loop get_cipher w q =
      Write_loop get_cipher (w\<lparr>w_buf := copy_at (w_j w) (take k q) (w_buf w), w_j := w_j w + k\<rparr>) (drop k q)"
    using assms(2,3) w(1,2) k by (subst Write_loop.simps) (simp only: k_def [symmetric] Let_def rbind_simps if_False not_True_eq_False option.simps simp_thms)
  then show ?thesis using k by (intro exI [of _ k]) (simp add: k_def)
qed

lemma Write_loop_flush:
  assumes gc: "get_cipher (w_EncryptionKey w) = Inr c" and "busy c w d (cs @ open_chunks ps) p" and "w_first w \<longleftrightarrow> ps = []"
    and "w_j w = blockSize" and "q \<noteq> []"
  shows "\<exists>w' d'. Write_loop get_cipher w q = Write_loop get_cipher w' q \<and> busy c w' d' (cs @ open_chunks (ps @ [p])) [] \<and>
     \<not> w_first w' \<and> w_j w' \<noteq> blockSize \<and> w_seq w' = w_seq w \<and> w_EncryptionKey w' = w_EncryptionKey w"
proof -
  from fillHeader_busy [OF gc assms(2), of False] obtain buf where
    fh: "fillHeader get_cipher False w = Inr (w\<lparr>w_chunkNum := w_chunkNum w + 1, w_buf := buf\<rparr>)" and
    st: "settled c (w\<lparr>w_chunkNum := w_chunkNum w + 1, w_buf := buf\<rparr>) d (cs @ open_chunks (ps @ [p]))"
    using assms(3) by (auto simp add: open_chunks_snoc)
  define w1 where "w1 = w\<lparr>w_chunkNum := w_chunkNum w + 1, w_buf := buf\<rparr>"
  have "w_pending w1" "w_j w1 = blockSize" using assms(2,4) by (simp_all add: busy_def w1_def)
  from writeBlock_busy [OF st [folded w1_def] this(2,1) gc] obtain d' f where
    wb: "busy c (writeBlock w1) d' (cs @ open_chunks (ps @ [p])) []" and
    eq: "writeBlock w1 = w1\<lparr>w_w := f, w_err := None, w_i := 0, w_j := 19, w_written := 0, w_blockNumber := w_blockNumber w1 + 1\<rparr>"
    by blast
  define w3 where "w3 = writeBlock w1\<lparr>w_first := False\<rparr>"
  have w3: "w_j w3 \<noteq> blockSize" "w_err (writeBlock w1) = None" "w_seq w3 = w_seq w" "w_EncryptionKey w3 = w_EncryptionKey w"
    using eq by (simp_all add: w3_def w1_def)
  have "Write_loop get_cipher w q = Write_loop get_cipher w3 q"
    unfolding Write_loop.simps [of get_cipher w q] Write_loop.simps [of get_cipher w3 q]
    using assms(4,5) fh w3(1,2) by (simp add: w1_def [symmetric] w3_def [symmetric] Let_def)
  moreover have "busy c w3 d' (cs @ open_chunks (ps @ [p])) []" using wb by (simp add: w3_def busy_def base_ok_def)
  moreover have "\<not> w_first w3" by (simp add: w3_def)
  ultimately show ?thesis using w3 by blast
qed

lemma Write_loop_busy:
  assumes "get_cipher (w_EncryptionKey w) = Inr c" and "busy c w d (cs @ open_chunks ps) p" and "w_first w \<longleftrightarrow> ps = []"
  shows "\<exists>w' d' ps' p'. Write_loop get_cipher w q = Inr w' \<and> busy c w' d' (cs @ open_chunks ps') p' \<and>
     (w_first w' \<longleftrightarrow> ps' = []) \<and> concat ps' @ p' = (concat ps @ p) @ q \<and> w_seq w' = w_seq w \<and>
     w_EncryptionKey w' = w_EncryptionKey w"
  using assms
proof (induction "length q" arbitrary: w d ps p q rule: less_induct)
  case less
  show ?case
  proof (cases "q = []")
    case True
    then show ?thesis using less.prems by (subst Write_loop.simps) auto
  next
    case False
    have "\<exists>w1 d1 ps1 p1. Write_loop get_cipher w q = Write_loop get_cipher w1 q \<and> busy c w1 d1 (cs @ open_chunks ps1) p1 \<and>
        (w_first w1 \<longleftrightarrow> ps1 = []) \<and> concat ps1 @ p1 = concat ps @ p \<and> w_j w1 \<noteq> blockSize \<and> w_seq w1 = w_seq w \<and>
        w_EncryptionKey w1 = w_EncryptionKey w"
    proof (cases "w_j w = blockSize")
      case True
      from Write_loop_flush [OF less.prems True False] obtain w1 d1 where
        "Write_loop get_cipher w q = Write_loop get_cipher w1 q" "busy c w1 d1 (cs @ open_chunks (ps @ [p])) []"
        "\<not> w_first w1" "w_j w1 \<noteq> blockSize" "w_seq w1 = w_seq w" "w_EncryptionKey w1 = w_EncryptionKey w" by blast
      then show ?thesis by (intro exI [of _ w1] exI [of _ d1] exI [of _ "ps @ [p]"] exI [of _ "[]"]) simp
    qed (use less.prems in blast)
    then obtain w1 d1 ps1 p1 where w1: "Write_loop get_cipher w q = Write_loop get_cipher w1 q"
      "busy c w1 d1 (cs @ open_chunks ps1) p1" "w_first w1 \<longleftrightarrow> ps1 = []" "concat ps1 @ p1 = concat ps @ p" "w_j w1 \<noteq> blockSize"
      "w_seq w1 = w_seq w" "w_EncryptionKey w1 = w_EncryptionKey w" by blast
    from Write_loop_copy [OF w1(2,5) False] obtain k where k: "0 < k" "k \<le> length q" "k \<le> blockSize - w_j w1"
      "Write_loop get_cipher w1 q = Write_loop get_cipher (w1\<lparr>w_buf := copy_at (w_j w1) (take k q) (w_buf w1), w_j := w_j w1 + k\<rparr>) (drop k q)"
      by blast
    define w2 where "w2 = w1\<lparr>w_buf := copy_at (w_j w1) (take k q) (w_buf w1), w_j := w_j w1 + k\<rparr>"
    have w2: "busy c w2 d1 (cs @ open_chunks ps1) (p1 @ take k q)" "w_first w2 \<longleftrightarrow> ps1 = []"
      "get_cipher (w_EncryptionKey w2) = Inr c" "w_seq w2 = w_seq w" "w_EncryptionKey w2 = w_EncryptionKey w"
      using copy_busy [OF w1(2) k(3,2)] w1(3,6,7) less.prems(1) by (simp_all add: w2_def)
    have "length (drop k q) < length q" using k(1) False by simp
    from less.hyps [OF this w2(3,1,2)] obtain w3 d3 ps3 p3 where
      w3: "Write_loop get_cipher w2 (drop k q) = Inr w3" "busy c w3 d3 (cs @ open_chunks ps3) p3" "w_first w3 \<longleftrightarrow> ps3 = []"
      "concat ps3 @ p3 = (concat ps1 @ p1 @ take k q) @ drop k q" "w_seq w3 = w_seq w2" "w_EncryptionKey w3 = w_EncryptionKey w2" by blast
    have "concat ps3 @ p3 = (concat ps1 @ p1) @ q" unfolding w3(4) by simp
    then have "concat ps3 @ p3 = (concat ps @ p) @ q" unfolding w1(4) .
    moreover have "Write_loop get_cipher w q = Inr w3" using w1(1) k(4) w3(1) unfolding w2_def [symmetric] by (simp only:)
    moreover have "w_seq w3 = w_seq w" "w_EncryptionKey w3 = w_EncryptionKey w" using w2(4,5) w3(5,6) by simp_all
    ultimately show ?thesis using w3(2,3) by blast
  qed
qed

lemma writePending_busy:
  assumes gc: "get_cipher (w_EncryptionKey w) = Inr c" and "busy c w d (cs @ open_chunks ps) p" and "w_first w \<longleftrightarrow> ps = []"
  shows "\<exists>w'. writePending get_cipher w = Inr w' \<and> settled c w' (layout c 0 0 (cs @ rec_chunks (ps @ [p]))) (cs @ rec_chunks (ps @ [p])) \<and>
     \<not> w_pending w' \<and> w_EncryptionKey w' = w_EncryptionKey w"
proof -
  let ?cs = "cs @ rec_chunks (ps @ [p])"
  from fillHeader_busy [OF gc assms(2), of True] obtain buf where
    fh: "fillHeader get_cipher True w = Inr (w\<lparr>w_chunkNum := w_chunkNum w + 1, w_buf := buf\<rparr>)" and
    st: "settled c (w\<lparr>w_chunkNum := w_chunkNum w + 1, w_buf := buf\<rparr>) d ?cs"
    using assms(3) by (auto simp add: close_chunks)
  have w: "w_err w = None" "w_pending w" using assms(2) by (simp_all add: busy_def base_ok_def)
  have s: "at_end (w_w w) d" "d @ slice (w_written w) (w_j w) buf = layout c 0 0 ?cs" "w_written w \<le> w_j w" "w_j w \<le> blockSize"
    "length buf = blockSize" "length d = nat (w_blockNumber w) * blockSize + w_written w"
    using st by (simp_all add: settled_def base_ok_def)
  from WriteApproved_at_end [OF s(1), of "slice (w_written w) (w_j w) buf"] s(2) obtain f where
    f: "errorFile_WriteApproved (w_w w) (slice (w_written w) (w_j w) buf) = (f, Inr (length (slice (w_written w) (w_j w) buf)))"
      "at_end f (layout c 0 0 ?cs)" by auto
  let ?w = "w\<lparr>w_chunkNum := w_chunkNum w + 1, w_buf := buf, w_pending := False, w_w := f, w_err := None, w_written := w_j w\<rparr>"
  have "writePending get_cipher w = Inr ?w"
    using w fh f(1) by (simp add: writePending_def write_err_def)
  moreover have "length (layout c 0 0 ?cs) = nat (w_blockNumber w) * blockSize + w_j w"
    using arg_cong [OF s(2), of length] s(3-6) by simp
  then have "settled c ?w (layout c 0 0 ?cs) ?cs"
    using st f(2) s(4) by (simp add: settled_def base_ok_def)
  ultimately show ?thesis by (intro exI [of _ ?w]) simp
qed

lemma Writer_Next_settled:
  assumes "settled c w d cs" and "\<not> w_pending w" and "get_cipher (w_EncryptionKey w) = Inr c"
  shows "\<exists>w' d'. Writer_Next get_cipher w = Inr (w', Inr (w_seq w')) \<and> busy c w' d' cs [] \<and> w_first w' \<and>
     w_EncryptionKey w' = w_EncryptionKey w"
proof -
  let ?w1 = "w\<lparr>w_seq := w_seq w + 1\<rparr>"
  define w4 where "w4 = openChunk ?w1"
  have err: "w_err w = None" using assms(1) by (simp add: settled_def base_ok_def)
  have "settled c ?w1 d cs" using assms(1) by (simp add: settled_def base_ok_def)
  from openChunk_settled [OF this assms(3), folded w4_def] obtain d' where
    n: "busy c (w4\<lparr>w_pending := True\<rparr>) d' cs []" "w_err w4 = None" "w_seq w4 = w_seq w + 1" "w_EncryptionKey w4 = w_EncryptionKey w"
    by auto
  let ?w = "w4\<lparr>w_lastRecordOffset := w_baseOffset w4 + w_blockNumber w4 * int blockSize + int (w_i w4),
              w_first := True, w_pending := True\<rparr>"
  have "Writer_Next get_cipher w = Inr (?w, Inr (w_seq ?w))"
    using err assms(2) n(2) by (simp add: Writer_Next_def Let_def w4_def)
  moreover have "busy c ?w d' cs []" using n(1) by (simp add: busy_def base_ok_def)
  ultimately show ?thesis using n(4) by (intro exI [of _ ?w] exI [of _ d']) simp
qed

lemma WriteRecord_settled:
  assumes "settled c w d cs" and "\<not> w_pending w" and "get_cipher (w_EncryptionKey w) = Inr c"
  shows "\<exists>w' ps off. WriteRecord get_cipher q w = Inr (w', Inr off) \<and> ps \<noteq> [] \<and> concat ps = q \<and>
     settled c w' (layout c 0 0 (cs @ rec_chunks ps)) (cs @ rec_chunks ps) \<and> \<not> w_pending w' \<and>
     w_EncryptionKey w' = w_EncryptionKey w"
proof -
  from Writer_Next_settled [OF assms] obtain w1 d1 where
    n: "Writer_Next get_cipher w = Inr (w1, Inr (w_seq w1))" "busy c w1 d1 cs []" "w_first w1" "w_EncryptionKey w1 = w_EncryptionKey w"
    by blast
  have g1: "get_cipher (w_EncryptionKey w1) = Inr c" using assms(3) n(4) by simp
  have o1: "busy c w1 d1 (cs @ open_chunks []) []" using n(2) by (simp add: open_chunks_def)
  from Write_loop_busy [OF g1 o1, of q] n(3) obtain w2 d2 ps p where
    l: "Write_loop get_cipher w1 q = Inr w2" "busy c w2 d2 (cs @ open_chunks ps) p" "w_first w2 \<longleftrightarrow> ps = []"
      "concat ps @ p = q" "w_EncryptionKey w2 = w_EncryptionKey w1" by auto
  have err: "w_err w = None" "w_err w1 = None" "w_err w2 = None"
    using assms(1) n(2) l(2) by (simp_all add: settled_def busy_def base_ok_def)
  have g2: "get_cipher (w_EncryptionKey w2) = Inr c" using g1 l(5) by simp
  from writePending_busy [OF g2 l(2,3)] obtain w3 where
    w3: "writePending get_cipher w2 = Inr w3" "settled c w3 (layout c 0 0 (cs @ rec_chunks (ps @ [p]))) (cs @ rec_chunks (ps @ [p]))"
      "\<not> w_pending w3" "w_EncryptionKey w3 = w_EncryptionKey w2" by blast
  have "w_err w3 = None" using w3(2) by (simp add: settled_def base_ok_def)
  then have "\<exists>off. WriteRecord get_cipher q w = Inr (w3, Inr off)"
    using n(1) l(1) w3(1) err by (simp add: WriteRecord_def singleWriter_Write_def)
  then obtain off where "WriteRecord get_cipher q w = Inr (w3, Inr off)" ..
  then show ?thesis
    using w3(2-4) l(4,5) n(4) by (intro exI [of _ w3] exI [of _ "ps @ [p]"] exI [of _ off]) simp
qed

end

text \<open>A sequence of records, stopping at the first error.\<close>

fun WriteRecords ::
    "(bytes \<Rightarrow> 'e + aead) \<Rightarrow> bytes list \<Rightarrow> 'e Writer \<Rightarrow> 'e rec_panic + 'e Writer \<times> 'e rec_error option" where
  "WriteRecords gc [] w = Inr (w, None)"
| "WriteRecords gc (q # qs) w =
     rbind (WriteRecord gc q w)
       (\<lambda>(w1, r). case r of Inl e \<Rightarrow> Inr (w1, Some e) | Inr _ \<Rightarrow> WriteRecords gc qs w1)"

context cipher_provider
begin

lemma WriteRecords_settled:
  assumes "settled c w (layout c 0 0 cs) cs" and "\<not> w_pending w" and "get_cipher (w_EncryptionKey w) = Inr c"
  shows "\<exists>w' pss. WriteRecords get_cipher qs w = Inr (w', None) \<and> map concat pss = qs \<and> [] \<notin> set pss \<and>
     settled c w' (layout c 0 0 (cs @ concat (map rec_chunks pss))) (cs @ concat (map rec_chunks pss)) \<and>
     w_EncryptionKey w' = w_EncryptionKey w"
  using assms
proof (induction qs arbitrary: w cs)
  case Nil
  then show ?case by (intro exI [of _ w] exI [of _ "[]"]) simp
next
  case (Cons q qs)
  from WriteRecord_settled [OF Cons.prems, of q] obtain w1 ps off where
    w1: "WriteRecord get_cipher q w = Inr (w1, Inr off)" "ps \<noteq> []" "concat ps = q"
      "settled c w1 (layout c 0 0 (cs @ rec_chunks ps)) (cs @ rec_chunks ps)" "\<not> w_pending w1"
      "w_EncryptionKey w1 = w_EncryptionKey w" by blast
  from Cons.IH [OF w1(4,5)] Cons.prems(3) w1(6) obtain w2 pss where
    "WriteRecords get_cipher qs w1 = Inr (w2, None)" "map concat pss = qs" "[] \<notin> set pss"
    "settled c w2 (layout c 0 0 ((cs @ rec_chunks ps) @ concat (map rec_chunks pss))) ((cs @ rec_chunks ps) @ concat (map rec_chunks pss))"
    "w_EncryptionKey w2 = w_EncryptionKey w1" by auto
  then show ?case using w1 by (intro exI [of _ w2] exI [of _ "ps # pss"]) simp
qed

lemma NewWriter_settled:
  assumes "file_at f [] 0" and "injector f = []"
  shows "settled c ((NewWriter f fl sk)\<lparr>w_EncryptionKey := key\<rparr>) (layout c 0 0 []) []"
  using assms by (simp add: settled_def base_ok_def NewWriter_def Let_def at_end_def)

lemma NewReader_at:
  "file_at f d 0 \<Longrightarrow> injector f = [] \<Longrightarrow> reader_at ((NewReader f num)\<lparr>r_EncryptionKey := key\<rparr>) d 0"
  by (simp add: reader_at_def NewReader_def)

text \<open>What a new log holds after records were written to it.\<close>

lemma written_log:
  assumes "file_at f [] 0" and "injector f = []" and "get_cipher key = Inr c"
  shows "\<exists>w pss. WriteRecords get_cipher qs ((NewWriter f fl sk)\<lparr>w_EncryptionKey := key\<rparr>) = Inr (w, None) \<and>
     map concat pss = qs \<and> [] \<notin> set pss \<and> at_end (w_w w) (layout c 0 0 (concat (map rec_chunks pss))) \<and>
     fits 0 (concat (map rec_chunks pss))"
proof -
  let ?w = "(NewWriter f fl sk)\<lparr>w_EncryptionKey := key\<rparr>"
  have "\<not> w_pending ?w" "get_cipher (w_EncryptionKey ?w) = Inr c" using assms(3) by (simp_all add: NewWriter_def Let_def)
  from WriteRecords_settled [OF NewWriter_settled [OF assms(1,2)] this, of qs] obtain w pss where
    "WriteRecords get_cipher qs ?w = Inr (w, None)" "map concat pss = qs" "[] \<notin> set pss"
    "settled c w (layout c 0 0 (concat (map rec_chunks pss))) (concat (map rec_chunks pss))" by auto
  then show ?thesis by (auto simp add: settled_def base_ok_def)
qed

lemma read_written:
  assumes "at_end f (layout c 0 0 (concat (map rec_chunks pss)))" and "fits 0 (concat (map rec_chunks pss))"
    and "[] \<notin> set pss" and "get_cipher key = Inr c"
  shows "ReadRecords get_cipher n ((NewReader (reopen False f) num)\<lparr>r_EncryptionKey := key\<rparr>) = (map concat pss, RFile Eof)"
proof -
  let ?d = "layout c 0 0 (concat (map rec_chunks pss))"
  have "file_at (reopen False f) ?d 0" using assms(1) file_at_reopen [of f ?d] by (auto simp add: at_end_def)
  then have "reader_at ((NewReader (reopen False f) num)\<lparr>r_EncryptionKey := key\<rparr>) ?d 0" by (intro NewReader_at) simp_all
  from ReadRecords_layout [OF _ this, of c 0 "[]" pss n] assms(2-4) show ?thesis
    by (simp add: NewReader_def)
qed

lemma read_foreign:
  assumes "file_at f' d' 0" and "injector f' = []" and "[] \<notin> set pss" and "get_cipher key = Inr c"
    and "fits 0 (concat (map rec_chunks pss))" and "\<not> forged c (layout c 0 0 (concat (map rec_chunks pss))) d'"
  shows "\<exists>m. fst (ReadRecords get_cipher n ((NewReader f' num)\<lparr>r_EncryptionKey := key\<rparr>)) = take m (map concat pss)"
proof -
  let ?r = "(NewReader f' num)\<lparr>r_EncryptionKey := key\<rparr>"
  have "reading key d' 0 ?r"
    using NewReader_at [OF assms(1,2), where num = num and key = key] by (auto simp add: reading_def NewReader_def)
  from ReadRecords_reading [OF assms(4) refl assms(5,6) this _ assms(3), of n] show ?thesis by simp
qed

end

section \<open>Properties of the log\<close>

lemma edgMakeNonce_eq: "edgMakeNonce a = edgMakeNonce b \<longleftrightarrow> a = b"
  by (simp add: edgMakeNonce_def copy_at_def le64_inj)

text \<open>
  C1. A log gives back what was written. Records of any number and length, written to a new
  file under a key of a valid size and read with a buffer of any size after reopening the file,
  are read back in order, followed by the end of the file.
\<close>

theorem log_roundtrip:
  assumes "file_at f [] 0" and "injector f = []" and "length key \<in> {16, 24, 32}"
  shows "\<exists>w. WriteRecords (GetCipher []) qs ((NewWriter f fl sk)\<lparr>w_EncryptionKey := key\<rparr>) = Inr (w, None) \<and>
     ReadRecords (GetCipher []) n ((NewReader (reopen False (w_w w)) num)\<lparr>r_EncryptionKey := key\<rparr>) = (qs, RFile Eof)"
proof -
  have gc: "GetCipher [] key = Inr (aes_gcm key)" using assms(3) by (simp add: GetCipher_def Let_def)
  from edg.written_log [OF assms(1,2) gc, where qs = qs and fl = fl and sk = sk] edg.read_written [OF _ _ _ gc, where n = n and num = num]
  show ?thesis by blast
qed

text \<open>
  C2. Prefix integrity. Whatever file is read in place of a written log, and however reading it
  ends, the records returned are a prefix of the records written, unless the file has a chunk
  that opens under the nonce of its number although the writer stored no such chunk there.
\<close>

theorem log_prefix_integrity:
  assumes "file_at f [] 0" and "injector f = []" and "length key \<in> {16, 24, 32}"
    and "file_at f' d' 0" and "injector f' = []"
  shows "\<exists>w d. WriteRecords (GetCipher []) qs ((NewWriter f fl sk)\<lparr>w_EncryptionKey := key\<rparr>) = Inr (w, None) \<and>
     file_at (w_w w) d (length d) \<and>
     (forged (aes_gcm key) d d' \<or>
      (\<exists>m. fst (ReadRecords (GetCipher []) n ((NewReader f' num)\<lparr>r_EncryptionKey := key\<rparr>)) = take m qs))"
proof -
  have gc: "GetCipher [] key = Inr (aes_gcm key)" using assms(3) by (simp add: GetCipher_def Let_def)
  from edg.written_log [OF assms(1,2) gc, where qs = qs and fl = fl and sk = sk] obtain w pss where
    w: "WriteRecords (GetCipher []) qs ((NewWriter f fl sk)\<lparr>w_EncryptionKey := key\<rparr>) = Inr (w, None)"
      "map concat pss = qs" "[] \<notin> set pss" "at_end (w_w w) (layout (aes_gcm key) 0 0 (concat (map rec_chunks pss)))"
      "fits 0 (concat (map rec_chunks pss))" by blast
  from edg.read_foreign [OF assms(4,5) w(3) gc w(5), where n = n and num = num] w show ?thesis unfolding at_end_def by blast
qed

theorem log_roundtrip_witness:
  "\<exists>w. WriteRecords (GetCipher []) [[1, 2, 3], []] ((NewWriter (salt_file []) True None)\<lparr>w_EncryptionKey := replicate 16 0\<rparr>) = Inr (w, None) \<and>
     ReadRecords (GetCipher []) 511 ((NewReader (reopen False (w_w w)) 1)\<lparr>r_EncryptionKey := replicate 16 0\<rparr>) = ([[1, 2, 3], []], RFile Eof)"
  by (rule log_roundtrip) (simp_all add: salt_file_at)

theorem log_prefix_integrity_witness:
  "\<exists>w d. WriteRecords (GetCipher []) [[1, 2, 3]] ((NewWriter (salt_file []) True None)\<lparr>w_EncryptionKey := replicate 16 0\<rparr>) = Inr (w, None) \<and>
     file_at (w_w w) d (length d) \<and>
     (forged (aes_gcm (replicate 16 0)) d [7, 8] \<or>
      (\<exists>m. fst (ReadRecords (GetCipher []) 511 ((NewReader (salt_file [7, 8]) 1)\<lparr>r_EncryptionKey := replicate 16 0\<rparr>)) = take m [[1, 2, 3]]))"
  by (rule log_prefix_integrity) (simp_all add: salt_file_at)

end
