(* ===== verification/Transactions.thy ===== *)
theory Transactions
  imports Edg
begin

text \<open>
  Transactions and rollback protection: \<^verbatim>\<open>transaction.go\<close> and \<^verbatim>\<open>edg.go\<close>. The store is
  seen through \<^verbatim>\<open>DB.Get\<close>, \<^verbatim>\<open>DB.Set\<close> and \<^verbatim>\<open>Batch.Commit\<close>: a map from keys to
  values, with the result of each call an argument. A call to the store that returns an error
  has changed nothing (\<^verbatim>\<open>applyInternal\<close> returns errors before it commits; an error of
  the commit itself ends the process). The trusted counter behaves as documented for the option
  \<^verbatim>\<open>SetMonotonicCounter\<close>.
\<close>

section \<open>The counter of the store\<close>

type_synonym kvstore = "bytes \<Rightarrow> bytes option"

datatype tx_error =
    StoreError
  | SourceError
  | NotFound
  | RollbackDetected u64 u64
  | ShortCounterPanic
  | UseAfterClose

definition edgMonotonicCounterKey :: bytes where
  "edgMonotonicCounterKey = str_bytes ''!EDGELESS_MONOTONIC_COUNTER''"

definition DB_Get :: "bool \<Rightarrow> kvstore \<Rightarrow> bytes \<Rightarrow> tx_error + bytes" where
  "DB_Get ok kv key =
     (if \<not> ok then Inl StoreError else case kv key of None \<Rightarrow> Inl NotFound | Some v \<Rightarrow> Inr v)"

definition DB_Set :: "bool \<Rightarrow> kvstore \<Rightarrow> bytes \<Rightarrow> bytes \<Rightarrow> kvstore \<times> (tx_error + unit)" where
  "DB_Set ok kv key v = (if ok then (kv(key \<mapsto> v), Inr ()) else (kv, Inl StoreError))"

definition edgGetMonotonicCounterFromStore :: "bool \<Rightarrow> kvstore \<Rightarrow> tx_error + u64" where
  "edgGetMonotonicCounterFromStore ok kv =
     (case DB_Get ok kv edgMonotonicCounterKey of
        Inl NotFound \<Rightarrow> Inr 0
      | Inl e \<Rightarrow> Inl e
      | Inr v \<Rightarrow> if length v < 8 then Inl ShortCounterPanic else Inr (le_decode (take 8 v)))"

definition edgSetMonotonicCounterOnStore :: "bool \<Rightarrow> u64 \<Rightarrow> kvstore \<Rightarrow> kvstore \<times> (tx_error + unit)" where
  "edgSetMonotonicCounterOnStore ok v kv = DB_Set ok kv edgMonotonicCounterKey (le_encode 8 v)"

text \<open>
  The trusted source: a call that fails may or may not have set the counter.
\<close>

datatype source_outcome = SourceOk | SourceFailed bool

definition SetMonotonicCounter :: "source_outcome \<Rightarrow> u64 \<Rightarrow> u64 \<Rightarrow> u64 \<times> (tx_error + u64)" where
  "SetMonotonicCounter oc v src =
     (case oc of
        SourceOk \<Rightarrow> (if src < v then v else src, Inr src)
      | SourceFailed applied \<Rightarrow> (if applied \<and> src < v then v else src, Inl SourceError))"

text \<open>The new value of \<^verbatim>\<open>d.monotonicCounter\<close>; with no callback it is left as it is.\<close>

definition edgVerifyFreshness ::
    "bool \<Rightarrow> source_outcome \<Rightarrow> bool \<Rightarrow> u64 \<Rightarrow> kvstore \<Rightarrow> u64 \<Rightarrow> u64 \<times> (tx_error + u64)" where
  "edgVerifyFreshness enabled oc getok src kv counter =
     (if \<not> enabled then (src, Inr counter)
      else case SetMonotonicCounter oc 0 src of
        (src1, Inl e) \<Rightarrow> (src1, Inl e)
      | (src1, Inr sourceCount) \<Rightarrow>
          (src1, case edgGetMonotonicCounterFromStore getok kv of
             Inl e \<Rightarrow> Inl e
           | Inr storeCount \<Rightarrow>
               if storeCount < sourceCount then Inl (RollbackDetected storeCount sourceCount) else Inr storeCount))"

section \<open>Transactions\<close>

text \<open>
  A batch as the list of its operations, the last one for a key counting; \<open>None\<close> deletes.
\<close>

type_synonym txbatch = "(bytes \<times> bytes option) list"

definition apply_batch :: "txbatch \<Rightarrow> kvstore \<Rightarrow> kvstore" where
  "apply_batch b kv = (\<lambda>k. case map_of (rev b) k of None \<Rightarrow> kv k | Some v \<Rightarrow> v)"

record txdb =
  db_kv :: kvstore
  db_source :: u64              \<comment> \<open>the trusted counter\<close>
  db_enabled :: bool            \<comment> \<open>\<^verbatim>\<open>opts.SetMonotonicCounter\<close> is set\<close>
  db_monotonicCounter :: u64
  db_txLock :: bool

record Transaction =
  t_Batch :: "txbatch option"
  t_snap :: "kvstore option"

text \<open>\<open>None\<close> where the call blocks on the lock.\<close>

definition NewTransaction :: "bool \<Rightarrow> txdb \<Rightarrow> (txdb \<times> Transaction) option" where
  "NewTransaction writable d =
     (if \<not> writable then Some (d, \<lparr>t_Batch = None, t_snap = Some (db_kv d)\<rparr>)
      else if db_txLock d then None
      else Some (d\<lparr>db_txLock := True\<rparr>, \<lparr>t_Batch = Some [], t_snap = Some (db_kv d)\<rparr>))"

definition Transaction_Close :: "txdb \<Rightarrow> Transaction \<Rightarrow> txdb \<times> Transaction" where
  "Transaction_Close d t =
     (case t_snap t of
        None \<Rightarrow> (d, t)
      | Some _ \<Rightarrow> (if t_Batch t \<noteq> None then d\<lparr>db_txLock := False\<rparr> else d, t\<lparr>t_snap := None\<rparr>))"

definition Transaction_Get :: "Transaction \<Rightarrow> bytes \<Rightarrow> tx_error + bytes" where
  "Transaction_Get t key =
     (case t_snap t of
        None \<Rightarrow> Inl UseAfterClose
      | Some snap \<Rightarrow>
          (case (case t_Batch t of None \<Rightarrow> snap | Some b \<Rightarrow> apply_batch b snap) key of
             None \<Rightarrow> Inl NotFound | Some v \<Rightarrow> Inr v))"

text \<open>
  \<^verbatim>\<open>Commit\<close> in its three calls: the counter of the store, the trusted counter, the batch. A
  previous value of the source that is too high ends the process.
\<close>

datatype commit_result = Committed | CommitErr tx_error | Fatal

definition commit_set :: "bool \<Rightarrow> txdb \<Rightarrow> txdb \<times> (tx_error + unit)" where
  "commit_set ok d =
     (case edgSetMonotonicCounterOnStore ok (db_monotonicCounter d + 1) (db_kv d) of
        (kv, Inl e) \<Rightarrow> (d\<lparr>db_kv := kv\<rparr>, Inl e)
      | (kv, Inr _) \<Rightarrow> (d\<lparr>db_kv := kv, db_monotonicCounter := db_monotonicCounter d + 1\<rparr>, Inr ()))"

definition commit_source :: "source_outcome \<Rightarrow> u64 \<Rightarrow> txdb \<Rightarrow> txdb \<times> (tx_error + bool)" where
  "commit_source oc prevStoreCount d =
     (case SetMonotonicCounter oc (db_monotonicCounter d) (db_source d) of
        (src, Inl e) \<Rightarrow> (d\<lparr>db_source := src\<rparr>, Inl e)
      | (src, Inr prevSourceCount) \<Rightarrow> (d\<lparr>db_source := src\<rparr>, Inr (prevSourceCount \<le> prevStoreCount)))"

definition commit_batch :: "bool \<Rightarrow> txbatch \<Rightarrow> txdb \<Rightarrow> txdb \<times> commit_result" where
  "commit_batch ok b d =
     (if ok then (d\<lparr>db_kv := apply_batch b (db_kv d)\<rparr>, Committed) else (d, CommitErr StoreError))"

definition commit_body :: "bool \<Rightarrow> source_outcome \<Rightarrow> bool \<Rightarrow> txbatch \<Rightarrow> txdb \<Rightarrow> txdb \<times> commit_result" where
  "commit_body setok oc batchok b d =
     (if \<not> db_enabled d then commit_batch batchok b d
      else case commit_set setok d of
        (d1, Inl e) \<Rightarrow> (d1, CommitErr e)
      | (d1, Inr _) \<Rightarrow>
          (case commit_source oc (db_monotonicCounter d) d1 of
             (d2, Inl e) \<Rightarrow> (d2, CommitErr e)
           | (d2, Inr False) \<Rightarrow> (d2, Fatal)
           | (d2, Inr True) \<Rightarrow> commit_batch batchok b d2))"

definition Commit ::
    "bool \<Rightarrow> source_outcome \<Rightarrow> bool \<Rightarrow> txdb \<Rightarrow> Transaction \<Rightarrow> txdb \<times> Transaction \<times> commit_result" where
  "Commit setok oc batchok d t =
     (case t_Batch t of
        None \<Rightarrow> (case Transaction_Close d t of (d', t') \<Rightarrow> (d', t', Committed))
      | Some b \<Rightarrow>
          (case commit_body setok oc batchok b d of
             (d1, r) \<Rightarrow> (case Transaction_Close d1 t of (d', t') \<Rightarrow> (d', t', r))))"


section \<open>Runs with errors and crashes\<close>

text \<open>
  A store and a trusted counter over time. The process runs or not; a running process is
  between transactions or inside \<^verbatim>\<open>Commit\<close>, before the call to the source or before the
  commit of the batch. It may crash at any time, also inside a call, whose effect may then have
  happened or not. User batches do not write the counter's key, and the counter does not wrap.
\<close>

datatype phase = Idle | BeforeSource txbatch | BeforeBatch txbatch

record world =
  w_db :: txdb
  w_phase :: "phase option"     \<comment> \<open>\<open>None\<close> when no process runs\<close>

definition user_batch :: "txbatch \<Rightarrow> bool" where
  "user_batch b = (edgMonotonicCounterKey \<notin> fst ` set b)"

inductive step :: "world \<Rightarrow> world \<Rightarrow> bool" where
  step_open: "\<lbrakk>w_phase w = None;
     edgVerifyFreshness True SourceOk True (db_source (w_db w)) (db_kv (w_db w)) 0 = (src, Inr c)\<rbrakk>
   \<Longrightarrow> step w (w\<lparr>w_db := (w_db w)\<lparr>db_source := src, db_monotonicCounter := c\<rparr>, w_phase := Some Idle\<rparr>)"
| step_set: "\<lbrakk>w_phase w = Some Idle; user_batch b; db_monotonicCounter (w_db w) \<noteq> - 1; commit_set ok (w_db w) = (d, r)\<rbrakk>
   \<Longrightarrow> step w (w\<lparr>w_db := d, w_phase := Some (case r of Inl _ \<Rightarrow> Idle | Inr _ \<Rightarrow> BeforeSource b)\<rparr>)"
| step_source: "\<lbrakk>w_phase w = Some (BeforeSource b); commit_source oc (db_monotonicCounter (w_db w) - 1) (w_db w) = (d, r)\<rbrakk>
   \<Longrightarrow> step w (w\<lparr>w_db := d,
          w_phase := (case r of Inl _ \<Rightarrow> Some Idle | Inr False \<Rightarrow> None | Inr True \<Rightarrow> Some (BeforeBatch b))\<rparr>)"
| step_batch: "\<lbrakk>w_phase w = Some (BeforeBatch b); commit_batch ok b (w_db w) = (d, r)\<rbrakk>
   \<Longrightarrow> step w (w\<lparr>w_db := d, w_phase := Some Idle\<rparr>)"
| step_crash: "step w (w\<lparr>w_phase := None\<rparr>)"
| step_crash_in_call: "step w w' \<Longrightarrow> step w (w'\<lparr>w_phase := None\<rparr>)"

inductive steps :: "world \<Rightarrow> world \<Rightarrow> bool" where
  steps_refl: "steps w w"
| steps_step: "\<lbrakk>steps w w'; step w' w''\<rbrakk> \<Longrightarrow> steps w w''"

definition fresh_world :: world where
  "fresh_world = \<lparr>w_db = \<lparr>db_kv = Map.empty, db_source = 0, db_enabled = True, db_monotonicCounter = 0, db_txLock = False\<rparr>,
                  w_phase = None\<rparr>"

definition store_counter :: "kvstore \<Rightarrow> u64" where
  "store_counter kv = (case kv edgMonotonicCounterKey of None \<Rightarrow> 0 | Some v \<Rightarrow> le_decode (take 8 v))"

text \<open>The invariant: the source never runs ahead of the store, and a running process knows the store's counter.\<close>

definition counter_inv :: "world \<Rightarrow> bool" where
  "counter_inv w =
     (db_source (w_db w) \<le> store_counter (db_kv (w_db w)) \<and>
      (case db_kv (w_db w) edgMonotonicCounterKey of None \<Rightarrow> True | Some v \<Rightarrow> 8 \<le> length v) \<and>
      (case w_phase w of
         None \<Rightarrow> True
       | Some ph \<Rightarrow> db_monotonicCounter (w_db w) = store_counter (db_kv (w_db w)) \<and>
           (case ph of Idle \<Rightarrow> True
            | BeforeSource b \<Rightarrow> user_batch b \<and> db_source (w_db w) \<le> db_monotonicCounter (w_db w) - 1 \<and> db_monotonicCounter (w_db w) \<noteq> 0
            | BeforeBatch b \<Rightarrow> user_batch b \<and> db_source (w_db w) = db_monotonicCounter (w_db w))))"

lemma store_counter_set [simp]: "store_counter (kv(edgMonotonicCounterKey \<mapsto> le_encode 8 v)) = v"
  using le64_roundtrip [of v] by (simp add: store_counter_def)

lemma apply_user_batch [simp]: "user_batch b \<Longrightarrow> apply_batch b kv edgMonotonicCounterKey = kv edgMonotonicCounterKey"
  by (auto simp add: user_batch_def apply_batch_def map_of_eq_None_iff split: option.splits)
     (metis fst_conv image_eqI map_of_SomeD set_rev)

lemma store_counter_batch [simp]: "user_batch b \<Longrightarrow> store_counter (apply_batch b kv) = store_counter kv"
  by (simp add: store_counter_def)

lemma get_counter:
  "case kv edgMonotonicCounterKey of None \<Rightarrow> True | Some v \<Rightarrow> 8 \<le> length v \<Longrightarrow>
   edgGetMonotonicCounterFromStore True kv = Inr (store_counter kv)"
  by (auto simp add: edgGetMonotonicCounterFromStore_def DB_Get_def store_counter_def split: option.splits)

lemma verify_counter:
  "case kv edgMonotonicCounterKey of None \<Rightarrow> True | Some v \<Rightarrow> 8 \<le> length v \<Longrightarrow>
   edgVerifyFreshness True SourceOk True src kv c =
     (src, if store_counter kv < src then Inl (RollbackDetected (store_counter kv) src) else Inr (store_counter kv))"
  by (simp add: edgVerifyFreshness_def SetMonotonicCounter_def get_counter)

lemma succ_word: "(c :: u64) \<noteq> - 1 \<Longrightarrow> c < c + 1"
proof -
  assume "c \<noteq> - 1"
  then have "unat c \<noteq> unat (- 1 :: u64)" by (simp add: word_unat_eq_iff)
  moreover have "unat (- 1 :: u64) = 2 ^ 64 - 1" by (simp add: unsigned_minus_1_eq_mask mask_eq_exp_minus_1)
  moreover have "unat c < 2 ^ 64" using unsigned_less [of c] by simp
  ultimately have "unat c + 1 < 2 ^ 64" by linarith
  then have "unat (c + 1) = unat c + 1" by (simp add: unat_word_ariths)
  then show ?thesis by (simp add: word_less_nat_alt)
qed

lemma step_inv: "step w w' \<Longrightarrow> counter_inv w \<Longrightarrow> counter_inv w'"
proof (induction rule: step.induct)
  case (step_open w src c)
  then show ?case by (auto simp add: counter_inv_def verify_counter split: if_splits)
next
  case (step_set w b ok d r)
  let ?c = "db_monotonicCounter (w_db w)"
  have lt: "?c < ?c + 1" by (rule succ_word [OF step_set(3)])
  have "db_source (w_db w) \<le> ?c" using step_set(1,5) by (simp add: counter_inv_def)
  then have "db_source (w_db w) \<le> ?c + 1" "?c + 1 \<noteq> 0" using lt by auto
  then show ?case
    using step_set \<open>db_source (w_db w) \<le> ?c\<close>
    by (auto simp add: counter_inv_def commit_set_def edgSetMonotonicCounterOnStore_def DB_Set_def split: if_splits)
next
  case (step_source w b oc d r)
  then show ?case
    by (auto simp add: counter_inv_def commit_source_def SetMonotonicCounter_def split: source_outcome.splits if_splits)
next
  case (step_batch w b ok d r)
  then show ?case by (auto simp add: counter_inv_def commit_batch_def split: if_splits)
qed (auto simp add: counter_inv_def split: option.splits)

lemma steps_inv: "steps w w' \<Longrightarrow> counter_inv w \<Longrightarrow> counter_inv w'"
  by (induction rule: steps.induct) (auto dest: step_inv)

lemma fresh_inv: "counter_inv fresh_world"
  by (simp add: counter_inv_def fresh_world_def store_counter_def)

text \<open>Both counters only grow.\<close>

lemma step_mono:
  "step w w' \<Longrightarrow> counter_inv w \<Longrightarrow>
     db_source (w_db w) \<le> db_source (w_db w') \<and> store_counter (db_kv (w_db w)) \<le> store_counter (db_kv (w_db w'))"
proof (induction rule: step.induct)
  case (step_open w src c)
  then show ?case by (auto simp add: counter_inv_def verify_counter split: if_splits)
next
  case (step_set w b ok d r)
  then show ?case
    using succ_word [OF step_set(3)]
    by (auto simp add: counter_inv_def commit_set_def edgSetMonotonicCounterOnStore_def DB_Set_def
        simp del: fun_upd_apply split: if_splits)
next
  case (step_source w b oc d r)
  then show ?case
    by (auto simp add: counter_inv_def commit_source_def SetMonotonicCounter_def split: source_outcome.splits if_splits)
next
  case (step_batch w b ok d r)
  then show ?case by (auto simp add: counter_inv_def commit_batch_def split: if_splits)
qed simp_all

lemma steps_mono:
  "steps w w' \<Longrightarrow> counter_inv w \<Longrightarrow>
     db_source (w_db w) \<le> db_source (w_db w') \<and> store_counter (db_kv (w_db w)) \<le> store_counter (db_kv (w_db w'))"
proof (induction rule: steps.induct)
  case (steps_step w w' w'')
  then show ?case using step_mono [OF steps_step(2) steps_inv [OF steps_step(1,4)]] by auto
qed simp

lemma commit_cases:
  assumes "commit_body setok oc batchok b d = (d', Committed)" and "db_enabled d"
  shows "setok" "oc = SourceOk" "batchok" "\<exists>d1 d2. commit_set True d = (d1, Inr ()) \<and>
     commit_source SourceOk (db_monotonicCounter d) d1 = (d2, Inr True) \<and> commit_batch True b d2 = (d', Committed)"
  using assms
  by (auto simp add: commit_body_def commit_set_def commit_source_def commit_batch_def edgSetMonotonicCounterOnStore_def
      DB_Set_def SetMonotonicCounter_def split: if_splits prod.splits sum.splits bool.splits source_outcome.splits)

text \<open>A commit that succeeds is three steps, and leaves both counters at the new value.\<close>

lemma commit_steps:
  assumes "commit_body setok oc batchok b (w_db w) = (d, Committed)" and "db_enabled (w_db w)" and "counter_inv w"
    and "w_phase w = Some Idle" and "user_batch b" and "db_monotonicCounter (w_db w) \<noteq> - 1"
  shows "steps w (w\<lparr>w_db := d\<rparr>)" and "db_source d = db_monotonicCounter (w_db w) + 1"
proof -
  let ?c = "db_monotonicCounter (w_db w)"
  obtain d1 d2 where d1: "commit_set True (w_db w) = (d1, Inr ())"
    and d2: "commit_source SourceOk ?c d1 = (d2, Inr True)" and d3: "commit_batch True b d2 = (d, Committed)"
    using commit_cases(4) [OF assms(1,2)] by blast
  have c1: "db_monotonicCounter d1 = ?c + 1" "db_source d1 = db_source (w_db w)"
    using d1 by (auto simp add: commit_set_def edgSetMonotonicCounterOnStore_def DB_Set_def)
  let ?w1 = "w\<lparr>w_db := d1, w_phase := Some (BeforeSource b)\<rparr>" and ?w2 = "w\<lparr>w_db := d2, w_phase := Some (BeforeBatch b)\<rparr>"
  have "step w ?w1" using step_set [OF assms(4-6) d1] by simp
  moreover have "step ?w1 ?w2"
    using step_source [of ?w1 b SourceOk d2 "Inr True"] d2 c1(1) by simp
  moreover have "step ?w2 (w\<lparr>w_db := d, w_phase := Some Idle\<rparr>)"
    using step_batch [of ?w2 b True d Committed] d3 by simp
  moreover have "w\<lparr>w_db := d, w_phase := Some Idle\<rparr> = w\<lparr>w_db := d\<rparr>" using assms(4) by simp
  ultimately show "steps w (w\<lparr>w_db := d\<rparr>)" by (metis steps_refl steps_step)
  have "db_source (w_db w) \<le> ?c" using assms(3,4) by (simp add: counter_inv_def)
  then have "db_source (w_db w) < ?c + 1" using succ_word [OF assms(6)] by (rule le_less_trans)
  then show "db_source d = ?c + 1"
    using d2 d3 c1 by (auto simp add: commit_source_def commit_batch_def SetMonotonicCounter_def)
qed

section \<open>Properties\<close>

text \<open>
  C8. Errors and crashes never lock the store out. From an empty store, after any sequence of
  opens, transactions, failed calls and crashes, the freshness check on the current store
  passes and adopts the counter of the store. Transactions do not write the key of the counter
  themselves and start only while the counter is below its maximum.
\<close>

theorem freshness_available:
  assumes "steps fresh_world w"
  shows "edgVerifyFreshness True SourceOk True (db_source (w_db w)) (db_kv (w_db w)) c
    = (db_source (w_db w), Inr (store_counter (db_kv (w_db w))))"
proof -
  have "counter_inv w" by (rule steps_inv [OF assms fresh_inv])
  then show ?thesis using verify_counter by (auto simp add: counter_inv_def)
qed

text \<open>
  C9. Rollback is detected. Take a copy of the store at any time, and let a transaction that
  starts after that commit successfully. At every later time, opening the copy is refused.
\<close>

theorem rollback_detected:
  assumes "steps fresh_world w0" and "steps w0 w" and "w_phase w = Some Idle" and "db_enabled (w_db w)"
    and "user_batch b" and "db_monotonicCounter (w_db w) \<noteq> - 1"
    and "commit_body setok oc batchok b (w_db w) = (d, Committed)" and "steps (w\<lparr>w_db := d\<rparr>) w'"
  shows "snd (edgVerifyFreshness True SourceOk True (db_source (w_db w')) (db_kv (w_db w0)) c)
    = Inl (RollbackDetected (store_counter (db_kv (w_db w0))) (db_source (w_db w')))"
proof -
  have i0: "counter_inv w0" by (rule steps_inv [OF assms(1) fresh_inv])
  have i: "counter_inv w" by (rule steps_inv [OF assms(2) i0])
  note cs = commit_steps [OF assms(7,4) i assms(3,5,6)]
  let ?c = "db_monotonicCounter (w_db w)"
  have "store_counter (db_kv (w_db w0)) \<le> ?c"
    using steps_mono [OF assms(2) i0] i assms(3) by (simp add: counter_inv_def)
  also have "?c < ?c + 1" by (rule succ_word [OF assms(6)])
  also have "\<dots> \<le> db_source (w_db w')"
    using steps_mono [OF assms(8) steps_inv [OF cs(1) i]] cs(2) by simp
  finally have lt: "store_counter (db_kv (w_db w0)) < db_source (w_db w')" .
  have "case db_kv (w_db w0) edgMonotonicCounterKey of None \<Rightarrow> True | Some v \<Rightarrow> 8 \<le> length v"
    using i0 by (simp add: counter_inv_def)
  with verify_counter [of "db_kv (w_db w0)" "db_source (w_db w')" c] lt show ?thesis by simp
qed

text \<open>
  C10. The window inside a commit. The store as it is after the counter was written and before
  the batch is committed has none of the transaction's data, and passes the freshness check
  even after the transaction has committed.
\<close>

theorem rollback_window:
  assumes "steps fresh_world w" and "w_phase w = Some Idle" and "db_enabled (w_db w)"
    and "user_batch b" and "db_monotonicCounter (w_db w) \<noteq> - 1"
    and "commit_body setok oc batchok b (w_db w) = (d, Committed)"
  shows "\<exists>d1. commit_set True (w_db w) = (d1, Inr ()) \<and>
     (\<forall>k. k \<noteq> edgMonotonicCounterKey \<longrightarrow> db_kv d1 k = db_kv (w_db w) k) \<and>
     snd (edgVerifyFreshness True SourceOk True (db_source d) (db_kv d1) c) = Inr (db_monotonicCounter d)"
proof -
  have i: "counter_inv w" by (rule steps_inv [OF assms(1) fresh_inv])
  note src = commit_steps(2) [OF assms(6,3) i assms(2,4,5)]
  obtain d1 d2 where d1: "commit_set True (w_db w) = (d1, Inr ())"
    and d2: "commit_source SourceOk (db_monotonicCounter (w_db w)) d1 = (d2, Inr True)"
    and d3: "commit_batch True b d2 = (d, Committed)"
    using commit_cases(4) [OF assms(6,3)] by blast
  have kv: "db_kv d1 = (db_kv (w_db w))(edgMonotonicCounterKey \<mapsto> le_encode 8 (db_monotonicCounter (w_db w) + 1))"
    and "db_monotonicCounter d1 = db_monotonicCounter (w_db w) + 1"
    using d1 by (auto simp add: commit_set_def edgSetMonotonicCounterOnStore_def DB_Set_def)
  then have "db_monotonicCounter d = db_monotonicCounter (w_db w) + 1"
    using d2 d3 by (auto simp add: commit_source_def commit_batch_def SetMonotonicCounter_def)
  then show ?thesis using d1 src kv verify_counter [of "db_kv d1" "db_source d" c] by (simp del: fun_upd_apply) simp
qed

section \<open>Concrete runs\<close>

definition open_world :: world where
  "open_world = fresh_world\<lparr>w_phase := Some Idle\<rparr>"

definition demo_batch :: txbatch where
  "demo_batch = [([1], Some [2])]"

lemma open_world_reachable: "steps fresh_world open_world"
proof -
  have "step fresh_world (fresh_world\<lparr>w_db := (w_db fresh_world)\<lparr>db_source := 0, db_monotonicCounter := 0\<rparr>, w_phase := Some Idle\<rparr>)"
    by (rule step_open) (simp_all add: fresh_world_def edgVerifyFreshness_def SetMonotonicCounter_def
        edgGetMonotonicCounterFromStore_def DB_Get_def)
  then have "step fresh_world open_world" by (simp add: open_world_def fresh_world_def)
  then show ?thesis using steps_refl steps_step by blast
qed

lemma open_world_simps:
  "w_phase open_world = Some Idle" "db_enabled (w_db open_world)" "db_monotonicCounter (w_db open_world) = 0"
  by (simp_all add: open_world_def fresh_world_def)

lemma demo_user_batch: "user_batch demo_batch"
  by (simp add: user_batch_def demo_batch_def edgMonotonicCounterKey_def str_bytes_def)

lemma demo_commit: "\<exists>d. commit_body True SourceOk True demo_batch (w_db open_world) = (d, Committed)"
  by (simp add: open_world_def fresh_world_def commit_body_def commit_set_def commit_source_def commit_batch_def
      edgSetMonotonicCounterOnStore_def DB_Set_def SetMonotonicCounter_def)

theorem freshness_available_witness:
  "edgVerifyFreshness True SourceOk True (db_source (w_db open_world)) (db_kv (w_db open_world)) 0
    = (db_source (w_db open_world), Inr (store_counter (db_kv (w_db open_world))))"
  by (rule freshness_available [OF open_world_reachable])

theorem rollback_detected_witness:
  "\<exists>d. commit_body True SourceOk True demo_batch (w_db open_world) = (d, Committed) \<and>
     snd (edgVerifyFreshness True SourceOk True (db_source d) (db_kv (w_db open_world)) 0)
       = Inl (RollbackDetected (store_counter (db_kv (w_db open_world))) (db_source d))"
proof -
  obtain d where d: "commit_body True SourceOk True demo_batch (w_db open_world) = (d, Committed)"
    using demo_commit by blast
  from rollback_detected [OF open_world_reachable steps_refl open_world_simps(1,2) demo_user_batch _ d steps_refl, of 0] d
  show ?thesis by (auto simp add: open_world_simps(3))
qed

theorem rollback_window_witness:
  "\<exists>d d1. commit_body True SourceOk True demo_batch (w_db open_world) = (d, Committed) \<and>
     commit_set True (w_db open_world) = (d1, Inr ()) \<and>
     snd (edgVerifyFreshness True SourceOk True (db_source d) (db_kv d1) 0) = Inr (db_monotonicCounter d)"
proof -
  obtain d where d: "commit_body True SourceOk True demo_batch (w_db open_world) = (d, Committed)"
    using demo_commit by blast
  from rollback_window [OF open_world_reachable open_world_simps(1,2) demo_user_batch _ d, of 0] d
  show ?thesis by (auto simp add: open_world_simps(3))
qed

end
