(* ===== verification/Filenames.thy ===== *)
theory Filenames
  imports Prelude
begin

text \<open>
  Package \<^verbatim>\<open>internal/base\<close>, \<^verbatim>\<open>filenames.go\<close>: the names of the files of a store and how they
  are parsed. \<open>path_Base\<close> is Go's \<^verbatim>\<open>path.Base\<close>, which \<^verbatim>\<open>MemFS.PathBase\<close> calls.
\<close>

section \<open>Paths\<close>

definition path_Base :: "string \<Rightarrow> string" where
  "path_Base p =
     (if p = [] then ''.''
      else let q = rev (dropWhile (\<lambda>c. c = CHR ''/'') (rev p));
               r = rev (takeWhile (\<lambda>c. c \<noteq> CHR ''/'') (rev q))
           in if r = [] then ''/'' else r)"

definition MemFS_PathBase :: "string \<Rightarrow> string" where
  "MemFS_PathBase p = path_Base p"

section \<open>File names\<close>

datatype FileType =
    FileTypeLog | FileTypeLock | FileTypeTable | FileTypeManifest
  | FileTypeCurrent | FileTypeOptions | FileTypeOldTemp | FileTypeTemp

definition FileNum_String :: "u64 \<Rightarrow> string" where
  "FileNum_String fn = format06 (unat fn)"

fun MakeFilename :: "FileType \<Rightarrow> u64 \<Rightarrow> string" where
  "MakeFilename FileTypeLog dfn = FileNum_String dfn @ ''.log''"
| "MakeFilename FileTypeLock dfn = ''LOCK''"
| "MakeFilename FileTypeTable dfn = FileNum_String dfn @ ''.sst''"
| "MakeFilename FileTypeManifest dfn = ''MANIFEST-'' @ FileNum_String dfn"
| "MakeFilename FileTypeCurrent dfn = ''CURRENT''"
| "MakeFilename FileTypeOptions dfn = ''OPTIONS-'' @ FileNum_String dfn"
| "MakeFilename FileTypeOldTemp dfn = ''CURRENT.'' @ FileNum_String dfn @ ''.dbtmp''"
| "MakeFilename FileTypeTemp dfn = ''temporary.'' @ FileNum_String dfn @ ''.dbtmp''"

definition parseDiskFileNum :: "string \<Rightarrow> u64 \<times> bool" where
  "parseDiskFileNum s = (case ParseUint s of (u, Some _) \<Rightarrow> (0, False) | (u, None) \<Rightarrow> (u, True))"

text \<open>\<^verbatim>\<open>strings.TrimSuffix\<close>.\<close>

definition TrimSuffix :: "string \<Rightarrow> string \<Rightarrow> string" where
  "TrimSuffix s suf = (if has_suffix s suf then take (length s - length suf) s else s)"

text \<open>A type, a number, and whether the name is one of a store; on failure the type is 0, \<^verbatim>\<open>FileTypeLog\<close>.\<close>

definition parsed :: "FileType \<Rightarrow> string \<Rightarrow> FileType \<times> u64 \<times> bool" where
  "parsed t s = (case parseDiskFileNum s of (dfn, ok) \<Rightarrow> if ok then (t, dfn, True) else (FileTypeLog, dfn, False))"

definition parse_name :: "string \<Rightarrow> FileType \<times> u64 \<times> bool" where
  "parse_name filename =
        (if filename = ''CURRENT'' then (FileTypeCurrent, 0, True)
         else if filename = ''LOCK'' then (FileTypeLock, 0, True)
         else if has_prefix filename ''MANIFEST-'' then parsed FileTypeManifest (drop (length ''MANIFEST-'') filename)
         else if has_prefix filename ''OPTIONS-'' then parsed FileTypeOptions (drop (length ''OPTIONS-'') filename)
         else if has_prefix filename ''CURRENT.'' \<and> has_suffix filename ''.dbtmp''
         then parsed FileTypeOldTemp (TrimSuffix (drop (length ''CURRENT.'') filename) ''.dbtmp'')
         else if has_prefix filename ''temporary.'' \<and> has_suffix filename ''.dbtmp''
         then parsed FileTypeTemp (TrimSuffix (drop (length ''temporary.'') filename) ''.dbtmp'')
         else let stem = takeWhile (\<lambda>c. c \<noteq> CHR ''.'') filename; rest = drop (length stem + 1) filename
              in if length stem = length filename then (FileTypeLog, 0, False)
                 else case parseDiskFileNum stem of (dfn, ok) \<Rightarrow>
                   if \<not> ok then (FileTypeLog, dfn, False)
                   else if rest = ''sst'' then (FileTypeTable, dfn, True)
                   else if rest = ''log'' then (FileTypeLog, dfn, True)
                   else (FileTypeLog, dfn, False))"

definition ParseFilename :: "(string \<Rightarrow> string) \<Rightarrow> string \<Rightarrow> FileType \<times> u64 \<times> bool" where
  "ParseFilename PathBase filename = parse_name (PathBase filename)"

section \<open>Lemmas\<close>

definition digit_char :: "char \<Rightarrow> bool" where
  "digit_char c = (digit_of c \<noteq> None)"

lemma FileNum_digits: "c \<in> set (FileNum_String n) \<Longrightarrow> digit_char c"
  unfolding FileNum_String_def digit_char_def by (drule format06_set) auto

lemma FileNum_nonempty [simp]: "FileNum_String n \<noteq> []"
  by (simp add: FileNum_String_def format06_def)

lemma digit_char_other [simp]:
  "\<not> digit_char (CHR ''.'')" "\<not> digit_char (CHR ''/'')" "\<not> digit_char (CHR ''C'')" "\<not> digit_char (CHR ''L'')"
  "\<not> digit_char (CHR ''M'')" "\<not> digit_char (CHR ''O'')" "\<not> digit_char (CHR ''t'')"
  by (simp_all add: digit_char_def digit_of_def Let_def)

lemma FileNum_no [simp]: "\<not> digit_char c \<Longrightarrow> c \<notin> set (FileNum_String n)"
  using FileNum_digits by blast

lemma FileNum_hd: "FileNum_String n = c # cs \<Longrightarrow> digit_char c"
  using FileNum_digits [of c n] by simp

lemma FileNum_prefix [simp]: "\<not> digit_char c \<Longrightarrow> \<not> has_prefix (FileNum_String n @ s) (c # p)"
  by (cases "FileNum_String n") (auto simp add: has_prefix_def dest: FileNum_hd)

lemma FileNum_neq [simp]: "\<not> digit_char c \<Longrightarrow> FileNum_String n @ s \<noteq> c # p"
  by (cases "FileNum_String n") (auto dest: FileNum_hd)

lemma parse_FileNum [simp]: "parseDiskFileNum (FileNum_String n) = (n, True)"
  by (simp add: parseDiskFileNum_def FileNum_String_def ParseUint_format06)

lemma parsed_FileNum [simp]: "parsed t (FileNum_String n) = (t, n, True)"
  by (simp add: parsed_def)

lemma has_prefix_Cons [simp]: "has_prefix s []" "has_prefix (c # s) (d # p) \<longleftrightarrow> c = d \<and> has_prefix s p"
  by (auto simp add: has_prefix_def)

lemma has_suffix_Cons [simp]: "has_suffix s p \<Longrightarrow> has_suffix (c # s) p"
  by (simp add: has_suffix_def Suc_diff_le)

lemma TrimSuffix_append [simp]: "TrimSuffix (s @ p) p = s"
  by (simp add: TrimSuffix_def)

lemma stem_FileNum: "takeWhile (\<lambda>c. c \<noteq> CHR ''.'') (FileNum_String n @ CHR ''.'' # s) = FileNum_String n"
  by (rule takeWhile_tail [THEN trans]) (auto intro: takeWhile_append2 simp add: takeWhile_eq_all_conv)

lemma MakeFilename_no_slash: "CHR ''/'' \<notin> set (MakeFilename t n)"
  by (cases t) simp_all

lemma MakeFilename_nonempty [simp]: "MakeFilename t n \<noteq> []"
  by (cases t) simp_all

lemma path_Base_join:
  assumes "name \<noteq> []" and "CHR ''/'' \<notin> set name" and "dir = [] \<or> last dir = CHR ''/''"
  shows "path_Base (dir @ name) = name"
proof -
  let ?no = "\<lambda>c :: char. c \<noteq> CHR ''/''"
  obtain c cs where rn: "rev name = c # cs" using assms(1) by (cases "rev name") auto
  then have c: "c \<noteq> CHR ''/''" using assms(2) by (metis list.set_intros(1) set_rev)
  then have q: "rev (dropWhile (\<lambda>c. c = CHR ''/'') (rev (dir @ name))) = dir @ name" using rn by simp
  have "takeWhile ?no (rev name @ rev dir) = rev name @ takeWhile ?no (rev dir)"
    using assms(2) by (subst takeWhile_append) auto
  moreover have "takeWhile ?no (rev dir) = []" using assms(3) by (cases dir rule: rev_cases) auto
  ultimately show ?thesis using assms(1) q by (simp add: path_Base_def Let_def)
qed

section \<open>Properties\<close>

text \<open>
  C16. A name built by \<^verbatim>\<open>MakeFilename\<close>, alone or below a directory, is parsed back to its type and number
  (lock and current files have no number), so no two files of a store share a name.
\<close>

theorem filename_roundtrip:
  assumes "dir = [] \<or> last dir = CHR ''/''"
  shows "ParseFilename MemFS_PathBase (dir @ MakeFilename t n) =
           (t, if t = FileTypeLock \<or> t = FileTypeCurrent then 0 else n, True)"
proof -
  have base: "MemFS_PathBase (dir @ MakeFilename t n) = MakeFilename t n"
    unfolding MemFS_PathBase_def by (rule path_Base_join [OF MakeFilename_nonempty MakeFilename_no_slash assms])
  show ?thesis
    unfolding ParseFilename_def base parse_name_def Let_def by (cases t) (simp_all add: stem_FileNum)
qed

theorem filename_roundtrip_witness:
  "ParseFilename MemFS_PathBase (''db/'' @ MakeFilename FileTypeTable 42) = (FileTypeTable, 42, True)"
proof -
  have "''db/'' = [] \<or> last ''db/'' = CHR ''/''" by simp
  from filename_roundtrip [OF this, of FileTypeTable 42] show ?thesis
    by (simp only: FileType.distinct simp_thms if_False)
qed

end
