(* ===== verification/InternalKey.thy ===== *)
theory InternalKey
  imports Prelude
begin

text \<open>
  Package \<^verbatim>\<open>internal/base\<close>: comparers (\<^verbatim>\<open>comparer.go\<close>) and internal keys
  (\<^verbatim>\<open>internal.go\<close>). The locale \<open>key_order\<close> is the contract of a \<^verbatim>\<open>Compare\<close> function,
  \<open>comparer\<close> that of the whole \<^verbatim>\<open>Comparer\<close>; both are interpreted for the default comparer.
\<close>

section \<open>The default comparer\<close>

definition asUint64 :: "bytes \<Rightarrow> nat \<Rightarrow> u64" where
  "asUint64 c i = le_decode (take 8 (drop i c))"

text \<open>The two loops of \<^verbatim>\<open>SharedPrefixLen\<close>, by words and by bytes, below the shorter length \<open>n\<close>.\<close>

function shared_words :: "bytes \<Rightarrow> bytes \<Rightarrow> nat \<Rightarrow> nat \<Rightarrow> nat" where
  "shared_words a b n i = (if i + 7 < n \<and> asUint64 a i = asUint64 b i then shared_words a b n (i + 8) else i)"
  by pat_completeness auto
termination
  by (relation "measure (\<lambda>(a, b, n, i). n - i)") auto

function shared_bytes :: "bytes \<Rightarrow> bytes \<Rightarrow> nat \<Rightarrow> nat \<Rightarrow> nat" where
  "shared_bytes a b n i = (if i < n \<and> a ! i = b ! i then shared_bytes a b n (i + 1) else i)"
  by pat_completeness auto
termination
  by (relation "measure (\<lambda>(a, b, n, i). n - i)") auto

declare shared_words.simps [simp del] shared_bytes.simps [simp del]

definition SharedPrefixLen :: "bytes \<Rightarrow> bytes \<Rightarrow> nat" where
  "SharedPrefixLen a b = (let n = min (length a) (length b) in shared_bytes a b n (shared_words a b n 0))"

definition AbbreviatedKey :: "bytes \<Rightarrow> u64" where
  "AbbreviatedKey key =
     (if 8 \<le> length key then be_decode (take 8 key)
      else push_bit (8 * (8 - length key)) (foldl (\<lambda>v b. push_bit 8 v OR ucast b) 0 key))"

text \<open>The loop at the end of \<^verbatim>\<open>Separator\<close>: increments the first byte from \<open>i\<close> on that is not 255.\<close>

function bump :: "bytes \<Rightarrow> nat \<Rightarrow> bytes" where
  "bump dst i =
     (if i < length dst
      then if dst ! i \<noteq> 255 then take (i + 1) (dst[i := dst ! i + 1]) else bump dst (i + 1)
      else dst)"
  by pat_completeness auto
termination
  by (relation "measure (\<lambda>(dst, i). length dst - i)") auto

declare bump.simps [simp del]

definition Separator :: "bytes \<Rightarrow> bytes \<Rightarrow> bytes \<Rightarrow> bytes" where
  "Separator dst0 a b =
     (let i = SharedPrefixLen a b; n = length dst0; dst = dst0 @ a; mn = min (length a) (length b)
      in if mn \<le> i then dst
         else if b ! i \<le> a ! i then dst
         else if i + 1 < length b \<or> a ! i + 1 < b ! i then take (i + n + 1) (dst[i + n := dst ! (i + n) + 1])
         else bump dst (i + n + 1))"

fun Successor_loop :: "bytes \<Rightarrow> bytes option" where
  "Successor_loop [] = None"
| "Successor_loop (x # xs) = (if x \<noteq> 255 then Some [x + 1] else map_option (Cons x) (Successor_loop xs))"

definition Successor :: "bytes \<Rightarrow> bytes \<Rightarrow> bytes" where
  "Successor dst a = dst @ (case Successor_loop a of Some s \<Rightarrow> s | None \<Rightarrow> a)"

definition ImmediateSuccessor :: "bytes \<Rightarrow> bytes \<Rightarrow> bytes" where
  "ImmediateSuccessor dst a = (dst @ a) @ [0]"

section \<open>Internal keys\<close>

type_synonym kind = byte

definition InternalKeyKindDelete :: kind where "InternalKeyKindDelete = 0"
definition InternalKeyKindSet :: kind where "InternalKeyKindSet = 1"
definition InternalKeyKindMerge :: kind where "InternalKeyKindMerge = 2"
definition InternalKeyKindLogData :: kind where "InternalKeyKindLogData = 3"
definition InternalKeyKindSingleDelete :: kind where "InternalKeyKindSingleDelete = 7"
definition InternalKeyKindRangeDelete :: kind where "InternalKeyKindRangeDelete = 15"
definition InternalKeyKindSeparator :: kind where "InternalKeyKindSeparator = 17"
definition InternalKeyKindSetWithDelete :: kind where "InternalKeyKindSetWithDelete = 18"
definition InternalKeyKindRangeKeyDelete :: kind where "InternalKeyKindRangeKeyDelete = 19"
definition InternalKeyKindRangeKeyUnset :: kind where "InternalKeyKindRangeKeyUnset = 20"
definition InternalKeyKindRangeKeySet :: kind where "InternalKeyKindRangeKeySet = 21"
definition InternalKeyKindIngestSST :: kind where "InternalKeyKindIngestSST = 22"
definition InternalKeyKindDeleteSized :: kind where "InternalKeyKindDeleteSized = 23"
definition InternalKeyKindMax :: kind where "InternalKeyKindMax = 23"
definition InternalKeyKindInvalid :: kind where "InternalKeyKindInvalid = 191"

lemmas kind_defs =
  InternalKeyKindDelete_def InternalKeyKindSet_def InternalKeyKindMerge_def InternalKeyKindLogData_def
  InternalKeyKindSingleDelete_def InternalKeyKindRangeDelete_def InternalKeyKindSeparator_def
  InternalKeyKindSetWithDelete_def InternalKeyKindRangeKeyDelete_def InternalKeyKindRangeKeyUnset_def
  InternalKeyKindRangeKeySet_def InternalKeyKindIngestSST_def InternalKeyKindDeleteSized_def
  InternalKeyKindMax_def InternalKeyKindInvalid_def

definition InternalKeySeqNumBatch :: u64 where "InternalKeySeqNumBatch = push_bit 55 1"
definition InternalKeySeqNumMax :: u64 where "InternalKeySeqNumMax = push_bit 56 1 - 1"

record InternalKey =
  UserKey :: bytes
  Trailer :: u64

definition MakeTrailer :: "u64 \<Rightarrow> kind \<Rightarrow> u64" where
  "MakeTrailer seqNum kind = push_bit 8 seqNum OR ucast kind"

definition MakeInternalKey :: "bytes \<Rightarrow> u64 \<Rightarrow> kind \<Rightarrow> InternalKey" where
  "MakeInternalKey userKey seqNum kind = \<lparr>UserKey = userKey, Trailer = push_bit 8 seqNum OR ucast kind\<rparr>"

definition InternalKeyRangeDeleteSentinel :: u64 where
  "InternalKeyRangeDeleteSentinel = push_bit 8 InternalKeySeqNumMax OR ucast InternalKeyKindRangeDelete"

definition MakeSearchKey :: "bytes \<Rightarrow> InternalKey" where
  "MakeSearchKey userKey = \<lparr>UserKey = userKey, Trailer = push_bit 8 InternalKeySeqNumMax OR ucast InternalKeyKindMax\<rparr>"

definition MakeRangeDeleteSentinelKey :: "bytes \<Rightarrow> InternalKey" where
  "MakeRangeDeleteSentinelKey userKey = \<lparr>UserKey = userKey, Trailer = InternalKeyRangeDeleteSentinel\<rparr>"

definition MakeExclusiveSentinelKey :: "kind \<Rightarrow> bytes \<Rightarrow> InternalKey" where
  "MakeExclusiveSentinelKey kind userKey = \<lparr>UserKey = userKey, Trailer = push_bit 8 InternalKeySeqNumMax OR ucast kind\<rparr>"

definition DecodeInternalKey :: "bytes \<Rightarrow> InternalKey" where
  "DecodeInternalKey encodedKey =
     (if 8 \<le> length encodedKey
      then let n = length encodedKey - 8 in \<lparr>UserKey = take n encodedKey, Trailer = le_decode (drop n encodedKey)\<rparr>
      else \<lparr>UserKey = [], Trailer = ucast InternalKeyKindInvalid\<rparr>)"

text \<open>Into a buffer of \<^verbatim>\<open>Size\<close> bytes.\<close>

definition InternalKey_Size :: "InternalKey \<Rightarrow> nat" where
  "InternalKey_Size k = length (UserKey k) + 8"

definition InternalKey_Encode :: "InternalKey \<Rightarrow> bytes" where
  "InternalKey_Encode k = UserKey k @ le_encode 8 (Trailer k)"

definition EncodeTrailer :: "InternalKey \<Rightarrow> bytes" where
  "EncodeTrailer k = le_encode 8 (Trailer k)"

definition InternalCompare :: "(bytes \<Rightarrow> bytes \<Rightarrow> int) \<Rightarrow> InternalKey \<Rightarrow> InternalKey \<Rightarrow> int" where
  "InternalCompare userCmp a b =
     (let x = userCmp (UserKey a) (UserKey b)
      in if x \<noteq> 0 then x
         else if Trailer b < Trailer a then -1
         else if Trailer a < Trailer b then 1
         else 0)"

definition InternalKey_Separator ::
    "(bytes \<Rightarrow> bytes \<Rightarrow> int) \<Rightarrow> (bytes \<Rightarrow> bytes \<Rightarrow> bytes \<Rightarrow> bytes) \<Rightarrow> bytes \<Rightarrow> InternalKey \<Rightarrow> InternalKey \<Rightarrow> InternalKey" where
  "InternalKey_Separator cmp sep buf0 k other =
     (let buf = sep buf0 (UserKey k) (UserKey other)
      in if length buf \<le> length (UserKey k) \<and> cmp (UserKey k) buf < 0
         then MakeInternalKey buf InternalKeySeqNumMax InternalKeyKindSeparator
         else k)"

definition InternalKey_Successor ::
    "(bytes \<Rightarrow> bytes \<Rightarrow> int) \<Rightarrow> (bytes \<Rightarrow> bytes \<Rightarrow> bytes) \<Rightarrow> bytes \<Rightarrow> InternalKey \<Rightarrow> InternalKey" where
  "InternalKey_Successor cmp succ buf0 k =
     (let buf = succ buf0 (UserKey k)
      in if length buf \<le> length (UserKey k) \<and> cmp (UserKey k) buf < 0
         then MakeInternalKey buf InternalKeySeqNumMax InternalKeyKindSeparator
         else k)"

definition SetSeqNum :: "u64 \<Rightarrow> InternalKey \<Rightarrow> InternalKey" where
  "SetSeqNum seqNum k = k\<lparr>Trailer := push_bit 8 seqNum OR (Trailer k AND 0xff)\<rparr>"

definition SeqNumFromTrailer :: "u64 \<Rightarrow> u64" where
  "SeqNumFromTrailer t = drop_bit 8 t"

definition SeqNum :: "InternalKey \<Rightarrow> u64" where
  "SeqNum k = drop_bit 8 (Trailer k)"

definition Visible :: "u64 \<Rightarrow> u64 \<Rightarrow> u64 \<Rightarrow> bool" where
  "Visible seqNum snapshot batchSnapshot =
     (seqNum < snapshot \<or>
      (seqNum AND InternalKeySeqNumBatch \<noteq> 0 \<and> seqNum < batchSnapshot) \<or>
      seqNum = InternalKeySeqNumMax)"

definition InternalKey_Visible :: "InternalKey \<Rightarrow> u64 \<Rightarrow> u64 \<Rightarrow> bool" where
  "InternalKey_Visible k snapshot batchSnapshot = Visible (SeqNum k) snapshot batchSnapshot"

definition SetKind :: "kind \<Rightarrow> InternalKey \<Rightarrow> InternalKey" where
  "SetKind kind k = k\<lparr>Trailer := (Trailer k AND NOT 0xff) OR ucast kind\<rparr>"

definition TrailerKind :: "u64 \<Rightarrow> kind" where
  "TrailerKind trailer = ucast (trailer AND 0xff)"

definition Kind :: "InternalKey \<Rightarrow> kind" where
  "Kind k = TrailerKind (Trailer k)"

definition InternalKey_Valid :: "InternalKey \<Rightarrow> bool" where
  "InternalKey_Valid k = (Kind k \<le> InternalKeyKindMax)"

definition InternalKey_Clone :: "InternalKey \<Rightarrow> InternalKey" where
  "InternalKey_Clone k = (if length (UserKey k) = 0 then k else \<lparr>UserKey = [] @ UserKey k, Trailer = Trailer k\<rparr>)"

definition CopyFrom :: "InternalKey \<Rightarrow> InternalKey \<Rightarrow> InternalKey" where
  "CopyFrom k k2 = k\<lparr>UserKey := take 0 (UserKey k) @ UserKey k2, Trailer := Trailer k2\<rparr>"

definition IsExclusiveSentinel :: "InternalKey \<Rightarrow> bool" where
  "IsExclusiveSentinel k =
     (if Kind k = InternalKeyKindRangeDelete then Trailer k = InternalKeyRangeDeleteSentinel
      else if Kind k \<in> {InternalKeyKindRangeKeyDelete, InternalKeyKindRangeKeyUnset, InternalKeyKindRangeKeySet}
      then drop_bit 8 (Trailer k) = InternalKeySeqNumMax
      else False)"

section \<open>Contracts\<close>

text \<open>What the code relies on of a \<^verbatim>\<open>Compare\<close> function: a total order with the empty key first.\<close>

locale key_order =
  fixes cmp :: "bytes \<Rightarrow> bytes \<Rightarrow> int"
  assumes cmp_eq: "cmp a b = 0 \<longleftrightarrow> a = b"
    and cmp_swap: "cmp b a = - cmp a b"
    and cmp_trans: "cmp a b \<le> 0 \<Longrightarrow> cmp b c \<le> 0 \<Longrightarrow> cmp a c \<le> 0"
    and cmp_empty: "cmp [] a \<le> 0"
begin

lemma cmp_refl [simp]: "cmp a a = 0"
  by (simp add: cmp_eq)

lemma cmp_antisym: "cmp a b \<le> 0 \<Longrightarrow> cmp b a \<le> 0 \<Longrightarrow> a = b"
  using cmp_swap [of b a] by (simp add: cmp_eq [symmetric])

lemma cmp_less_trans: "cmp a b < 0 \<Longrightarrow> cmp b c \<le> 0 \<Longrightarrow> cmp a c < 0"
proof -
  assume ab: "cmp a b < 0" and bc: "cmp b c \<le> 0"
  then have "cmp a c \<le> 0" using cmp_trans by (meson less_imp_le)
  moreover have "cmp a c \<noteq> 0"
  proof
    assume "cmp a c = 0"
    then have "a = c" by (simp add: cmp_eq)
    then have "cmp b a \<le> 0" using bc by simp
    then show False using ab cmp_swap [of b a] by simp
  qed
  ultimately show ?thesis by simp
qed

lemma cmp_le_less_trans: "cmp a b \<le> 0 \<Longrightarrow> cmp b c < 0 \<Longrightarrow> cmp a c < 0"
proof -
  assume ab: "cmp a b \<le> 0" and bc: "cmp b c < 0"
  show ?thesis
  proof (cases "cmp a b = 0")
    case True
    then show ?thesis using bc by (simp add: cmp_eq)
  next
    case False
    then show ?thesis using ab bc cmp_less_trans [of a b c] by simp
  qed
qed

text \<open>Internal keys are totally ordered: by user key, then by descending trailer.\<close>

lemma InternalCompare_eq: "InternalCompare cmp a b = 0 \<longleftrightarrow> a = b"
  by (cases a; cases b) (auto simp add: InternalCompare_def Let_def cmp_eq not_less)

lemma InternalCompare_swap: "InternalCompare cmp b a = - InternalCompare cmp a b"
  using cmp_swap [of "UserKey b" "UserKey a"] by (auto simp add: InternalCompare_def Let_def)

lemma InternalCompare_le:
  "InternalCompare cmp a b \<le> 0 \<longleftrightarrow>
     cmp (UserKey a) (UserKey b) < 0 \<or> UserKey a = UserKey b \<and> Trailer b \<le> Trailer a"
  using cmp_eq [of "UserKey a" "UserKey b"] by (auto simp add: InternalCompare_def Let_def)

lemma InternalCompare_less:
  "InternalCompare cmp a b < 0 \<longleftrightarrow>
     cmp (UserKey a) (UserKey b) < 0 \<or> UserKey a = UserKey b \<and> Trailer b < Trailer a"
  by (auto simp add: InternalCompare_def Let_def cmp_eq)

lemma InternalCompare_trans:
  "InternalCompare cmp a b \<le> 0 \<Longrightarrow> InternalCompare cmp b c \<le> 0 \<Longrightarrow> InternalCompare cmp a c \<le> 0"
  unfolding InternalCompare_le using cmp_less_trans by fastforce

end

text \<open>The contract of the functions that shorten index keys.\<close>

locale comparer = key_order +
  fixes sep :: "bytes \<Rightarrow> bytes \<Rightarrow> bytes \<Rightarrow> bytes" and succ :: "bytes \<Rightarrow> bytes \<Rightarrow> bytes"
  assumes sep_ge: "cmp a b < 0 \<Longrightarrow> cmp a (sep [] a b) \<le> 0"
    and sep_less: "cmp a b < 0 \<Longrightarrow> cmp (sep [] a b) b < 0"
    and sep_same: "sep [] a a = a"
    and succ_ge: "cmp a (succ [] a) \<le> 0"
begin

lemma Separator_between:
  assumes "InternalCompare cmp k other < 0"
  shows "InternalCompare cmp k (InternalKey_Separator cmp sep [] k other) \<le> 0"
    and "InternalCompare cmp (InternalKey_Separator cmp sep [] k other) other < 0"
proof -
  let ?b = "sep [] (UserKey k) (UserKey other)"
  have k: "InternalCompare cmp k k \<le> 0" by (simp add: InternalCompare_le)
  consider "cmp (UserKey k) (UserKey other) < 0" | "UserKey k = UserKey other"
    using assms by (auto simp add: InternalCompare_less)
  then show "InternalCompare cmp k (InternalKey_Separator cmp sep [] k other) \<le> 0"
    and "InternalCompare cmp (InternalKey_Separator cmp sep [] k other) other < 0"
    using assms k sep_less [of "UserKey k" "UserKey other"]
    by (cases; auto simp add: InternalKey_Separator_def Let_def MakeInternalKey_def InternalCompare_less
        InternalCompare_le sep_same)+
qed

lemma Successor_after: "InternalCompare cmp k (InternalKey_Successor cmp succ [] k) \<le> 0"
  by (auto simp add: InternalKey_Successor_def Let_def MakeInternalKey_def InternalCompare_le)

end

section \<open>The default comparer\<close>

subsection \<open>Common prefixes\<close>

fun common :: "bytes \<Rightarrow> bytes \<Rightarrow> nat" where
  "common (x # xs) (y # ys) = (if x = y then Suc (common xs ys) else 0)"
| "common _ _ = 0"

lemma common_le: "common a b \<le> length a" "common a b \<le> length b"
  by (induction a b rule: common.induct) auto

lemma common_iff: "k \<le> common a b \<longleftrightarrow> k \<le> length a \<and> k \<le> length b \<and> take k a = take k b"
proof (induction a b arbitrary: k rule: common.induct)
  case (1 x xs y ys)
  then show ?case by (cases k) auto
qed auto

lemma common_nth: "common a b < length a \<Longrightarrow> common a b < length b \<Longrightarrow> a ! common a b \<noteq> b ! common a b"
  by (induction a b rule: common.induct) auto

lemma take8_eq: "i + 8 \<le> length a \<Longrightarrow> i + 8 \<le> length b \<Longrightarrow> asUint64 a i = asUint64 b i \<Longrightarrow> take 8 (drop i a) = take 8 (drop i b)"
proof -
  assume a: "i + 8 \<le> length a" and b: "i + 8 \<le> length b" and e: "asUint64 a i = asUint64 b i"
  have "le_encode (length (take 8 (drop i a))) (asUint64 a i) = take 8 (drop i a)"
    unfolding asUint64_def by (rule le_encode_decode) (use a in simp)
  moreover have "le_encode (length (take 8 (drop i b))) (asUint64 b i) = take 8 (drop i b)"
    unfolding asUint64_def by (rule le_encode_decode) (use b in simp)
  ultimately show ?thesis using a b e by simp
qed

lemma shared_words_common:
  "n = min (length a) (length b) \<Longrightarrow> i \<le> common a b \<Longrightarrow> shared_words a b n i \<le> common a b"
proof (induction a b n i rule: shared_words.induct)
  case (1 a b n i)
  show ?case
  proof (cases "i + 7 < n \<and> asUint64 a i = asUint64 b i")
    case True
    then have len: "i + 8 \<le> length a" "i + 8 \<le> length b" using "1.prems"(1) by auto
    have "take 8 (drop i a) = take 8 (drop i b)" using take8_eq [OF len] True by simp
    moreover have "take i a = take i b" using "1.prems"(2) by (simp add: common_iff)
    ultimately have "i + 8 \<le> common a b" using len by (simp add: common_iff take_add)
    then show ?thesis using 1 True by (subst shared_words.simps) simp
  next
    case False
    then show ?thesis using "1.prems" by (subst shared_words.simps) auto
  qed
qed

lemma shared_bytes_common:
  "n = min (length a) (length b) \<Longrightarrow> i \<le> common a b \<Longrightarrow> shared_bytes a b n i = common a b"
proof (induction a b n i rule: shared_bytes.induct)
  case (1 a b n i)
  show ?case
  proof (cases "i < n \<and> a ! i = b ! i")
    case True
    then have "i + 1 \<le> common a b" using "1.prems" by (simp add: common_iff take_Suc_conv_app_nth)
    then show ?thesis using 1 True by (subst shared_bytes.simps) simp
  next
    case False
    have "\<not> i < common a b"
    proof
      assume "i < common a b"
      then have "i + 1 \<le> common a b" by simp
      then have "i < length a" "i < length b" "take (i + 1) a = take (i + 1) b" unfolding common_iff by simp_all
      then show False using False "1.prems"(1) by (simp add: take_Suc_conv_app_nth)
    qed
    then show ?thesis using "1.prems" False by (subst shared_bytes.simps) auto
  qed
qed

lemma SharedPrefixLen_common: "SharedPrefixLen a b = common a b"
  unfolding SharedPrefixLen_def Let_def
  by (rule shared_bytes_common [OF refl shared_words_common [OF refl]]) simp


subsection \<open>Separators and successors\<close>

definition succ_or_same :: "bytes \<Rightarrow> bytes" where
  "succ_or_same a = (case Successor_loop a of Some s \<Rightarrow> s | None \<Rightarrow> a)"

lemma succ_or_same_simps [simp]:
  "succ_or_same [] = []"
  "succ_or_same (x # xs) = (if x \<noteq> 255 then [x + 1] else x # succ_or_same xs)"
  by (auto simp add: succ_or_same_def split: option.splits)

lemma bump_shift: "bump dst i = take i dst @ succ_or_same (drop i dst)"
proof (induction dst i rule: bump.induct)
  case (1 dst i)
  show ?case
  proof (cases "i < length dst")
    case True
    then have d: "drop i dst = dst ! i # drop (i + 1) dst" by (simp add: Cons_nth_drop_Suc)
    have t: "take (i + 1) (dst[i := v]) = take i dst @ [v]" for v
      using True by (simp add: take_Suc_conv_app_nth)
    show ?thesis
      using True 1 by (subst bump.simps) (auto simp add: d t take_Suc_conv_app_nth)
  qed (simp add: bump.simps [of dst i])
qed

lemma byte_succ: "(x :: byte) \<noteq> 255 \<Longrightarrow> x < x + 1"
proof -
  assume "x \<noteq> 255"
  then have "unat x \<noteq> 255" by (simp add: word_unat_eq_iff)
  moreover have "unat x < 256" by (rule order_less_le_trans [OF unsigned_less]) simp
  ultimately have "unat (x + 1) = unat x + 1" by (simp add: unat_word_ariths)
  then show ?thesis by (simp add: word_less_nat_alt)
qed

lemma less_not_max: "(x :: byte) < y \<Longrightarrow> x \<noteq> 255"
proof
  assume "x < y" "x = 255"
  moreover have "unat y < 256" by (rule order_less_le_trans [OF unsigned_less]) simp
  ultimately show False by (simp add: word_less_nat_alt)
qed

lemma byte_succ_le: "(x :: byte) < y \<Longrightarrow> x + 1 \<le> y"
proof -
  assume l: "x < y"
  have "unat y < 256" by (rule order_less_le_trans [OF unsigned_less]) simp
  then have "unat (x + 1) = unat x + 1" using l by (simp add: unat_word_ariths word_less_nat_alt)
  then show ?thesis using l by (simp add: word_less_nat_alt word_le_nat_alt)
qed

lemma succ_or_same_ge: "bytes_compare a (succ_or_same a) \<le> 0"
  by (induction a) (auto dest: byte_succ)

lemma separator_split:
  assumes "common a b < min (length a) (length b)"
  obtains p x y a' b' where "a = p @ x # a'" and "b = p @ y # b'" and "x \<noteq> y" and "common a b = length p"
proof -
  let ?i = "common a b"
  have l: "?i < length a" "?i < length b" using assms by simp_all
  have "take ?i a = take ?i b" using common_iff [of ?i a b] by simp
  moreover have "a = take ?i a @ a ! ?i # drop (Suc ?i) a" "b = take ?i b @ b ! ?i # drop (Suc ?i) b"
    using l by (simp_all add: id_take_nth_drop [symmetric])
  ultimately show ?thesis
    using that [of "take ?i a" "a ! ?i" "drop (Suc ?i) a" "b ! ?i" "drop (Suc ?i) b"] common_nth [OF l] l by simp
qed

lemma Separator_cases:
  "Separator dst a b = dst @ a \<or>
   (\<exists>p x y a' b'. a = p @ x # a' \<and> b = p @ y # b' \<and> x < y \<and>
     (Separator dst a b = dst @ p @ [x + 1] \<and> (b' \<noteq> [] \<or> x + 1 < y) \<or>
      Separator dst a b = dst @ p @ x # succ_or_same a'))"
proof (cases "common a b < min (length a) (length b)")
  case False
  then have "Separator dst a b = dst @ a" unfolding Separator_def Let_def SharedPrefixLen_common by (simp only: not_less if_True)
  then show ?thesis by (rule disjI1)
next
  case True
  then obtain p x y a' b' where ab: "a = p @ x # a'" "b = p @ y # b'" "x \<noteq> y" "common a b = length p"
    by (rule separator_split)
  have i: "a ! length p = x" "b ! length p = y" by (simp_all add: ab)
  show ?thesis
  proof (cases "y \<le> x")
    case True
    then have "Separator dst a b = dst @ a" by (simp add: Separator_def Let_def SharedPrefixLen_common ab(4) i)
    then show ?thesis by (rule disjI1)
  next
    case False
    then have lt: "x < y" by simp
    have nth: "(dst @ a) ! (length p + length dst) = x" by (simp add: ab(1) nth_append)
    have upd: "take (length p + length dst + 1) ((dst @ a)[length p + length dst := x + 1]) = dst @ p @ [x + 1]"
      by (simp add: ab(1) list_update_append)
    have bmp: "bump (dst @ a) (length p + length dst + 1) = dst @ p @ x # succ_or_same a'"
      by (simp add: bump_shift ab(1))
    have mn: "\<not> min (length a) (length b) \<le> length p"
      using \<open>common a b < min (length a) (length b)\<close> by (simp only: ab(4) not_le)
    have len: "(length p + 1 < length b) = (b' \<noteq> [])" by (simp add: ab(2))
    have "Separator dst a b = (if b' \<noteq> [] \<or> x + 1 < y then dst @ p @ [x + 1] else dst @ p @ x # succ_or_same a')"
      unfolding Separator_def Let_def SharedPrefixLen_common ab(4) i nth upd bmp len
      using False mn by (simp only: if_False)
    then have "Separator dst a b = dst @ p @ [x + 1] \<and> (b' \<noteq> [] \<or> x + 1 < y) \<or>
        Separator dst a b = dst @ p @ x # succ_or_same a'"
      by (cases "b' \<noteq> [] \<or> x + 1 < y") (simp_all only: if_True if_False simp_thms)
    then show ?thesis using ab(1,2) lt by blast
  qed
qed

lemma default_separator:
  assumes "bytes_compare a b < 0"
  shows "bytes_compare a (Separator [] a b) \<le> 0" and "bytes_compare (Separator [] a b) b < 0"
proof -
  have "bytes_compare a (Separator [] a b) \<le> 0 \<and> bytes_compare (Separator [] a b) b < 0"
    using Separator_cases [of "[]" a b]
  proof
    assume "Separator [] a b = [] @ a"
    then show ?thesis using assms by simp
  next
    assume "\<exists>p x y a' b'. a = p @ x # a' \<and> b = p @ y # b' \<and> x < y \<and>
      (Separator [] a b = [] @ p @ [x + 1] \<and> (b' \<noteq> [] \<or> x + 1 < y) \<or> Separator [] a b = [] @ p @ x # succ_or_same a')"
    then obtain p x y a' b' where ab: "a = p @ x # a'" "b = p @ y # b'" "x < y"
      and r: "Separator [] a b = p @ [x + 1] \<and> (b' \<noteq> [] \<or> x + 1 < y) \<or> Separator [] a b = p @ x # succ_or_same a'"
      by auto
    have "x < x + 1" "x + 1 \<le> y" using ab(3) byte_succ less_not_max byte_succ_le by blast+
    then show ?thesis
      using r ab succ_or_same_ge [of a'] by (cases b') (auto simp add: not_less)
  qed
  then show "bytes_compare a (Separator [] a b) \<le> 0" and "bytes_compare (Separator [] a b) b < 0" by blast+
qed

lemma common_same: "common a a = length a"
  by (induction a) auto

interpretation dflt: comparer bytes_compare Separator Successor
proof
  show "bytes_compare a b = 0 \<longleftrightarrow> a = b" for a b by simp
  show "bytes_compare b a = - bytes_compare a b" for a b by (rule bytes_compare_swap)
  show "bytes_compare a b \<le> 0 \<Longrightarrow> bytes_compare b c \<le> 0 \<Longrightarrow> bytes_compare a c \<le> 0" for a b c by (rule bytes_compare_trans)
  show "bytes_compare [] a \<le> 0" for a by (cases a) simp_all
  show "bytes_compare a b < 0 \<Longrightarrow> bytes_compare a (Separator [] a b) \<le> 0" for a b by (rule default_separator)
  show "bytes_compare a b < 0 \<Longrightarrow> bytes_compare (Separator [] a b) b < 0" for a b by (rule default_separator)
  show "Separator [] a a = a" for a by (simp add: Separator_def Let_def SharedPrefixLen_common common_same)
  show "bytes_compare a (Successor [] a) \<le> 0" for a
    using succ_or_same_ge [of a] by (simp add: Successor_def succ_or_same_def)
qed

section \<open>Trailers\<close>

text \<open>A trailer is the number \<open>256 * seqNum + kind\<close>.\<close>

lemma unat_byte: "unat (k :: byte) < 256"
  by (rule order_less_le_trans [OF unsigned_less]) simp

lemma unat_SeqNum: "unat (drop_bit 8 (t :: u64)) = unat t div 256"
  by (simp add: drop_bit_eq_div unat_div_distrib)

lemma low_mask: "(0xff :: u64) = mask 8"
  by (simp add: mask_eq_exp_minus_1)

lemma TrailerKind_eq: "TrailerKind t = ucast t"
  unfolding TrailerKind_def low_mask by (rule bit_word_eqI) (simp add: bit_simps)

lemma unat_Kind: "unat (TrailerKind t) = unat t mod 256"
  by (simp add: TrailerKind_eq unsigned_ucast_eq take_bit_eq_mod)

lemma unat_trailer:
  assumes "unat seq < 2 ^ 56"
  shows "unat (push_bit 8 seq OR ucast (k :: kind) :: u64) = unat seq * 256 + unat k"
proof -
  have "push_bit 8 seq OR ucast k = push_bit 8 seq + (ucast k :: u64)"
    by (rule disjunctive_add [symmetric]) (auto simp add: bit_simps dest: bit_imp_le_length)
  moreover have "unat (push_bit 8 seq) = unat seq * 256"
    using assms by (simp add: push_bit_eq_mult unat_word_ariths)
  moreover have "unat (ucast k :: u64) = unat k" using unat_byte [of k] by (simp add: unsigned_ucast_eq take_bit_nat_eq_self)
  ultimately show ?thesis using assms unat_byte [of k] by (simp add: unat_word_ariths)
qed

lemma trailer_SeqNum: "unat seq < 2 ^ 56 \<Longrightarrow> drop_bit 8 (push_bit 8 seq OR ucast (k :: kind) :: u64) = seq"
  unfolding word_unat_eq_iff unat_SeqNum by (simp only: unat_trailer) (use unat_byte [of k] in simp)

lemma trailer_Kind: "TrailerKind (push_bit 8 seq OR ucast k) = k"
  unfolding TrailerKind_eq by (rule bit_word_eqI) (auto simp add: bit_simps)

lemma trailer_split: "push_bit 8 (drop_bit 8 t) OR ucast (TrailerKind t) = (t :: u64)"
  unfolding TrailerKind_eq by (rule bit_word_eqI) (auto simp add: bit_simps)

lemma SeqNumMax_unat: "unat InternalKeySeqNumMax = 2 ^ 56 - 1"
  by (simp add: InternalKeySeqNumMax_def push_bit_eq_mult)

lemma SeqNum_le_max: "SeqNum k \<le> InternalKeySeqNumMax"
proof -
  have "unat (Trailer k) < 2 ^ 64" by (rule order_less_le_trans [OF unsigned_less]) simp
  then have "unat (Trailer k) div 256 < 2 ^ 56" by simp
  then show ?thesis by (simp add: SeqNum_def word_le_nat_alt unat_SeqNum SeqNumMax_unat)
qed

lemma search_trailer_ge:
  assumes "InternalKey_Valid k"
  shows "Trailer k \<le> Trailer (MakeSearchKey u)"
proof -
  have "unat (Trailer k) mod 256 \<le> 23"
    using assms by (simp add: InternalKey_Valid_def Kind_def word_le_nat_alt unat_Kind kind_defs)
  moreover have "unat (Trailer k) div 256 \<le> 2 ^ 56 - 1"
    using SeqNum_le_max [of k] by (simp add: SeqNum_def word_le_nat_alt unat_SeqNum SeqNumMax_unat)
  moreover have "unat (Trailer (MakeSearchKey u)) = (2 ^ 56 - 1) * 256 + 23"
    unfolding MakeSearchKey_def InternalKey.simps
    by (subst unat_trailer) (simp_all add: SeqNumMax_unat kind_defs)
  moreover have "unat (Trailer k) = unat (Trailer k) div 256 * 256 + unat (Trailer k) mod 256"
    by (rule div_mult_mod_eq [symmetric])
  ultimately show ?thesis unfolding word_le_nat_alt by linarith
qed

context key_order
begin

lemma search_key_le:
  "InternalKey_Valid k \<Longrightarrow> InternalCompare cmp (MakeSearchKey u) k \<le> 0 \<longleftrightarrow> cmp u (UserKey k) \<le> 0"
  using search_trailer_ge [of k u] cmp_eq [of u "UserKey k"]
  unfolding InternalCompare_le by (auto simp add: MakeSearchKey_def)

lemma newer_first:
  "UserKey a = UserKey b \<Longrightarrow> SeqNum b < SeqNum a \<Longrightarrow> InternalCompare cmp a b < 0"
  by (simp add: InternalCompare_less SeqNum_def word_less_nat_alt unat_SeqNum)

end

section \<open>Abbreviated keys\<close>

text \<open>The value of a byte string read as a big-endian number.\<close>

fun be_nat :: "bytes \<Rightarrow> nat" where
  "be_nat [] = 0"
| "be_nat (b # bs) = unat b * 256 ^ length bs + be_nat bs"

lemma be_nat_less: "be_nat bs < 256 ^ length bs"
proof (induction bs)
  case (Cons b bs)
  have "unat b * 256 ^ length bs + be_nat bs < (unat b + 1) * 256 ^ length bs" using Cons by simp
  also have "\<dots> \<le> 256 * 256 ^ length bs" using unat_byte [of b] by (intro mult_right_mono) auto
  finally show ?case by simp
qed simp

lemma be_nat_append: "be_nat (a @ b) = be_nat a * 256 ^ length b + be_nat b"
  by (induction a) (simp_all add: algebra_simps power_add)

lemma be_nat_mono: "length a = length b \<Longrightarrow> bytes_compare a b \<le> 0 \<Longrightarrow> be_nat a \<le> be_nat b"
proof (induction a b rule: bytes_compare.induct)
  case (4 a as b bs)
  show ?case
  proof (cases "a < b")
    case True
    have "be_nat as < 256 ^ length bs" using be_nat_less [of as] 4 by simp
    moreover have "(unat a + 1) * 256 ^ length bs \<le> unat b * 256 ^ length bs"
      using True by (intro mult_right_mono) (auto simp add: word_less_nat_alt)
    ultimately show ?thesis using 4 by simp
  next
    case False
    then show ?thesis using 4 by (auto split: if_splits)
  qed
qed auto

lemma pad_compare:
  "bytes_compare a b \<le> 0 \<Longrightarrow> bytes_compare (take n (a @ replicate n 0)) (take n (b @ replicate n 0)) \<le> 0"
proof (induction a b arbitrary: n rule: bytes_compare.induct)
  case (2 y ys)
  have "bytes_compare (replicate m 0) xs \<le> 0" if "length xs = m" for m and xs :: bytes
    using that
  proof (induction xs arbitrary: m)
    case (Cons x xs)
    then show ?case by (cases m) (auto simp add: not_less)
  qed simp
  from this [of "take n (y # ys @ replicate n 0)"] show ?case by simp
next
  case (4 a as b bs)
  then show ?case by (cases n) (auto simp add: replicate_append_same [symmetric] split: if_splits)
qed auto

lemma unat_fold_bytes:
  "length bs \<le> 8 \<Longrightarrow> unat (foldl (\<lambda>v b. push_bit 8 v OR ucast b) (0 :: u64) bs) = be_nat bs"
proof (induction bs rule: rev_induct)
  case (snoc b bs)
  have "(256 :: nat) ^ length bs \<le> 256 ^ 7" using snoc.prems by (intro power_increasing) simp_all
  then have "be_nat bs < 2 ^ 56" using be_nat_less [of bs] by simp
  then show ?case using snoc by (simp add: unat_trailer be_nat_append)
qed simp

lemma be_decode_fold: "be_decode bs = foldl (\<lambda>v b. push_bit 8 v OR ucast b) 0 bs"
  by (induction bs rule: rev_induct) (simp_all add: be_decode_def or.commute)

lemma be_nat_zeros [simp]: "be_nat (replicate n 0) = 0"
  by (induction n) simp_all

lemma unat_push_bit: "unat (push_bit m (v :: u64)) = unat v * 2 ^ m mod 2 ^ 64"
  by (simp add: unsigned_push_bit_eq push_bit_eq_mult [where 'a = nat] take_bit_eq_mod [where 'a = nat])

lemma unat_AbbreviatedKey: "unat (AbbreviatedKey key) = be_nat (take 8 (key @ replicate 8 0))"
proof (cases "8 \<le> length key")
  case True
  then show ?thesis by (simp add: AbbreviatedKey_def be_decode_fold unat_fold_bytes)
next
  case False
  let ?v = "foldl (\<lambda>v b. push_bit 8 v OR ucast b) (0 :: u64) key" and ?m = "8 - length key"
  have v: "unat ?v = be_nat key" using False by (simp add: unat_fold_bytes)
  have "be_nat key * 256 ^ ?m < 256 ^ length key * 256 ^ ?m" using be_nat_less [of key] by simp
  also have "\<dots> = 256 ^ 8" using False by (simp only: power_add [symmetric]) simp
  finally have less: "be_nat key * 256 ^ ?m < 2 ^ 64" by simp
  have e: "(256 :: nat) ^ ?m = 2 ^ (8 * ?m)" by (simp add: power_mult)
  have "unat (push_bit (8 * ?m) ?v) = be_nat key * 256 ^ ?m"
    unfolding e unat_push_bit v using less [unfolded e] by simp
  then show ?thesis using False by (simp add: AbbreviatedKey_def be_nat_append min_def)
qed

lemma AbbreviatedKey_mono: "bytes_compare a b \<le> 0 \<Longrightarrow> AbbreviatedKey a \<le> AbbreviatedKey b"
  unfolding word_le_nat_alt unat_AbbreviatedKey by (rule be_nat_mono [OF _ pad_compare]) simp_all

section \<open>Properties of keys\<close>

text \<open>
  C11. Index blocks hold \<^verbatim>\<open>InternalKey.Separator\<close> keys. With the default comparer the separator of two
  adjacent keys sorts at or after the first and strictly before the second, so that an index entry
  routes every key to the right block.
\<close>

theorem separator_between:
  assumes "InternalCompare bytes_compare k other < 0"
  shows "InternalCompare bytes_compare k (InternalKey_Separator bytes_compare Separator [] k other) \<le> 0 \<and>
         InternalCompare bytes_compare (InternalKey_Separator bytes_compare Separator [] k other) other < 0"
  using dflt.Separator_between [OF assms] by blast

theorem separator_between_witness:
  "let k = MakeInternalKey [98, 108, 97, 99, 107] 5 1; other = MakeInternalKey [98, 108, 117, 101] 9 1;
       s = InternalKey_Separator bytes_compare Separator [] k other
   in UserKey s = [98, 108, 98] \<and> InternalCompare bytes_compare k s \<le> 0 \<and> InternalCompare bytes_compare s other < 0"
proof -
  let ?k = "MakeInternalKey [98, 108, 97, 99, 107] 5 1" and ?o = "MakeInternalKey [98, 108, 117, 101] 9 1"
  have "InternalCompare bytes_compare ?k ?o < 0" by code_simp
  from separator_between [OF this] have "InternalCompare bytes_compare ?k (InternalKey_Separator bytes_compare Separator [] ?k ?o) \<le> 0"
    and "InternalCompare bytes_compare (InternalKey_Separator bytes_compare Separator [] ?k ?o) ?o < 0" by blast+
  moreover have "UserKey (InternalKey_Separator bytes_compare Separator [] ?k ?o) = [98, 108, 98]" by code_simp
  ultimately show ?thesis by (simp only: Let_def simp_thms)
qed

text \<open>
  C14. \<^verbatim>\<open>SharedPrefixLen\<close>, which compares eight bytes at a time, is the length of the longest common
  prefix of its arguments.
\<close>

theorem SharedPrefixLen_longest:
  "k \<le> SharedPrefixLen a b \<longleftrightarrow> k \<le> length a \<and> k \<le> length b \<and> take k a = take k b"
  unfolding SharedPrefixLen_common by (rule common_iff)

text \<open>
  C15. Abbreviated keys decide the order of two user keys whenever they differ: a smaller abbreviated key
  belongs to a smaller user key.
\<close>

theorem AbbreviatedKey_decides:
  assumes "AbbreviatedKey a < AbbreviatedKey b"
  shows "bytes_compare a b < 0"
  using assms AbbreviatedKey_mono [of b a] bytes_compare_swap [of a b] by (cases "bytes_compare b a \<le> 0") auto

theorem AbbreviatedKey_decides_witness:
  "AbbreviatedKey [97, 98] < AbbreviatedKey [97, 98, 0, 0, 0, 0, 0, 1, 5] \<and>
   bytes_compare [97, 98] [97, 98, 0, 0, 0, 0, 0, 1, 5] < 0"
proof -
  have "AbbreviatedKey [97, 98] < AbbreviatedKey [97, 98, 0, 0, 0, 0, 0, 1, 5]" by code_simp
  with AbbreviatedKey_decides [OF this] show ?thesis by blast
qed

text \<open>
  C12. A search key built by \<^verbatim>\<open>MakeSearchKey\<close> sorts at or before exactly the valid internal keys whose user
  key is at least the sought one, so that seeking it lands on the newest entry of that user key.
\<close>

theorem search_key_finds_newest:
  assumes "InternalKey_Valid k"
  shows "(InternalCompare bytes_compare (MakeSearchKey u) k \<le> 0 \<longleftrightarrow> bytes_compare u (UserKey k) \<le> 0) \<and>
         (\<forall>k'. UserKey k' = UserKey k \<longrightarrow> SeqNum k < SeqNum k' \<longrightarrow> InternalCompare bytes_compare k' k < 0)"
  using dflt.search_key_le [OF assms] dflt.newer_first by blast

theorem search_key_finds_newest_witness:
  "InternalKey_Valid (MakeInternalKey [97] 3 1) \<and> InternalCompare bytes_compare (MakeSearchKey [97]) (MakeInternalKey [97] 3 1) \<le> 0 \<and>
   InternalCompare bytes_compare (MakeInternalKey [97] 4 0) (MakeInternalKey [97] 3 1) < 0"
proof -
  have v: "InternalKey_Valid (MakeInternalKey [97] 3 1)" by code_simp
  have s: "SeqNum (MakeInternalKey [97] 3 1) < SeqNum (MakeInternalKey [97] 4 0)" by code_simp
  show ?thesis using v s search_key_finds_newest [OF v, of "[97]"] by (simp add: MakeInternalKey_def)
qed

text \<open>
  C13. An internal key survives encoding, and its sequence number and kind can be read back from the
  trailer. Sequence numbers are those below \<open>2 ^ 56\<close>; setting one field leaves the other one alone.
\<close>

theorem internal_key_roundtrip:
  assumes "seq \<le> InternalKeySeqNumMax"
  shows "DecodeInternalKey (InternalKey_Encode k) = k \<and>
         length (InternalKey_Encode k) = InternalKey_Size k \<and>
         SeqNum (MakeInternalKey u seq kind) = seq \<and> Kind (MakeInternalKey u seq kind) = kind \<and>
         SeqNum (SetSeqNum seq k) = seq \<and> Kind (SetSeqNum seq k) = Kind k \<and>
         SeqNum (SetKind kind k) = SeqNum k \<and> Kind (SetKind kind k) = kind"
proof -
  have seq: "unat seq < 2 ^ 56" using assms by (simp add: word_le_nat_alt SeqNumMax_unat)
  have low: "t AND 0xff = ucast (TrailerKind t)" for t :: u64
    unfolding TrailerKind_eq low_mask by (rule bit_word_eqI) (auto simp add: bit_simps)
  have high: "t AND NOT 0xff = push_bit 8 (drop_bit 8 t)" for t :: u64
    unfolding low_mask by (rule bit_word_eqI) (auto simp add: bit_simps)
  have less: "unat (drop_bit 8 t) < 2 ^ 56" for t :: u64
    using SeqNum_le_max [of "\<lparr>UserKey = [], Trailer = t\<rparr>"] by (simp add: SeqNum_def word_le_nat_alt SeqNumMax_unat)
  have "DecodeInternalKey (InternalKey_Encode k) = k" "length (InternalKey_Encode k) = InternalKey_Size k"
    by (simp_all add: InternalKey_Encode_def DecodeInternalKey_def InternalKey_Size_def)
  moreover obtain uk t where "k = \<lparr>UserKey = uk, Trailer = t\<rparr>" by (cases k)
  ultimately show ?thesis
    unfolding MakeInternalKey_def SeqNum_def Kind_def SetSeqNum_def SetKind_def InternalKey.simps low high
      trailer_SeqNum [OF seq] trailer_SeqNum [OF less] trailer_Kind
    by (simp only: InternalKey.simps low high trailer_SeqNum [OF seq] trailer_SeqNum [OF less] trailer_Kind simp_thms)
qed

theorem internal_key_roundtrip_witness:
  "SeqNum (MakeInternalKey [1] 7 2) = 7 \<and> DecodeInternalKey (InternalKey_Encode (MakeInternalKey [1] 7 2)) = MakeInternalKey [1] 7 2"
proof -
  have "(7 :: u64) \<le> InternalKeySeqNumMax" by code_simp
  from internal_key_roundtrip [OF this] show ?thesis by blast
qed

end
