(* ===== verification/FileMetadata.thy ===== *)
theory FileMetadata
  imports InternalKey
begin

text \<open>
  Package \<^verbatim>\<open>internal/manifest\<close>, \<^verbatim>\<open>version.go\<close>: the metadata of a table, its key bounds, the
  order of the files of a level and the files of level 0 that overlap a key range. A level is the list
  of its files in the order of its B-tree. The pointer \<^verbatim>\<open>FileMetadata.FileBacking\<close> is an option;
  operations on the reference counts of a backing take and return the backing itself.
\<close>

section \<open>Data\<close>

datatype boundType = boundTypeUnset | boundTypePointKey | boundTypeRangeKey

datatype CompactionState = CompactionStateNotCompacting | CompactionStateCompacting | CompactionStateCompacted

record TableStats =
  ts_NumEntries :: u64
  ts_NumDeletions :: u64
  ts_NumRangeKeySets :: u64
  ts_PointDeletionsBytesEstimate :: u64
  ts_RangeDeletionsBytesEstimate :: u64
  ts_ValueBlocksSize :: u64

record FileBacking =
  fb_refs :: "32 word"
  fb_latestVersionRefs :: "32 word"
  fb_VirtualizedSize :: u64
  fb_DiskFileNum :: u64
  fb_Size :: u64

record FileMetadata =
  fm_AllowedSeeks :: u64
  fm_statsValid :: bool
  fm_FileBacking :: "FileBacking option"
  fm_InitAllowedSeeks :: u64
  fm_FileNum :: u64
  fm_Size :: u64
  fm_CreationTime :: u64
  fm_SmallestSeqNum :: u64
  fm_LargestSeqNum :: u64
  fm_SmallestPointKey :: InternalKey
  fm_LargestPointKey :: InternalKey
  fm_SmallestRangeKey :: InternalKey
  fm_LargestRangeKey :: InternalKey
  fm_Smallest :: InternalKey
  fm_Largest :: InternalKey
  fm_Stats :: TableStats
  fm_SubLevel :: int
  fm_L0Index :: int
  fm_minIntervalIndex :: int
  fm_maxIntervalIndex :: int
  fm_IsIntraL0Compacting :: bool
  fm_CompactionState :: CompactionState
  fm_MarkedForCompaction :: bool
  fm_HasPointKeys :: bool
  fm_HasRangeKeys :: bool
  fm_boundsSet :: bool
  fm_boundTypeSmallest :: boundType
  fm_boundTypeLargest :: boundType
  fm_Virtual :: bool

text \<open>The zero values of the structs.\<close>

definition InternalKey0 :: InternalKey where
  "InternalKey0 = \<lparr>UserKey = [], Trailer = 0\<rparr>"

definition TableStats0 :: TableStats where
  "TableStats0 = \<lparr>ts_NumEntries = 0, ts_NumDeletions = 0, ts_NumRangeKeySets = 0,
     ts_PointDeletionsBytesEstimate = 0, ts_RangeDeletionsBytesEstimate = 0, ts_ValueBlocksSize = 0\<rparr>"

definition FileBacking0 :: FileBacking where
  "FileBacking0 = \<lparr>fb_refs = 0, fb_latestVersionRefs = 0, fb_VirtualizedSize = 0, fb_DiskFileNum = 0, fb_Size = 0\<rparr>"

definition FileMetadata0 :: FileMetadata where
  "FileMetadata0 = \<lparr>fm_AllowedSeeks = 0, fm_statsValid = False, fm_FileBacking = None, fm_InitAllowedSeeks = 0,
     fm_FileNum = 0, fm_Size = 0, fm_CreationTime = 0, fm_SmallestSeqNum = 0, fm_LargestSeqNum = 0,
     fm_SmallestPointKey = InternalKey0, fm_LargestPointKey = InternalKey0,
     fm_SmallestRangeKey = InternalKey0, fm_LargestRangeKey = InternalKey0,
     fm_Smallest = InternalKey0, fm_Largest = InternalKey0, fm_Stats = TableStats0,
     fm_SubLevel = 0, fm_L0Index = 0, fm_minIntervalIndex = 0, fm_maxIntervalIndex = 0,
     fm_IsIntraL0Compacting = False, fm_CompactionState = CompactionStateNotCompacting,
     fm_MarkedForCompaction = False, fm_HasPointKeys = False, fm_HasRangeKeys = False, fm_boundsSet = False,
     fm_boundTypeSmallest = boundTypeUnset, fm_boundTypeLargest = boundTypeUnset, fm_Virtual = False\<rparr>"

section \<open>Backings\<close>

text \<open>A panic is \<open>None\<close>.\<close>

definition PhysicalMeta :: "FileMetadata \<Rightarrow> FileMetadata option" where
  "PhysicalMeta m = (if fm_Virtual m then None else Some m)"

definition VirtualMeta :: "FileMetadata \<Rightarrow> FileMetadata option" where
  "VirtualMeta m = (if \<not> fm_Virtual m then None else Some m)"

definition InitPhysicalBacking :: "FileMetadata \<Rightarrow> FileMetadata option" where
  "InitPhysicalBacking m =
     (if fm_Virtual m then None
      else if fm_FileBacking m = None
      then Some (m\<lparr>fm_FileBacking := Some (FileBacking0\<lparr>fb_Size := fm_Size m, fb_DiskFileNum := fm_FileNum m\<rparr>)\<rparr>)
      else Some m)"

definition InitProviderBacking :: "u64 \<Rightarrow> FileMetadata \<Rightarrow> FileMetadata option" where
  "InitProviderBacking fileNum m =
     (if \<not> fm_Virtual m then None
      else if fm_FileBacking m = None
      then Some (m\<lparr>fm_FileBacking := Some (FileBacking0\<lparr>fb_DiskFileNum := fileNum\<rparr>)\<rparr>)
      else Some m)"

definition Ref :: "FileBacking \<Rightarrow> FileBacking" where
  "Ref fb = fb\<lparr>fb_refs := fb_refs fb + 1\<rparr>"

text \<open>The checks under \<^verbatim>\<open>invariants.Enabled\<close> are made when \<open>chk\<close> holds.\<close>

definition Unref :: "bool \<Rightarrow> FileBacking \<Rightarrow> (FileBacking \<times> 32 word) option" where
  "Unref chk fb =
     (let v = fb_refs fb - 1 in if chk \<and> sint v < 0 then None else Some (fb\<lparr>fb_refs := v\<rparr>, v))"

definition LatestRef :: "FileMetadata \<Rightarrow> FileBacking \<Rightarrow> FileBacking" where
  "LatestRef m fb =
     (let fb1 = fb\<lparr>fb_latestVersionRefs := fb_latestVersionRefs fb + 1\<rparr>
      in if fm_Virtual m then fb1\<lparr>fb_VirtualizedSize := fb_VirtualizedSize fb1 + fm_Size m\<rparr> else fb1)"

definition LatestUnref :: "bool \<Rightarrow> FileMetadata \<Rightarrow> FileBacking \<Rightarrow> (FileBacking \<times> 32 word) option" where
  "LatestUnref chk m fb =
     (let fb1 = if fm_Virtual m then fb\<lparr>fb_VirtualizedSize := fb_VirtualizedSize fb + - fm_Size m\<rparr> else fb;
          v = fb_latestVersionRefs fb1 - 1
      in if chk \<and> sint v < 0 then None else Some (fb1\<lparr>fb_latestVersionRefs := v\<rparr>, v))"

definition SetCompactionState :: "bool \<Rightarrow> CompactionState \<Rightarrow> FileMetadata \<Rightarrow> FileMetadata option" where
  "SetCompactionState chk to m =
     (if chk \<and>
         (case fm_CompactionState m of
            CompactionStateNotCompacting \<Rightarrow> to \<noteq> CompactionStateCompacting
          | CompactionStateCompacting \<Rightarrow> to \<noteq> CompactionStateCompacted \<and> to \<noteq> CompactionStateNotCompacting
          | CompactionStateCompacted \<Rightarrow> True)
      then None
      else Some (m\<lparr>fm_CompactionState := to\<rparr>))"

definition IsCompacting :: "FileMetadata \<Rightarrow> bool" where
  "IsCompacting m = (fm_CompactionState m = CompactionStateCompacting)"

section \<open>Key bounds\<close>

type_synonym cmp = "bytes \<Rightarrow> bytes \<Rightarrow> int"

definition extendOverallBounds :: "cmp \<Rightarrow> InternalKey \<Rightarrow> InternalKey \<Rightarrow> boundType \<Rightarrow> FileMetadata \<Rightarrow> FileMetadata" where
  "extendOverallBounds cmp smallest largest bTyp m =
     (if \<not> fm_boundsSet m
      then m\<lparr>fm_Smallest := smallest, fm_Largest := largest, fm_boundsSet := True,
             fm_boundTypeSmallest := bTyp, fm_boundTypeLargest := bTyp\<rparr>
      else let m1 = if InternalCompare cmp smallest (fm_Smallest m) < 0
                    then m\<lparr>fm_Smallest := smallest, fm_boundTypeSmallest := bTyp\<rparr> else m
           in if InternalCompare cmp largest (fm_Largest m1) > 0
              then m1\<lparr>fm_Largest := largest, fm_boundTypeLargest := bTyp\<rparr> else m1)"

definition ExtendPointKeyBounds :: "cmp \<Rightarrow> InternalKey \<Rightarrow> InternalKey \<Rightarrow> FileMetadata \<Rightarrow> FileMetadata" where
  "ExtendPointKeyBounds cmp smallest largest m =
     (let m1 = if \<not> fm_HasPointKeys m
               then m\<lparr>fm_SmallestPointKey := smallest, fm_LargestPointKey := largest, fm_HasPointKeys := True\<rparr>
               else let m2 = if InternalCompare cmp smallest (fm_SmallestPointKey m) < 0
                             then m\<lparr>fm_SmallestPointKey := smallest\<rparr> else m
                    in if InternalCompare cmp largest (fm_LargestPointKey m2) > 0
                       then m2\<lparr>fm_LargestPointKey := largest\<rparr> else m2
      in extendOverallBounds cmp (fm_SmallestPointKey m1) (fm_LargestPointKey m1) boundTypePointKey m1)"

definition ExtendRangeKeyBounds :: "cmp \<Rightarrow> InternalKey \<Rightarrow> InternalKey \<Rightarrow> FileMetadata \<Rightarrow> FileMetadata" where
  "ExtendRangeKeyBounds cmp smallest largest m =
     (let m1 = if \<not> fm_HasRangeKeys m
               then m\<lparr>fm_SmallestRangeKey := smallest, fm_LargestRangeKey := largest, fm_HasRangeKeys := True\<rparr>
               else let m2 = if InternalCompare cmp smallest (fm_SmallestRangeKey m) < 0
                             then m\<lparr>fm_SmallestRangeKey := smallest\<rparr> else m
                    in if InternalCompare cmp largest (fm_LargestRangeKey m2) > 0
                       then m2\<lparr>fm_LargestRangeKey := largest\<rparr> else m2
      in extendOverallBounds cmp (fm_SmallestRangeKey m1) (fm_LargestRangeKey m1) boundTypeRangeKey m1)"

definition FileMetadata_Overlaps :: "cmp \<Rightarrow> bytes \<Rightarrow> bytes \<Rightarrow> bool \<Rightarrow> FileMetadata \<Rightarrow> bool" where
  "FileMetadata_Overlaps cmp start stop exclusiveEnd m =
     (let c = cmp (UserKey (fm_Largest m)) start
      in if c < 0 \<or> c = 0 \<and> IsExclusiveSentinel (fm_Largest m) then False
         else let c = cmp (UserKey (fm_Smallest m)) stop in \<not> (c > 0 \<or> c = 0 \<and> exclusiveEnd))"

definition ContainedWithinSpan :: "cmp \<Rightarrow> bytes \<Rightarrow> bytes \<Rightarrow> FileMetadata \<Rightarrow> bool" where
  "ContainedWithinSpan cmp start stop m =
     (let lowerCmp = cmp (UserKey (fm_Smallest m)) start; upperCmp = cmp (UserKey (fm_Largest m)) stop
      in lowerCmp \<ge> 0 \<and> (upperCmp < 0 \<or> upperCmp = 0 \<and> IsExclusiveSentinel (fm_Largest m)))"

datatype KeyType = KeyTypePointAndRange | KeyTypePoint | KeyTypeRange

fun ContainsKeyType :: "FileMetadata \<Rightarrow> KeyType \<Rightarrow> bool" where
  "ContainsKeyType m KeyTypePointAndRange = True"
| "ContainsKeyType m KeyTypePoint = fm_HasPointKeys m"
| "ContainsKeyType m KeyTypeRange = fm_HasRangeKeys m"

fun SmallestBound :: "FileMetadata \<Rightarrow> KeyType \<Rightarrow> InternalKey \<times> bool" where
  "SmallestBound m KeyTypePointAndRange = (fm_Smallest m, True)"
| "SmallestBound m KeyTypePoint = (fm_SmallestPointKey m, fm_HasPointKeys m)"
| "SmallestBound m KeyTypeRange = (fm_SmallestRangeKey m, fm_HasRangeKeys m)"

fun LargestBound :: "FileMetadata \<Rightarrow> KeyType \<Rightarrow> InternalKey \<times> bool" where
  "LargestBound m KeyTypePointAndRange = (fm_Largest m, True)"
| "LargestBound m KeyTypePoint = (fm_LargestPointKey m, fm_HasPointKeys m)"
| "LargestBound m KeyTypeRange = (fm_LargestRangeKey m, fm_HasRangeKeys m)"

definition maskContainsPointKeys :: byte where "maskContainsPointKeys = push_bit 0 1"
definition maskSmallest :: byte where "maskSmallest = push_bit 1 1"
definition maskLargest :: byte where "maskLargest = push_bit 2 1"

text \<open>\<open>None\<close> is the error of a file that has neither a point nor a range key as a bound.\<close>

definition boundsMarker :: "FileMetadata \<Rightarrow> byte option" where
  "boundsMarker m =
     (let s = if fm_HasPointKeys m then 0 OR maskContainsPointKeys else 0
      in case fm_boundTypeSmallest m of
           boundTypeUnset \<Rightarrow> None
         | bs \<Rightarrow> (let s1 = if bs = boundTypePointKey then s OR maskSmallest else s
                  in case fm_boundTypeLargest m of
                       boundTypeUnset \<Rightarrow> None
                     | bl \<Rightarrow> Some (if bl = boundTypePointKey then s1 OR maskLargest else s1)))"

datatype meta_error =
    NoKeys | InconsistentBounds | InconsistentSeqNums | InconsistentPointBounds | PointOutsideBounds
  | InconsistentRangeBounds | RangeOutsideBounds | NoBacking

definition Validate :: "cmp \<Rightarrow> FileMetadata \<Rightarrow> meta_error option" where
  "Validate cmp m =
     (if \<not> fm_HasPointKeys m \<and> \<not> fm_HasRangeKeys m then Some NoKeys
      else if InternalCompare cmp (fm_Smallest m) (fm_Largest m) > 0 then Some InconsistentBounds
      else if fm_SmallestSeqNum m > fm_LargestSeqNum m then Some InconsistentSeqNums
      else if fm_HasPointKeys m \<and> InternalCompare cmp (fm_SmallestPointKey m) (fm_LargestPointKey m) > 0
      then Some InconsistentPointBounds
      else if fm_HasPointKeys m \<and>
              (InternalCompare cmp (fm_SmallestPointKey m) (fm_Smallest m) < 0 \<or>
               InternalCompare cmp (fm_LargestPointKey m) (fm_Largest m) > 0)
      then Some PointOutsideBounds
      else if fm_HasRangeKeys m \<and> InternalCompare cmp (fm_SmallestRangeKey m) (fm_LargestRangeKey m) > 0
      then Some InconsistentRangeBounds
      else if fm_HasRangeKeys m \<and>
              (InternalCompare cmp (fm_SmallestRangeKey m) (fm_Smallest m) < 0 \<or>
               InternalCompare cmp (fm_LargestRangeKey m) (fm_Largest m) > 0)
      then Some RangeOutsideBounds
      else if fm_FileBacking m = None then Some NoBacking
      else None)"

record TableInfo =
  ti_FileNum :: u64
  ti_Size :: u64
  ti_Smallest :: InternalKey
  ti_Largest :: InternalKey
  ti_SmallestSeqNum :: u64
  ti_LargestSeqNum :: u64

definition FileMetadata_TableInfo :: "FileMetadata \<Rightarrow> TableInfo" where
  "FileMetadata_TableInfo m = \<lparr>ti_FileNum = fm_FileNum m, ti_Size = fm_Size m, ti_Smallest = fm_Smallest m,
     ti_Largest = fm_Largest m, ti_SmallestSeqNum = fm_SmallestSeqNum m, ti_LargestSeqNum = fm_LargestSeqNum m\<rparr>"

section \<open>The order of files\<close>

definition cmpUint64 :: "u64 \<Rightarrow> u64 \<Rightarrow> int" where
  "cmpUint64 a b = (if a < b then -1 else if a > b then 1 else 0)"

definition cmpSeqNum :: "FileMetadata \<Rightarrow> FileMetadata \<Rightarrow> int" where
  "cmpSeqNum m b =
     (if fm_LargestSeqNum m \<noteq> fm_LargestSeqNum b then cmpUint64 (fm_LargestSeqNum m) (fm_LargestSeqNum b)
      else if fm_SmallestSeqNum m \<noteq> fm_SmallestSeqNum b then cmpUint64 (fm_SmallestSeqNum m) (fm_SmallestSeqNum b)
      else cmpUint64 (fm_FileNum m) (fm_FileNum b))"

definition lessSeqNum :: "FileMetadata \<Rightarrow> FileMetadata \<Rightarrow> bool" where
  "lessSeqNum m b = (cmpSeqNum m b < 0)"

definition cmpSmallestKey :: "cmp \<Rightarrow> FileMetadata \<Rightarrow> FileMetadata \<Rightarrow> int" where
  "cmpSmallestKey cmp m b = InternalCompare cmp (fm_Smallest m) (fm_Smallest b)"

text \<open>\<^verbatim>\<open>KeyRange\<close> over the files of its iterators; \<open>None\<close> before the first file.\<close>

definition KeyRange_step :: "cmp \<Rightarrow> (InternalKey \<times> InternalKey) option \<Rightarrow> FileMetadata \<Rightarrow> (InternalKey \<times> InternalKey) option" where
  "KeyRange_step ucmp acc meta =
     (case acc of
        None \<Rightarrow> Some (fm_Smallest meta, fm_Largest meta)
      | Some (smallest, largest) \<Rightarrow>
          Some (if InternalCompare ucmp smallest (fm_Smallest meta) \<ge> 0 then fm_Smallest meta else smallest,
                if InternalCompare ucmp largest (fm_Largest meta) \<le> 0 then fm_Largest meta else largest))"

definition KeyRange :: "cmp \<Rightarrow> FileMetadata list list \<Rightarrow> InternalKey \<times> InternalKey" where
  "KeyRange ucmp iters =
     (case foldl (KeyRange_step ucmp) None (concat iters) of None \<Rightarrow> (InternalKey0, InternalKey0) | Some r \<Rightarrow> r)"

datatype OrderingInvariants = ProhibitSplitUserKeys | AllowSplitUserKeys

datatype order_error =
    L0NotOrdered | InvalidFile meta_error | NotOrdered | OverlappingRanges

fun CheckOrdering_L0 :: "FileMetadata option \<Rightarrow> FileMetadata list \<Rightarrow> order_error option" where
  "CheckOrdering_L0 prev [] = None"
| "CheckOrdering_L0 None (f # fs) = CheckOrdering_L0 (Some f) fs"
| "CheckOrdering_L0 (Some prev) (f # fs) =
     (if fm_LargestSeqNum prev = 0 \<and> fm_LargestSeqNum f = fm_LargestSeqNum prev then CheckOrdering_L0 (Some f) fs
      else if \<not> lessSeqNum prev f then Some L0NotOrdered
      else CheckOrdering_L0 (Some f) fs)"

definition check_adjacent :: "cmp \<Rightarrow> OrderingInvariants \<Rightarrow> FileMetadata \<Rightarrow> FileMetadata \<Rightarrow> order_error option" where
  "check_adjacent cmp ord_inv prev f =
     (if cmpSmallestKey cmp prev f \<ge> 0 then Some NotOrdered
      else case ord_inv of
        AllowSplitUserKeys \<Rightarrow>
          if InternalCompare cmp (fm_Largest prev) (fm_Smallest f) \<ge> 0 then Some OverlappingRanges else None
      | ProhibitSplitUserKeys \<Rightarrow>
          (let v = cmp (UserKey (fm_Largest prev)) (UserKey (fm_Smallest f))
           in if v > 0 \<or> v = 0 \<and> \<not> IsExclusiveSentinel (fm_Largest prev) then Some OverlappingRanges else None))"

fun CheckOrdering_levels ::
    "cmp \<Rightarrow> OrderingInvariants \<Rightarrow> FileMetadata option \<Rightarrow> FileMetadata list \<Rightarrow> order_error option" where
  "CheckOrdering_levels cmp ord_inv prev [] = None"
| "CheckOrdering_levels cmp ord_inv prev (f # fs) =
     (case Validate cmp f of
        Some e \<Rightarrow> Some (InvalidFile e)
      | None \<Rightarrow>
          case (case prev of None \<Rightarrow> None | Some p \<Rightarrow> check_adjacent cmp ord_inv p f) of
            Some e \<Rightarrow> Some e
          | None \<Rightarrow> CheckOrdering_levels cmp ord_inv (Some f) fs)"

text \<open>\<open>level0\<close> says whether the level is \<^verbatim>\<open>Level(0)\<close>; sublevels of level 0 are checked like the other levels.\<close>

definition CheckOrdering :: "cmp \<Rightarrow> bool \<Rightarrow> FileMetadata list \<Rightarrow> OrderingInvariants \<Rightarrow> order_error option" where
  "CheckOrdering cmp level0 files ord_inv =
     (if level0 then CheckOrdering_L0 None files else CheckOrdering_levels cmp ord_inv None files)"

section \<open>Overlapping files of level 0\<close>

text \<open>
  The state of the loop of \<^verbatim>\<open>Version.Overlaps\<close>: the range, the selected indices, whether to restart.
\<close>

record overlap_state =
  o_start :: bytes
  o_end :: bytes
  o_exclusiveEnd :: bool
  o_selected :: "bool list"
  o_restart :: bool

definition Overlaps_step :: "cmp \<Rightarrow> nat \<times> FileMetadata \<Rightarrow> overlap_state \<Rightarrow> overlap_state" where
  "Overlaps_step cmp = (\<lambda>(i, meta) s.
     if o_selected s ! i then s
     else if \<not> FileMetadata_Overlaps cmp (o_start s) (o_end s) (o_exclusiveEnd s) meta then s
     else let s1 = s\<lparr>o_selected := (o_selected s)[i := True]\<rparr>;
              smallest = UserKey (fm_Smallest meta); largest = UserKey (fm_Largest meta);
              s2 = if cmp smallest (o_start s1) < 0 then s1\<lparr>o_start := smallest, o_restart := True\<rparr> else s1;
              v = cmp largest (o_end s2)
          in if v > 0
             then s2\<lparr>o_end := largest, o_exclusiveEnd := IsExclusiveSentinel (fm_Largest meta), o_restart := True\<rparr>
             else if v = 0 \<and> o_exclusiveEnd s2 \<and> \<not> IsExclusiveSentinel (fm_Largest meta)
             then s2\<lparr>o_exclusiveEnd := False, o_restart := True\<rparr>
             else s2)"

definition Overlaps_pass :: "cmp \<Rightarrow> FileMetadata list \<Rightarrow> overlap_state \<Rightarrow> overlap_state" where
  "Overlaps_pass cmp files s = fold (Overlaps_step cmp) (enumerate 0 files) (s\<lparr>o_restart := False\<rparr>)"


partial_function (option) Overlaps_loop :: "cmp \<Rightarrow> FileMetadata list \<Rightarrow> overlap_state \<Rightarrow> overlap_state option" where
  "Overlaps_loop cmp files s =
     (let s1 = Overlaps_pass cmp files s in if o_restart s1 then Overlaps_loop cmp files s1 else Some s1)"

declare Overlaps_loop.simps [code]

definition Overlaps_init :: "FileMetadata list \<Rightarrow> bytes \<Rightarrow> bytes \<Rightarrow> bool \<Rightarrow> overlap_state" where
  "Overlaps_init files start stop exclusiveEnd =
     \<lparr>o_start = start, o_end = stop, o_exclusiveEnd = exclusiveEnd, o_selected = replicate (length files) False, o_restart = False\<rparr>"

text \<open>The files in the B-tree that \<^verbatim>\<open>Version.Overlaps\<close> builds for level 0, in the order of the level.\<close>

definition Overlaps_L0 :: "cmp \<Rightarrow> FileMetadata list \<Rightarrow> bytes \<Rightarrow> bytes \<Rightarrow> bool \<Rightarrow> FileMetadata list option" where
  "Overlaps_L0 cmp files start stop exclusiveEnd =
     map_option (\<lambda>s. map snd (filter (\<lambda>(i, _). o_selected s ! i) (enumerate 0 files)))
       (Overlaps_loop cmp files (Overlaps_init files start stop exclusiveEnd))"

section \<open>Bounds\<close>

abbreviation ik_le :: "cmp \<Rightarrow> InternalKey \<Rightarrow> InternalKey \<Rightarrow> bool" where
  "ik_le cmp a b \<equiv> InternalCompare cmp a b \<le> 0"

text \<open>
  What holds of one end of a file: \<open>x\<close> of type \<open>t\<close> is the outermost of the point key \<open>p\<close>, if there are
  point keys, and the range key \<open>r\<close>, if there are range keys.
\<close>

definition end_inv ::
    "(InternalKey \<Rightarrow> InternalKey \<Rightarrow> bool) \<Rightarrow> bool \<Rightarrow> bool \<Rightarrow> InternalKey \<Rightarrow> InternalKey \<Rightarrow> InternalKey \<Rightarrow> boundType \<Rightarrow> bool" where
  "end_inv le hp hr p r x t \<longleftrightarrow>
     (hp \<longrightarrow> le x p) \<and> (hr \<longrightarrow> le x r) \<and>
     (hp \<or> hr \<longrightarrow> t = boundTypePointKey \<and> hp \<and> x = p \<or> t = boundTypeRangeKey \<and> hr \<and> x = r) \<and>
     (\<not> hp \<longrightarrow> p = InternalKey0) \<and> (\<not> hr \<longrightarrow> r = InternalKey0)"

definition bounds_inv :: "cmp \<Rightarrow> FileMetadata \<Rightarrow> bool" where
  "bounds_inv cmp m \<longleftrightarrow>
     fm_boundsSet m = (fm_HasPointKeys m \<or> fm_HasRangeKeys m) \<and>
     (fm_HasPointKeys m \<longrightarrow> ik_le cmp (fm_SmallestPointKey m) (fm_LargestPointKey m)) \<and>
     (fm_HasRangeKeys m \<longrightarrow> ik_le cmp (fm_SmallestRangeKey m) (fm_LargestRangeKey m)) \<and>
     end_inv (ik_le cmp) (fm_HasPointKeys m) (fm_HasRangeKeys m) (fm_SmallestPointKey m) (fm_SmallestRangeKey m)
       (fm_Smallest m) (fm_boundTypeSmallest m) \<and>
     end_inv (\<lambda>a b. ik_le cmp b a) (fm_HasPointKeys m) (fm_HasRangeKeys m) (fm_LargestPointKey m) (fm_LargestRangeKey m)
       (fm_Largest m) (fm_boundTypeLargest m)"

definition total_preorder :: "('a \<Rightarrow> 'a \<Rightarrow> bool) \<Rightarrow> bool" where
  "total_preorder le \<longleftrightarrow> (\<forall>a. le a a) \<and> (\<forall>a b c. le a b \<longrightarrow> le b c \<longrightarrow> le a c) \<and> (\<forall>a b. le a b \<or> le b a)"

lemma end_inv_point:
  assumes "end_inv le hp hr p r x t"
    and "total_preorder le"
    and "p' = (if hp \<and> le p s then p else s)"
    and "x' = (if (hp \<or> hr) \<and> le x p' then x else p')"
    and "t' = (if (hp \<or> hr) \<and> le x p' then t else boundTypePointKey)"
  shows "end_inv le True hr p' r x' t' \<and> le x' s \<and> le p' s"
proof -
  have tot: "\<not> le a b \<Longrightarrow> le b a" and refl: "le a a" and trans: "le a b \<Longrightarrow> le b c \<Longrightarrow> le a c" for a b c
    using assms(2) unfolding total_preorder_def by blast+
  have "end_inv le True hr p' r x' t'"
  proof (cases "(hp \<or> hr) \<and> le x p'")
    case True
    then have "x' = x" "t' = t" by (simp_all add: assms(4,5))
    moreover have "t = boundTypePointKey \<Longrightarrow> hp \<Longrightarrow> x = p \<Longrightarrow> x = p'" using True by (auto simp add: assms(3))
    ultimately show ?thesis using True assms(1) unfolding end_inv_def by blast
  next
    case False
    then have "x' = p'" "t' = boundTypePointKey" by (simp_all only: assms(4,5) if_False)
    moreover have "le p' r" if "hr"
      using that False assms(1) tot trans [of p' x r] unfolding end_inv_def by blast
    ultimately show ?thesis using assms(1) refl unfolding end_inv_def by simp
  qed
  moreover have "le p' s" by (simp add: refl assms(3))
  moreover have "le x' p'" by (simp add: refl assms(4))
  ultimately show ?thesis using trans by blast
qed

lemma end_inv_range:
  assumes "end_inv le hp hr p r x t"
    and "total_preorder le"
    and "r' = (if hr \<and> le r s then r else s)"
    and "x' = (if (hp \<or> hr) \<and> le x r' then x else r')"
    and "t' = (if (hp \<or> hr) \<and> le x r' then t else boundTypeRangeKey)"
  shows "end_inv le hp True p r' x' t' \<and> le x' s \<and> le r' s"
proof -
  have tot: "\<not> le a b \<Longrightarrow> le b a" and refl: "le a a" and trans: "le a b \<Longrightarrow> le b c \<Longrightarrow> le a c" for a b c
    using assms(2) unfolding total_preorder_def by blast+
  have "end_inv le hp True p r' x' t'"
  proof (cases "(hp \<or> hr) \<and> le x r'")
    case True
    then have "x' = x" "t' = t" by (simp_all add: assms(4,5))
    moreover have "t = boundTypeRangeKey \<Longrightarrow> hr \<Longrightarrow> x = r \<Longrightarrow> x = r'" using True by (auto simp add: assms(3))
    ultimately show ?thesis using True assms(1) unfolding end_inv_def by blast
  next
    case False
    then have "x' = r'" "t' = boundTypeRangeKey" by (simp_all only: assms(4,5) if_False)
    moreover have "le r' p" if "hp"
      using that False assms(1) tot trans [of r' x p] unfolding end_inv_def by blast
    ultimately show ?thesis using assms(1) refl unfolding end_inv_def by simp
  qed
  moreover have "le r' s" by (simp add: refl assms(3))
  moreover have "le x' r'" by (simp add: refl assms(4))
  ultimately show ?thesis using trans by blast
qed

context key_order
begin

lemma ik_refl [simp]: "InternalCompare cmp a a = 0"
  by (simp add: InternalCompare_eq)

lemma ik_not_less: "\<not> InternalCompare cmp a b < 0 \<longleftrightarrow> ik_le cmp b a"
  using InternalCompare_swap [of a b] by linarith

lemma ik_not_greater: "\<not> 0 < InternalCompare cmp a b \<longleftrightarrow> ik_le cmp a b"
  by linarith

lemma ik_greater: "0 < InternalCompare cmp a b \<longleftrightarrow> InternalCompare cmp b a < 0"
  using InternalCompare_swap [of a b] by linarith

lemma InternalCompare_less_trans:
  "InternalCompare cmp a b < 0 \<Longrightarrow> InternalCompare cmp b c < 0 \<Longrightarrow> InternalCompare cmp a c < 0"
  unfolding InternalCompare_less using cmp_less_trans less_imp_le by fastforce

lemma ik_antisym: "ik_le cmp a b \<Longrightarrow> ik_le cmp b a \<Longrightarrow> a = b"
  using InternalCompare_swap [of a b] by (simp add: InternalCompare_eq [symmetric])

lemma bounds_inv_init: "bounds_inv cmp FileMetadata0"
  by (simp add: bounds_inv_def end_inv_def FileMetadata0_def)

text \<open>The fields after an extension of the bounds.\<close>

lemma extendOverallBounds_eq:
  "extendOverallBounds cmp s l t m =
     m\<lparr>fm_Smallest := (if fm_boundsSet m \<and> ik_le cmp (fm_Smallest m) s then fm_Smallest m else s),
       fm_Largest := (if fm_boundsSet m \<and> ik_le cmp l (fm_Largest m) then fm_Largest m else l),
       fm_boundsSet := True,
       fm_boundTypeSmallest := (if fm_boundsSet m \<and> ik_le cmp (fm_Smallest m) s then fm_boundTypeSmallest m else t),
       fm_boundTypeLargest := (if fm_boundsSet m \<and> ik_le cmp l (fm_Largest m) then fm_boundTypeLargest m else t)\<rparr>"
  by (simp add: extendOverallBounds_def Let_def ik_not_less [symmetric] ik_greater)

lemma ExtendPointKeyBounds_eq:
  "ExtendPointKeyBounds cmp s l m =
     (let s1 = if fm_HasPointKeys m \<and> ik_le cmp (fm_SmallestPointKey m) s then fm_SmallestPointKey m else s;
          l1 = if fm_HasPointKeys m \<and> ik_le cmp l (fm_LargestPointKey m) then fm_LargestPointKey m else l
      in extendOverallBounds cmp s1 l1 boundTypePointKey
           (m\<lparr>fm_SmallestPointKey := s1, fm_LargestPointKey := l1, fm_HasPointKeys := True\<rparr>))"
  by (cases m) (simp add: ExtendPointKeyBounds_def Let_def ik_not_less [symmetric] ik_greater)

lemma ExtendRangeKeyBounds_eq:
  "ExtendRangeKeyBounds cmp s l m =
     (let s1 = if fm_HasRangeKeys m \<and> ik_le cmp (fm_SmallestRangeKey m) s then fm_SmallestRangeKey m else s;
          l1 = if fm_HasRangeKeys m \<and> ik_le cmp l (fm_LargestRangeKey m) then fm_LargestRangeKey m else l
      in extendOverallBounds cmp s1 l1 boundTypeRangeKey
           (m\<lparr>fm_SmallestRangeKey := s1, fm_LargestRangeKey := l1, fm_HasRangeKeys := True\<rparr>))"
  by (cases m) (simp add: ExtendRangeKeyBounds_def Let_def ik_not_less [symmetric] ik_greater)

lemma ik_total: "ik_le cmp a b \<or> ik_le cmp b a"
  using InternalCompare_swap [of a b] by linarith

lemma ik_preorder: "total_preorder (ik_le cmp)" "total_preorder (\<lambda>a b. ik_le cmp b a)"
  unfolding total_preorder_def using ik_refl [THEN eq_refl] InternalCompare_trans ik_total by blast+

lemma ExtendPointKeyBounds_inv:
  assumes inv: "bounds_inv cmp m" and le: "ik_le cmp s l"
  shows "bounds_inv cmp (ExtendPointKeyBounds cmp s l m)" (is ?I)
    and "ik_le cmp (fm_Smallest (ExtendPointKeyBounds cmp s l m)) s" (is ?S)
    and "ik_le cmp l (fm_Largest (ExtendPointKeyBounds cmp s l m))" (is ?L)
proof -
  let ?hp = "fm_HasPointKeys m" and ?hr = "fm_HasRangeKeys m"
  define s1 where "s1 = (if ?hp \<and> ik_le cmp (fm_SmallestPointKey m) s then fm_SmallestPointKey m else s)"
  define l1 where "l1 = (if ?hp \<and> ik_le cmp l (fm_LargestPointKey m) then fm_LargestPointKey m else l)"
  have set: "fm_boundsSet m = (?hp \<or> ?hr)" using inv by (simp add: bounds_inv_def)
  have lo: "end_inv (ik_le cmp) ?hp ?hr (fm_SmallestPointKey m) (fm_SmallestRangeKey m) (fm_Smallest m) (fm_boundTypeSmallest m)"
    and hi: "end_inv (\<lambda>a b. ik_le cmp b a) ?hp ?hr (fm_LargestPointKey m) (fm_LargestRangeKey m) (fm_Largest m) (fm_boundTypeLargest m)"
    using inv by (simp_all add: bounds_inv_def)
  note lo' = end_inv_point [where le = "ik_le cmp", OF lo ik_preorder(1) s1_def refl refl]
  note hi' = end_inv_point [where le = "\<lambda>a b. ik_le cmp b a", OF hi ik_preorder(2) l1_def refl refl]
  have "ik_le cmp s1 l1" by (rule InternalCompare_trans [OF conjunct2 [OF conjunct2 [OF lo']] InternalCompare_trans [OF le conjunct2 [OF conjunct2 [OF hi']]]])
  moreover define S1 where "S1 = (if (?hp \<or> ?hr) \<and> ik_le cmp (fm_Smallest m) s1 then fm_Smallest m else s1)"
  moreover define T1 where "T1 = (if (?hp \<or> ?hr) \<and> ik_le cmp (fm_Smallest m) s1 then fm_boundTypeSmallest m else boundTypePointKey)"
  moreover define L1 where "L1 = (if (?hp \<or> ?hr) \<and> ik_le cmp l1 (fm_Largest m) then fm_Largest m else l1)"
  moreover define U1 where "U1 = (if (?hp \<or> ?hr) \<and> ik_le cmp l1 (fm_Largest m) then fm_boundTypeLargest m else boundTypePointKey)"
  moreover have eq: "ExtendPointKeyBounds cmp s l m =
      m\<lparr>fm_SmallestPointKey := s1, fm_LargestPointKey := l1, fm_HasPointKeys := True, fm_Smallest := S1, fm_Largest := L1,
        fm_boundsSet := True, fm_boundTypeSmallest := T1, fm_boundTypeLargest := U1\<rparr>"
    unfolding ExtendPointKeyBounds_eq extendOverallBounds_eq Let_def s1_def [symmetric] l1_def [symmetric] S1_def L1_def T1_def U1_def
    by (simp add: set split del: if_split cong: if_cong)
  ultimately show ?I ?S ?L
    using lo' hi' inv unfolding S1_def [symmetric] T1_def [symmetric] L1_def [symmetric] U1_def [symmetric] eq bounds_inv_def
    by simp_all
qed

lemma ExtendRangeKeyBounds_inv:
  assumes inv: "bounds_inv cmp m" and le: "ik_le cmp s l"
  shows "bounds_inv cmp (ExtendRangeKeyBounds cmp s l m)" (is ?I)
    and "ik_le cmp (fm_Smallest (ExtendRangeKeyBounds cmp s l m)) s" (is ?S)
    and "ik_le cmp l (fm_Largest (ExtendRangeKeyBounds cmp s l m))" (is ?L)
proof -
  let ?hp = "fm_HasPointKeys m" and ?hr = "fm_HasRangeKeys m"
  define s1 where "s1 = (if ?hr \<and> ik_le cmp (fm_SmallestRangeKey m) s then fm_SmallestRangeKey m else s)"
  define l1 where "l1 = (if ?hr \<and> ik_le cmp l (fm_LargestRangeKey m) then fm_LargestRangeKey m else l)"
  have set: "fm_boundsSet m = (?hp \<or> ?hr)" using inv by (simp add: bounds_inv_def)
  have lo: "end_inv (ik_le cmp) ?hp ?hr (fm_SmallestPointKey m) (fm_SmallestRangeKey m) (fm_Smallest m) (fm_boundTypeSmallest m)"
    and hi: "end_inv (\<lambda>a b. ik_le cmp b a) ?hp ?hr (fm_LargestPointKey m) (fm_LargestRangeKey m) (fm_Largest m) (fm_boundTypeLargest m)"
    using inv by (simp_all add: bounds_inv_def)
  note lo' = end_inv_range [where le = "ik_le cmp", OF lo ik_preorder(1) s1_def refl refl]
  note hi' = end_inv_range [where le = "\<lambda>a b. ik_le cmp b a", OF hi ik_preorder(2) l1_def refl refl]
  have "ik_le cmp s1 l1" by (rule InternalCompare_trans [OF conjunct2 [OF conjunct2 [OF lo']] InternalCompare_trans [OF le conjunct2 [OF conjunct2 [OF hi']]]])
  moreover define S1 where "S1 = (if (?hp \<or> ?hr) \<and> ik_le cmp (fm_Smallest m) s1 then fm_Smallest m else s1)"
  moreover define T1 where "T1 = (if (?hp \<or> ?hr) \<and> ik_le cmp (fm_Smallest m) s1 then fm_boundTypeSmallest m else boundTypeRangeKey)"
  moreover define L1 where "L1 = (if (?hp \<or> ?hr) \<and> ik_le cmp l1 (fm_Largest m) then fm_Largest m else l1)"
  moreover define U1 where "U1 = (if (?hp \<or> ?hr) \<and> ik_le cmp l1 (fm_Largest m) then fm_boundTypeLargest m else boundTypeRangeKey)"
  moreover have eq: "ExtendRangeKeyBounds cmp s l m =
      m\<lparr>fm_SmallestRangeKey := s1, fm_LargestRangeKey := l1, fm_HasRangeKeys := True, fm_Smallest := S1, fm_Largest := L1,
        fm_boundsSet := True, fm_boundTypeSmallest := T1, fm_boundTypeLargest := U1\<rparr>"
    unfolding ExtendRangeKeyBounds_eq extendOverallBounds_eq Let_def s1_def [symmetric] l1_def [symmetric] S1_def L1_def T1_def U1_def
    by (simp add: set split del: if_split cong: if_cong)
  ultimately show ?I ?S ?L
    using lo' hi' inv unfolding S1_def [symmetric] T1_def [symmetric] L1_def [symmetric] U1_def [symmetric] eq bounds_inv_def
    by simp_all
qed

end

context key_order
begin

lemma extendOverallBounds_grows:
  assumes "fm_boundsSet m"
  shows "ik_le cmp (fm_Smallest (extendOverallBounds cmp s l t m)) (fm_Smallest m)"
    and "ik_le cmp (fm_Largest m) (fm_Largest (extendOverallBounds cmp s l t m))"
  using assms ik_total [of "fm_Smallest m" s] ik_total [of l "fm_Largest m"] by (auto simp add: extendOverallBounds_eq)

lemma Extend_grows:
  assumes "fm_boundsSet m"
  shows "ik_le cmp (fm_Smallest (ExtendPointKeyBounds cmp s l m)) (fm_Smallest m)"
    and "ik_le cmp (fm_Largest m) (fm_Largest (ExtendPointKeyBounds cmp s l m))"
    and "ik_le cmp (fm_Smallest (ExtendRangeKeyBounds cmp s l m)) (fm_Smallest m)"
    and "ik_le cmp (fm_Largest m) (fm_Largest (ExtendRangeKeyBounds cmp s l m))"
  using extendOverallBounds_grows [of "m\<lparr>fm_SmallestPointKey := a, fm_LargestPointKey := b, fm_HasPointKeys := c\<rparr>" for a b c]
    extendOverallBounds_grows [of "m\<lparr>fm_SmallestRangeKey := a, fm_LargestRangeKey := b, fm_HasRangeKeys := c\<rparr>" for a b c] assms
  unfolding ExtendPointKeyBounds_eq ExtendRangeKeyBounds_eq Let_def by simp_all

lemma bounds_inv_Validate:
  assumes "bounds_inv cmp m" and "fm_boundsSet m" and "fm_SmallestSeqNum m \<le> fm_LargestSeqNum m" and "fm_FileBacking m \<noteq> None"
  shows "Validate cmp m = None"
proof -
  note inv = assms(1) [unfolded bounds_inv_def end_inv_def]
  have pt: "ik_le cmp (fm_SmallestPointKey m) (fm_LargestPointKey m) \<and> ik_le cmp (fm_Smallest m) (fm_SmallestPointKey m) \<and>
      ik_le cmp (fm_LargestPointKey m) (fm_Largest m)" if "fm_HasPointKeys m"
    using inv that by blast
  have rg: "ik_le cmp (fm_SmallestRangeKey m) (fm_LargestRangeKey m) \<and> ik_le cmp (fm_Smallest m) (fm_SmallestRangeKey m) \<and>
      ik_le cmp (fm_LargestRangeKey m) (fm_Largest m)" if "fm_HasRangeKeys m"
    using inv that by blast
  have keys: "fm_HasPointKeys m \<or> fm_HasRangeKeys m" using inv assms(2) by blast
  then have "ik_le cmp (fm_Smallest m) (fm_Largest m)"
    using pt rg InternalCompare_trans by blast
  moreover have "InternalCompare cmp a b < 0 \<longleftrightarrow> \<not> ik_le cmp b a" for a b using ik_not_less [of a b] by blast
  ultimately show ?thesis
    using assms(3,4) keys pt rg unfolding Validate_def by (simp add: not_less)
qed

end

section \<open>Files of a level\<close>

definition before :: "cmp \<Rightarrow> FileMetadata \<Rightarrow> FileMetadata \<Rightarrow> bool" where
  "before cmp f g \<longleftrightarrow>
     (let v = cmp (UserKey (fm_Largest f)) (UserKey (fm_Smallest g)) in v < 0 \<or> v = 0 \<and> IsExclusiveSentinel (fm_Largest f))"

text \<open>Two files that do not overlap, in the sense of the given invariants.\<close>

definition apart :: "cmp \<Rightarrow> OrderingInvariants \<Rightarrow> FileMetadata \<Rightarrow> FileMetadata \<Rightarrow> bool" where
  "apart cmp ord_inv f g =
     (case ord_inv of
        ProhibitSplitUserKeys \<Rightarrow> before cmp f g
      | AllowSplitUserKeys \<Rightarrow> InternalCompare cmp (fm_Largest f) (fm_Smallest g) < 0)"

text \<open>Two files of level 0 in the order of their sequence numbers; among files with none any order will do.\<close>

definition seqnum_ordered :: "FileMetadata \<Rightarrow> FileMetadata \<Rightarrow> bool" where
  "seqnum_ordered f g = (fm_LargestSeqNum f = 0 \<and> fm_LargestSeqNum g = 0 \<or> lessSeqNum f g)"

lemma CheckOrdering_levels_iff:
  "CheckOrdering_levels cmp ord prev files = None \<longleftrightarrow>
     (\<forall>f \<in> set files. Validate cmp f = None) \<and>
     successively (\<lambda>f g. check_adjacent cmp ord f g = None) ((case prev of None \<Rightarrow> [] | Some p \<Rightarrow> [p]) @ files)"
  by (induction cmp ord prev files rule: CheckOrdering_levels.induct) (auto split: option.splits)

lemma CheckOrdering_L0_iff:
  "CheckOrdering_L0 prev files = None \<longleftrightarrow>
     successively seqnum_ordered ((case prev of None \<Rightarrow> [] | Some p \<Rightarrow> [p]) @ files)"
  by (induction prev files rule: CheckOrdering_L0.induct) (auto simp add: seqnum_ordered_def split: option.split)

lemma seqnum_ordered_trans: "seqnum_ordered f g \<Longrightarrow> seqnum_ordered g h \<Longrightarrow> seqnum_ordered f h"
  by (auto simp add: seqnum_ordered_def lessSeqNum_def cmpSeqNum_def cmpUint64_def word_gt_0 split: if_splits)

lemma CheckOrdering_L0_pairwise: "CheckOrdering cmp True files ord = None \<longleftrightarrow> sorted_wrt seqnum_ordered files"
proof -
  have "transp seqnum_ordered" by (rule transpI) (rule seqnum_ordered_trans)
  then show ?thesis by (simp add: CheckOrdering_def CheckOrdering_L0_iff successively_conv_sorted_wrt)
qed

context key_order
begin

lemma check_adjacent_iff:
  "check_adjacent cmp ord f g = None \<longleftrightarrow> cmpSmallestKey cmp f g < 0 \<and> apart cmp ord f g"
  by (cases ord) (auto simp add: check_adjacent_def apart_def before_def Let_def)

lemma Validate_user_keys: "Validate cmp f = None \<Longrightarrow> cmp (UserKey (fm_Smallest f)) (UserKey (fm_Largest f)) \<le> 0"
  by (auto simp add: Validate_def InternalCompare_le not_less split: if_splits)

lemma before_trans:
  assumes "before cmp f g" and "before cmp g h" and "Validate cmp g = None"
  shows "before cmp f h"
proof -
  have "cmp (UserKey (fm_Smallest g)) (UserKey (fm_Smallest h)) \<le> 0"
    using Validate_user_keys [OF assms(3)] assms(2) cmp_trans unfolding before_def Let_def by (metis less_imp_le order_refl)
  then show ?thesis using assms(1) cmp_less_trans cmp_trans unfolding before_def Let_def
    by (metis cmp_eq order_le_less)
qed

lemma apart_trans:
  assumes "apart cmp ord f g" and "apart cmp ord g h" and "Validate cmp g = None"
  shows "apart cmp ord f h"
proof (cases ord)
  case ProhibitSplitUserKeys
  then show ?thesis using before_trans assms by (simp add: apart_def)
next
  case AllowSplitUserKeys
  have "InternalCompare cmp (fm_Smallest g) (fm_Largest g) \<le> 0"
    using assms(3) by (auto simp add: Validate_def not_less split: if_splits)
  then have "InternalCompare cmp (fm_Smallest g) (fm_Largest g) < 0 \<or> fm_Smallest g = fm_Largest g"
    using InternalCompare_eq [of "fm_Smallest g" "fm_Largest g"] by linarith
  then have "InternalCompare cmp (fm_Smallest g) (fm_Smallest h) < 0"
    using assms(2) InternalCompare_less_trans [of "fm_Smallest g" "fm_Largest g" "fm_Smallest h"] AllowSplitUserKeys
    by (auto simp add: apart_def)
  then show ?thesis
    using assms(1) InternalCompare_less_trans [of "fm_Largest f" "fm_Smallest g" "fm_Smallest h"] AllowSplitUserKeys
    by (auto simp add: apart_def)
qed

lemma CheckOrdering_pairwise:
  "CheckOrdering cmp False files ord = None \<longleftrightarrow>
     (\<forall>f \<in> set files. Validate cmp f = None) \<and> sorted_wrt (\<lambda>f g. cmpSmallestKey cmp f g < 0 \<and> apart cmp ord f g) files"
proof -
  let ?P = "\<lambda>f g. (cmpSmallestKey cmp f g < 0 \<and> apart cmp ord f g) \<and> Validate cmp f = None \<and> Validate cmp g = None"
  have "transp ?P"
  proof (rule transpI)
    fix f g h assume "?P f g" and "?P g h"
    then show "?P f h"
      using apart_trans [of ord f g h] InternalCompare_less_trans unfolding cmpSmallestKey_def by blast
  qed
  then have "successively ?P files = sorted_wrt ?P files" by (rule successively_conv_sorted_wrt)
  moreover have "successively ?P files = successively (\<lambda>f g. cmpSmallestKey cmp f g < 0 \<and> apart cmp ord f g) files"
    "sorted_wrt ?P files = sorted_wrt (\<lambda>f g. cmpSmallestKey cmp f g < 0 \<and> apart cmp ord f g) files"
    if "\<forall>f \<in> set files. Validate cmp f = None"
    using that by (auto intro!: successively_cong simp add: sorted_wrt_iff_nth_less)
  ultimately show ?thesis
    by (auto simp add: CheckOrdering_def CheckOrdering_levels_iff check_adjacent_iff)
qed

end

section \<open>Overlapping files\<close>

text \<open>A range of user keys: its start, its end, and whether the end is exclusive.\<close>

type_synonym key_range = "bytes \<times> bytes \<times> bool"

fun overlaps_range :: "cmp \<Rightarrow> key_range \<Rightarrow> FileMetadata \<Rightarrow> bool" where
  "overlaps_range cmp (a, b, x) f = FileMetadata_Overlaps cmp a b x f"

fun inside :: "cmp \<Rightarrow> key_range \<Rightarrow> FileMetadata \<Rightarrow> bool" where
  "inside cmp (a, b, x) f \<longleftrightarrow>
     cmp a (UserKey (fm_Smallest f)) \<le> 0 \<and>
     (let v = cmp (UserKey (fm_Largest f)) b in v < 0 \<or> v = 0 \<and> (x \<longrightarrow> IsExclusiveSentinel (fm_Largest f)))"

fun subrange :: "cmp \<Rightarrow> key_range \<Rightarrow> key_range \<Rightarrow> bool" where
  "subrange cmp (a, b, x) (a', b', x') \<longleftrightarrow> cmp a' a \<le> 0 \<and> (let v = cmp b b' in v < 0 \<or> v = 0 \<and> (x' \<longrightarrow> x))"

text \<open>The least range that contains a range and a file.\<close>

fun grow :: "cmp \<Rightarrow> FileMetadata \<Rightarrow> key_range \<Rightarrow> key_range" where
  "grow cmp f (a, b, x) =
     (let S = UserKey (fm_Smallest f); L = UserKey (fm_Largest f); v = cmp L b
      in (if cmp S a < 0 then S else a, if v > 0 then L else b,
          if v > 0 then IsExclusiveSentinel (fm_Largest f) else x \<and> \<not> (v = 0 \<and> \<not> IsExclusiveSentinel (fm_Largest f))))"

text \<open>A range is stable when it contains every file it overlaps.\<close>

definition stable_range :: "cmp \<Rightarrow> FileMetadata list \<Rightarrow> key_range \<Rightarrow> bool" where
  "stable_range cmp files r \<longleftrightarrow> (\<forall>f \<in> set files. overlaps_range cmp r f \<longrightarrow> inside cmp r f)"

definition o_range :: "overlap_state \<Rightarrow> key_range" where
  "o_range s = (o_start s, o_end s, o_exclusiveEnd s)"

definition o_count :: "overlap_state \<Rightarrow> nat" where
  "o_count s = length (filter id (o_selected s))"

lemma count_update: "i < length xs \<Longrightarrow> \<not> xs ! i \<Longrightarrow> length (filter id (xs[i := True])) = Suc (length (filter id xs))"
  by (induction xs arbitrary: i) (auto split: nat.splits simp add: nth_Cons)

context key_order
begin

lemma cmp_pos: "0 < cmp a b \<longleftrightarrow> cmp b a < 0"
  using cmp_swap [of a b] by linarith

lemma subrange_refl [simp]: "subrange cmp r r"
  by (cases r) simp

lemma subrange_trans: "subrange cmp r s \<Longrightarrow> subrange cmp s t \<Longrightarrow> subrange cmp r t"
proof -
  assume rs: "subrange cmp r s" and st: "subrange cmp s t"
  obtain a b x a' b' x' a'' b'' x'' where e: "r = (a, b, x)" "s = (a', b', x')" "t = (a'', b'', x'')"
    by (cases r; cases s; cases t)
  have "cmp a'' a \<le> 0" using rs st cmp_trans [of a'' a' a] by (simp add: e)
  moreover have "cmp b b'' < 0 \<or> cmp b b'' = 0 \<and> (x'' \<longrightarrow> x)"
    using rs st cmp_less_trans [of b b' b''] cmp_le_less_trans [of b b' b''] by (auto simp add: e Let_def cmp_eq)
  ultimately show ?thesis by (simp add: e Let_def)
qed

lemma overlaps_mono:
  assumes "subrange cmp r r'" and "overlaps_range cmp r f"
  shows "overlaps_range cmp r' f"
proof -
  obtain a b x a' b' x' where e: "r = (a, b, x)" "r' = (a', b', x')" by (cases r; cases r')
  let ?S = "UserKey (fm_Smallest f)" and ?L = "UserKey (fm_Largest f)" and ?x = "IsExclusiveSentinel (fm_Largest f)"
  have o: "\<not> cmp ?L a < 0" "\<not> (cmp ?L a = 0 \<and> ?x)" "\<not> 0 < cmp ?S b" "\<not> (cmp ?S b = 0 \<and> x)"
    using assms(2) by (auto simp add: e FileMetadata_Overlaps_def Let_def split: if_splits)
  have sub: "cmp a' a \<le> 0" "cmp b b' < 0 \<or> cmp b b' = 0 \<and> (x' \<longrightarrow> x)" using assms(1) by (auto simp add: e Let_def)
  have 1: "\<not> cmp ?L a' < 0" using o(1) sub(1) cmp_less_trans by blast
  have 2: "\<not> (cmp ?L a' = 0 \<and> ?x)"
  proof
    assume "cmp ?L a' = 0 \<and> ?x"
    then have "cmp ?L a \<le> 0" "?x" using sub(1) by (auto simp add: cmp_eq)
    then show False using o(1,2) by linarith
  qed
  have 3: "\<not> 0 < cmp ?S b'" using o(3) sub(2) cmp_le_less_trans [of b b' ?S] by (auto simp add: cmp_pos)
  have 4: "\<not> (cmp ?S b' = 0 \<and> x')"
    using o(3,4) sub(2) by (auto simp add: cmp_eq cmp_pos)
  show ?thesis using 1 2 3 4 by (auto simp add: e FileMetadata_Overlaps_def Let_def)
qed

lemma inside_mono:
  assumes "subrange cmp r r'" and "inside cmp r f"
  shows "inside cmp r' f"
proof -
  obtain a b x a' b' x' where e: "r = (a, b, x)" "r' = (a', b', x')" by (cases r; cases r')
  let ?S = "UserKey (fm_Smallest f)" and ?L = "UserKey (fm_Largest f)"
  have "cmp a' ?S \<le> 0" using assms cmp_trans [of a' a ?S] by (simp add: e)
  moreover have "cmp ?L b' < 0 \<or> cmp ?L b' = 0 \<and> (x' \<longrightarrow> IsExclusiveSentinel (fm_Largest f))"
    using assms cmp_less_trans [of ?L b b'] cmp_le_less_trans [of ?L b b'] by (auto simp add: e Let_def cmp_eq)
  ultimately show ?thesis by (simp add: e Let_def)
qed

lemma grow_inside: "inside cmp (grow cmp f r) f"
proof -
  obtain a b x where r: "r = (a, b, x)" by (cases r)
  let ?v = "cmp (UserKey (fm_Largest f)) b"
  consider "?v < 0" | "?v = 0" | "?v > 0" by linarith
  then show ?thesis by cases (auto simp add: r Let_def not_less cmp_swap [of a])
qed

lemma grow_subrange: "subrange cmp r (grow cmp f r)"
  by (cases r) (auto simp add: Let_def cmp_pos)

lemma grow_least: "inside cmp r' f \<Longrightarrow> subrange cmp r r' \<Longrightarrow> subrange cmp (grow cmp f r) r'"
  by (cases r; cases r') (auto simp add: Let_def cmp_eq)

lemma Overlaps_step_eq:
  "Overlaps_step cmp (i, f) s =
     (if o_selected s ! i \<or> \<not> overlaps_range cmp (o_range s) f then s
      else let r = grow cmp f (o_range s)
           in \<lparr>o_start = fst r, o_end = fst (snd r), o_exclusiveEnd = snd (snd r),
               o_selected = (o_selected s)[i := True], o_restart = (o_restart s \<or> r \<noteq> o_range s)\<rparr>)"
  by (cases s) (auto simp add: Overlaps_step_def o_range_def Let_def)

text \<open>What a step, a pass and the loop have in common.\<close>

definition o_rel :: "FileMetadata list \<Rightarrow> overlap_state \<Rightarrow> overlap_state \<Rightarrow> bool" where
  "o_rel files s s' \<longleftrightarrow>
     length (o_selected s') = length (o_selected s) \<and>
     subrange cmp (o_range s) (o_range s') \<and>
     (\<forall>i < length (o_selected s). o_selected s ! i \<longrightarrow> o_selected s' ! i) \<and>
     (\<forall>i < length (o_selected s). o_selected s' ! i \<longrightarrow> o_selected s ! i \<or>
        inside cmp (o_range s') (files ! i) \<and> overlaps_range cmp (o_range s') (files ! i)) \<and>
     (\<forall>r. stable_range cmp files r \<longrightarrow> subrange cmp (o_range s) r \<longrightarrow> subrange cmp (o_range s') r) \<and>
     (o_restart s \<longrightarrow> o_restart s') \<and>
     (\<not> o_restart s' \<longrightarrow> o_range s' = o_range s) \<and>
     o_count s \<le> o_count s' \<and> (o_restart s' \<and> \<not> o_restart s \<longrightarrow> o_count s < o_count s')"

lemma o_rel_refl: "o_rel files s s"
  by (simp add: o_rel_def)

lemma o_rel_trans:
  assumes "o_rel files s t" and "o_rel files t u"
  shows "o_rel files s u"
proof -
  note st = assms(1) [unfolded o_rel_def] and tu = assms(2) [unfolded o_rel_def]
  have sel: "o_selected s ! i \<or> inside cmp (o_range u) (files ! i) \<and> overlaps_range cmp (o_range u) (files ! i)"
    if "i < length (o_selected s)" "o_selected u ! i" for i
    using st tu that inside_mono overlaps_mono by metis
  have "subrange cmp (o_range s) (o_range u)"
    by (rule subrange_trans [of _ "o_range t"]) (use st tu in simp_all)
  moreover have c: "o_count s \<le> o_count t" "o_count t \<le> o_count u"
    "o_restart t \<and> \<not> o_restart s \<longrightarrow> o_count s < o_count t" "o_restart u \<and> \<not> o_restart t \<longrightarrow> o_count t < o_count u"
    using st tu by blast+
  moreover have "o_count s < o_count u" if "o_restart u" "\<not> o_restart s"
    using c that by linarith
  moreover have "o_count s \<le> o_count u" using c by linarith
  moreover have "\<forall>r. stable_range cmp files r \<longrightarrow> subrange cmp (o_range s) r \<longrightarrow> subrange cmp (o_range u) r"
    using st tu by blast
  moreover have "length (o_selected u) = length (o_selected s)" "o_restart s \<longrightarrow> o_restart u"
    "\<forall>i < length (o_selected s). o_selected s ! i \<longrightarrow> o_selected u ! i"
    using st tu by auto
  moreover have "\<not> o_restart u \<longrightarrow> o_range u = o_range s" using st tu by metis
  ultimately show ?thesis
    unfolding o_rel_def using sel by blast
qed

lemma o_step_rel:
  assumes "length (o_selected s) = length files" and "i < length files" and "files ! i = f"
  shows "o_rel files s (Overlaps_step cmp (i, f) s)"
proof (cases "o_selected s ! i \<or> \<not> overlaps_range cmp (o_range s) f")
  case True
  then show ?thesis by (simp add: Overlaps_step_eq o_rel_refl)
next
  case False
  let ?s = "Overlaps_step cmp (i, f) s"
  have f: "f \<in> set files" using assms(2,3) by auto
  have eq: "?s = \<lparr>o_start = fst (grow cmp f (o_range s)), o_end = fst (snd (grow cmp f (o_range s))),
      o_exclusiveEnd = snd (snd (grow cmp f (o_range s))), o_selected = (o_selected s)[i := True],
      o_restart = (o_restart s \<or> grow cmp f (o_range s) \<noteq> o_range s)\<rparr>"
    using False by (simp add: Overlaps_step_eq Let_def)
  have r: "o_range ?s = grow cmp f (o_range s)" by (simp add: eq o_range_def)
  have c: "o_count ?s = Suc (o_count s)" using False assms(1,2) by (simp add: eq o_count_def count_update)
  have "overlaps_range cmp (o_range ?s) f" using False grow_subrange overlaps_mono unfolding r by blast
  moreover have "subrange cmp (o_range ?s) r'" if "stable_range cmp files r'" "subrange cmp (o_range s) r'" for r'
    unfolding r using that False f grow_least overlaps_mono unfolding stable_range_def by blast
  ultimately show ?thesis
    unfolding o_rel_def using grow_subrange [of "o_range s" f] grow_inside [of f "o_range s"] assms c r
    by (auto simp add: eq nth_list_update split: if_splits)
qed

definition indexed :: "FileMetadata list \<Rightarrow> (nat \<times> FileMetadata) list \<Rightarrow> bool" where
  "indexed files ifs \<longleftrightarrow> (\<forall>(i, f) \<in> set ifs. i < length files \<and> files ! i = f)"

lemma o_fold_rel:
  assumes "length (o_selected s) = length files" and "indexed files ifs"
  shows "o_rel files s (fold (Overlaps_step cmp) ifs s)"
  using assms
proof (induction ifs arbitrary: s)
  case Nil
  then show ?case by (simp add: o_rel_refl)
next
  case (Cons p ifs)
  obtain i f where p: "p = (i, f)" by (cases p)
  have step: "o_rel files s (Overlaps_step cmp p s)"
    unfolding p by (rule o_step_rel) (use Cons.prems p in \<open>auto simp add: indexed_def\<close>)
  moreover have "o_rel files (Overlaps_step cmp p s) (fold (Overlaps_step cmp) ifs (Overlaps_step cmp p s))"
  proof (rule Cons.IH)
    show "length (o_selected (Overlaps_step cmp p s)) = length files"
      using step Cons.prems(1) unfolding o_rel_def by (elim conjE) simp
    show "indexed files ifs" using Cons.prems(2) by (simp add: indexed_def)
  qed
  ultimately show ?case unfolding fold.simps comp_def by (rule o_rel_trans)
qed

text \<open>At the end of a pass that does not restart no file that was left out overlaps the range.\<close>

lemma o_fold_rest:
  assumes "length (o_selected s) = length files" and "indexed files ifs"
    and "\<not> o_restart (fold (Overlaps_step cmp) ifs s)"
  shows "\<forall>(i, f) \<in> set ifs. \<not> o_selected (fold (Overlaps_step cmp) ifs s) ! i \<longrightarrow> \<not> overlaps_range cmp (o_range s) f"
  using assms
proof (induction ifs arbitrary: s)
  case (Cons p ifs)
  obtain i f where p: "p = (i, f)" by (cases p)
  let ?t = "Overlaps_step cmp p s" and ?u = "fold (Overlaps_step cmp) ifs (Overlaps_step cmp p s)"
  have i: "i < length files" "files ! i = f" and ifs: "indexed files ifs"
    using Cons.prems(2) p by (auto simp add: indexed_def)
  have st: "o_rel files s ?t" unfolding p by (rule o_step_rel [OF Cons.prems(1) i])
  then have len: "length (o_selected ?t) = length files" using Cons.prems(1) by (simp add: o_rel_def)
  have tu: "o_rel files ?t ?u" by (rule o_fold_rel [OF len ifs])
  have "\<not> o_restart ?t" using tu Cons.prems(3) by (auto simp add: o_rel_def)
  then have "o_range ?t = o_range s" using st by (simp add: o_rel_def)
  moreover have "\<forall>(i, f) \<in> set ifs. \<not> o_selected ?u ! i \<longrightarrow> \<not> overlaps_range cmp (o_range ?t) f"
    using Cons.IH [OF len ifs] Cons.prems(3) by simp
  moreover have "\<not> o_selected ?u ! i \<Longrightarrow> \<not> overlaps_range cmp (o_range s) f"
  proof
    assume "\<not> o_selected ?u ! i" and o: "overlaps_range cmp (o_range s) f"
    then have "\<not> o_selected ?t ! i" using tu i(1) len by (auto simp add: o_rel_def)
    then show False using o i Cons.prems(1) by (auto simp add: p Overlaps_step_eq Let_def split: if_splits)
  qed
  ultimately show ?case by (auto simp add: p)
qed simp

lemma indexed_enumerate: "indexed files (enumerate 0 files)"
  by (auto simp add: indexed_def in_set_enumerate_eq)

definition o_inv :: "FileMetadata list \<Rightarrow> key_range \<Rightarrow> overlap_state \<Rightarrow> bool" where
  "o_inv files r0 s \<longleftrightarrow>
     length (o_selected s) = length files \<and> subrange cmp r0 (o_range s) \<and>
     (\<forall>r. stable_range cmp files r \<longrightarrow> subrange cmp r0 r \<longrightarrow> subrange cmp (o_range s) r) \<and>
     (\<forall>i < length files. o_selected s ! i \<longrightarrow> inside cmp (o_range s) (files ! i) \<and> overlaps_range cmp (o_range s) (files ! i))"

lemma o_count_le: "o_count s \<le> length (o_selected s)"
  by (simp add: o_count_def)

lemma Overlaps_pass_rel:
  assumes "length (o_selected s) = length files"
  shows "o_rel files (s\<lparr>o_restart := False\<rparr>) (Overlaps_pass cmp files s)"
  unfolding Overlaps_pass_def by (rule o_fold_rel [OF _ indexed_enumerate]) (simp add: assms)

lemma o_inv_pass: "o_inv files r0 s \<Longrightarrow> o_inv files r0 (Overlaps_pass cmp files s)"
proof -
  assume inv: "o_inv files r0 s"
  then have rel: "o_rel files (s\<lparr>o_restart := False\<rparr>) (Overlaps_pass cmp files s)"
    by (intro Overlaps_pass_rel) (simp add: o_inv_def)
  have r: "o_range (s\<lparr>o_restart := False\<rparr>) = o_range s" by (simp add: o_range_def)
  show ?thesis
    using inv rel subrange_trans inside_mono overlaps_mono unfolding o_inv_def o_rel_def r by simp blast
qed

lemma Overlaps_loop_ends:
  assumes "o_inv files r0 s"
  shows "\<exists>s'. Overlaps_loop cmp files s = Some s' \<and> o_inv files r0 s' \<and>
           (\<forall>i < length files. \<not> o_selected s' ! i \<longrightarrow> \<not> overlaps_range cmp (o_range s') (files ! i))"
  using assms
proof (induction "length files - o_count s" arbitrary: s rule: less_induct)
  case less
  let ?t = "Overlaps_pass cmp files s"
  have len: "length (o_selected s) = length files" using less.prems by (simp add: o_inv_def)
  have inv: "o_inv files r0 ?t" by (rule o_inv_pass [OF less.prems])
  have rel: "o_rel files (s\<lparr>o_restart := False\<rparr>) ?t" by (rule Overlaps_pass_rel [OF len])
  show ?case
  proof (cases "o_restart ?t")
    case True
    then have "o_count s < o_count ?t" using rel by (simp add: o_rel_def o_count_def)
    moreover have "o_count ?t \<le> length files" using o_count_le [of ?t] inv by (simp add: o_inv_def)
    ultimately have "length files - o_count ?t < length files - o_count s" by linarith
    from less.hyps [OF this inv] show ?thesis using True by (subst Overlaps_loop.simps) (simp add: Let_def)
  next
    case False
    then have "o_range ?t = o_range s" using rel by (simp add: o_rel_def o_range_def)
    moreover have "\<forall>(i, f) \<in> set (enumerate 0 files). \<not> o_selected ?t ! i \<longrightarrow> \<not> overlaps_range cmp (o_range (s\<lparr>o_restart := False\<rparr>)) f"
      unfolding Overlaps_pass_def
      by (rule o_fold_rest [OF _ indexed_enumerate]) (use len False in \<open>auto simp add: Overlaps_pass_def\<close>)
    ultimately have "\<forall>i < length files. \<not> o_selected ?t ! i \<longrightarrow> \<not> overlaps_range cmp (o_range ?t) (files ! i)"
      by (auto simp add: in_set_enumerate_eq o_range_def)
    then show ?thesis using False inv by (subst Overlaps_loop.simps) (simp add: Let_def)
  qed
qed

lemma Overlaps_L0_least:
  "\<exists>res r. Overlaps_L0 cmp files start stop x = Some res \<and> res = filter (overlaps_range cmp r) files \<and>
     subrange cmp (start, stop, x) r \<and> stable_range cmp files r \<and>
     (\<forall>r'. stable_range cmp files r' \<longrightarrow> subrange cmp (start, stop, x) r' \<longrightarrow> subrange cmp r r')"
proof -
  let ?s = "Overlaps_init files start stop x"
  have "o_inv files (start, stop, x) ?s" by (auto simp add: o_inv_def Overlaps_init_def o_range_def)
  from Overlaps_loop_ends [OF this] obtain s where s: "Overlaps_loop cmp files ?s = Some s"
    and inv: "o_inv files (start, stop, x) s"
    and rest: "\<forall>i < length files. \<not> o_selected s ! i \<longrightarrow> \<not> overlaps_range cmp (o_range s) (files ! i)" by blast
  have sel: "o_selected s ! i \<longleftrightarrow> overlaps_range cmp (o_range s) (files ! i)" if "i < length files" for i
    using inv rest that by (auto simp add: o_inv_def)
  have "filter (\<lambda>(i, f). o_selected s ! i) (enumerate 0 files) = filter (\<lambda>(i, f). overlaps_range cmp (o_range s) f) (enumerate 0 files)"
    by (rule filter_cong) (auto simp add: in_set_enumerate_eq sel)
  also have "map snd \<dots> = filter (overlaps_range cmp (o_range s)) (map snd (enumerate 0 files))"
    unfolding filter_map o_def case_prod_unfold ..
  finally have "Overlaps_L0 cmp files start stop x = Some (filter (overlaps_range cmp (o_range s)) files)"
    unfolding Overlaps_L0_def s by simp
  moreover have "stable_range cmp files (o_range s)"
    using inv sel unfolding stable_range_def o_inv_def by (metis in_set_conv_nth)
  ultimately show ?thesis using inv unfolding o_inv_def by blast
qed

end

section \<open>Properties of files\<close>

datatype bounds_op = PointBounds InternalKey InternalKey | RangeBounds InternalKey InternalKey

fun apply_bounds :: "cmp \<Rightarrow> bounds_op \<Rightarrow> FileMetadata \<Rightarrow> FileMetadata" where
  "apply_bounds cmp (PointBounds s l) m = ExtendPointKeyBounds cmp s l m"
| "apply_bounds cmp (RangeBounds s l) m = ExtendRangeKeyBounds cmp s l m"

fun op_bounds :: "bounds_op \<Rightarrow> InternalKey \<times> InternalKey" where
  "op_bounds (PointBounds s l) = (s, l)"
| "op_bounds (RangeBounds s l) = (s, l)"

text \<open>A file whose bounds were set by a sequence of extensions.\<close>

definition extended :: "cmp \<Rightarrow> bounds_op list \<Rightarrow> FileMetadata \<Rightarrow> FileMetadata" where
  "extended cmp ops m = fold (apply_bounds cmp) ops m"

context key_order
begin

lemma apply_bounds_inv:
  assumes "bounds_inv cmp m" and "op_bounds op = (s, l)" and "ik_le cmp s l"
  shows "bounds_inv cmp (apply_bounds cmp op m)" and "fm_boundsSet (apply_bounds cmp op m)"
    and "ik_le cmp (fm_Smallest (apply_bounds cmp op m)) s" and "ik_le cmp l (fm_Largest (apply_bounds cmp op m))"
  using assms ExtendPointKeyBounds_inv [OF assms(1,3)] ExtendRangeKeyBounds_inv [OF assms(1,3)]
  by (cases op; simp add: ExtendPointKeyBounds_eq ExtendRangeKeyBounds_eq extendOverallBounds_eq Let_def)+

lemma apply_bounds_grows:
  assumes "fm_boundsSet m"
  shows "ik_le cmp (fm_Smallest (apply_bounds cmp op m)) (fm_Smallest m)"
    and "ik_le cmp (fm_Largest m) (fm_Largest (apply_bounds cmp op m))"
  using Extend_grows [OF assms] by (cases op; simp)+

lemma extended_inv:
  assumes "\<forall>op \<in> set ops. ik_le cmp (fst (op_bounds op)) (snd (op_bounds op))"
  shows "bounds_inv cmp (extended cmp ops FileMetadata0)"
    and "fm_boundsSet (extended cmp ops FileMetadata0) = (ops \<noteq> [])"
    and "\<forall>op \<in> set ops. ik_le cmp (fm_Smallest (extended cmp ops FileMetadata0)) (fst (op_bounds op)) \<and>
           ik_le cmp (snd (op_bounds op)) (fm_Largest (extended cmp ops FileMetadata0))"
  using assms unfolding extended_def
proof (induction ops rule: rev_induct)
  case Nil
  case 1 show ?case by (simp add: bounds_inv_init)
  case 2 show ?case by (simp add: FileMetadata0_def)
  case 3 show ?case by simp
next
  case (snoc op ops)
  let ?m = "fold (apply_bounds cmp) ops FileMetadata0"
  obtain s l where sl: "op_bounds op = (s, l)" by (cases "op_bounds op")
  {
    case 1
    then have "bounds_inv cmp ?m" "ik_le cmp s l" using snoc(1) sl by auto
    then show ?case using apply_bounds_inv(1) [OF _ sl] by simp
  next
    case 2
    then have "bounds_inv cmp ?m" "ik_le cmp s l" using snoc(1) sl by auto
    then show ?case using apply_bounds_inv(2) [OF _ sl] by simp
  next
    case 3
    then have inv: "bounds_inv cmp ?m" and le: "ik_le cmp s l" and old: "\<forall>op \<in> set ops. ik_le cmp (fm_Smallest ?m) (fst (op_bounds op)) \<and>
        ik_le cmp (snd (op_bounds op)) (fm_Largest ?m)" and set: "fm_boundsSet ?m = (ops \<noteq> [])"
      using snoc sl by auto
    have "ik_le cmp (fm_Smallest (apply_bounds cmp op ?m)) (fst (op_bounds op')) \<and>
        ik_le cmp (snd (op_bounds op')) (fm_Largest (apply_bounds cmp op ?m))" if "op' \<in> set ops" for op'
    proof -
      have "fm_boundsSet ?m" using that set by auto
      then show ?thesis using old that apply_bounds_grows InternalCompare_trans by blast
    qed
    then show ?case using apply_bounds_inv(3,4) [OF inv sl le] sl by auto
  }
qed

end

text \<open>
  C19. A file whose bounds were set by any sequence of \<^verbatim>\<open>ExtendPointKeyBounds\<close> and \<^verbatim>\<open>ExtendRangeKeyBounds\<close>
  calls covers every pair of keys it was given, and passes \<^verbatim>\<open>Validate\<close> once its sequence numbers and its
  backing are set.
\<close>

theorem extended_bounds_valid:
  assumes "ops \<noteq> []"
    and "\<forall>op \<in> set ops. InternalCompare bytes_compare (fst (op_bounds op)) (snd (op_bounds op)) \<le> 0"
    and "a \<le> b"
  shows "Validate bytes_compare
           ((extended bytes_compare ops FileMetadata0)\<lparr>fm_SmallestSeqNum := a, fm_LargestSeqNum := b, fm_FileBacking := Some fb\<rparr>) = None \<and>
         (\<forall>op \<in> set ops.
            InternalCompare bytes_compare (fm_Smallest (extended bytes_compare ops FileMetadata0)) (fst (op_bounds op)) \<le> 0 \<and>
            InternalCompare bytes_compare (snd (op_bounds op)) (fm_Largest (extended bytes_compare ops FileMetadata0)) \<le> 0)"
proof -
  let ?m = "(extended bytes_compare ops FileMetadata0)\<lparr>fm_SmallestSeqNum := a, fm_LargestSeqNum := b, fm_FileBacking := Some fb\<rparr>"
  have "bounds_inv bytes_compare ?m" "fm_boundsSet ?m"
    using dflt.extended_inv(1,2) [OF assms(2)] assms(1) by (simp_all add: bounds_inv_def)
  then have "Validate bytes_compare ?m = None" by (rule dflt.bounds_inv_Validate) (simp_all add: assms(3))
  with dflt.extended_inv(3) [OF assms(2)] show ?thesis by blast
qed

theorem extended_bounds_valid_witness:
  "Validate bytes_compare
     ((extended bytes_compare [PointBounds (MakeInternalKey [98] 5 1) (MakeInternalKey [99] 5 1),
        RangeBounds (MakeInternalKey [97] 7 21) (MakeInternalKey [98] 7 21)] FileMetadata0)
        \<lparr>fm_SmallestSeqNum := 5, fm_LargestSeqNum := 7, fm_FileBacking := Some FileBacking0\<rparr>) = None"
proof -
  let ?ops = "[PointBounds (MakeInternalKey [98] 5 1) (MakeInternalKey [99] 5 1), RangeBounds (MakeInternalKey [97] 7 21) (MakeInternalKey [98] 7 21)]"
  have "\<forall>op \<in> set ?ops. InternalCompare bytes_compare (fst (op_bounds op)) (snd (op_bounds op)) \<le> 0" by code_simp
  from extended_bounds_valid [OF _ this, of 5 7] show ?thesis by simp
qed

text \<open>
  C18. Comparing only adjacent files, \<^verbatim>\<open>CheckOrdering\<close> decides a condition on any two files of the level. It
  accepts level 0 as a whole exactly when any two files are in the order of their sequence numbers, where files
  whose largest sequence number is 0 may come in any order; their bounds are neither validated nor compared. It
  accepts another level, or a sublevel of level 0, exactly when each file is valid and any two are in the order of
  their smallest keys and apart: if user keys must not be split, they share no user key, otherwise the largest
  internal key of the first is less than the smallest of the second.
\<close>

theorem CheckOrdering_decides:
  "CheckOrdering bytes_compare level0 files ord = None \<longleftrightarrow>
     (if level0 then sorted_wrt seqnum_ordered files
      else list_all (\<lambda>f. Validate bytes_compare f = None) files \<and>
           sorted_wrt (\<lambda>f g. cmpSmallestKey bytes_compare f g < 0 \<and> apart bytes_compare ord f g) files)"
  by (simp add: CheckOrdering_L0_pairwise dflt.CheckOrdering_pairwise list_all_iff)

text \<open>
  C17. The restarting loop of \<^verbatim>\<open>Version.Overlaps\<close> for level 0 terminates. It returns the files that overlap the
  least range that contains the given one and every file it overlaps.
\<close>

theorem Overlaps_L0_least_stable:
  "\<exists>res r. Overlaps_L0 bytes_compare files start stop x = Some res \<and> res = filter (overlaps_range bytes_compare r) files \<and>
     subrange bytes_compare (start, stop, x) r \<and> stable_range bytes_compare files r \<and>
     (\<forall>r'. stable_range bytes_compare files r' \<longrightarrow> subrange bytes_compare (start, stop, x) r' \<longrightarrow> subrange bytes_compare r r')"
  by (rule dflt.Overlaps_L0_least)

definition sample_file :: "u64 \<Rightarrow> bytes \<Rightarrow> bytes \<Rightarrow> FileMetadata" where
  "sample_file n s l = ExtendPointKeyBounds bytes_compare (MakeInternalKey s 1 1) (MakeInternalKey l 1 1) (FileMetadata0\<lparr>fm_FileNum := n\<rparr>)"

theorem Overlaps_L0_least_stable_witness:
  "let files = [sample_file 3 [100] [102], sample_file 1 [97] [99], sample_file 2 [98] [101], sample_file 4 [103] [104]]
   in map_option (map fm_FileNum) (Overlaps_L0 bytes_compare files [97] [97] False) = Some [3, 1, 2] \<and>
      (\<exists>r. Overlaps_L0 bytes_compare files [97] [97] False = Some (filter (overlaps_range bytes_compare r) files) \<and>
           stable_range bytes_compare files r)"
proof -
  let ?files = "[sample_file 3 [100] [102], sample_file 1 [97] [99], sample_file 2 [98] [101], sample_file 4 [103] [104]]"
  have "map_option (map fm_FileNum) (Overlaps_L0 bytes_compare ?files [97] [97] False) = Some [3, 1, 2]" by code_simp
  moreover have "\<exists>r. Overlaps_L0 bytes_compare ?files [97] [97] False = Some (filter (overlaps_range bytes_compare r) ?files) \<and>
      stable_range bytes_compare ?files r"
    using Overlaps_L0_least_stable [of ?files "[97]" "[97]" False] by blast
  ultimately show ?thesis unfolding Let_def by (rule conjI)
qed

end
