(* ===== verification/VersionEdit.thy ===== *)
theory VersionEdit
  imports FileMetadata "HOL-Library.AList"
begin

text \<open>
  Package \<^verbatim>\<open>internal/manifest\<close>, \<^verbatim>\<open>version_edit.go\<close>: version edits, their encoding in the MANIFEST and the
  accumulation of edits into a bulk edit. A decoder reads from the bytes of one record. A Go map is an
  association list in the order of its iteration. File metadata is shared by pointer in the code; here it
  is a value, as nothing modelled here changes it after it was stored.
\<close>

section \<open>Data\<close>

definition tagComparator :: u64 where "tagComparator = 1"
definition tagLogNumber :: u64 where "tagLogNumber = 2"
definition tagNextFileNumber :: u64 where "tagNextFileNumber = 3"
definition tagLastSequence :: u64 where "tagLastSequence = 4"
definition tagCompactPointer :: u64 where "tagCompactPointer = 5"
definition tagDeletedFile :: u64 where "tagDeletedFile = 6"
definition tagNewFile :: u64 where "tagNewFile = 7"
definition tagPrevLogNumber :: u64 where "tagPrevLogNumber = 9"
definition tagNewFile2 :: u64 where "tagNewFile2 = 100"
definition tagNewFile3 :: u64 where "tagNewFile3 = 102"
definition tagNewFile4 :: u64 where "tagNewFile4 = 103"
definition tagColumnFamily :: u64 where "tagColumnFamily = 200"
definition tagColumnFamilyAdd :: u64 where "tagColumnFamilyAdd = 201"
definition tagColumnFamilyDrop :: u64 where "tagColumnFamilyDrop = 202"
definition tagMaxColumnFamily :: u64 where "tagMaxColumnFamily = 203"
definition tagNewFile5 :: u64 where "tagNewFile5 = 104"
definition tagCreatedBackingTable :: u64 where "tagCreatedBackingTable = 105"
definition tagRemovedBackingTable :: u64 where "tagRemovedBackingTable = 106"

definition customTagTerminate :: u64 where "customTagTerminate = 1"
definition customTagNeedsCompaction :: u64 where "customTagNeedsCompaction = 2"
definition customTagCreationTime :: u64 where "customTagCreationTime = 6"
definition customTagPathID :: u64 where "customTagPathID = 65"
definition customTagNonSafeIgnoreMask :: u64 where "customTagNonSafeIgnoreMask = push_bit 6 1"
definition customTagVirtual :: u64 where "customTagVirtual = 66"

lemmas tag_defs =
  tagComparator_def tagLogNumber_def tagNextFileNumber_def tagLastSequence_def tagCompactPointer_def
  tagDeletedFile_def tagNewFile_def tagPrevLogNumber_def tagNewFile2_def tagNewFile3_def tagNewFile4_def
  tagColumnFamily_def tagColumnFamilyAdd_def tagColumnFamilyDrop_def tagMaxColumnFamily_def tagNewFile5_def
  tagCreatedBackingTable_def tagRemovedBackingTable_def

lemmas custom_tag_defs =
  customTagTerminate_def customTagNeedsCompaction_def customTagCreationTime_def customTagPathID_def
  customTagNonSafeIgnoreMask_def customTagVirtual_def

definition NumLevels :: nat where "NumLevels = 7"

type_synonym DeletedFileEntry = "nat \<times> u64"

record NewFileEntry =
  nf_Level :: nat
  nf_Meta :: FileMetadata
  nf_BackingFileNum :: u64

record VersionEdit =
  ve_ComparerName :: bytes
  ve_MinUnflushedLogNum :: u64
  ve_ObsoletePrevLogNum :: u64
  ve_NextFileNum :: u64
  ve_LastSeqNum :: u64
  ve_DeletedFiles :: "(DeletedFileEntry \<times> FileMetadata option) list"
  ve_NewFiles :: "NewFileEntry list"
  ve_CreatedBackingTables :: "FileBacking list"
  ve_RemovedBackingTables :: "u64 list"

definition VersionEdit0 :: VersionEdit where
  "VersionEdit0 = \<lparr>ve_ComparerName = [], ve_MinUnflushedLogNum = 0, ve_ObsoletePrevLogNum = 0, ve_NextFileNum = 0,
     ve_LastSeqNum = 0, ve_DeletedFiles = [], ve_NewFiles = [], ve_CreatedBackingTables = [], ve_RemovedBackingTables = []\<rparr>"

datatype ve_error =
    CorruptManifest
  | UnexpectedEOF
  | EndOfFile
  | VarintOverflow
  | MakesliceTooLarge        \<comment> \<open>panic\<close>
  | NilBacking               \<comment> \<open>panic\<close>
  | PointBoundsWithoutPointKeys byte
  | NeedCompactionWrongSize
  | InvalidCreationTime
  | PathIDUnsupported
  | CustomFieldUnsupported u64
  | ColumnFamiliesUnsupported
  | NoBoundType

section \<open>The decoder\<close>

definition readUvarint :: "bytes \<Rightarrow> ve_error + (u64 \<times> bytes)" where
  "readUvarint d =
     (case read_uvarint d of
        UVal u r \<Rightarrow> Inr (u, r)
      | UEmpty \<Rightarrow> Inl CorruptManifest
      | UTruncated \<Rightarrow> Inl UnexpectedEOF
      | UOverflow \<Rightarrow> Inl VarintOverflow)"

text \<open>The largest slice Go allocates on 64-bit platforms.\<close>

definition maxAlloc :: nat where "maxAlloc = 2 ^ 48"

definition readBytes :: "bytes \<Rightarrow> ve_error + (bytes \<times> bytes)" where
  "readBytes d =
     rbind (readUvarint d) (\<lambda>(n, r).
       if maxAlloc < unat n then Inl MakesliceTooLarge
       else if n = 0 then Inr ([], r)
       else if r = [] then Inl EndOfFile
       else if length r < unat n then Inl CorruptManifest
       else Inr (take (unat n) r, drop (unat n) r))"

definition readLevel :: "bytes \<Rightarrow> ve_error + (nat \<times> bytes)" where
  "readLevel d =
     rbind (readUvarint d) (\<lambda>(u, r). if u \<ge> of_nat NumLevels then Inl CorruptManifest else Inr (unat u, r))"

definition readFileNum :: "bytes \<Rightarrow> ve_error + (u64 \<times> bytes)" where
  "readFileNum d = readUvarint d"

definition ReadByte :: "bytes \<Rightarrow> ve_error + (byte \<times> bytes)" where
  "ReadByte d = (case d of [] \<Rightarrow> Inl EndOfFile | b # r \<Rightarrow> Inr (b, r))"

text \<open>The bounds of a new file: the point keys, the range keys, whether point bounds were parsed, the marker.\<close>

record file_bounds =
  bd_smallestPointKey :: bytes
  bd_largestPointKey :: bytes
  bd_smallestRangeKey :: bytes
  bd_largestRangeKey :: bytes
  bd_parsedPointBounds :: bool
  bd_boundsMarker :: byte

definition file_bounds0 :: file_bounds where
  "file_bounds0 = \<lparr>bd_smallestPointKey = [], bd_largestPointKey = [], bd_smallestRangeKey = [], bd_largestRangeKey = [],
     bd_parsedPointBounds = False, bd_boundsMarker = 0\<rparr>"

definition read_bounds :: "u64 \<Rightarrow> bytes \<Rightarrow> ve_error + (file_bounds \<times> bytes)" where
  "read_bounds tag d =
     (if tag \<noteq> tagNewFile5
      then rbind (readBytes d) (\<lambda>(smallest, d).
           rbind (readBytes d) (\<lambda>(largest, d).
           Inr (file_bounds0\<lparr>bd_smallestPointKey := smallest, bd_largestPointKey := largest\<rparr>, d)))
      else rbind (ReadByte d) (\<lambda>(marker, d).
           rbind (if marker AND maskContainsPointKeys > 0
                  then rbind (readBytes d) (\<lambda>(smallest, d).
                       rbind (readBytes d) (\<lambda>(largest, d).
                       Inr (file_bounds0\<lparr>bd_smallestPointKey := smallest, bd_largestPointKey := largest,
                              bd_parsedPointBounds := True, bd_boundsMarker := marker\<rparr>, d)))
                  else if marker AND maskSmallest \<noteq> 0 \<or> marker AND maskLargest \<noteq> 0
                  then Inl (PointBoundsWithoutPointKeys marker)
                  else Inr (file_bounds0\<lparr>bd_boundsMarker := marker\<rparr>, d)) (\<lambda>(bd, d).
           rbind (readBytes d) (\<lambda>(smallest, d).
           rbind (readBytes d) (\<lambda>(largest, d).
           Inr (bd\<lparr>bd_smallestRangeKey := smallest, bd_largestRangeKey := largest\<rparr>, d))))))"

record custom_fields =
  cf_markedForCompaction :: bool
  cf_creationTime :: u64
  cf_virtual :: bool
  cf_backingFileNum :: u64

definition custom_fields0 :: custom_fields where
  "custom_fields0 = \<lparr>cf_markedForCompaction = False, cf_creationTime = 0, cf_virtual = False, cf_backingFileNum = 0\<rparr>"

definition custom_field :: "u64 \<Rightarrow> bytes \<Rightarrow> custom_fields \<Rightarrow> ve_error + custom_fields" where
  "custom_field customTag field cf =
     (if customTag = customTagNeedsCompaction
      then if length field \<noteq> 1 then Inl NeedCompactionWrongSize else Inr (cf\<lparr>cf_markedForCompaction := (field ! 0 = 1)\<rparr>)
      else if customTag = customTagCreationTime
      then (case Uvarint field of (creationTime, n) \<Rightarrow>
              if n \<noteq> int (length field) then Inl InvalidCreationTime else Inr (cf\<lparr>cf_creationTime := creationTime\<rparr>))
      else if customTag = customTagPathID then Inl PathIDUnsupported
      else if customTag AND customTagNonSafeIgnoreMask \<noteq> 0 then Inl (CustomFieldUnsupported customTag)
      else Inr cf)"

lemma uvarint_loop_shorter: "uvarint_loop i x d = UVal v r \<Longrightarrow> length r < length d"
proof (induction i x d rule: uvarint_loop.induct)
  case (1 i x bs)
  then show ?case by (subst (asm) (2) uvarint_loop.simps) (auto split: list.splits if_splits)
qed

lemma readUvarint_shorter: "readUvarint d = Inr (u, r) \<Longrightarrow> length r < length d"
  by (auto simp add: readUvarint_def read_uvarint_def split: uvarint_result.splits dest: uvarint_loop_shorter)

lemma readBytes_shorter: "readBytes d = Inr (u, r) \<Longrightarrow> length r < length d"
  by (auto simp add: readBytes_def split: if_splits dest: readUvarint_shorter)

function read_custom :: "custom_fields \<Rightarrow> bytes \<Rightarrow> ve_error + (custom_fields \<times> bytes)" where
  "read_custom cf d =
     rbind (readUvarint d) (\<lambda>(customTag, d).
       if customTag = customTagTerminate then Inr (cf, d)
       else if customTag = customTagVirtual
       then rbind (readUvarint d) (\<lambda>(n, d). read_custom (cf\<lparr>cf_virtual := True, cf_backingFileNum := n\<rparr>) d)
       else rbind (readBytes d) (\<lambda>(field, d).
            rbind (custom_field customTag field cf) (\<lambda>cf. read_custom cf d)))"
  by pat_completeness auto
termination
  by (relation "measure (\<lambda>(cf, d). length d)") (auto dest!: readUvarint_shorter readBytes_shorter)

declare read_custom.simps [simp del]

definition decode_meta :: "u64 \<Rightarrow> u64 \<Rightarrow> u64 \<Rightarrow> file_bounds \<Rightarrow> u64 \<Rightarrow> u64 \<Rightarrow> custom_fields \<Rightarrow> FileMetadata" where
  "decode_meta tag fileNum sz bd smallestSeqNum largestSeqNum cf =
     (let m = FileMetadata0\<lparr>fm_FileNum := fileNum, fm_Size := sz, fm_CreationTime := cf_creationTime cf,
                fm_SmallestSeqNum := smallestSeqNum, fm_LargestSeqNum := largestSeqNum,
                fm_MarkedForCompaction := cf_markedForCompaction cf, fm_Virtual := cf_virtual cf\<rparr>;
          m = if tag \<noteq> tagNewFile5
              then let m1 = m\<lparr>fm_SmallestPointKey := DecodeInternalKey (bd_smallestPointKey bd),
                              fm_LargestPointKey := DecodeInternalKey (bd_largestPointKey bd), fm_HasPointKeys := True\<rparr>
                   in m1\<lparr>fm_Smallest := fm_SmallestPointKey m1, fm_Largest := fm_LargestPointKey m1,
                         fm_boundTypeSmallest := boundTypePointKey, fm_boundTypeLargest := boundTypePointKey\<rparr>
              else let m1 = if bd_parsedPointBounds bd
                            then m\<lparr>fm_SmallestPointKey := DecodeInternalKey (bd_smallestPointKey bd),
                                   fm_LargestPointKey := DecodeInternalKey (bd_largestPointKey bd), fm_HasPointKeys := True\<rparr>
                            else m;
                       m2 = m1\<lparr>fm_SmallestRangeKey := DecodeInternalKey (bd_smallestRangeKey bd),
                               fm_LargestRangeKey := DecodeInternalKey (bd_largestRangeKey bd), fm_HasRangeKeys := True\<rparr>;
                       m3 = m2\<lparr>fm_Smallest := fm_SmallestRangeKey m2, fm_Largest := fm_LargestRangeKey m2,
                               fm_boundTypeSmallest := boundTypeRangeKey, fm_boundTypeLargest := boundTypeRangeKey\<rparr>;
                       m4 = if bd_boundsMarker bd AND maskSmallest = maskSmallest
                            then m3\<lparr>fm_Smallest := fm_SmallestPointKey m3, fm_boundTypeSmallest := boundTypePointKey\<rparr> else m3
                   in if bd_boundsMarker bd AND maskLargest = maskLargest
                      then m4\<lparr>fm_Largest := fm_LargestPointKey m4, fm_boundTypeLargest := boundTypePointKey\<rparr> else m4;
          m = m\<lparr>fm_boundsSet := True\<rparr>
      in if \<not> cf_virtual cf then (case InitPhysicalBacking m of Some m' \<Rightarrow> m' | None \<Rightarrow> m) else m)"

definition decode_new_file :: "u64 \<Rightarrow> bytes \<Rightarrow> ve_error + (NewFileEntry \<times> bytes)" where
  "decode_new_file tag d =
     rbind (readLevel d) (\<lambda>(level, d).
     rbind (readFileNum d) (\<lambda>(fileNum, d).
     rbind (if tag = tagNewFile3 then readUvarint d else Inr (0, d)) (\<lambda>(_, d).
     rbind (readUvarint d) (\<lambda>(sz, d).
     rbind (read_bounds tag d) (\<lambda>(bd, d).
     rbind (if tag \<noteq> tagNewFile
            then rbind (readUvarint d) (\<lambda>(smallestSeqNum, d).
                 rbind (readUvarint d) (\<lambda>(largestSeqNum, d). Inr ((smallestSeqNum, largestSeqNum), d)))
            else Inr ((0, 0), d)) (\<lambda>((smallestSeqNum, largestSeqNum), d).
     rbind (if tag = tagNewFile4 \<or> tag = tagNewFile5 then read_custom custom_fields0 d else Inr (custom_fields0, d)) (\<lambda>(cf, d).
     Inr (\<lparr>nf_Level = level, nf_Meta = decode_meta tag fileNum sz bd smallestSeqNum largestSeqNum cf,
           nf_BackingFileNum = (if cf_virtual cf then cf_backingFileNum cf else 0)\<rparr>, d))))))))"

definition decode_tag :: "u64 \<Rightarrow> bytes \<Rightarrow> VersionEdit \<Rightarrow> ve_error + (VersionEdit \<times> bytes)" where
  "decode_tag tag d v =
     (if tag = tagComparator
      then rbind (readBytes d) (\<lambda>(s, d). Inr (v\<lparr>ve_ComparerName := s\<rparr>, d))
      else if tag = tagLogNumber
      then rbind (readFileNum d) (\<lambda>(n, d). Inr (v\<lparr>ve_MinUnflushedLogNum := n\<rparr>, d))
      else if tag = tagNextFileNumber
      then rbind (readFileNum d) (\<lambda>(n, d). Inr (v\<lparr>ve_NextFileNum := n\<rparr>, d))
      else if tag = tagLastSequence
      then rbind (readUvarint d) (\<lambda>(n, d). Inr (v\<lparr>ve_LastSeqNum := n\<rparr>, d))
      else if tag = tagCompactPointer
      then rbind (readLevel d) (\<lambda>(_, d). rbind (readBytes d) (\<lambda>(_, d). Inr (v, d)))
      else if tag = tagRemovedBackingTable
      then rbind (readUvarint d) (\<lambda>(n, d). Inr (v\<lparr>ve_RemovedBackingTables := ve_RemovedBackingTables v @ [n]\<rparr>, d))
      else if tag = tagCreatedBackingTable
      then rbind (readUvarint d) (\<lambda>(dfn, d). rbind (readUvarint d) (\<lambda>(sz, d).
             Inr (v\<lparr>ve_CreatedBackingTables := ve_CreatedBackingTables v @ [FileBacking0\<lparr>fb_DiskFileNum := dfn, fb_Size := sz\<rparr>]\<rparr>, d)))
      else if tag = tagDeletedFile
      then rbind (readLevel d) (\<lambda>(level, d). rbind (readFileNum d) (\<lambda>(fileNum, d).
             Inr (v\<lparr>ve_DeletedFiles := AList.update (level, fileNum) None (ve_DeletedFiles v)\<rparr>, d)))
      else if tag \<in> {tagNewFile, tagNewFile2, tagNewFile3, tagNewFile4, tagNewFile5}
      then rbind (decode_new_file tag d) (\<lambda>(nfe, d). Inr (v\<lparr>ve_NewFiles := ve_NewFiles v @ [nfe]\<rparr>, d))
      else if tag = tagPrevLogNumber
      then rbind (readUvarint d) (\<lambda>(n, d). Inr (v\<lparr>ve_ObsoletePrevLogNum := n\<rparr>, d))
      else if tag \<in> {tagColumnFamily, tagColumnFamilyAdd, tagColumnFamilyDrop, tagMaxColumnFamily}
      then Inl ColumnFamiliesUnsupported
      else Inl CorruptManifest)"

text \<open>No reader lengthens its input.\<close>

definition shrinks :: "bytes \<Rightarrow> ve_error + ('a \<times> bytes) \<Rightarrow> bool" where
  "shrinks d r \<longleftrightarrow> (\<forall>u d'. r = Inr (u, d') \<longrightarrow> length d' \<le> length d)"

named_theorems shrink_rules \<open>rules for \<open>shrinks\<close>\<close>

lemma shrinks_Inl [shrink_rules]: "shrinks d (Inl e)"
  by (simp add: shrinks_def)

lemma shrinks_Inr [shrink_rules]: "shrinks d (Inr (u, d))"
  by (simp add: shrinks_def)

lemma shrinks_rbind [shrink_rules]:
  "shrinks d r \<Longrightarrow> (\<And>a d'. r = Inr (a, d') \<Longrightarrow> shrinks d' (f a d')) \<Longrightarrow> shrinks d (rbind r (\<lambda>(a, d'). f a d'))"
  unfolding shrinks_def by (auto intro: le_trans [rotated])

lemma shrinks_rbind1: "(\<And>a. shrinks d (f a)) \<Longrightarrow> shrinks d (rbind r f)"
  by (cases r) (auto simp add: shrinks_def)

lemma shrinks_if [shrink_rules]: "shrinks d x \<Longrightarrow> shrinks d y \<Longrightarrow> shrinks d (if b then x else y)"
  by simp

lemma shrinks_readUvarint [shrink_rules]: "shrinks d (readUvarint d)"
  by (auto simp add: shrinks_def dest: readUvarint_shorter)

lemma shrinks_readFileNum [shrink_rules]: "shrinks d (readFileNum d)"
  unfolding readFileNum_def by (rule shrinks_readUvarint)

lemma shrinks_readBytes [shrink_rules]: "shrinks d (readBytes d)"
  by (auto simp add: shrinks_def dest: readBytes_shorter)

lemma shrinks_readLevel [shrink_rules]: "shrinks d (readLevel d)"
  unfolding readLevel_def by (intro shrink_rules)

lemma shrinks_ReadByte [shrink_rules]: "shrinks d (ReadByte d)"
  by (auto simp add: shrinks_def ReadByte_def split: list.splits)

lemma shrinks_read_bounds [shrink_rules]: "shrinks d (read_bounds tag d)"
  unfolding read_bounds_def by (intro shrink_rules)

lemma shrinks_read_custom [shrink_rules]: "shrinks d (read_custom cf d)"
proof (induction d arbitrary: cf rule: length_induct)
  case (1 d)
  have IH: "shrinks d'' (read_custom cf d'')"
    if "readUvarint d = Inr (t, d')" "readUvarint d' = Inr (n, d'') \<or> readBytes d' = Inr (f, d'')" for t d' n f d'' cf
  proof -
    have "length d'' < length d" using that by (auto dest!: readUvarint_shorter readBytes_shorter)
    then show ?thesis using 1 by blast
  qed
  show ?case
    unfolding read_custom.simps [of cf d]
    by (intro shrinks_rbind shrinks_readUvarint shrinks_if shrinks_Inr shrinks_readBytes)
      (auto intro!: shrinks_rbind1 IH)
qed

lemma shrinks_decode_new_file [shrink_rules]: "shrinks d (decode_new_file tag d)"
  unfolding decode_new_file_def by (intro shrink_rules) (auto intro!: shrink_rules split: prod.splits)

lemma shrinks_decode_tag: "shrinks d (decode_tag tag d v)"
  unfolding decode_tag_def by (intro shrink_rules)

function Decode_loop :: "VersionEdit \<Rightarrow> bytes \<Rightarrow> ve_error + VersionEdit" where
  "Decode_loop v d =
     (case read_uvarint d of
        UEmpty \<Rightarrow> Inr v
      | UTruncated \<Rightarrow> Inl UnexpectedEOF
      | UOverflow \<Rightarrow> Inl VarintOverflow
      | UVal tag r \<Rightarrow> rbind (decode_tag tag r v) (\<lambda>(v, d). Decode_loop v d))"
  by pat_completeness auto
termination
  by (relation "measure (\<lambda>(v, d). length d)") (auto simp add: read_uvarint_def dest!: uvarint_loop_shorter shrinks_decode_tag [unfolded shrinks_def, rule_format])

declare Decode_loop.simps [simp del]

definition Decode :: "bytes \<Rightarrow> ve_error + VersionEdit" where
  "Decode r = Decode_loop VersionEdit0 r"

section \<open>The encoder\<close>

definition writeUvarint :: "u64 \<Rightarrow> bytes" where
  "writeUvarint u = put_uvarint u"

definition writeBytes :: "bytes \<Rightarrow> bytes" where
  "writeBytes p = writeUvarint (of_nat (length p)) @ p"

definition writeKey :: "InternalKey \<Rightarrow> bytes" where
  "writeKey k = writeUvarint (of_nat (InternalKey_Size k)) @ UserKey k @ EncodeTrailer k"

definition writeString :: "bytes \<Rightarrow> bytes" where
  "writeString s = writeUvarint (of_nat (length s)) @ s"

definition has_custom :: "FileMetadata \<Rightarrow> bool" where
  "has_custom m = (fm_MarkedForCompaction m \<or> fm_CreationTime m \<noteq> 0 \<or> fm_Virtual m)"

definition encode_bounds :: "FileMetadata \<Rightarrow> ve_error + bytes" where
  "encode_bounds m =
     (if \<not> fm_HasRangeKeys m
      then Inr (writeKey (fm_SmallestPointKey m) @ writeKey (fm_LargestPointKey m))
      else case boundsMarker m of
             None \<Rightarrow> Inl NoBoundType
           | Some b \<Rightarrow>
               Inr ([b] @
                    (if fm_HasPointKeys m then writeKey (fm_SmallestPointKey m) @ writeKey (fm_LargestPointKey m) else []) @
                    writeKey (fm_SmallestRangeKey m) @ writeKey (fm_LargestRangeKey m)))"

definition encode_custom :: "FileMetadata \<Rightarrow> ve_error + bytes" where
  "encode_custom m =
     (if \<not> has_custom m then Inr []
      else rbind (if fm_Virtual m
                  then case fm_FileBacking m of
                         None \<Rightarrow> Inl NilBacking
                       | Some fb \<Rightarrow> Inr (writeUvarint customTagVirtual @ writeUvarint (fb_DiskFileNum fb))
                  else Inr []) (\<lambda>virtual.
           Inr ((if fm_CreationTime m \<noteq> 0
                 then writeUvarint customTagCreationTime @ writeBytes (put_uvarint (fm_CreationTime m)) else []) @
                (if fm_MarkedForCompaction m
                 then writeUvarint customTagNeedsCompaction @ writeBytes [1] else []) @
                virtual @ writeUvarint customTagTerminate)))"

definition new_file_tag :: "FileMetadata \<Rightarrow> u64" where
  "new_file_tag m = (if fm_HasRangeKeys m then tagNewFile5 else if has_custom m then tagNewFile4 else tagNewFile2)"

definition encode_new_file :: "NewFileEntry \<Rightarrow> ve_error + bytes" where
  "encode_new_file x =
     (let m = nf_Meta x
      in rbind (encode_bounds m) (\<lambda>bounds.
         rbind (encode_custom m) (\<lambda>custom.
         Inr (writeUvarint (new_file_tag m) @ writeUvarint (of_nat (nf_Level x)) @ writeUvarint (fm_FileNum m) @
              writeUvarint (fm_Size m) @ bounds @ writeUvarint (fm_SmallestSeqNum m) @ writeUvarint (fm_LargestSeqNum m) @
              custom))))"

fun encode_new_files :: "NewFileEntry list \<Rightarrow> ve_error + bytes" where
  "encode_new_files [] = Inr []"
| "encode_new_files (x # xs) = rbind (encode_new_file x) (\<lambda>b. rbind (encode_new_files xs) (\<lambda>bs. Inr (b @ bs)))"

text \<open>The bytes given to the writer, or the error or panic before they are.\<close>

definition Encode :: "VersionEdit \<Rightarrow> ve_error + bytes" where
  "Encode v =
     rbind (encode_new_files (ve_NewFiles v)) (\<lambda>newFiles.
     Inr ((if ve_ComparerName v \<noteq> [] then writeUvarint tagComparator @ writeString (ve_ComparerName v) else []) @
          (if ve_MinUnflushedLogNum v \<noteq> 0 then writeUvarint tagLogNumber @ writeUvarint (ve_MinUnflushedLogNum v) else []) @
          (if ve_ObsoletePrevLogNum v \<noteq> 0 then writeUvarint tagPrevLogNumber @ writeUvarint (ve_ObsoletePrevLogNum v) else []) @
          (if ve_NextFileNum v \<noteq> 0 then writeUvarint tagNextFileNumber @ writeUvarint (ve_NextFileNum v) else []) @
          concat (map (\<lambda>dfn. writeUvarint tagRemovedBackingTable @ writeUvarint dfn) (ve_RemovedBackingTables v)) @
          concat (map (\<lambda>fb. writeUvarint tagCreatedBackingTable @ writeUvarint (fb_DiskFileNum fb) @ writeUvarint (fb_Size fb))
                      (ve_CreatedBackingTables v)) @
          (if ve_LastSeqNum v \<noteq> 0 \<or> ve_ComparerName v \<noteq> [] then writeUvarint tagLastSequence @ writeUvarint (ve_LastSeqNum v) else []) @
          concat (map (\<lambda>((level, fileNum), _). writeUvarint tagDeletedFile @ writeUvarint (of_nat level) @ writeUvarint fileNum)
                      (ve_DeletedFiles v)) @
          newFiles))"

section \<open>Bulk edits\<close>

record BulkVersionEdit =
  b_Added :: "nat \<Rightarrow> u64 \<rightharpoonup> FileMetadata"
  b_Deleted :: "nat \<Rightarrow> u64 \<rightharpoonup> FileMetadata"
  b_AddedFileBacking :: "u64 \<rightharpoonup> FileBacking"
  b_RemovedFileBacking :: "u64 list"
  b_AddedByFileNum :: "(u64 \<rightharpoonup> FileMetadata) option"
  b_MarkedForCompactionCountDiff :: int

datatype acc_error =
    LevelOutOfRange          \<comment> \<open>panic\<close>
  | MetadataAbsent DeletedFileEntry
  | DeletedBeforeInserted DeletedFileEntry
  | DuplicateFileBacking u64 \<comment> \<open>panic\<close>
  | VirtualWithoutBacking
  | AddedWithoutBacking DeletedFileEntry

definition accumulate_deleted :: "DeletedFileEntry \<times> FileMetadata option \<Rightarrow> BulkVersionEdit \<Rightarrow> acc_error + BulkVersionEdit" where
  "accumulate_deleted = (\<lambda>((level, fileNum), m0) b.
     if NumLevels \<le> level then Inl LevelOutOfRange
     else rbind (case m0 of
                   Some m \<Rightarrow> Inr m
                 | None \<Rightarrow>
                     case b_AddedByFileNum b of
                       None \<Rightarrow> Inl (MetadataAbsent (level, fileNum))
                     | Some byNum \<Rightarrow>
                         (case byNum fileNum of
                            None \<Rightarrow> Inl (DeletedBeforeInserted (level, fileNum))
                          | Some m \<Rightarrow> Inr m)) (\<lambda>m.
     let b = if fm_MarkedForCompaction m
             then b\<lparr>b_MarkedForCompactionCountDiff := b_MarkedForCompactionCountDiff b - 1\<rparr> else b
     in Inr (if b_Added b level fileNum = None
             then b\<lparr>b_Deleted := (b_Deleted b)(level := (b_Deleted b level)(fileNum \<mapsto> m))\<rparr>
             else b\<lparr>b_Added := (b_Added b)(level := (b_Added b level)(fileNum := None))\<rparr>)))"

definition accumulate_backing :: "FileBacking \<Rightarrow> BulkVersionEdit \<Rightarrow> acc_error + BulkVersionEdit" where
  "accumulate_backing fb b =
     (if b_AddedFileBacking b (fb_DiskFileNum fb) \<noteq> None then Inl (DuplicateFileBacking (fb_DiskFileNum fb))
      else Inr (b\<lparr>b_AddedFileBacking := (b_AddedFileBacking b)(fb_DiskFileNum fb \<mapsto> fb)\<rparr>))"

definition accumulate_new :: "NewFileEntry \<Rightarrow> BulkVersionEdit \<Rightarrow> acc_error + BulkVersionEdit" where
  "accumulate_new nf b =
     (let level = nf_Level nf; m0 = nf_Meta nf; fileNum = fm_FileNum m0
      in if NumLevels \<le> level then Inl LevelOutOfRange
         else if b_Deleted b level fileNum \<noteq> None then Inl (DeletedBeforeInserted (level, fileNum))
         else rbind (if fm_Virtual m0 \<and> fm_FileBacking m0 = None
                     then case b_AddedFileBacking b (nf_BackingFileNum nf) of
                            None \<Rightarrow> Inl VirtualWithoutBacking
                          | Some fb \<Rightarrow> Inr (m0\<lparr>fm_FileBacking := Some fb\<rparr>)
                     else if fm_FileBacking m0 = None then Inl (AddedWithoutBacking (level, fileNum))
                     else Inr m0) (\<lambda>m.
         let b = b\<lparr>b_Added := (b_Added b)(level := (b_Added b level)(fileNum \<mapsto> m)),
                   b_AddedByFileNum := map_option (\<lambda>byNum. byNum(fileNum \<mapsto> m)) (b_AddedByFileNum b)\<rparr>
         in Inr (if fm_MarkedForCompaction m
                 then b\<lparr>b_MarkedForCompactionCountDiff := b_MarkedForCompactionCountDiff b + 1\<rparr> else b)))"

fun accumulate_all :: "('a \<Rightarrow> 'b \<Rightarrow> 'e + 'b) \<Rightarrow> 'a list \<Rightarrow> 'b \<Rightarrow> 'e + 'b" where
  "accumulate_all f [] b = Inr b"
| "accumulate_all f (x # xs) b = rbind (f x b) (accumulate_all f xs)"

definition Accumulate :: "VersionEdit \<Rightarrow> BulkVersionEdit \<Rightarrow> acc_error + BulkVersionEdit" where
  "Accumulate ve b =
     rbind (accumulate_all accumulate_deleted (ve_DeletedFiles ve) b) (\<lambda>b.
     rbind (accumulate_all accumulate_backing (ve_CreatedBackingTables ve) b) (\<lambda>b.
     rbind (accumulate_all accumulate_new (ve_NewFiles ve) b) (\<lambda>b.
     Inr (b\<lparr>b_RemovedFileBacking := b_RemovedFileBacking b @ ve_RemovedBackingTables ve\<rparr>))))"

definition BulkVersionEdit0 :: BulkVersionEdit where
  "BulkVersionEdit0 = \<lparr>b_Added = \<lambda>_. Map.empty, b_Deleted = \<lambda>_. Map.empty, b_AddedFileBacking = Map.empty,
     b_RemovedFileBacking = [], b_AddedByFileNum = None, b_MarkedForCompactionCountDiff = 0\<rparr>"

section \<open>Bulk edits: lemmas\<close>

text \<open>The files of a level after a bulk edit is applied to a version with the files \<open>S\<close>.\<close>

definition live :: "(nat \<Rightarrow> u64 set) \<Rightarrow> BulkVersionEdit \<Rightarrow> nat \<Rightarrow> u64 set" where
  "live S b l = (S l - dom (b_Deleted b l)) \<union> dom (b_Added b l)"

text \<open>The effect of one edit on the files of a version.\<close>

definition edit_files :: "VersionEdit \<Rightarrow> (nat \<Rightarrow> u64 set) \<Rightarrow> nat \<Rightarrow> u64 set" where
  "edit_files ve S l =
     (S l - {f. (l, f) \<in> fst ` set (ve_DeletedFiles ve)}) \<union>
     {fm_FileNum (nf_Meta nf) | nf. nf \<in> set (ve_NewFiles ve) \<and> nf_Level nf = l}"

text \<open>No file is both added and deleted, or both in the version and added.\<close>

definition bulk_inv :: "(nat \<Rightarrow> u64 set) \<Rightarrow> BulkVersionEdit \<Rightarrow> bool" where
  "bulk_inv S b \<longleftrightarrow> (\<forall>l. dom (b_Added b l) \<inter> dom (b_Deleted b l) = {} \<and> S l \<inter> dom (b_Added b l) = {})"

lemma bulk_inv0: "bulk_inv S (BulkVersionEdit0\<lparr>b_AddedByFileNum := byNum\<rparr>)"
  by (simp add: bulk_inv_def BulkVersionEdit0_def)

lemma live0: "live S (BulkVersionEdit0\<lparr>b_AddedByFileNum := byNum\<rparr>) = S"
  by (rule ext) (simp add: live_def BulkVersionEdit0_def)

lemma accumulate_deleted_fields:
  assumes "accumulate_deleted ((level, f), m) b = Inr b'"
  shows "b_Added b level f = None \<and> b_Added b' = b_Added b \<and> (\<exists>m'. b_Deleted b' = (b_Deleted b)(level := (b_Deleted b level)(f \<mapsto> m'))) \<or>
         b_Added b level f \<noteq> None \<and> b_Deleted b' = b_Deleted b \<and> b_Added b' = (b_Added b)(level := (b_Added b level)(f := None))"
  using assms by (cases "b_Added b level f") (auto simp add: accumulate_deleted_def Let_def split: if_splits)

lemma accumulate_deleted_live:
  assumes "accumulate_deleted ((level, f), m) b = Inr b'" and "bulk_inv S b"
  shows "bulk_inv S b' \<and> live S b' l = live S b l - (if l = level then {f} else {})"
  using accumulate_deleted_fields [OF assms(1)] assms(2)
  by (elim disjE conjE exE) (auto simp add: bulk_inv_def live_def disjoint_iff dom_def split: if_splits)

lemma accumulate_new_fields:
  assumes "accumulate_new nf b = Inr b'"
  shows "b_Deleted b (nf_Level nf) (fm_FileNum (nf_Meta nf)) = None \<and> b_Deleted b' = b_Deleted b \<and>
         (\<exists>m. b_Added b' = (b_Added b)(nf_Level nf := (b_Added b (nf_Level nf))(fm_FileNum (nf_Meta nf) \<mapsto> m)))"
  using assms by (auto simp add: accumulate_new_def Let_def split: if_splits)

lemma accumulate_new_live:
  assumes "accumulate_new nf b = Inr b'" and "bulk_inv S b" and "fm_FileNum (nf_Meta nf) \<notin> S (nf_Level nf)"
  shows "bulk_inv S b' \<and> live S b' l = live S b l \<union> (if l = nf_Level nf then {fm_FileNum (nf_Meta nf)} else {})"
  using accumulate_new_fields [OF assms(1)] assms(2,3)
  by (elim disjE conjE exE) (auto simp add: bulk_inv_def live_def disjoint_iff dom_def split: if_splits)

lemma accumulate_all_deleted:
  assumes "accumulate_all accumulate_deleted ds b = Inr b'" and "bulk_inv S b"
  shows "bulk_inv S b' \<and> live S b' l = live S b l - {f. (l, f) \<in> fst ` set ds}"
  using assms
proof (induction ds arbitrary: b)
  case (Cons d ds)
  obtain level f m where d: "d = ((level, f), m)" by (metis surj_pair)
  from Cons.prems(1) obtain b1 where 1: "accumulate_deleted d b = Inr b1" and 2: "accumulate_all accumulate_deleted ds b1 = Inr b'"
    by auto
  have "bulk_inv S b1" and l1: "live S b1 l = live S b l - (if l = level then {f} else {})"
    using accumulate_deleted_live [OF 1 [unfolded d] Cons.prems(2)] by blast+
  from Cons.IH [OF 2 this(1)] show ?case by (auto simp add: d l1 split: if_splits)
qed simp

lemma accumulate_all_backing:
  "accumulate_all accumulate_backing fbs b = Inr b' \<Longrightarrow> b_Added b' = b_Added b \<and> b_Deleted b' = b_Deleted b"
  by (induction fbs arbitrary: b) (auto simp add: accumulate_backing_def split: if_splits)

lemma accumulate_all_new:
  assumes "accumulate_all accumulate_new nfs b = Inr b'" and "bulk_inv S b"
    and "\<forall>nf \<in> set nfs. fm_FileNum (nf_Meta nf) \<notin> S (nf_Level nf)"
  shows "bulk_inv S b' \<and> live S b' l = live S b l \<union> {fm_FileNum (nf_Meta nf) | nf. nf \<in> set nfs \<and> nf_Level nf = l}"
  using assms
proof (induction nfs arbitrary: b)
  case (Cons nf nfs)
  from Cons.prems(1) obtain b1 where 1: "accumulate_new nf b = Inr b1" and 2: "accumulate_all accumulate_new nfs b1 = Inr b'"
    by auto
  have "bulk_inv S b1" and l1: "live S b1 l = live S b l \<union> (if l = nf_Level nf then {fm_FileNum (nf_Meta nf)} else {})"
    using accumulate_new_live [OF 1 Cons.prems(2)] Cons.prems(3) by auto
  from Cons.IH [OF 2 this(1)] Cons.prems(3) show ?case by (auto simp add: l1 split: if_splits)
qed simp

lemma Accumulate_live:
  assumes "Accumulate ve b = Inr b'" and "bulk_inv S b"
    and "\<forall>nf \<in> set (ve_NewFiles ve). fm_FileNum (nf_Meta nf) \<notin> S (nf_Level nf)"
  shows "bulk_inv S b' \<and> live S b' = edit_files ve (live S b)"
proof -
  from assms(1) obtain b1 b2 b3 where 1: "accumulate_all accumulate_deleted (ve_DeletedFiles ve) b = Inr b1"
    and 2: "accumulate_all accumulate_backing (ve_CreatedBackingTables ve) b1 = Inr b2"
    and 3: "accumulate_all accumulate_new (ve_NewFiles ve) b2 = Inr b3"
    and b': "b' = b3\<lparr>b_RemovedFileBacking := b_RemovedFileBacking b3 @ ve_RemovedBackingTables ve\<rparr>"
    by (auto simp add: Accumulate_def)
  have fields: "b_Added b2 = b_Added b1" "b_Deleted b2 = b_Deleted b1" using accumulate_all_backing [OF 2] by blast+
  have "bulk_inv S b1" using accumulate_all_deleted [OF 1 assms(2)] by blast
  then have "bulk_inv S b2" by (simp add: bulk_inv_def fields)
  note new = accumulate_all_new [OF 3 this assms(3)]
  have "live S b' l = edit_files ve (live S b) l" for l
  proof -
    have "live S b' l = live S b3 l" by (simp add: b' live_def)
    moreover have "live S b2 l = live S b1 l" by (simp add: live_def fields)
    ultimately show ?thesis using new [of l] accumulate_all_deleted [OF 1 assms(2), of l] by (simp add: edit_files_def)
  qed
  moreover have "bulk_inv S b'" using new by (simp add: b' bulk_inv_def)
  ultimately show ?thesis by blast
qed

text \<open>
  C21. Accumulating a sequence of edits into one bulk edit has the effect of the edits applied one after the
  other: the files left at each level are the same. The edits must not add a file that the base version
  already has at that level.
\<close>

theorem accumulate_refines:
  assumes "accumulate_all Accumulate ves (BulkVersionEdit0\<lparr>b_AddedByFileNum := byNum\<rparr>) = Inr b"
    and "\<forall>ve \<in> set ves. \<forall>nf \<in> set (ve_NewFiles ve). fm_FileNum (nf_Meta nf) \<notin> S (nf_Level nf)"
  shows "live S b = fold edit_files ves S \<and> (\<forall>l. dom (b_Added b l) \<inter> dom (b_Deleted b l) = {})"
proof -
  have "bulk_inv S b' \<and> live S b' = fold edit_files ves (live S b0)"
    if "accumulate_all Accumulate ves b0 = Inr b'" "bulk_inv S b0" for b0 b'
    using that assms(2)
  proof (induction ves arbitrary: b0)
    case (Cons ve ves)
    from Cons.prems(1) obtain b1 where 1: "Accumulate ve b0 = Inr b1" and 2: "accumulate_all Accumulate ves b1 = Inr b'" by auto
    have "bulk_inv S b1 \<and> live S b1 = edit_files ve (live S b0)"
      using Accumulate_live [OF 1 Cons.prems(2)] Cons.prems(3) by simp
    then show ?case using Cons.IH [OF 2] Cons.prems(3) by simp
  qed simp
  from this [OF assms(1) bulk_inv0] show ?thesis by (auto simp add: live0 bulk_inv_def)
qed

theorem accumulate_refines_witness:
  "let f = (\<lambda>n. FileMetadata0\<lparr>fm_FileNum := n, fm_FileBacking := Some FileBacking0\<rparr>);
       ve1 = VersionEdit0\<lparr>ve_NewFiles := [\<lparr>nf_Level = 0, nf_Meta = f 1, nf_BackingFileNum = 0\<rparr>]\<rparr>;
       ve2 = VersionEdit0\<lparr>ve_DeletedFiles := [((0, 1), None)], ve_NewFiles := [\<lparr>nf_Level = 1, nf_Meta = f 2, nf_BackingFileNum = 0\<rparr>]\<rparr>
   in \<exists>b. accumulate_all Accumulate [ve1, ve2] (BulkVersionEdit0\<lparr>b_AddedByFileNum := Some Map.empty\<rparr>) = Inr b \<and>
          live (\<lambda>_. {}) b 0 = {} \<and> live (\<lambda>_. {}) b 1 = {2}"
proof -
  let ?f = "\<lambda>n. FileMetadata0\<lparr>fm_FileNum := n, fm_FileBacking := Some FileBacking0\<rparr>"
  let ?ve1 = "VersionEdit0\<lparr>ve_NewFiles := [\<lparr>nf_Level = 0, nf_Meta = ?f 1, nf_BackingFileNum = 0\<rparr>]\<rparr>"
  let ?ve2 = "VersionEdit0\<lparr>ve_DeletedFiles := [((0, 1), None)], ve_NewFiles := [\<lparr>nf_Level = 1, nf_Meta = ?f 2, nf_BackingFileNum = 0\<rparr>]\<rparr>"
  let ?acc = "accumulate_all Accumulate [?ve1, ?ve2] (BulkVersionEdit0\<lparr>b_AddedByFileNum := Some Map.empty\<rparr>)"
  have "\<not> isl ?acc" by code_simp
  then obtain b where b: "?acc = Inr b" by (cases ?acc) auto
  from accumulate_refines [OF this, of "\<lambda>_. {}"] have "live (\<lambda>_. {}) b = fold edit_files [?ve1, ?ve2] (\<lambda>_. {})" by simp
  then have "live (\<lambda>_. {}) b 0 = {} \<and> live (\<lambda>_. {}) b 1 = {2}"
    by (simp add: edit_files_def VersionEdit0_def FileMetadata0_def)
  with b show ?thesis unfolding Let_def by blast
qed

section \<open>Round trip\<close>

lemma readUvarint_write [simp]: "readUvarint (writeUvarint u @ r) = Inr (u, r)"
  by (simp add: readUvarint_def writeUvarint_def)

lemma readFileNum_write [simp]: "readFileNum (writeUvarint u @ r) = Inr (u, r)"
  by (simp add: readFileNum_def)

lemma readLevel_write [simp]: "l < NumLevels \<Longrightarrow> readLevel (writeUvarint (of_nat l) @ r) = Inr (l, r)"
proof -
  assume l: "l < NumLevels"
  then have "unat (of_nat l :: u64) = l" by (simp add: NumLevels_def unat_of_nat)
  moreover have "\<not> of_nat l \<ge> (of_nat NumLevels :: u64)" using l by (simp add: NumLevels_def word_le_nat_alt unat_of_nat)
  ultimately show ?thesis by (simp add: readLevel_def)
qed

lemma readBytes_write [simp]:
  assumes "length p \<le> maxAlloc"
  shows "readBytes (writeBytes p @ r) = Inr (p, r)"
proof -
  have "unat (of_nat (length p) :: u64) = length p" using assms by (simp add: maxAlloc_def unat_of_nat)
  moreover from this have "(of_nat (length p) :: u64) = 0 \<longleftrightarrow> p = []" by (metis length_0_conv unat_0 unat_eq_zero)
  ultimately show ?thesis using assms by (simp add: readBytes_def writeBytes_def)
qed

lemma writeKey_bytes: "writeKey k = writeBytes (InternalKey_Encode k)"
  by (simp add: writeKey_def writeBytes_def InternalKey_Encode_def InternalKey_Size_def EncodeTrailer_def)

lemma writeString_bytes: "writeString s = writeBytes s"
  by (simp add: writeString_def writeBytes_def)

definition key_ok :: "InternalKey \<Rightarrow> bool" where
  "key_ok k \<longleftrightarrow> InternalKey_Size k \<le> maxAlloc"

lemma readBytes_key [simp]: "key_ok k \<Longrightarrow> readBytes (writeKey k @ r) = Inr (InternalKey_Encode k, r)"
  unfolding writeKey_bytes by (rule readBytes_write) (simp add: key_ok_def InternalKey_Size_def InternalKey_Encode_def)

lemma Decode_key [simp]: "DecodeInternalKey (InternalKey_Encode k) = k"
  by (simp add: InternalKey_Encode_def DecodeInternalKey_def)

text \<open>The custom fields of a file.\<close>

definition custom_of :: "FileMetadata \<Rightarrow> custom_fields" where
  "custom_of m = \<lparr>cf_markedForCompaction = fm_MarkedForCompaction m, cf_creationTime = fm_CreationTime m, cf_virtual = fm_Virtual m,
     cf_backingFileNum = (if fm_Virtual m then fb_DiskFileNum (the (fm_FileBacking m)) else 0)\<rparr>"

lemma read_custom_terminate: "read_custom cf (writeUvarint customTagTerminate @ r) = Inr (cf, r)"
  by (subst read_custom.simps) simp

lemma read_custom_virtual:
  "read_custom cf (writeUvarint customTagVirtual @ writeUvarint n @ r) = read_custom (cf\<lparr>cf_virtual := True, cf_backingFileNum := n\<rparr>) r"
  by (subst read_custom.simps) (simp add: custom_tag_defs)

lemma read_custom_marked:
  "read_custom cf (writeUvarint customTagNeedsCompaction @ writeBytes [1] @ r) = read_custom (cf\<lparr>cf_markedForCompaction := True\<rparr>) r"
  by (subst read_custom.simps) (simp add: custom_tag_defs custom_field_def maxAlloc_def)

lemma length_put_uvarint: "length (put_uvarint u) \<le> maxAlloc"
proof -
  have "unat u < 128 ^ Suc 9" using unat64 [of u] by (rule less_le_trans) simp
  from length_put_uvarint_le [OF this] show ?thesis by (simp add: maxAlloc_def)
qed

lemma read_custom_time:
  "read_custom cf (writeUvarint customTagCreationTime @ writeBytes (put_uvarint t) @ r) = read_custom (cf\<lparr>cf_creationTime := t\<rparr>) r"
  by (subst read_custom.simps) (simp add: length_put_uvarint, simp add: custom_tag_defs custom_field_def Uvarint_put)

lemma encode_custom_ok:
  assumes "has_custom m" and "fm_Virtual m \<longrightarrow> fm_FileBacking m \<noteq> None"
  shows "\<exists>bs. encode_custom m = Inr bs \<and> (\<forall>r. read_custom custom_fields0 (bs @ r) = Inr (custom_of m, r))"
proof -
  let ?t = "if fm_CreationTime m \<noteq> 0 then writeUvarint customTagCreationTime @ writeBytes (put_uvarint (fm_CreationTime m)) else []"
  let ?m = "if fm_MarkedForCompaction m then writeUvarint customTagNeedsCompaction @ writeBytes [1] else []"
  let ?v = "if fm_Virtual m then writeUvarint customTagVirtual @ writeUvarint (fb_DiskFileNum (the (fm_FileBacking m))) else []"
  have e: "encode_custom m = Inr (?t @ ?m @ ?v @ writeUvarint customTagTerminate)"
    using assms by (auto simp add: encode_custom_def)
  have "read_custom custom_fields0 ((?t @ ?m @ ?v @ writeUvarint customTagTerminate) @ r) = Inr (custom_of m, r)" for r
    by (simp add: read_custom_time read_custom_marked read_custom_virtual read_custom_terminate custom_of_def custom_fields0_def)
  with e show ?thesis by blast
qed

text \<open>The bounds of a file.\<close>

definition bounds_of :: "FileMetadata \<Rightarrow> file_bounds" where
  "bounds_of m =
     (let pt = (\<lambda>k. if fm_HasPointKeys m then InternalKey_Encode k else []); rg = (\<lambda>k. if fm_HasRangeKeys m then InternalKey_Encode k else [])
      in \<lparr>bd_smallestPointKey = pt (fm_SmallestPointKey m), bd_largestPointKey = pt (fm_LargestPointKey m),
          bd_smallestRangeKey = rg (fm_SmallestRangeKey m), bd_largestRangeKey = rg (fm_LargestRangeKey m),
          bd_parsedPointBounds = (fm_HasRangeKeys m \<and> fm_HasPointKeys m),
          bd_boundsMarker = (if fm_HasRangeKeys m then the (boundsMarker m) else 0)\<rparr>)"

definition file_ok :: "cmp \<Rightarrow> FileMetadata \<Rightarrow> bool" where
  "file_ok cmp m \<longleftrightarrow>
     bounds_inv cmp m \<and> fm_boundsSet m \<and>
     key_ok (fm_SmallestPointKey m) \<and> key_ok (fm_LargestPointKey m) \<and> key_ok (fm_SmallestRangeKey m) \<and> key_ok (fm_LargestRangeKey m) \<and>
     (fm_Virtual m \<longrightarrow> fm_FileBacking m \<noteq> None)"

lemma file_ok_types:
  assumes "file_ok cmp m"
  shows "fm_HasPointKeys m \<or> fm_HasRangeKeys m"
    and "fm_boundTypeSmallest m = boundTypePointKey \<and> fm_HasPointKeys m \<and> fm_Smallest m = fm_SmallestPointKey m \<or>
         fm_boundTypeSmallest m = boundTypeRangeKey \<and> fm_HasRangeKeys m \<and> fm_Smallest m = fm_SmallestRangeKey m"
    and "fm_boundTypeLargest m = boundTypePointKey \<and> fm_HasPointKeys m \<and> fm_Largest m = fm_LargestPointKey m \<or>
         fm_boundTypeLargest m = boundTypeRangeKey \<and> fm_HasRangeKeys m \<and> fm_Largest m = fm_LargestRangeKey m"
    and "\<not> fm_HasPointKeys m \<Longrightarrow> fm_SmallestPointKey m = InternalKey0 \<and> fm_LargestPointKey m = InternalKey0"
    and "\<not> fm_HasRangeKeys m \<Longrightarrow> fm_SmallestRangeKey m = InternalKey0 \<and> fm_LargestRangeKey m = InternalKey0"
  using assms unfolding file_ok_def bounds_inv_def end_inv_def by blast+

lemma boundsMarker_bits:
  assumes "file_ok cmp m"
  shows "\<exists>b. boundsMarker m = Some b \<and> (b AND maskContainsPointKeys > 0 \<longleftrightarrow> fm_HasPointKeys m) \<and>
     (b AND maskSmallest = maskSmallest \<longleftrightarrow> fm_boundTypeSmallest m = boundTypePointKey) \<and>
     (b AND maskLargest = maskLargest \<longleftrightarrow> fm_boundTypeLargest m = boundTypePointKey) \<and>
     (b AND maskSmallest \<noteq> 0 \<longleftrightarrow> fm_boundTypeSmallest m = boundTypePointKey) \<and>
     (b AND maskLargest \<noteq> 0 \<longleftrightarrow> fm_boundTypeLargest m = boundTypePointKey)"
proof -
  have t: "fm_boundTypeSmallest m = boundTypePointKey \<or> fm_boundTypeSmallest m = boundTypeRangeKey"
    "fm_boundTypeLargest m = boundTypePointKey \<or> fm_boundTypeLargest m = boundTypeRangeKey"
    using file_ok_types(2,3) [OF assms] by blast+
  show ?thesis
    using t by (elim disjE; cases "fm_HasPointKeys m")
      (simp_all add: boundsMarker_def Let_def maskContainsPointKeys_def maskSmallest_def maskLargest_def push_bit_eq_mult)
qed

lemma encode_bounds_ok:
  assumes "file_ok cmp m"
  shows "\<exists>bs. encode_bounds m = Inr bs \<and> (\<forall>r. read_bounds (new_file_tag m) (bs @ r) = Inr (bounds_of m, r))"
proof -
  note keys = assms [unfolded file_ok_def]
  have tag: "new_file_tag m = tagNewFile5 \<longleftrightarrow> fm_HasRangeKeys m" by (simp add: new_file_tag_def tag_defs)
  show ?thesis
  proof (cases "fm_HasRangeKeys m")
    case False
    then show ?thesis
      using keys file_ok_types(1) [OF assms] by (simp add: encode_bounds_def read_bounds_def tag bounds_of_def file_bounds0_def Let_def)
  next
    case True
    obtain b where b: "boundsMarker m = Some b" "b AND maskContainsPointKeys > 0 \<longleftrightarrow> fm_HasPointKeys m"
      "b AND maskSmallest \<noteq> 0 \<longleftrightarrow> fm_boundTypeSmallest m = boundTypePointKey"
      "b AND maskLargest \<noteq> 0 \<longleftrightarrow> fm_boundTypeLargest m = boundTypePointKey"
      using boundsMarker_bits [OF assms] by blast
    show ?thesis
    proof (cases "fm_HasPointKeys m")
      case pt: True
      then show ?thesis
        using True keys b by (simp add: encode_bounds_def read_bounds_def tag bounds_of_def file_bounds0_def Let_def ReadByte_def)
    next
      case pt: False
      then have "\<not> b AND maskSmallest \<noteq> 0" "\<not> b AND maskLargest \<noteq> 0" "\<not> b AND maskContainsPointKeys > 0"
        using b file_ok_types(2,3) [OF assms] by auto
      then show ?thesis
        using True pt keys b(1) by (simp add: encode_bounds_def read_bounds_def tag bounds_of_def file_bounds0_def Let_def ReadByte_def)
    qed
  qed
qed

text \<open>What is left of the metadata of a file after its edit was read back.\<close>

definition replayed_meta :: "FileMetadata \<Rightarrow> FileMetadata" where
  "replayed_meta m = FileMetadata0\<lparr>
     fm_FileBacking := (if fm_Virtual m then None else Some (FileBacking0\<lparr>fb_Size := fm_Size m, fb_DiskFileNum := fm_FileNum m\<rparr>)),
     fm_FileNum := fm_FileNum m, fm_Size := fm_Size m, fm_CreationTime := fm_CreationTime m,
     fm_SmallestSeqNum := fm_SmallestSeqNum m, fm_LargestSeqNum := fm_LargestSeqNum m,
     fm_SmallestPointKey := fm_SmallestPointKey m, fm_LargestPointKey := fm_LargestPointKey m,
     fm_SmallestRangeKey := fm_SmallestRangeKey m, fm_LargestRangeKey := fm_LargestRangeKey m,
     fm_Smallest := fm_Smallest m, fm_Largest := fm_Largest m,
     fm_MarkedForCompaction := fm_MarkedForCompaction m, fm_HasPointKeys := fm_HasPointKeys m,
     fm_HasRangeKeys := fm_HasRangeKeys m, fm_boundsSet := True,
     fm_boundTypeSmallest := fm_boundTypeSmallest m, fm_boundTypeLargest := fm_boundTypeLargest m, fm_Virtual := fm_Virtual m\<rparr>"

lemma decode_meta_replayed:
  assumes "file_ok cmp m"
  shows "decode_meta (new_file_tag m) (fm_FileNum m) (fm_Size m) (bounds_of m) (fm_SmallestSeqNum m) (fm_LargestSeqNum m) (custom_of m)
    = replayed_meta m"
proof -
  have tag: "new_file_tag m = tagNewFile5 \<longleftrightarrow> fm_HasRangeKeys m" by (simp add: new_file_tag_def tag_defs)
  note types = file_ok_types [OF assms]
  note defs = decode_meta_def bounds_of_def custom_of_def replayed_meta_def InitPhysicalBacking_def FileMetadata0_def Let_def
  show ?thesis
  proof (cases "fm_HasRangeKeys m")
    case False
    then have "fm_HasPointKeys m" "fm_boundTypeSmallest m = boundTypePointKey" "fm_boundTypeLargest m = boundTypePointKey"
      "fm_Smallest m = fm_SmallestPointKey m" "fm_Largest m = fm_LargestPointKey m"
      "fm_SmallestRangeKey m = InternalKey0" "fm_LargestRangeKey m = InternalKey0"
      using types by auto
    with False show ?thesis unfolding defs by (cases "fm_Virtual m") (simp_all add: tag)
  next
    case True
    obtain b where b: "boundsMarker m = Some b" "b AND maskSmallest = maskSmallest \<longleftrightarrow> fm_boundTypeSmallest m = boundTypePointKey"
      "b AND maskLargest = maskLargest \<longleftrightarrow> fm_boundTypeLargest m = boundTypePointKey"
      using boundsMarker_bits [OF assms] by blast
    have keys: "\<not> fm_HasPointKeys m \<Longrightarrow> fm_SmallestPointKey m = InternalKey0" "\<not> fm_HasPointKeys m \<Longrightarrow> fm_LargestPointKey m = InternalKey0"
      using types(4) by auto
    have s: "fm_boundTypeSmallest m = boundTypePointKey \<and> fm_Smallest m = fm_SmallestPointKey m \<and> fm_HasPointKeys m \<or>
        fm_boundTypeSmallest m = boundTypeRangeKey \<and> fm_Smallest m = fm_SmallestRangeKey m" using types(2) by blast
    have l: "fm_boundTypeLargest m = boundTypePointKey \<and> fm_Largest m = fm_LargestPointKey m \<and> fm_HasPointKeys m \<or>
        fm_boundTypeLargest m = boundTypeRangeKey \<and> fm_Largest m = fm_LargestRangeKey m" using types(3) by blast
    show ?thesis
      unfolding defs
      using s l by (elim disjE conjE; cases "fm_Virtual m"; cases "fm_HasPointKeys m") (simp_all add: tag True b keys)
  qed
qed

definition replayed_file :: "NewFileEntry \<Rightarrow> NewFileEntry" where
  "replayed_file x = \<lparr>nf_Level = nf_Level x, nf_Meta = replayed_meta (nf_Meta x), nf_BackingFileNum = cf_backingFileNum (custom_of (nf_Meta x))\<rparr>"

definition entry_ok :: "cmp \<Rightarrow> NewFileEntry \<Rightarrow> bool" where
  "entry_ok cmp x \<longleftrightarrow> nf_Level x < NumLevels \<and> file_ok cmp (nf_Meta x)"

lemma custom_of_none: "\<not> has_custom m \<Longrightarrow> custom_of m = custom_fields0"
  by (simp add: has_custom_def custom_of_def custom_fields0_def)

lemma new_file_tag_cases: "new_file_tag m \<noteq> tagNewFile3" "new_file_tag m \<noteq> tagNewFile"
  "fm_HasRangeKeys m \<Longrightarrow> new_file_tag m = tagNewFile5"
  "new_file_tag m = tagNewFile4 \<or> new_file_tag m = tagNewFile5 \<longleftrightarrow> fm_HasRangeKeys m \<or> has_custom m"
  by (simp_all add: new_file_tag_def tag_defs)

text \<open>The entry that is decoded for a file when its custom fields are read as \<open>cf\<close>.\<close>

definition file_with :: "NewFileEntry \<Rightarrow> custom_fields \<Rightarrow> NewFileEntry" where
  "file_with x cf =
     (let m = nf_Meta x
      in \<lparr>nf_Level = nf_Level x,
          nf_Meta = decode_meta (new_file_tag m) (fm_FileNum m) (fm_Size m) (bounds_of m) (fm_SmallestSeqNum m) (fm_LargestSeqNum m) cf,
          nf_BackingFileNum = (if cf_virtual cf then cf_backingFileNum cf else 0)\<rparr>)"

lemma file_with_custom: "file_ok cmp (nf_Meta x) \<Longrightarrow> file_with x (custom_of (nf_Meta x)) = replayed_file x"
  by (simp add: file_with_def replayed_file_def Let_def decode_meta_replayed) (simp add: custom_of_def)

text \<open>
  A file is read back up to its custom fields; after those, too, unless it has range keys and no custom
  field, when the terminating tag is missing.
\<close>

lemma encode_new_file_ok:
  assumes "entry_ok cmp x" and "encode_custom (nf_Meta x) = Inr cs"
  shows "\<exists>bs. encode_new_file x = Inr (writeUvarint (new_file_tag (nf_Meta x)) @ bs @ cs) \<and>
    (\<forall>r. decode_new_file (new_file_tag (nf_Meta x)) (bs @ r) =
           rbind (if fm_HasRangeKeys (nf_Meta x) \<or> has_custom (nf_Meta x) then read_custom custom_fields0 r else Inr (custom_fields0, r))
             (\<lambda>(cf, d). Inr (file_with x cf, d)))"
proof -
  let ?m = "nf_Meta x"
  have ok: "file_ok cmp ?m" and level: "nf_Level x < NumLevels" using assms by (simp_all add: entry_ok_def)
  obtain bb where bb: "encode_bounds ?m = Inr bb" "\<And>r. read_bounds (new_file_tag ?m) (bb @ r) = Inr (bounds_of ?m, r)"
    using encode_bounds_ok [OF ok] by blast
  let ?bs = "writeUvarint (of_nat (nf_Level x)) @ writeUvarint (fm_FileNum ?m) @ writeUvarint (fm_Size ?m) @ bb @
     writeUvarint (fm_SmallestSeqNum ?m) @ writeUvarint (fm_LargestSeqNum ?m)"
  have "encode_new_file x = Inr (writeUvarint (new_file_tag ?m) @ ?bs @ cs)"
    by (simp add: encode_new_file_def Let_def bb assms(2))
  moreover have "decode_new_file (new_file_tag ?m) (?bs @ r) =
     rbind (if fm_HasRangeKeys ?m \<or> has_custom ?m then read_custom custom_fields0 r else Inr (custom_fields0, r))
       (\<lambda>(cf, d). Inr (file_with x cf, d))" for r
    unfolding decode_new_file_def file_with_def Let_def
    using level by (simp only: append_assoc readLevel_write readFileNum_write readUvarint_write rbind_simps prod.case bb new_file_tag_cases if_False if_True simp_thms)
  ultimately show ?thesis by blast
qed

lemma encode_custom_total: "file_ok cmp m \<Longrightarrow> \<exists>cs. encode_custom m = Inr cs"
  using encode_custom_ok [of m] by (cases "has_custom m") (auto simp add: file_ok_def encode_custom_def)

lemma encode_new_file_roundtrip:
  assumes "entry_ok cmp x" and "fm_HasRangeKeys (nf_Meta x) \<longrightarrow> has_custom (nf_Meta x)"
  shows "\<exists>bs. encode_new_file x = Inr (writeUvarint (new_file_tag (nf_Meta x)) @ bs) \<and>
    (\<forall>r. decode_new_file (new_file_tag (nf_Meta x)) (bs @ r) = Inr (replayed_file x, r))"
proof -
  let ?m = "nf_Meta x"
  have ok: "file_ok cmp ?m" using assms by (simp add: entry_ok_def)
  then obtain cs where cs: "encode_custom ?m = Inr cs" using encode_custom_total by blast
  obtain bs where e: "encode_new_file x = Inr (writeUvarint (new_file_tag ?m) @ bs @ cs)"
    and d: "\<And>r. decode_new_file (new_file_tag ?m) (bs @ r) =
           rbind (if fm_HasRangeKeys ?m \<or> has_custom ?m then read_custom custom_fields0 r else Inr (custom_fields0, r))
             (\<lambda>(cf, d). Inr (file_with x cf, d))"
    using encode_new_file_ok [OF assms(1) cs] by blast
  have "decode_new_file (new_file_tag ?m) (bs @ cs @ r) = Inr (replayed_file x, r)" for r
  proof (cases "has_custom ?m")
    case True
    then have "read_custom custom_fields0 (cs @ r) = Inr (custom_of ?m, r)"
      using encode_custom_ok [OF True] cs ok by (auto simp add: file_ok_def)
    then show ?thesis by (simp add: d True file_with_custom [OF ok])
  next
    case False
    then have "cs = []" "\<not> fm_HasRangeKeys ?m" "custom_of ?m = custom_fields0"
      using cs assms(2) by (auto simp add: encode_custom_def custom_of_none)
    then show ?thesis using file_with_custom [OF ok] by (simp add: d False)
  qed
  with e show ?thesis by auto
qed

lemma Decode_step: "Decode_loop v (writeUvarint tag @ d) = rbind (decode_tag tag d v) (\<lambda>(v, d). Decode_loop v d)"
  by (subst Decode_loop.simps) (simp add: writeUvarint_def)

lemma decode_new_file_tag:
  "decode_tag (new_file_tag m) d v = rbind (decode_new_file (new_file_tag m) d) (\<lambda>(nfe, d). Inr (v\<lparr>ve_NewFiles := ve_NewFiles v @ [nfe]\<rparr>, d))"
  by (simp add: decode_tag_def new_file_tag_def tag_defs)

lemma decode_new_files:
  assumes "\<forall>x \<in> set xs. entry_ok cmp x \<and> (fm_HasRangeKeys (nf_Meta x) \<longrightarrow> has_custom (nf_Meta x))"
  shows "\<exists>bs. encode_new_files xs = Inr bs \<and>
     (\<forall>v. Decode_loop v bs = Inr (v\<lparr>ve_NewFiles := ve_NewFiles v @ map replayed_file xs\<rparr>))"
  using assms
proof (induction xs)
  case Nil
  then show ?case by (simp add: Decode_loop.simps read_uvarint_def uvarint_loop.simps)
next
  case (Cons x xs)
  then obtain bs where bs: "encode_new_files xs = Inr bs" "\<And>v. Decode_loop v bs = Inr (v\<lparr>ve_NewFiles := ve_NewFiles v @ map replayed_file xs\<rparr>)"
    by auto
  obtain b where b: "encode_new_file x = Inr (writeUvarint (new_file_tag (nf_Meta x)) @ b)"
    and d: "\<And>r. decode_new_file (new_file_tag (nf_Meta x)) (b @ r) = Inr (replayed_file x, r)"
    using encode_new_file_roundtrip [of cmp x] Cons.prems by (meson list.set_intros(1))
  show ?case by (simp add: b bs Decode_step decode_new_file_tag d)
qed

lemma decode_tag_simps:
  "decode_tag tagComparator d v = rbind (readBytes d) (\<lambda>(s, d). Inr (v\<lparr>ve_ComparerName := s\<rparr>, d))"
  "decode_tag tagLogNumber d v = rbind (readFileNum d) (\<lambda>(n, d). Inr (v\<lparr>ve_MinUnflushedLogNum := n\<rparr>, d))"
  "decode_tag tagNextFileNumber d v = rbind (readFileNum d) (\<lambda>(n, d). Inr (v\<lparr>ve_NextFileNum := n\<rparr>, d))"
  "decode_tag tagLastSequence d v = rbind (readUvarint d) (\<lambda>(n, d). Inr (v\<lparr>ve_LastSeqNum := n\<rparr>, d))"
  "decode_tag tagPrevLogNumber d v = rbind (readUvarint d) (\<lambda>(n, d). Inr (v\<lparr>ve_ObsoletePrevLogNum := n\<rparr>, d))"
  "decode_tag tagRemovedBackingTable d v =
     rbind (readUvarint d) (\<lambda>(n, d). Inr (v\<lparr>ve_RemovedBackingTables := ve_RemovedBackingTables v @ [n]\<rparr>, d))"
  "decode_tag tagCreatedBackingTable d v = rbind (readUvarint d) (\<lambda>(dfn, d). rbind (readUvarint d) (\<lambda>(sz, d).
     Inr (v\<lparr>ve_CreatedBackingTables := ve_CreatedBackingTables v @ [FileBacking0\<lparr>fb_DiskFileNum := dfn, fb_Size := sz\<rparr>]\<rparr>, d)))"
  "decode_tag tagDeletedFile d v = rbind (readLevel d) (\<lambda>(level, d). rbind (readFileNum d) (\<lambda>(fileNum, d).
     Inr (v\<lparr>ve_DeletedFiles := AList.update (level, fileNum) None (ve_DeletedFiles v)\<rparr>, d)))"
  by (simp_all add: decode_tag_def tag_defs)

lemma decode_removed:
  "Decode_loop v (concat (map (\<lambda>dfn. writeUvarint tagRemovedBackingTable @ writeUvarint dfn) ns) @ r) =
     Decode_loop (v\<lparr>ve_RemovedBackingTables := ve_RemovedBackingTables v @ ns\<rparr>) r"
  by (induction ns arbitrary: v) (simp_all add: Decode_step decode_tag_simps)

definition replayed_backing :: "FileBacking \<Rightarrow> FileBacking" where
  "replayed_backing fb = FileBacking0\<lparr>fb_DiskFileNum := fb_DiskFileNum fb, fb_Size := fb_Size fb\<rparr>"

lemma decode_created:
  "Decode_loop v (concat (map (\<lambda>fb. writeUvarint tagCreatedBackingTable @ writeUvarint (fb_DiskFileNum fb) @ writeUvarint (fb_Size fb)) fbs) @ r) =
     Decode_loop (v\<lparr>ve_CreatedBackingTables := ve_CreatedBackingTables v @ map replayed_backing fbs\<rparr>) r"
  by (induction fbs arbitrary: v) (simp_all add: Decode_step decode_tag_simps replayed_backing_def)

lemma update_fresh: "k \<notin> fst ` set xs \<Longrightarrow> AList.update k v xs = xs @ [(k, v)]"
  by (induction xs) auto

lemma decode_deleted:
  assumes "\<forall>((level, f), m) \<in> set ds. level < NumLevels" and "distinct (map fst (ve_DeletedFiles v) @ map fst ds)"
  shows "Decode_loop v (concat (map (\<lambda>((level, fileNum), _). writeUvarint tagDeletedFile @ writeUvarint (of_nat level) @ writeUvarint fileNum) ds) @ r) =
     Decode_loop (v\<lparr>ve_DeletedFiles := ve_DeletedFiles v @ map (\<lambda>(k, _). (k, None)) ds\<rparr>) r"
  using assms
proof (induction ds arbitrary: v)
  case (Cons d ds)
  obtain level f m where d: "d = ((level, f), m)" by (metis surj_pair)
  have fresh: "(level, f) \<notin> fst ` set (ve_DeletedFiles v)" and level: "level < NumLevels" using Cons.prems by (auto simp add: d)
  let ?v = "v\<lparr>ve_DeletedFiles := ve_DeletedFiles v @ [((level, f), None)]\<rparr>"
  have "Decode_loop ?v (concat (map (\<lambda>((level, fileNum), _). writeUvarint tagDeletedFile @ writeUvarint (of_nat level) @ writeUvarint fileNum) ds) @ r) =
     Decode_loop (?v\<lparr>ve_DeletedFiles := ve_DeletedFiles ?v @ map (\<lambda>(k, _). (k, None)) ds\<rparr>) r"
    by (rule Cons.IH) (use Cons.prems in \<open>auto simp add: d\<close>)
  then show ?case using level by (simp add: d Decode_step decode_tag_simps update_fresh [OF fresh])
qed simp

lemma decode_optional:
  "ve_ComparerName w = [] \<Longrightarrow> length s \<le> maxAlloc \<Longrightarrow>
     Decode_loop w ((if s \<noteq> [] then writeUvarint tagComparator @ writeString s else []) @ r) = Decode_loop (w\<lparr>ve_ComparerName := s\<rparr>) r"
  "ve_MinUnflushedLogNum w = 0 \<Longrightarrow> Decode_loop w ((if n \<noteq> 0 then writeUvarint tagLogNumber @ writeUvarint n else []) @ r) = Decode_loop (w\<lparr>ve_MinUnflushedLogNum := n\<rparr>) r"
  "ve_ObsoletePrevLogNum w = 0 \<Longrightarrow> Decode_loop w ((if n \<noteq> 0 then writeUvarint tagPrevLogNumber @ writeUvarint n else []) @ r) = Decode_loop (w\<lparr>ve_ObsoletePrevLogNum := n\<rparr>) r"
  "ve_NextFileNum w = 0 \<Longrightarrow> Decode_loop w ((if n \<noteq> 0 then writeUvarint tagNextFileNumber @ writeUvarint n else []) @ r) = Decode_loop (w\<lparr>ve_NextFileNum := n\<rparr>) r"
  "ve_LastSeqNum w = 0 \<Longrightarrow>
     Decode_loop w ((if n = 0 \<longrightarrow> c then writeUvarint tagLastSequence @ writeUvarint n else []) @ r) = Decode_loop (w\<lparr>ve_LastSeqNum := n\<rparr>) r"
  by (cases w; simp add: Decode_step decode_tag_simps writeString_bytes)+

text \<open>An edit as it is read back from the MANIFEST.\<close>

definition replayed :: "VersionEdit \<Rightarrow> VersionEdit" where
  "replayed v = v\<lparr>ve_DeletedFiles := map (\<lambda>(k, _). (k, None)) (ve_DeletedFiles v), ve_NewFiles := map replayed_file (ve_NewFiles v),
     ve_CreatedBackingTables := map replayed_backing (ve_CreatedBackingTables v)\<rparr>"

text \<open>
  Edits as the store makes them: names and keys small enough to be allocated, levels in range, no file
  deleted twice from a level, and files with consistent bounds.
\<close>

definition edit_ok :: "cmp \<Rightarrow> VersionEdit \<Rightarrow> bool" where
  "edit_ok cmp v \<longleftrightarrow>
     length (ve_ComparerName v) \<le> maxAlloc \<and> (\<forall>((level, f), m) \<in> set (ve_DeletedFiles v). level < NumLevels) \<and>
     distinct (map fst (ve_DeletedFiles v)) \<and> (\<forall>x \<in> set (ve_NewFiles v). entry_ok cmp x)"

text \<open>Everything before the new files is read back.\<close>

lemma Decode_Encode_prefix:
  assumes "edit_ok cmp v" and nb: "encode_new_files (ve_NewFiles v) = Inr nb"
  shows "\<exists>bs. Encode v = Inr bs \<and> Decode bs = Decode_loop ((replayed v)\<lparr>ve_NewFiles := []\<rparr>) nb"
proof -
  have name: "length (ve_ComparerName v) \<le> maxAlloc" using assms(1) by (simp add: edit_ok_def)
  have del: "Decode_loop w (concat (map (\<lambda>((level, fileNum), _). writeUvarint tagDeletedFile @ writeUvarint (of_nat level) @ writeUvarint fileNum) (ve_DeletedFiles v)) @ r) =
     Decode_loop (w\<lparr>ve_DeletedFiles := map (\<lambda>(k, _). (k, None)) (ve_DeletedFiles v)\<rparr>) r" if "ve_DeletedFiles w = []" for w r
    using decode_deleted [of "ve_DeletedFiles v" w r] assms(1) that by (simp add: edit_ok_def)
  let ?w = "\<lparr>ve_ComparerName = ve_ComparerName v, ve_MinUnflushedLogNum = ve_MinUnflushedLogNum v,
     ve_ObsoletePrevLogNum = ve_ObsoletePrevLogNum v, ve_NextFileNum = ve_NextFileNum v, ve_LastSeqNum = ve_LastSeqNum v,
     ve_DeletedFiles = map (\<lambda>(k, _). (k, None)) (ve_DeletedFiles v), ve_NewFiles = [],
     ve_CreatedBackingTables = map replayed_backing (ve_CreatedBackingTables v), ve_RemovedBackingTables = ve_RemovedBackingTables v\<rparr>"
  have "?w = (replayed v)\<lparr>ve_NewFiles := []\<rparr>" by (simp add: replayed_def)
  moreover have "\<exists>bs. Encode v = Inr bs \<and> Decode bs = Decode_loop ?w nb"
    unfolding Encode_def nb Decode_def rbind_simps
    by (simp add: decode_optional decode_removed decode_created name del VersionEdit0_def split del: if_split)
  ultimately show ?thesis by simp
qed

text \<open>
  C20. A version edit that is written to the MANIFEST is read back: every field that is meant to persist
  survives. The edit is one the store makes (\<open>edit_ok\<close>), and each of its new files with range keys has a custom
  field, that is, a creation time, a mark for compaction or a virtual backing; a later theorem shows what becomes of
  the others.
\<close>

theorem version_edit_roundtrip:
  assumes "edit_ok cmp v"
    and "\<forall>x \<in> set (ve_NewFiles v). fm_HasRangeKeys (nf_Meta x) \<longrightarrow> has_custom (nf_Meta x)"
  shows "\<exists>bs. Encode v = Inr bs \<and> Decode bs = Inr (replayed v)"
proof -
  obtain nb where nb: "encode_new_files (ve_NewFiles v) = Inr nb"
    and nd: "\<And>w. Decode_loop w nb = Inr (w\<lparr>ve_NewFiles := ve_NewFiles w @ map replayed_file (ve_NewFiles v)\<rparr>)"
    using decode_new_files [of "ve_NewFiles v" cmp] assms by (auto simp add: edit_ok_def)
  have "(replayed v)\<lparr>ve_NewFiles := map replayed_file (ve_NewFiles v)\<rparr> = replayed v" by (simp add: replayed_def)
  then show ?thesis using Decode_Encode_prefix [OF assms(1) nb] by (simp add: nd)
qed

definition sample_edit :: "u64 \<Rightarrow> VersionEdit" where
  "sample_edit creationTime =
     VersionEdit0\<lparr>ve_ComparerName := [99], ve_NextFileNum := 9, ve_DeletedFiles := [((1, 4), Some FileMetadata0)],
       ve_NewFiles := [\<lparr>nf_Level = 2,
          nf_Meta = ExtendRangeKeyBounds bytes_compare (MakeInternalKey [97] 7 21) (MakeExclusiveSentinelKey 21 [98])
            (FileMetadata0\<lparr>fm_FileNum := 8, fm_Size := 300, fm_CreationTime := creationTime\<rparr>),
          nf_BackingFileNum = 0\<rparr>]\<rparr>"

lemma sample_edit_ok: "edit_ok bytes_compare (sample_edit t)"
proof -
  let ?m = "FileMetadata0\<lparr>fm_FileNum := 8, fm_Size := 300, fm_CreationTime := t\<rparr>"
  let ?s = "MakeInternalKey [97] 7 21" and ?l = "MakeExclusiveSentinelKey 21 [98]"
  have "bounds_inv bytes_compare ?m" by (simp add: bounds_inv_def end_inv_def FileMetadata0_def)
  moreover have "InternalCompare bytes_compare ?s ?l \<le> 0" by code_simp
  ultimately have "bounds_inv bytes_compare (ExtendRangeKeyBounds bytes_compare ?s ?l ?m)"
    by (rule dflt.ExtendRangeKeyBounds_inv)
  then show ?thesis
    by (simp add: edit_ok_def sample_edit_def VersionEdit0_def entry_ok_def file_ok_def NumLevels_def maxAlloc_def key_ok_def
        ExtendRangeKeyBounds_def extendOverallBounds_def FileMetadata0_def InternalKey_Size_def MakeInternalKey_def MakeExclusiveSentinelKey_def InternalKey0_def)
qed

theorem version_edit_roundtrip_witness:
  "edit_ok bytes_compare (sample_edit 5) \<and> (\<exists>bs. Encode (sample_edit 5) = Inr bs \<and> Decode bs = Inr (replayed (sample_edit 5)))"
proof -
  have "\<forall>x \<in> set (ve_NewFiles (sample_edit 5)). fm_HasRangeKeys (nf_Meta x) \<longrightarrow> has_custom (nf_Meta x)"
    by (simp add: sample_edit_def VersionEdit0_def has_custom_def ExtendRangeKeyBounds_def extendOverallBounds_def FileMetadata0_def)
  from version_edit_roundtrip [OF sample_edit_ok this] sample_edit_ok show ?thesis by blast
qed

text \<open>
  C22. The encoder writes the tag that ends the custom fields only if there are any, and the decoder expects it
  for every file with range keys: an edit that adds such a file without custom fields is written without an
  error and cannot be read back.
\<close>

theorem range_key_file_unreadable:
  assumes "edit_ok cmp v" and "ve_NewFiles v = [x]" and "fm_HasRangeKeys (nf_Meta x)" and "\<not> has_custom (nf_Meta x)"
  shows "\<exists>bs. Encode v = Inr bs \<and> Decode bs = Inl CorruptManifest"
proof -
  have ok: "entry_ok cmp x" using assms(1,2) by (simp add: edit_ok_def)
  have "encode_custom (nf_Meta x) = Inr []" using assms(4) by (simp add: encode_custom_def)
  then obtain bs where e: "encode_new_file x = Inr (writeUvarint (new_file_tag (nf_Meta x)) @ bs)"
    and d: "\<And>r. decode_new_file (new_file_tag (nf_Meta x)) (bs @ r) =
      rbind (read_custom custom_fields0 r) (\<lambda>(cf, d). Inr (file_with x cf, d))"
    using encode_new_file_ok [OF ok] assms(3) by fastforce
  have "read_custom custom_fields0 [] = Inl CorruptManifest"
    by (simp add: read_custom.simps readUvarint_def read_uvarint_def uvarint_loop.simps)
  then have dec: "decode_new_file (new_file_tag (nf_Meta x)) bs = Inl CorruptManifest" using d [of "[]"] by simp
  have "encode_new_files (ve_NewFiles v) = Inr (writeUvarint (new_file_tag (nf_Meta x)) @ bs)" by (simp add: assms(2) e)
  from Decode_Encode_prefix [OF assms(1) this] show ?thesis by (auto simp add: Decode_step decode_new_file_tag dec)
qed

theorem range_key_file_unreadable_witness:
  "\<exists>bs. Encode (sample_edit 0) = Inr bs \<and> Decode bs = Inl CorruptManifest"
proof (rule range_key_file_unreadable [OF sample_edit_ok])
  show "ve_NewFiles (sample_edit 0) = [hd (ve_NewFiles (sample_edit 0))]" by (simp add: sample_edit_def)
qed (simp_all add: sample_edit_def VersionEdit0_def has_custom_def ExtendRangeKeyBounds_def extendOverallBounds_def FileMetadata0_def)

end
