(* ===== verification/Batchskl.thy ===== *)
theory Batchskl
  imports InternalKey "HOL-Library.Monad_Syntax"
begin

text \<open>
  Package \<^verbatim>\<open>internal/batchskl\<close>: the skiplist that indexes the records of a batch by the
  offset at which they start in the batch's data (\<^verbatim>\<open>skl.go\<close>), and its iterator
  (\<^verbatim>\<open>iterator.go\<close>). The nodes live in one byte slice and point at each other by offset.
  Here the slice is a map from the offsets of the allocated nodes to their contents, with the
  length and the capacity of the slice beside it. A result of \<open>None\<close> is a Go panic, a read of
  memory that is not a node's, or a walk that does not end; the theorems show there is none.
\<close>

section \<open>The skiplist\<close>

definition maxHeight :: nat where "maxHeight = 20"

text \<open>\<^verbatim>\<open>unsafe.Sizeof\<close> of a node: three 4-byte offsets, 4 bytes of padding, the 8-byte
  abbreviation and 20 pairs of 4-byte links.\<close>

definition linksSize :: nat where "linksSize = 8"
definition maxNodeSize :: nat where "maxNodeSize = 184"
definition maxNodesSize :: nat where "maxNodesSize = 2 ^ 32 - 1"

datatype skl_error = ErrTooManyRecords | ErrCorruptedEntry u32

record links =
  lk_next :: u32
  lk_prev :: u32

record node =
  nd_offset :: u32
  nd_keyStart :: u32
  nd_keyEnd :: u32
  nd_abbreviatedKey :: u64
  nd_links :: "links list"   \<comment> \<open>the tower, truncated to the node's height\<close>

record Skiplist =
  sk_cmp :: "bytes \<Rightarrow> bytes \<Rightarrow> int"
  sk_abbreviatedKey :: "bytes \<Rightarrow> u64"
  sk_nodes :: "u32 \<rightharpoonup> node"
  sk_len :: nat              \<comment> \<open>\<^verbatim>\<open>len(s.nodes)\<close>\<close>
  sk_cap :: nat              \<comment> \<open>\<^verbatim>\<open>cap(s.nodes)\<close>\<close>
  sk_head :: u32
  sk_tail :: u32
  sk_height :: nat
  sk_rand :: nat             \<comment> \<open>how many numbers the generator has yielded\<close>

text \<open>
  What the skiplist takes from outside: the numbers its random generator yields, in the order they
  are drawn; the table of probabilities, computed in floating point; and what the links of a newly
  allocated node hold before they are set.
\<close>

record skl_env =
  env_rand :: "nat \<Rightarrow> u64"
  env_probabilities :: "nat \<Rightarrow> u32"
  env_links :: links

text \<open>A subslice of the storage.\<close>

definition subslice :: "bytes \<Rightarrow> u32 \<Rightarrow> u32 \<Rightarrow> bytes option" where
  "subslice st i j =
     (if i \<le> j \<and> unat j \<le> length st then Some (slice (unat i) (unat j) st) else None)"

definition skl_getNext :: "Skiplist \<Rightarrow> u32 \<Rightarrow> nat \<Rightarrow> u32 option" where
  "skl_getNext s nd h =
     do { n \<leftarrow> sk_nodes s nd;
          if h < length (nd_links n) then Some (lk_next (nd_links n ! h)) else None }"

definition skl_getPrev :: "Skiplist \<Rightarrow> u32 \<Rightarrow> nat \<Rightarrow> u32 option" where
  "skl_getPrev s nd h =
     do { n \<leftarrow> sk_nodes s nd;
          if h < length (nd_links n) then Some (lk_prev (nd_links n ! h)) else None }"

text \<open>The assignments to a link of the node at an offset.\<close>

definition set_link :: "(links \<Rightarrow> links) \<Rightarrow> u32 \<Rightarrow> nat \<Rightarrow> Skiplist \<Rightarrow> Skiplist option" where
  "set_link f nd h s =
     do { n \<leftarrow> sk_nodes s nd;
          if h < length (nd_links n)
          then Some (s\<lparr>sk_nodes := (sk_nodes s)(nd \<mapsto> n\<lparr>nd_links := (nd_links n)[h := f (nd_links n ! h)]\<rparr>)\<rparr>)
          else None }"

definition skl_alloc :: "nat \<Rightarrow> Skiplist \<Rightarrow> (skl_error + u32 \<times> Skiplist) option" where
  "skl_alloc sz s =
     (let offset = sk_len s;
          minAllocSize = offset + maxNodeSize;
          allocSize = max (sk_cap s * 2) minAllocSize;
          s1 = (if sk_cap s < minAllocSize
                then if maxNodesSize < allocSize
                     then if maxNodesSize < offset + sz then Inl ErrTooManyRecords
                          else Inr (s\<lparr>sk_cap := maxNodesSize\<rparr>)
                     else Inr (s\<lparr>sk_cap := allocSize\<rparr>)
                else Inr s);
          newSize = (of_nat offset + of_nat sz :: u32)
      in case s1 of
           Inl e \<Rightarrow> Some (Inl e)
         | Inr s2 \<Rightarrow>
             if unat newSize \<le> sk_cap s2 then Some (Inr (of_nat offset, s2\<lparr>sk_len := unat newSize\<rparr>))
             else None)"

definition skl_newNode ::
    "skl_env \<Rightarrow> nat \<Rightarrow> u32 \<Rightarrow> u32 \<Rightarrow> u32 \<Rightarrow> u64 \<Rightarrow> Skiplist \<Rightarrow> (skl_error + u32 \<times> Skiplist) option" where
  "skl_newNode env height offset keyStart keyEnd abbreviatedKey s =
     (if height < 1 \<or> maxHeight < height then None
      else let unusedSize = (maxHeight - height) * linksSize
        in do { r \<leftarrow> skl_alloc (maxNodeSize - unusedSize) s;
                Some (case r of
                  Inl e \<Rightarrow> Inl e
                | Inr (nodeOffset, s1) \<Rightarrow>
                    Inr (nodeOffset, s1\<lparr>sk_nodes := (sk_nodes s1)(nodeOffset \<mapsto>
                      \<lparr>nd_offset = offset, nd_keyStart = keyStart, nd_keyEnd = keyEnd,
                       nd_abbreviatedKey = abbreviatedKey, nd_links = replicate height (env_links env)\<rparr>)\<rparr>)) })"

text \<open>\<^verbatim>\<open>Init\<close> reuses the slice from its start and seeds the generator anew: the nodes of an
  earlier use are gone, the capacity stays.\<close>

fun link_ends :: "nat \<Rightarrow> Skiplist \<Rightarrow> Skiplist option" where
  "link_ends 0 s = Some s"
| "link_ends (Suc i) s =
     do { s1 \<leftarrow> link_ends i s;
          s2 \<leftarrow> set_link (\<lambda>l. l\<lparr>lk_next := sk_tail s1\<rparr>) (sk_head s1) i s1;
          set_link (\<lambda>l. l\<lparr>lk_prev := sk_head s2\<rparr>) (sk_tail s2) i s2 }"

definition skl_Init ::
    "skl_env \<Rightarrow> (bytes \<Rightarrow> bytes \<Rightarrow> int) \<Rightarrow> (bytes \<Rightarrow> u64) \<Rightarrow> Skiplist \<Rightarrow> Skiplist option" where
  "skl_Init env cmp abk s0 =
     (let s = \<lparr>sk_cmp = cmp, sk_abbreviatedKey = abk, sk_nodes = Map.empty, sk_len = 0,
               sk_cap = (if sk_cap s0 < 256 then 256 else sk_cap s0), sk_head = 0, sk_tail = 0,
               sk_height = 1, sk_rand = sk_rand s0\<rparr>
      in do { r1 \<leftarrow> skl_newNode env maxHeight 0 0 0 0 s;
              (case r1 of
                 Inl _ \<Rightarrow> None
               | Inr (hd0, s1) \<Rightarrow>
                   do { r2 \<leftarrow> skl_newNode env maxHeight 0 0 0 0 (s1\<lparr>sk_head := hd0\<rparr>);
                        (case r2 of
                           Inl _ \<Rightarrow> None
                         | Inr (tl0, s2) \<Rightarrow> link_ends maxHeight (s2\<lparr>sk_tail := tl0\<rparr>)) }) })"

definition NewSkiplist ::
    "skl_env \<Rightarrow> (bytes \<Rightarrow> bytes \<Rightarrow> int) \<Rightarrow> (bytes \<Rightarrow> u64) \<Rightarrow> Skiplist option" where
  "NewSkiplist env cmp abk =
     skl_Init env cmp abk
       \<lparr>sk_cmp = cmp, sk_abbreviatedKey = abk, sk_nodes = Map.empty, sk_len = 0, sk_cap = 0, sk_head = 0,
        sk_tail = 0, sk_height = 0, sk_rand = 0\<rparr>"

function height_from :: "(nat \<Rightarrow> u32) \<Rightarrow> u32 \<Rightarrow> nat \<Rightarrow> nat" where
  "height_from probabilities rnd h =
     (if h < maxHeight \<and> rnd \<le> probabilities h then height_from probabilities rnd (h + 1) else h)"
  by pat_completeness auto
termination
  by (relation "measure (\<lambda>(p, r, h). maxHeight - h)") auto

declare height_from.simps [simp del]

definition randomHeight :: "skl_env \<Rightarrow> Skiplist \<Rightarrow> nat \<times> Skiplist" where
  "randomHeight env s =
     (let rnd = ucast (env_rand env (sk_rand s))
      in (height_from (env_probabilities env) rnd 1, s\<lparr>sk_rand := sk_rand s + 1\<rparr>))"

text \<open>The walk along one level, in \<^verbatim>\<open>findSpliceForLevel\<close> and inlined in \<^verbatim>\<open>findSplice\<close>.\<close>

partial_function (option) splice_walk ::
    "Skiplist \<Rightarrow> bytes \<Rightarrow> bytes \<Rightarrow> u64 \<Rightarrow> nat \<Rightarrow> u32 \<Rightarrow> u32 \<Rightarrow> (u32 \<times> u32) option" where
  "splice_walk s st key abk level prev nxt =
     (if nxt = sk_tail s then Some (prev, nxt)
      else do { n \<leftarrow> sk_nodes s nxt;
                stop \<leftarrow> (if abk < nd_abbreviatedKey n then Some True
                        else if abk = nd_abbreviatedKey n
                        then do { k \<leftarrow> subslice st (nd_keyStart n) (nd_keyEnd n); Some (sk_cmp s key k \<le> 0) }
                        else Some False);
                if stop then Some (prev, nxt)
                else do { nxt' \<leftarrow> skl_getNext s nxt level;
                          splice_walk s st key abk level nxt nxt' } })"

definition findSpliceForLevel ::
    "Skiplist \<Rightarrow> bytes \<Rightarrow> bytes \<Rightarrow> u64 \<Rightarrow> nat \<Rightarrow> u32 \<Rightarrow> (u32 \<times> u32) option" where
  "findSpliceForLevel s st key abk level start =
     do { nxt \<leftarrow> skl_getNext s start level; splice_walk s st key abk level start nxt }"

fun findSplice_from ::
    "Skiplist \<Rightarrow> bytes \<Rightarrow> bytes \<Rightarrow> u64 \<Rightarrow> nat \<Rightarrow> u32 \<Rightarrow> (u32 \<times> u32) list \<Rightarrow> (u32 \<times> u32) list option" where
  "findSplice_from s st key abk 0 prev spl =
     do { nxt \<leftarrow> skl_getNext s prev 0;
          pn \<leftarrow> splice_walk s st key abk 0 prev nxt;
          Some (spl[0 := pn]) }"
| "findSplice_from s st key abk (Suc level) prev spl =
     do { nxt \<leftarrow> skl_getNext s prev (Suc level);
          pn \<leftarrow> splice_walk s st key abk (Suc level) prev nxt;
          findSplice_from s st key abk level (fst pn) (spl[Suc level := pn]) }"

definition findSplice ::
    "Skiplist \<Rightarrow> bytes \<Rightarrow> bytes \<Rightarrow> u64 \<Rightarrow> (u32 \<times> u32) list \<Rightarrow> (u32 \<times> u32) list option" where
  "findSplice s st key abk spl = findSplice_from s st key abk (sk_height s - 1) (sk_head s) spl"

text \<open>The splices of the fast path: at each level below the height, between the last node and the tail.\<close>

fun tail_splices :: "Skiplist \<Rightarrow> nat \<Rightarrow> (u32 \<times> u32) list \<Rightarrow> (u32 \<times> u32) list option" where
  "tail_splices s 0 spl = Some spl"
| "tail_splices s (Suc level) spl =
     do { spl1 \<leftarrow> tail_splices s level spl;
          p \<leftarrow> skl_getPrev s (sk_tail s) level;
          Some (spl1[level := (p, sk_tail s)]) }"

text \<open>The loop that raises the height of the list to that of the new node.\<close>

fun raise_height :: "nat \<Rightarrow> Skiplist \<Rightarrow> (u32 \<times> u32) list \<Rightarrow> Skiplist \<times> (u32 \<times> u32) list" where
  "raise_height 0 s spl = (s, spl)"
| "raise_height (Suc d) s spl =
     raise_height d (s\<lparr>sk_height := sk_height s + 1\<rparr>) (spl[sk_height s := (sk_head s, sk_tail s)])"

text \<open>The loop that links the new node in, from the base level up.\<close>

fun link_levels :: "u32 \<Rightarrow> (u32 \<times> u32) list \<Rightarrow> nat \<Rightarrow> Skiplist \<Rightarrow> Skiplist option" where
  "link_levels nd spl 0 s = Some s"
| "link_levels nd spl (Suc level) s =
     do { s1 \<leftarrow> link_levels nd spl level s;
          let (p, n) = spl ! level;
          s2 \<leftarrow> set_link (\<lambda>_. \<lparr>lk_next = n, lk_prev = p\<rparr>) nd level s1;
          s3 \<leftarrow> set_link (\<lambda>l. l\<lparr>lk_prev := nd\<rparr>) n level s2;
          set_link (\<lambda>l. l\<lparr>lk_next := nd\<rparr>) p level s3 }"

definition skl_append_at_end :: "Skiplist \<Rightarrow> bytes \<Rightarrow> bytes \<Rightarrow> u64 \<Rightarrow> u32 \<Rightarrow> bool option" where
  "skl_append_at_end s st key abk prev =
     (if prev = sk_head s then Some True
      else do { prevNode \<leftarrow> sk_nodes s prev;
                if nd_abbreviatedKey prevNode < abk then Some True
                else if abk = nd_abbreviatedKey prevNode
                then do { k \<leftarrow> subslice st (nd_keyStart prevNode) (nd_keyEnd prevNode);
                          Some (0 < sk_cmp s key k) }
                else Some False })"

definition skl_Add ::
    "skl_env \<Rightarrow> bytes \<Rightarrow> u32 \<Rightarrow> Skiplist \<Rightarrow> (skl_error option \<times> Skiplist) option" where
  "skl_Add env st keyOffset s =
     (if length st < unat (keyOffset + 1) then None
      else let data = drop (unat (keyOffset + 1)) st; (v, n) = Uvarint data
      in if n \<le> 0 then Some (Some (ErrCorruptedEntry keyOffset), s)
         else let data1 = drop (nat n) data
         in if length data1 < unat v then Some (Some (ErrCorruptedEntry keyOffset), s)
            else let keyStart = 1 + keyOffset + word_of_int n;
                     keyEnd = keyStart + ucast v;
                     key = take (unat v) data1;
                     abk = sk_abbreviatedKey s key;
                     spl0 = replicate maxHeight (0, 0)
            in do { prev \<leftarrow> skl_getPrev s (sk_tail s) 0;
                    fast \<leftarrow> skl_append_at_end s st key abk prev;
                    spl \<leftarrow> (if fast then tail_splices s (sk_height s) spl0
                            else findSplice s st key abk spl0);
                    let (height, s1) = randomHeight env s;
                    let (s2, spl2) = raise_height (height - sk_height s1) s1 spl;
                    r \<leftarrow> skl_newNode env height keyOffset keyStart keyEnd abk s2;
                    (case r of
                       Inl e \<Rightarrow> Some (Some e, s2)
                     | Inr (nd, s3) \<Rightarrow>
                         do { s4 \<leftarrow> link_levels nd spl2 height s3; Some (None, s4) }) })"

definition skl_getKey :: "Skiplist \<Rightarrow> bytes \<Rightarrow> u32 \<Rightarrow> InternalKey option" where
  "skl_getKey s st nd =
     do { n \<leftarrow> sk_nodes s nd;
          if length st \<le> unat (nd_offset n) then None
          else do { key \<leftarrow> subslice st (nd_keyStart n) (nd_keyEnd n);
                    Some (MakeInternalKey key (ucast (nd_offset n) OR InternalKeySeqNumBatch)
                            (st ! unat (nd_offset n))) } }"

section \<open>The iterator\<close>

text \<open>The position is the offset of a node, the head or the tail of the list.\<close>

record skl_Iterator =
  si_nd :: u32
  si_key :: InternalKey
  si_lower :: "bytes option"
  si_upper :: "bytes option"

definition skl_NewIter :: "bytes option \<Rightarrow> bytes option \<Rightarrow> skl_Iterator" where
  "skl_NewIter lower upper =
     \<lparr>si_nd = 0, si_key = \<lparr>UserKey = [], Trailer = 0\<rparr>, si_lower = lower, si_upper = upper\<rparr>"

fun seekForBaseSplice_from ::
    "Skiplist \<Rightarrow> bytes \<Rightarrow> bytes \<Rightarrow> u64 \<Rightarrow> nat \<Rightarrow> u32 \<Rightarrow> (u32 \<times> u32) option" where
  "seekForBaseSplice_from s st key abk 0 prev = findSpliceForLevel s st key abk 0 prev"
| "seekForBaseSplice_from s st key abk (Suc level) prev =
     do { pn \<leftarrow> findSpliceForLevel s st key abk (Suc level) prev;
          seekForBaseSplice_from s st key abk level (fst pn) }"

definition seekForBaseSplice :: "Skiplist \<Rightarrow> bytes \<Rightarrow> bytes \<Rightarrow> u64 \<Rightarrow> (u32 \<times> u32) option" where
  "seekForBaseSplice s st key abk = seekForBaseSplice_from s st key abk (sk_height s - 1) (sk_head s)"

text \<open>The end that \<^verbatim>\<open>SeekGE\<close>, \<^verbatim>\<open>First\<close> and \<^verbatim>\<open>Next\<close> share: the key of the node
  moved to, checked against the upper bound.\<close>

definition skl_forward ::
    "Skiplist \<Rightarrow> bytes \<Rightarrow> skl_Iterator \<Rightarrow> u32 \<Rightarrow> (InternalKey option \<times> skl_Iterator) option" where
  "skl_forward s st it nd =
     (if nd = sk_tail s then Some (None, it\<lparr>si_nd := nd\<rparr>)
      else do { nodeKey \<leftarrow> skl_getKey s st nd;
                Some (case si_upper it of
                        Some upper \<Rightarrow>
                          if sk_cmp s upper (UserKey nodeKey) \<le> 0 then (None, it\<lparr>si_nd := sk_tail s\<rparr>)
                          else (Some nodeKey, it\<lparr>si_nd := nd, si_key := nodeKey\<rparr>)
                      | None \<Rightarrow> (Some nodeKey, it\<lparr>si_nd := nd, si_key := nodeKey\<rparr>)) })"

definition skl_backward ::
    "Skiplist \<Rightarrow> bytes \<Rightarrow> skl_Iterator \<Rightarrow> u32 \<Rightarrow> (InternalKey option \<times> skl_Iterator) option" where
  "skl_backward s st it nd =
     (if nd = sk_head s then Some (None, it\<lparr>si_nd := nd\<rparr>)
      else do { nodeKey \<leftarrow> skl_getKey s st nd;
                Some (case si_lower it of
                        Some lower \<Rightarrow>
                          if 0 < sk_cmp s lower (UserKey nodeKey) then (None, it\<lparr>si_nd := sk_head s\<rparr>)
                          else (Some nodeKey, it\<lparr>si_nd := nd, si_key := nodeKey\<rparr>)
                      | None \<Rightarrow> (Some nodeKey, it\<lparr>si_nd := nd, si_key := nodeKey\<rparr>)) })"

definition skl_First :: "Skiplist \<Rightarrow> bytes \<Rightarrow> skl_Iterator \<Rightarrow> (InternalKey option \<times> skl_Iterator) option" where
  "skl_First s st it = do { nd \<leftarrow> skl_getNext s (sk_head s) 0; skl_forward s st it nd }"

definition skl_Last :: "Skiplist \<Rightarrow> bytes \<Rightarrow> skl_Iterator \<Rightarrow> (InternalKey option \<times> skl_Iterator) option" where
  "skl_Last s st it = do { nd \<leftarrow> skl_getPrev s (sk_tail s) 0; skl_backward s st it nd }"

definition skl_Next :: "Skiplist \<Rightarrow> bytes \<Rightarrow> skl_Iterator \<Rightarrow> (InternalKey option \<times> skl_Iterator) option" where
  "skl_Next s st it = do { nd \<leftarrow> skl_getNext s (si_nd it) 0; skl_forward s st it nd }"

definition skl_Prev :: "Skiplist \<Rightarrow> bytes \<Rightarrow> skl_Iterator \<Rightarrow> (InternalKey option \<times> skl_Iterator) option" where
  "skl_Prev s st it = do { nd \<leftarrow> skl_getPrev s (si_nd it) 0; skl_backward s st it nd }"

text \<open>The loop of \<^verbatim>\<open>SeekGE\<close> that tries a few \<^verbatim>\<open>Next\<close> calls: either the call is over
  with a result, or the iterator is still before the key.\<close>

fun seek_using_next ::
    "nat \<Rightarrow> Skiplist \<Rightarrow> bytes \<Rightarrow> bytes \<Rightarrow> skl_Iterator \<Rightarrow> bool \<Rightarrow>
     ((InternalKey option \<times> skl_Iterator) + skl_Iterator) option" where
  "seek_using_next numNexts s st key it lt =
     (if \<not> lt then Some (Inl (Some (si_key it), it))
      else case numNexts of
        0 \<Rightarrow> Some (Inr it)
      | Suc i \<Rightarrow>
          do { (k, it1) \<leftarrow> skl_Next s st it;
               (case k of
                  None \<Rightarrow> Some (Inl (None, it1))
                | Some ik \<Rightarrow> seek_using_next i s st key it1 (sk_cmp s (UserKey ik) key < 0)) })"

declare seek_using_next.simps [simp del]

definition skl_seek ::
    "Skiplist \<Rightarrow> bytes \<Rightarrow> bytes \<Rightarrow> skl_Iterator \<Rightarrow> (InternalKey option \<times> skl_Iterator) option" where
  "skl_seek s st key it =
     do { pn \<leftarrow> seekForBaseSplice s st key (sk_abbreviatedKey s key); skl_forward s st it (snd pn) }"

definition skl_SeekGE ::
    "Skiplist \<Rightarrow> bytes \<Rightarrow> bytes \<Rightarrow> bool \<Rightarrow> skl_Iterator \<Rightarrow> (InternalKey option \<times> skl_Iterator) option" where
  "skl_SeekGE s st key trySeekUsingNext it =
     (if trySeekUsingNext
      then if si_nd it = sk_tail s then Some (None, it)
           else do { r \<leftarrow> seek_using_next 5 s st key it (sk_cmp s (UserKey (si_key it)) key < 0);
                     (case r of Inl res \<Rightarrow> Some res | Inr it1 \<Rightarrow> skl_seek s st key it1) }
      else skl_seek s st key it)"

definition skl_SeekLT ::
    "Skiplist \<Rightarrow> bytes \<Rightarrow> bytes \<Rightarrow> skl_Iterator \<Rightarrow> (InternalKey option \<times> skl_Iterator) option" where
  "skl_SeekLT s st key it =
     do { pn \<leftarrow> seekForBaseSplice s st key (sk_abbreviatedKey s key); skl_backward s st it (fst pn) }"

definition skl_KeyInfo :: "Skiplist \<Rightarrow> skl_Iterator \<Rightarrow> (u32 \<times> u32 \<times> u32) option" where
  "skl_KeyInfo s it = do { n \<leftarrow> sk_nodes s (si_nd it); Some (nd_offset n, nd_keyStart n, nd_keyEnd n) }"

definition skl_Head :: "Skiplist \<Rightarrow> skl_Iterator \<Rightarrow> bool" where
  "skl_Head s it = (si_nd it = sk_head s)"

definition skl_Tail :: "Skiplist \<Rightarrow> skl_Iterator \<Rightarrow> bool" where
  "skl_Tail s it = (si_nd it = sk_tail s)"

definition skl_Valid :: "Skiplist \<Rightarrow> skl_Iterator \<Rightarrow> bool" where
  "skl_Valid s it = (si_nd it \<noteq> sk_head s \<and> si_nd it \<noteq> sk_tail s)"

definition skl_SetBounds :: "bytes option \<Rightarrow> bytes option \<Rightarrow> skl_Iterator \<Rightarrow> skl_Iterator" where
  "skl_SetBounds lower upper it = it\<lparr>si_lower := lower, si_upper := upper\<rparr>"

end
