(* ===== verification/BatchsklProofs.thy ===== *)
theory BatchsklProofs
  imports Batchskl "HOL-Library.Multiset"
begin

text \<open>
  The skiplist of \<^verbatim>\<open>internal/batchskl\<close> refines a sorted list of entries. Each level is a doubly
  linked chain (\<open>chain\<close>), the levels are nested and ordered by key (\<open>skl_ok\<close>), and \<^verbatim>\<open>Add\<close>
  inserts before the first key that is not smaller (\<open>skl_Add_spec\<close>), on the fast path and on the
  slow one. The locale \<open>abbreviated_order\<close> has what the skiplist relies on of the abbreviations of keys;
  it is interpreted on the default comparer. \<open>index_rep\<close> is the abstraction the batch uses.
\<close>

section \<open>Levels as doubly linked chains\<close>

text \<open>The links of a node at a level, if it has them, and everything of a skiplist but the links.\<close>

definition lnk :: "Skiplist \<Rightarrow> u32 \<Rightarrow> nat \<Rightarrow> links option" where
  "lnk s x l = do { n \<leftarrow> sk_nodes s x; if l < length (nd_links n) then Some (nd_links n ! l) else None }"

definition skl_meta :: "Skiplist \<Rightarrow> Skiplist" where
  "skl_meta s = s\<lparr>sk_nodes := \<lambda>x. map_option (\<lambda>n. n\<lparr>nd_links := []\<rparr>) (sk_nodes s x)\<rparr>"

lemma getNext_lnk: "skl_getNext s x l = map_option lk_next (lnk s x l)"
  by (cases "sk_nodes s x") (auto simp add: skl_getNext_def lnk_def)

lemma getPrev_lnk: "skl_getPrev s x l = map_option lk_prev (lnk s x l)"
  by (cases "sk_nodes s x") (auto simp add: skl_getPrev_def lnk_def)

lemma skl_metaD:
  assumes "skl_meta s' = skl_meta s"
  shows "sk_cmp s' = sk_cmp s" "sk_abbreviatedKey s' = sk_abbreviatedKey s" "sk_len s' = sk_len s" "sk_cap s' = sk_cap s"
    "sk_head s' = sk_head s" "sk_tail s' = sk_tail s" "sk_height s' = sk_height s" "sk_rand s' = sk_rand s"
    "map_option (\<lambda>n. n\<lparr>nd_links := []\<rparr>) (sk_nodes s' x) = map_option (\<lambda>n. n\<lparr>nd_links := []\<rparr>) (sk_nodes s x)"
  using arg_cong [OF assms, of sk_cmp] arg_cong [OF assms, of sk_abbreviatedKey] arg_cong [OF assms, of sk_len]
    arg_cong [OF assms, of sk_cap] arg_cong [OF assms, of sk_head] arg_cong [OF assms, of sk_tail]
    arg_cong [OF assms, of sk_height] arg_cong [OF assms, of sk_rand] arg_cong [OF assms, of "\<lambda>s. sk_nodes s x"]
  by (simp_all add: skl_meta_def)

lemma set_link_spec:
  assumes "lnk s nd h = Some lk"
  obtains s' where "set_link f nd h s = Some s'" "skl_meta s' = skl_meta s"
    "\<And>l x. lnk s' x l = (if l = h \<and> x = nd then Some (f lk) else lnk s x l)"
proof -
  obtain n where n: "sk_nodes s nd = Some n" "h < length (nd_links n)" "nd_links n ! h = lk"
    using assms by (auto simp add: lnk_def split: if_splits Option.bind_splits)
  let ?s = "s\<lparr>sk_nodes := (sk_nodes s)(nd \<mapsto> n\<lparr>nd_links := (nd_links n)[h := f lk]\<rparr>)\<rparr>"
  have "skl_meta ?s = skl_meta s" using n by (auto simp add: skl_meta_def fun_eq_iff)
  moreover have "lnk ?s x l = (if l = h \<and> x = nd then Some (f lk) else lnk s x l)" for x l
    using n by (auto simp add: lnk_def nth_list_update)
  ultimately show thesis using that [of ?s] n by (simp add: set_link_def)
qed

fun chain :: "(u32 \<Rightarrow> links option) \<Rightarrow> u32 list \<Rightarrow> bool" where
  "chain lv (x # y # zs) =
     (map_option lk_next (lv x) = Some y \<and> map_option lk_prev (lv y) = Some x \<and> chain lv (y # zs))"
| "chain lv _ = True"

text \<open>A node linked in between two others.\<close>

definition splice_in :: "u32 \<Rightarrow> u32 \<Rightarrow> u32 \<Rightarrow> (u32 \<Rightarrow> links option) \<Rightarrow> (u32 \<Rightarrow> links option)" where
  "splice_in nd p n lv =
     lv(nd \<mapsto> \<lparr>lk_next = n, lk_prev = p\<rparr>, n \<mapsto> (the (lv n))\<lparr>lk_prev := nd\<rparr>, p \<mapsto> (the (lv p))\<lparr>lk_next := nd\<rparr>)"

lemma chain_cong:
  "chain lv (x # xs) \<Longrightarrow> map_option lk_next (lv' x) = map_option lk_next (lv x) \<Longrightarrow> \<forall>y\<in>set xs. lv' y = lv y \<Longrightarrow> chain lv' (x # xs)"
  by (induction xs arbitrary: x) auto

lemma chain_ConsD: "chain lv (x # xs) \<Longrightarrow> chain lv xs"
  by (cases xs) auto

lemma chain_appendD: "chain lv (xs @ ys) \<Longrightarrow> chain lv ys"
  by (induction xs) (auto dest: chain_ConsD)

lemma chain_next: "chain lv (xs @ x # y # ys) \<Longrightarrow> map_option lk_next (lv x) = Some y \<and> map_option lk_prev (lv y) = Some x"
  by (auto dest: chain_appendD)

lemma chain_insert:
  assumes "chain lv (xs @ p # n # ys)" "distinct (xs @ p # n # ys)" "nd \<notin> set (xs @ p # n # ys)"
  shows "chain (splice_in nd p n lv) (xs @ p # nd # n # ys)"
  using assms
proof (induction xs)
  case Nil
  have "chain lv (n # ys)" using Nil.prems(1) by simp
  then have "chain (splice_in nd p n lv) (n # ys)"
    by (rule chain_cong) (use Nil.prems in \<open>auto simp add: splice_in_def\<close>)
  moreover have "splice_in nd p n lv nd = Some \<lparr>lk_next = n, lk_prev = p\<rparr>"
      "splice_in nd p n lv n = Some ((the (lv n))\<lparr>lk_prev := nd\<rparr>)"
      "splice_in nd p n lv p = Some ((the (lv p))\<lparr>lk_next := nd\<rparr>)"
    using Nil.prems by (auto simp add: splice_in_def)
  ultimately show ?case by simp
next
  case (Cons a xs)
  have "chain lv (xs @ p # n # ys)" using Cons.prems(1) by (simp add: chain_ConsD)
  then have IH: "chain (splice_in nd p n lv) (xs @ p # nd # n # ys)"
    by (rule Cons.IH) (use Cons.prems(2,3) in simp_all)
  obtain b zs where b: "xs @ p # n # ys = b # zs" "hd (xs @ p # nd # n # ys) = b" by (cases xs) auto
  have ab: "map_option lk_next (lv a) = Some b" "map_option lk_prev (lv b) = Some a"
    using Cons.prems(1) b(1) by auto
  have "b \<noteq> n" "b \<noteq> nd" "a \<noteq> n" "a \<noteq> nd" "a \<noteq> p" using Cons.prems b by (cases xs; auto)+
  then have "map_option lk_next (splice_in nd p n lv a) = Some b" "map_option lk_prev (splice_in nd p n lv b) = Some a"
    using ab by (auto simp add: splice_in_def)
  then show ?case using IH b(2) by (cases xs) auto
qed

text \<open>The loop that links a new node in at every level of its tower.\<close>

lemma link_levels_spec:
  assumes "\<forall>l<k. lnk s nd l \<noteq> None"
    and "\<forall>l<k. \<exists>p n. spl ! l = (p, n) \<and> lnk s p l \<noteq> None \<and> lnk s n l \<noteq> None \<and> p \<noteq> n \<and> nd \<noteq> p \<and> nd \<noteq> n"
  shows "\<exists>s'. link_levels nd spl k s = Some s' \<and> skl_meta s' = skl_meta s \<and>
    (\<forall>l x. lnk s' x l = (if l < k then splice_in nd (fst (spl ! l)) (snd (spl ! l)) (\<lambda>x. lnk s x l) x else lnk s x l))"
  using assms
proof (induction k)
  case (Suc k)
  obtain s1 where s1: "link_levels nd spl k s = Some s1" "skl_meta s1 = skl_meta s"
      "\<And>l x. lnk s1 x l = (if l < k then splice_in nd (fst (spl ! l)) (snd (spl ! l)) (\<lambda>x. lnk s x l) x else lnk s x l)"
    using Suc.IH Suc.prems less_SucI [of _ k] by blast
  obtain p n where pn: "spl ! k = (p, n)" "lnk s p k \<noteq> None" "lnk s n k \<noteq> None" "p \<noteq> n" "nd \<noteq> p" "nd \<noteq> n"
    using Suc.prems(2) by blast
  obtain lnd lp ln where l: "lnk s nd k = Some lnd" "lnk s p k = Some lp" "lnk s n k = Some ln"
    using pn Suc.prems(1) by (metis lessI not_None_eq)
  have a1: "lnk s1 nd k = Some lnd" using s1(3) l by simp
  obtain s2 where s2: "set_link (\<lambda>_. \<lparr>lk_next = n, lk_prev = p\<rparr>) nd k s1 = Some s2" "skl_meta s2 = skl_meta s1"
      "\<And>l x. lnk s2 x l = (if l = k \<and> x = nd then Some \<lparr>lk_next = n, lk_prev = p\<rparr> else lnk s1 x l)"
    using set_link_spec [OF a1, of "\<lambda>_. \<lparr>lk_next = n, lk_prev = p\<rparr>"] by blast
  have a2: "lnk s2 n k = Some ln" using s2(3) s1(3) l pn by simp
  obtain s3 where s3: "set_link (\<lambda>l. l\<lparr>lk_prev := nd\<rparr>) n k s2 = Some s3" "skl_meta s3 = skl_meta s2"
      "\<And>l x. lnk s3 x l = (if l = k \<and> x = n then Some (ln\<lparr>lk_prev := nd\<rparr>) else lnk s2 x l)"
    using set_link_spec [OF a2, of "\<lambda>l. l\<lparr>lk_prev := nd\<rparr>"] by blast
  have a3: "lnk s3 p k = Some lp" using s3(3) s2(3) s1(3) l pn by simp
  obtain s4 where s4: "set_link (\<lambda>l. l\<lparr>lk_next := nd\<rparr>) p k s3 = Some s4" "skl_meta s4 = skl_meta s3"
      "\<And>l x. lnk s4 x l = (if l = k \<and> x = p then Some (lp\<lparr>lk_next := nd\<rparr>) else lnk s3 x l)"
    using set_link_spec [OF a3, of "\<lambda>l. l\<lparr>lk_next := nd\<rparr>"] by blast
  have res: "link_levels nd spl (Suc k) s = Some s4" using s1(1) s2(1) s3(1) s4(1) pn(1) by simp
  have "lnk s4 x l = (if l < Suc k then splice_in nd (fst (spl ! l)) (snd (spl ! l)) (\<lambda>x. lnk s x l) x else lnk s x l)" for x l
  proof (cases "l = k")
    case True
    then show ?thesis
      using s4(3) [of x k] s3(3) [of x k] s2(3) [of x k] s1(3) [of x k] l pn by (simp add: splice_in_def)
  next
    case False
    then show ?thesis using s4(3) [of x l] s3(3) [of x l] s2(3) [of x l] s1(3) [of x l] by simp
  qed
  then show ?case using res s4(2) s3(2) s2(2) s1(2) by (intro exI [of _ s4]) simp
qed simp

section \<open>The representation\<close>

definition node_key :: "Skiplist \<Rightarrow> bytes \<Rightarrow> u32 \<Rightarrow> bytes" where
  "node_key s st nd =
     (case sk_nodes s nd of Some n \<Rightarrow> slice (unat (nd_keyStart n)) (unat (nd_keyEnd n)) st | None \<Rightarrow> [])"

definition node_off :: "Skiplist \<Rightarrow> u32 \<Rightarrow> u32" where
  "node_off s nd = (case sk_nodes s nd of Some n \<Rightarrow> nd_offset n | None \<Rightarrow> 0)"

text \<open>A node whose key lies in the storage and is abbreviated correctly.\<close>

definition node_ok :: "Skiplist \<Rightarrow> bytes \<Rightarrow> u32 \<Rightarrow> bool" where
  "node_ok s st nd \<longleftrightarrow>
     (\<exists>n. sk_nodes s nd = Some n \<and> nd_keyStart n \<le> nd_keyEnd n \<and> unat (nd_keyEnd n) \<le> length st \<and>
          nd_offset n < nd_keyStart n \<and> nd_abbreviatedKey n = sk_abbreviatedKey s (node_key s st nd))"

lemma meta_node:
  assumes "skl_meta s' = skl_meta s"
  shows "node_key s' st nd = node_key s st nd" "node_off s' nd = node_off s nd" "node_ok s' st nd = node_ok s st nd"
    "dom (sk_nodes s') = dom (sk_nodes s)"
proof -
  have m: "map_option (\<lambda>n. n\<lparr>nd_links := []\<rparr>) (sk_nodes s' nd) = map_option (\<lambda>n. n\<lparr>nd_links := []\<rparr>) (sk_nodes s nd)" for nd
    by (rule skl_metaD(9) [OF assms])
  have f: "nd_keyStart n' = nd_keyStart n \<and> nd_keyEnd n' = nd_keyEnd n \<and> nd_offset n' = nd_offset n \<and>
      nd_abbreviatedKey n' = nd_abbreviatedKey n" if "n'\<lparr>nd_links := []\<rparr> = n\<lparr>nd_links := []\<rparr>" for n n' :: node
    using arg_cong [OF that, of nd_keyStart] arg_cong [OF that, of nd_keyEnd] arg_cong [OF that, of nd_offset]
      arg_cong [OF that, of nd_abbreviatedKey] by simp
  have c: "(sk_nodes s' nd = None \<and> sk_nodes s nd = None) \<or>
      (\<exists>n n'. sk_nodes s' nd = Some n' \<and> sk_nodes s nd = Some n \<and> nd_keyStart n' = nd_keyStart n \<and>
         nd_keyEnd n' = nd_keyEnd n \<and> nd_offset n' = nd_offset n \<and> nd_abbreviatedKey n' = nd_abbreviatedKey n)" for nd
    using m [of nd] by (cases "sk_nodes s' nd"; cases "sk_nodes s nd") (auto dest: f)
  show k: "node_key s' st nd = node_key s st nd" for nd
    using c [of nd] by (auto simp add: node_key_def)
  show "node_off s' nd = node_off s nd" using c [of nd] by (auto simp add: node_off_def)
  show "dom (sk_nodes s') = dom (sk_nodes s)" using c by (force simp add: dom_def)
  show "node_ok s' st nd = node_ok s st nd"
    using c [of nd] k [of nd] skl_metaD(2) [OF assms] by (auto simp add: node_ok_def)
qed

text \<open>\<open>skl_ok cmp abk s st L\<close>: level \<open>l\<close> of the skiplist holds the nodes \<open>L l\<close>, in order of their keys.\<close>

definition skl_ok :: "(bytes \<Rightarrow> bytes \<Rightarrow> int) \<Rightarrow> (bytes \<Rightarrow> u64) \<Rightarrow> Skiplist \<Rightarrow> bytes \<Rightarrow> (nat \<Rightarrow> u32 list) \<Rightarrow> bool" where
  "skl_ok cmp abk s st L \<longleftrightarrow>
     sk_cmp s = cmp \<and> sk_abbreviatedKey s = abk \<and>
     1 \<le> sk_height s \<and> sk_height s \<le> maxHeight \<and>
     sk_head s \<noteq> sk_tail s \<and> sk_head s \<notin> set (L 0) \<and> sk_tail s \<notin> set (L 0) \<and>
     (\<forall>l<maxHeight. chain (\<lambda>x. lnk s x l) (sk_head s # L l @ [sk_tail s])) \<and>
     (\<forall>l. distinct (L l) \<and> sorted_wrt (\<lambda>a b. cmp (node_key s st a) (node_key s st b) \<le> 0) (L l) \<and> set (L (Suc l)) \<subseteq> set (L l)) \<and>
     (\<forall>l\<ge>sk_height s. L l = []) \<and>
     (\<forall>nd\<in>set (L 0). node_ok s st nd) \<and>
     (\<forall>nd\<in>dom (sk_nodes s). unat nd < sk_len s) \<and>
     sk_len s \<le> sk_cap s \<and> sk_cap s \<le> maxNodesSize"

text \<open>The nodes of a level before a key, and those from it on.\<close>

definition before :: "(bytes \<Rightarrow> bytes \<Rightarrow> int) \<Rightarrow> Skiplist \<Rightarrow> bytes \<Rightarrow> bytes \<Rightarrow> u32 list \<Rightarrow> u32 list" where
  "before cmp s st key nds = filter (\<lambda>nd. cmp (node_key s st nd) key < 0) nds"

definition from_key :: "(bytes \<Rightarrow> bytes \<Rightarrow> int) \<Rightarrow> Skiplist \<Rightarrow> bytes \<Rightarrow> bytes \<Rightarrow> u32 list \<Rightarrow> u32 list" where
  "from_key cmp s st key nds = filter (\<lambda>nd. \<not> cmp (node_key s st nd) key < 0) nds"

definition splice_at :: "(bytes \<Rightarrow> bytes \<Rightarrow> int) \<Rightarrow> Skiplist \<Rightarrow> bytes \<Rightarrow> bytes \<Rightarrow> u32 list \<Rightarrow> u32 \<times> u32" where
  "splice_at cmp s st key nds =
     (last (sk_head s # before cmp s st key nds), hd (from_key cmp s st key nds @ [sk_tail s]))"

text \<open>What the skiplist relies on of the abbreviation of keys.\<close>

locale abbreviated_order = key_order +
  fixes abk :: "bytes \<Rightarrow> u64"
  assumes abk_mono: "cmp a b \<le> 0 \<Longrightarrow> abk a \<le> abk b"
begin

lemma levels_subset: "skl_ok cmp abk s st L \<Longrightarrow> k \<le> l \<Longrightarrow> set (L l) \<subseteq> set (L k)"
proof (induction l)
  case (Suc l)
  have "set (L (Suc l)) \<subseteq> set (L l)" using Suc.prems(1) by (simp add: skl_ok_def)
  then show ?case using Suc by (cases "k = Suc l") auto
qed simp

lemma level_nodes: "skl_ok cmp abk s st L \<Longrightarrow> nd \<in> set (L l) \<Longrightarrow> node_ok s st nd \<and> nd \<noteq> sk_head s \<and> nd \<noteq> sk_tail s"
  using levels_subset [of s st L 0 l] unfolding skl_ok_def by blast

lemma before_from:
  assumes "sorted_wrt (\<lambda>a b. cmp (node_key s st a) (node_key s st b) \<le> 0) nds"
  shows "nds = before cmp s st key nds @ from_key cmp s st key nds"
  using assms
proof (induction nds)
  case (Cons a nds)
  show ?case
  proof (cases "cmp (node_key s st a) key < 0")
    case False
    have "\<not> cmp (node_key s st b) key < 0" if "b \<in> set nds" for b
      using Cons.prems that False cmp_le_less_trans [of "node_key s st a" "node_key s st b" key] by auto
    then show ?thesis using False by (simp add: before_def from_key_def filter_empty_conv)
  qed (use Cons in \<open>simp add: before_def from_key_def\<close>)
qed (simp add: before_def from_key_def)

text \<open>The walk along a level ends at the splice of the key.\<close>

lemma splice_walk_spec:
  assumes "\<forall>nd\<in>set nds. node_ok s st nd \<and> nd \<noteq> sk_tail s" "sk_cmp s = cmp" "sk_abbreviatedKey s = abk"
    and "chain (\<lambda>x. lnk s x level) (prev # nds @ [sk_tail s])"
  shows "splice_walk s st key (abk key) level prev (hd (nds @ [sk_tail s])) =
    Some (last (prev # takeWhile (\<lambda>nd. cmp (node_key s st nd) key < 0) nds),
          hd (dropWhile (\<lambda>nd. cmp (node_key s st nd) key < 0) nds @ [sk_tail s]))"
  using assms
proof (induction nds arbitrary: prev)
  case Nil
  then show ?case by (simp add: splice_walk.simps)
next
  case (Cons a nds)
  obtain n where n: "sk_nodes s a = Some n" "nd_keyStart n \<le> nd_keyEnd n" "unat (nd_keyEnd n) \<le> length st"
      "nd_abbreviatedKey n = abk (node_key s st a)" and a: "a \<noteq> sk_tail s"
    using Cons.prems(1,3) by (auto simp add: node_ok_def)
  let ?k = "node_key s st a"
  have sub: "subslice st (nd_keyStart n) (nd_keyEnd n) = Some ?k"
    using n by (simp add: subslice_def node_key_def)
  have lt: "cmp key ?k \<le> 0 \<longleftrightarrow> \<not> cmp ?k key < 0" using cmp_swap [of key ?k] by linarith
  have stop: "(if abk key < abk ?k then Some True else if abk key = abk ?k then Some (cmp key ?k \<le> 0) else Some False) =
      Some (\<not> cmp ?k key < 0)"
    using abk_mono [of ?k key] abk_mono [of key ?k] lt by (auto simp add: leD)
  have nx: "skl_getNext s a level = Some (hd (nds @ [sk_tail s]))" and ch: "chain (\<lambda>x. lnk s x level) (a # nds @ [sk_tail s])"
    using Cons.prems(4) by (cases nds; simp add: getNext_lnk)+
  have IH: "splice_walk s st key (abk key) level a (hd (nds @ [sk_tail s])) =
    Some (last (a # takeWhile (\<lambda>nd. cmp (node_key s st nd) key < 0) nds),
          hd (dropWhile (\<lambda>nd. cmp (node_key s st nd) key < 0) nds @ [sk_tail s]))"
    using Cons.IH [OF _ Cons.prems(2,3) ch] Cons.prems(1) by simp
  have "splice_walk s st key (abk key) level prev a =
      (if \<not> cmp ?k key < 0 then Some (prev, a) else splice_walk s st key (abk key) level a (hd (nds @ [sk_tail s])))"
  proof -
    consider "abk key < abk ?k" | "abk key = abk ?k" | "abk ?k < abk key" by (meson linorder_cases)
    then show ?thesis
    proof cases
      case 1
      then have "\<not> cmp ?k key < 0" using stop by simp
      then show ?thesis using 1 by (subst splice_walk.simps) (simp add: a n)
    next
      case 2
      then show ?thesis using lt by (subst splice_walk.simps) (simp add: a n sub nx Cons.prems(2))
    next
      case 3
      then have ne: "abk key \<noteq> abk ?k" "\<not> abk key < abk ?k" by auto
      then have "cmp ?k key < 0" using stop by simp
      then show ?thesis using ne by (subst splice_walk.simps) (simp add: a n nx)
    qed
  qed
  then show ?case using IH by simp
qed

text \<open>A walk may start at any node before the key.\<close>

lemma level_walk:
  assumes ok: "skl_ok cmp abk s st L" and l: "l < maxHeight"
    and prev: "prev \<in> set (sk_head s # before cmp s st key (L l))"
  shows "\<exists>nxt. skl_getNext s prev l = Some nxt \<and>
    splice_walk s st key (abk key) l prev nxt = Some (splice_at cmp s st key (L l))"
proof -
  let ?P = "\<lambda>nd. cmp (node_key s st nd) key < 0"
  let ?A = "before cmp s st key (L l)"
  let ?B = "from_key cmp s st key (L l)"
  have cs: "sk_cmp s = cmp" "sk_abbreviatedKey s = abk"
      and ch: "chain (\<lambda>x. lnk s x l) (sk_head s # L l @ [sk_tail s])"
      and so: "sorted_wrt (\<lambda>a b. cmp (node_key s st a) (node_key s st b) \<le> 0) (L l)"
    using ok l unfolding skl_ok_def by blast+
  have split: "L l = ?A @ ?B" using so by (rule before_from)
  obtain xs ys where xy: "sk_head s # ?A = xs @ prev # ys" using prev by (meson split_list)
  have "sk_head s # L l @ [sk_tail s] = xs @ prev # (ys @ ?B) @ [sk_tail s]"
    using split xy by (metis append.assoc append_Cons)
  then have ch2: "chain (\<lambda>x. lnk s x l) (prev # (ys @ ?B) @ [sk_tail s])"
    using ch chain_appendD by metis
  have sub: "set ys \<subseteq> set ?A" using xy by (cases xs) auto
  have nodes: "\<forall>nd\<in>set (ys @ ?B). node_ok s st nd \<and> nd \<noteq> sk_tail s"
    using level_nodes [OF ok, of _ l] sub by (auto simp add: before_def from_key_def)
  have ysP: "\<forall>nd\<in>set ys. ?P nd" using sub by (auto simp add: before_def)
  have BP: "\<forall>nd\<in>set ?B. \<not> ?P nd" by (auto simp add: from_key_def)
  have tw: "takeWhile ?P (ys @ ?B) = ys" "dropWhile ?P (ys @ ?B) = ?B"
    using ysP BP by (cases ?B; simp add: takeWhile_append2 dropWhile_append2)+
  have lasteq: "last (prev # ys) = last (sk_head s # ?A)" using xy by simp
  have "splice_walk s st key (abk key) l prev (hd ((ys @ ?B) @ [sk_tail s])) = Some (splice_at cmp s st key (L l))"
    using splice_walk_spec [OF nodes cs ch2, of key] by (simp only: tw lasteq splice_at_def)
  moreover have "skl_getNext s prev l = Some (hd ((ys @ ?B) @ [sk_tail s]))"
    using ch2 by (cases "ys @ ?B") (simp_all add: getNext_lnk)
  ultimately show ?thesis by blast
qed

text \<open>The splice found at a level is before the key at the level below too.\<close>

lemma splice_descends:
  assumes "skl_ok cmp abk s st L"
  shows "fst (splice_at cmp s st key (L (Suc l))) \<in> set (sk_head s # before cmp s st key (L l))"
proof -
  have "set (L (Suc l)) \<subseteq> set (L l)" using assms by (simp add: skl_ok_def)
  then have "set (before cmp s st key (L (Suc l))) \<subseteq> set (before cmp s st key (L l))"
    by (auto simp add: before_def)
  moreover have "last (sk_head s # before cmp s st key (L (Suc l))) \<in> set (sk_head s # before cmp s st key (L (Suc l)))"
    by (rule last_in_set) simp
  ultimately show ?thesis by (auto simp add: splice_at_def)
qed

lemma findSplice_from_spec:
  assumes "skl_ok cmp abk s st L" "level < maxHeight" "prev \<in> set (sk_head s # before cmp s st key (L level))"
    "length spl = maxHeight"
  shows "\<exists>spl'. findSplice_from s st key (abk key) level prev spl = Some spl' \<and> length spl' = maxHeight \<and>
    (\<forall>l\<le>level. spl' ! l = splice_at cmp s st key (L l)) \<and> (\<forall>l>level. spl' ! l = spl ! l)"
  using assms
proof (induction level arbitrary: prev spl)
  case 0
  obtain nxt where "skl_getNext s prev 0 = Some nxt"
      "splice_walk s st key (abk key) 0 prev nxt = Some (splice_at cmp s st key (L 0))"
    using level_walk [OF 0(1-3)] by blast
  then show ?case using 0 by simp
next
  case (Suc level)
  obtain nxt where nxt: "skl_getNext s prev (Suc level) = Some nxt"
      "splice_walk s st key (abk key) (Suc level) prev nxt = Some (splice_at cmp s st key (L (Suc level)))"
    using level_walk [OF Suc.prems(1-3)] by blast
  let ?spl = "spl[Suc level := splice_at cmp s st key (L (Suc level))]"
  let ?prev = "fst (splice_at cmp s st key (L (Suc level)))"
  have "\<exists>spl'. findSplice_from s st key (abk key) level ?prev ?spl = Some spl' \<and> length spl' = maxHeight \<and>
      (\<forall>l\<le>level. spl' ! l = splice_at cmp s st key (L l)) \<and> (\<forall>l>level. spl' ! l = ?spl ! l)"
    using Suc.prems by (intro Suc.IH splice_descends) simp_all
  then obtain spl' where spl': "findSplice_from s st key (abk key) level ?prev ?spl = Some spl'" "length spl' = maxHeight"
      "\<forall>l\<le>level. spl' ! l = splice_at cmp s st key (L l)" "\<forall>l>level. spl' ! l = ?spl ! l" by blast
  have "spl' ! l = splice_at cmp s st key (L l)" if "l \<le> Suc level" for l
    using that spl'(3,4) Suc.prems(2,4) by (cases "l = Suc level") auto
  moreover have "spl' ! l = spl ! l" if "Suc level < l" for l using that spl'(4) by simp
  ultimately show ?case using nxt spl'(1,2) by simp
qed

lemma seekForBaseSplice_from_spec:
  assumes "skl_ok cmp abk s st L" "level < maxHeight" "prev \<in> set (sk_head s # before cmp s st key (L level))"
  shows "seekForBaseSplice_from s st key (abk key) level prev = Some (splice_at cmp s st key (L 0))"
  using assms
proof (induction level arbitrary: prev)
  case 0
  then show ?case using level_walk [OF 0] by (auto simp add: findSpliceForLevel_def)
next
  case (Suc level)
  have "seekForBaseSplice_from s st key (abk key) level (fst (splice_at cmp s st key (L (Suc level)))) =
      Some (splice_at cmp s st key (L 0))"
    using Suc.prems by (intro Suc.IH splice_descends) simp_all
  then show ?case using level_walk [OF Suc.prems] by (auto simp add: findSpliceForLevel_def)
qed

end

section \<open>Allocation\<close>

lemma unat_of_nat32: "n \<le> maxNodesSize \<Longrightarrow> unat (of_nat n :: u32) = n"
  by (simp add: maxNodesSize_def unsigned_of_nat take_bit_nat_eq_self)

definition node_size :: "nat \<Rightarrow> nat" where
  "node_size h = maxNodeSize - (maxHeight - h) * linksSize"

lemma node_size_bounds: "node_size h \<le> 184" "0 < node_size h"
  by (simp_all add: node_size_def maxNodeSize_def maxHeight_def linksSize_def)

text \<open>The allocator never wraps its 32-bit size and never slices past the capacity: it hands out the
  old end of the nodes, or reports that there are too many.\<close>

lemma skl_alloc_spec:
  assumes "sk_len s \<le> sk_cap s" "sk_cap s \<le> maxNodesSize" "0 < sz" "sz \<le> maxNodeSize"
  shows "(maxNodesSize < sk_len s + sz \<and> skl_alloc sz s = Some (Inl ErrTooManyRecords)) \<or>
    (\<exists>c. sk_len s + sz \<le> c \<and> c \<le> maxNodesSize \<and> sk_cap s \<le> c \<and>
       skl_alloc sz s = Some (Inr (of_nat (sk_len s), s\<lparr>sk_len := sk_len s + sz, sk_cap := c\<rparr>)))"
proof -
  have nw: "unat (of_nat (sk_len s) + of_nat sz :: u32) = sk_len s + sz" if "sk_len s + sz \<le> maxNodesSize"
    using unat_of_nat32 [OF that] by simp
  consider (fits) "sk_len s + maxNodeSize \<le> sk_cap s"
    | (grow) "sk_cap s < sk_len s + maxNodeSize" "max (sk_cap s * 2) (sk_len s + maxNodeSize) \<le> maxNodesSize"
    | (capped) "sk_cap s < sk_len s + maxNodeSize" "maxNodesSize < max (sk_cap s * 2) (sk_len s + maxNodeSize)"
    by linarith
  then show ?thesis
  proof cases
    case fits
    then have "sk_len s + sz \<le> maxNodesSize" "sk_len s + sz \<le> sk_cap s" using assms by linarith+
    then show ?thesis using fits nw by (intro disjI2 exI [of _ "sk_cap s"]) (simp add: skl_alloc_def Let_def assms)
  next
    case grow
    define c where "c = max (sk_cap s * 2) (sk_len s + maxNodeSize)"
    have c: "\<not> maxNodesSize < c" "sk_len s + sz \<le> c" "sk_cap s \<le> c"
      using assms grow by (auto simp add: c_def)
    then show ?thesis using grow(1) nw
      by (intro disjI2 exI [of _ c]) (simp add: skl_alloc_def Let_def c_def [symmetric])
  next
    case capped
    then show ?thesis
    proof (cases "maxNodesSize < sk_len s + sz")
      case True
      then show ?thesis using capped by (simp add: skl_alloc_def Let_def)
    next
      case False
      then show ?thesis using capped nw assms(2) by (intro disjI2 exI [of _ maxNodesSize]) (simp add: skl_alloc_def Let_def)
    qed
  qed
qed

lemma skl_newNode_spec:
  assumes "sk_len s \<le> sk_cap s" "sk_cap s \<le> maxNodesSize" "1 \<le> h" "h \<le> maxHeight"
    and "\<forall>nd\<in>dom (sk_nodes s). unat nd < sk_len s"
  shows "(maxNodesSize < sk_len s + node_size h \<and> skl_newNode env h off ks ke ab s = Some (Inl ErrTooManyRecords)) \<or>
    (\<exists>c nd. sk_len s + node_size h \<le> c \<and> c \<le> maxNodesSize \<and> unat nd = sk_len s \<and> nd \<notin> dom (sk_nodes s) \<and>
       skl_newNode env h off ks ke ab s =
         Some (Inr (nd, s\<lparr>sk_nodes := (sk_nodes s)(nd \<mapsto>
           \<lparr>nd_offset = off, nd_keyStart = ks, nd_keyEnd = ke, nd_abbreviatedKey = ab,
            nd_links = replicate h (env_links env)\<rparr>), sk_len := sk_len s + node_size h, sk_cap := c\<rparr>)))"
proof -
  have sz: "0 < node_size h" "node_size h \<le> maxNodeSize" using node_size_bounds [of h] by (simp_all add: maxNodeSize_def)
  have h: "\<not> (h < 1 \<or> maxHeight < h)" using assms by simp
  have len: "unat (of_nat (sk_len s) :: u32) = sk_len s" if "sk_len s + node_size h \<le> c" "c \<le> maxNodesSize" for c
    using that by (intro unat_of_nat32) simp
  from skl_alloc_spec [OF assms(1,2) sz] show ?thesis
  proof (elim disjE exE conjE)
    assume "maxNodesSize < sk_len s + node_size h" "skl_alloc (node_size h) s = Some (Inl ErrTooManyRecords)"
    then show ?thesis using h by (simp add: skl_newNode_def node_size_def Let_def)
  next
    fix c
    assume c: "sk_len s + node_size h \<le> c" "c \<le> maxNodesSize"
      and al: "skl_alloc (node_size h) s = Some (Inr (of_nat (sk_len s), s\<lparr>sk_len := sk_len s + node_size h, sk_cap := c\<rparr>))"
    have nd: "(of_nat (sk_len s) :: u32) \<notin> dom (sk_nodes s)" using assms(5) len [OF c] by (metis less_irrefl)
    have "skl_newNode env h off ks ke ab s =
         Some (Inr (of_nat (sk_len s), s\<lparr>sk_nodes := (sk_nodes s)(of_nat (sk_len s) \<mapsto>
           \<lparr>nd_offset = off, nd_keyStart = ks, nd_keyEnd = ke, nd_abbreviatedKey = ab,
            nd_links = replicate h (env_links env)\<rparr>), sk_len := sk_len s + node_size h, sk_cap := c\<rparr>))"
      using h al by (simp add: skl_newNode_def node_size_def Let_def)
    then show ?thesis using c nd len [OF c] by blast
  qed
qed

section \<open>Insertion\<close>

context abbreviated_order
begin

lemma splice_neighbours:
  assumes ok: "skl_ok cmp abk s st L" and l: "l < maxHeight" and sp: "splice_at cmp s st key (L l) = (p, n)"
  obtains xs ys where "sk_head s # L l @ [sk_tail s] = xs @ p # n # ys"
    "sk_head s # before cmp s st key (L l) = xs @ [p]" "from_key cmp s st key (L l) @ [sk_tail s] = n # ys"
proof -
  let ?A = "before cmp s st key (L l)"
  let ?B = "from_key cmp s st key (L l)"
  have "sorted_wrt (\<lambda>a b. cmp (node_key s st a) (node_key s st b) \<le> 0) (L l)" using ok by (simp add: skl_ok_def)
  then have split: "L l = ?A @ ?B" by (rule before_from)
  have a: "sk_head s # ?A = butlast (sk_head s # ?A) @ [p]"
    using sp append_butlast_last_id [of "sk_head s # ?A"] by (simp add: splice_at_def)
  have b: "?B @ [sk_tail s] = n # tl (?B @ [sk_tail s])"
    using sp by (cases ?B) (simp_all add: splice_at_def)
  have "sk_head s # L l @ [sk_tail s] = (sk_head s # ?A) @ (?B @ [sk_tail s])" by (subst split) simp
  also have "\<dots> = butlast (sk_head s # ?A) @ p # n # tl (?B @ [sk_tail s])" by (subst a, subst b) simp
  finally show thesis using that a b by blast
qed

lemma level_distinct:
  assumes "skl_ok cmp abk s st L"
  shows "distinct (sk_head s # L l @ [sk_tail s])"
proof -
  have "distinct (L l)" "sk_head s \<noteq> sk_tail s" using assms by (simp_all add: skl_ok_def)
  then show ?thesis using level_nodes [OF assms, of _ l] by auto
qed

lemma chain_lnk:
  assumes "chain lv xs" "2 \<le> length xs" "x \<in> set xs"
  shows "lv x \<noteq> None"
  using assms
proof (induction xs rule: induct_list012)
  case (3 a b xs)
  then show ?case by (cases xs) auto
qed auto

lemma level_in_dom:
  assumes "skl_ok cmp abk s st L" "l < maxHeight" "x \<in> set (sk_head s # L l @ [sk_tail s])"
  shows "lnk s x l \<noteq> None" "x \<in> dom (sk_nodes s)"
proof -
  have "chain (\<lambda>x. lnk s x l) (sk_head s # L l @ [sk_tail s])" using assms(1,2) by (simp add: skl_ok_def)
  from chain_lnk [OF this _ assms(3)] show "lnk s x l \<noteq> None" by simp
  then show "x \<in> dom (sk_nodes s)" by (auto simp add: lnk_def split: Option.bind_splits)
qed

text \<open>The levels after a node for a key has been linked in with a tower of height \<open>h\<close>.\<close>

definition insert_levels ::
    "Skiplist \<Rightarrow> bytes \<Rightarrow> bytes \<Rightarrow> nat \<Rightarrow> u32 \<Rightarrow> (nat \<Rightarrow> u32 list) \<Rightarrow> nat \<Rightarrow> u32 list" where
  "insert_levels s st key h nd L = (\<lambda>l. if l < h then before cmp s st key (L l) @ nd # from_key cmp s st key (L l) else L l)"

lemma insert_levels_set: "set (insert_levels s st key h nd L l) = (if l < h then insert nd (set (L l)) else set (L l))"
  by (auto simp add: insert_levels_def before_def from_key_def)

lemma insert_levels_sorted:
  assumes ok: "skl_ok cmp abk s st L" and key: "\<And>x. x \<noteq> nd \<Longrightarrow> node_key s' st x = node_key s st x" "node_key s' st nd = key"
    and nd: "nd \<notin> set (L 0)"
  shows "distinct (insert_levels s st key h nd L l)"
    "sorted_wrt (\<lambda>a b. cmp (node_key s' st a) (node_key s' st b) \<le> 0) (insert_levels s st key h nd L l)"
proof -
  have L: "distinct (L l)" "sorted_wrt (\<lambda>a b. cmp (node_key s st a) (node_key s st b) \<le> 0) (L l)"
    using ok by (simp_all add: skl_ok_def)
  have ndl: "nd \<notin> set (L l)" using levels_subset [OF ok, of 0 l] nd by auto
  have keys: "x \<in> set (L l) \<Longrightarrow> node_key s' st x = node_key s st x" for x using ndl key(1) by metis
  show "distinct (insert_levels s st key h nd L l)"
    using L(1) ndl by (auto simp add: insert_levels_def before_def from_key_def)
  have so: "sorted_wrt (\<lambda>a b. cmp (node_key s' st a) (node_key s' st b) \<le> 0) (L l)"
    using L(2) by (rule sorted_wrt_mono_rel [rotated]) (simp add: keys)
  have a: "cmp (node_key s' st x) key \<le> 0" if "x \<in> set (before cmp s st key (L l))" for x
    using that keys by (auto simp add: before_def)
  have b: "cmp key (node_key s' st x) \<le> 0" if "x \<in> set (from_key cmp s st key (L l))" for x
    using that keys cmp_swap [of key "node_key s st x"] by (auto simp add: from_key_def)
  have ab: "cmp (node_key s' st x) (node_key s' st y) \<le> 0"
    if "x \<in> set (before cmp s st key (L l))" "y \<in> set (from_key cmp s st key (L l))" for x y
    using cmp_trans [OF a [OF that(1)] b [OF that(2)]] .
  show "sorted_wrt (\<lambda>a b. cmp (node_key s' st a) (node_key s' st b) \<le> 0) (insert_levels s st key h nd L l)"
    using so a b ab
    by (auto simp add: insert_levels_def sorted_wrt_append key(2) before_def from_key_def sorted_wrt_filter)
qed

text \<open>A node freshly allocated for a key and linked in at the splices of the key.\<close>

lemma insert_ok:
  assumes ok: "skl_ok cmp abk s st L" and h: "1 \<le> h" "h \<le> sk_height s"
    and s3: "s3 = s\<lparr>sk_nodes := (sk_nodes s)(nd \<mapsto> n), sk_len := len', sk_cap := c\<rparr>"
    and nd: "unat nd = sk_len s" "nd \<notin> dom (sk_nodes s)" "sk_len s < len'" "len' \<le> c" "c \<le> maxNodesSize"
    and n: "length (nd_links n) = h" "nd_keyStart n \<le> nd_keyEnd n" "unat (nd_keyEnd n) \<le> length st"
      "nd_offset n < nd_keyStart n" "slice (unat (nd_keyStart n)) (unat (nd_keyEnd n)) st = key" "nd_abbreviatedKey n = abk key"
    and spl: "\<forall>l<h. spl ! l = splice_at cmp s st key (L l)"
  shows "\<exists>s4. link_levels nd spl h s3 = Some s4 \<and> skl_ok cmp abk s4 st (insert_levels s st key h nd L) \<and>
    skl_meta s4 = skl_meta s3"
proof -
  note I = ok [unfolded skl_ok_def]
  have hm: "h \<le> maxHeight" using h I by linarith
  have lnk3: "lnk s3 x l = lnk s x l" if "x \<noteq> nd" for x l using that by (simp add: s3 lnk_def)
  have nd_level: "nd \<notin> set (sk_head s # L l @ [sk_tail s])" if "l < maxHeight" for l
    using level_in_dom(2) [OF ok that] nd(2) by blast
  have nd_lnk: "lnk s3 nd l \<noteq> None" if "l < h" for l using that n(1) by (simp add: s3 lnk_def)
  have sp: "\<exists>p n'. spl ! l = (p, n') \<and> lnk s3 p l \<noteq> None \<and> lnk s3 n' l \<noteq> None \<and> p \<noteq> n' \<and> nd \<noteq> p \<and> nd \<noteq> n'"
    if "l < h" for l
  proof -
    obtain p n' where pn: "splice_at cmp s st key (L l) = (p, n')" by (cases "splice_at cmp s st key (L l)")
    have l: "l < maxHeight" using that hm by simp
    obtain xs ys where e: "sk_head s # L l @ [sk_tail s] = xs @ p # n' # ys" using splice_neighbours [OF ok l pn] by blast
    have "p \<noteq> n'" using level_distinct [OF ok, of l] unfolding e by simp
    moreover have "p \<noteq> nd" "n' \<noteq> nd" using nd_level [OF l] unfolding e by auto
    moreover have "lnk s p l \<noteq> None" "lnk s n' l \<noteq> None" using level_in_dom(1) [OF ok l] unfolding e by auto
    ultimately show ?thesis using spl that pn lnk3 by auto
  qed
  obtain s4 where s4: "link_levels nd spl h s3 = Some s4" "skl_meta s4 = skl_meta s3"
      "\<And>l x. lnk s4 x l = (if l < h then splice_in nd (fst (spl ! l)) (snd (spl ! l)) (\<lambda>x. lnk s3 x l) x else lnk s3 x l)"
    using link_levels_spec [of h s3 nd spl] nd_lnk sp by blast
  note m = skl_metaD [OF s4(2)] meta_node [OF s4(2)]
  let ?L = "insert_levels s st key h nd L"
  have key3: "node_key s3 st x = (if x = nd then key else node_key s st x)" for x using n(5) by (simp add: s3 node_key_def)
  have key: "node_key s4 st x = node_key s st x" if "x \<noteq> nd" for x using that by (simp add: m key3)
  have keynd: "node_key s4 st nd = key" by (simp add: m key3)
  have nd0: "nd \<notin> set (L 0)" using nd_level [of 0] hm h by (simp add: maxHeight_def)
  have chain4: "chain (\<lambda>x. lnk s4 x l) (sk_head s # ?L l @ [sk_tail s])" if l: "l < maxHeight" for l
  proof (cases "l < h")
    case False
    have same: "lnk s4 x l = lnk s x l" if "x \<in> set (sk_head s # L l @ [sk_tail s])" for x
      using nd_level [OF l] that s4(3) [of x l] lnk3 [of x l] False by auto
    have "chain (\<lambda>x. lnk s x l) (sk_head s # L l @ [sk_tail s])" using I l by blast
    then have "chain (\<lambda>x. lnk s4 x l) (sk_head s # L l @ [sk_tail s])"
      by (rule chain_cong) (simp_all add: same)
    then show ?thesis using False by (simp add: insert_levels_def)
  next
    case True
    obtain p n' where pn: "splice_at cmp s st key (L l) = (p, n')" by (cases "splice_at cmp s st key (L l)")
    obtain xs ys where e: "sk_head s # L l @ [sk_tail s] = xs @ p # n' # ys"
        "sk_head s # before cmp s st key (L l) = xs @ [p]" "from_key cmp s st key (L l) @ [sk_tail s] = n' # ys"
      using splice_neighbours [OF ok l pn] by blast
    have e2: "sk_head s # ?L l @ [sk_tail s] = xs @ p # nd # n' # ys"
    proof -
      have "sk_head s # ?L l @ [sk_tail s] = (sk_head s # before cmp s st key (L l)) @ nd # (from_key cmp s st key (L l) @ [sk_tail s])"
        using True by (simp add: insert_levels_def)
      then show ?thesis unfolding e(2,3) by simp
    qed
    have "chain (\<lambda>x. lnk s x l) (xs @ p # n' # ys)" using I l e(1) by metis
    then have "chain (splice_in nd p n' (\<lambda>x. lnk s x l)) (xs @ p # nd # n' # ys)"
      using level_distinct [OF ok, of l] nd_level [OF l] unfolding e(1) by (rule chain_insert)
    moreover have "lnk s4 x l = splice_in nd p n' (\<lambda>x. lnk s x l) x" for x
    proof -
      have "p \<noteq> nd" "n' \<noteq> nd" using nd_level [OF l] unfolding e(1) by auto
      then show ?thesis using s4(3) True spl pn lnk3 by (simp add: splice_in_def)
    qed
    ultimately show ?thesis unfolding e2 by simp
  qed
  have ok3: "node_ok s3 st x = (if x = nd then True else node_ok s st x)" for x
    using n I key3 by (auto simp add: node_ok_def) (auto simp add: s3)
  have "node_ok s4 st x" if "x \<in> set (?L 0)" for x
    using that I by (auto simp add: m ok3 insert_levels_set split: if_splits)
  moreover have "set (?L (Suc l)) \<subseteq> set (?L l)" for l
    using I by (auto simp add: insert_levels_set)
  moreover have "?L l = []" if "sk_height s \<le> l" for l using that h I by (simp add: insert_levels_def)
  moreover have "\<forall>x\<in>dom (sk_nodes s4). unat x < len'" using I nd by (auto simp add: m s3) (meson domI less_trans)
  moreover have "sk_head s \<notin> set (?L 0)" "sk_tail s \<notin> set (?L 0)"
    using I nd_level [of 0] by (auto simp add: insert_levels_set maxHeight_def split: if_splits)
  ultimately have "skl_ok cmp abk s4 st ?L"
    using I chain4 insert_levels_sorted [OF ok key keynd nd0] nd unfolding skl_ok_def by (simp add: m s3)
  then show ?thesis using s4(1,2) by blast
qed

end

section \<open>Init\<close>

lemma link_ends_spec:
  assumes "sk_head s \<noteq> sk_tail s" "\<forall>l<k. lnk s (sk_head s) l \<noteq> None \<and> lnk s (sk_tail s) l \<noteq> None"
  shows "\<exists>s'. link_ends k s = Some s' \<and> skl_meta s' = skl_meta s \<and>
    (\<forall>l<k. map_option lk_next (lnk s' (sk_head s) l) = Some (sk_tail s) \<and>
           map_option lk_prev (lnk s' (sk_tail s) l) = Some (sk_head s)) \<and>
    (\<forall>l\<ge>k. \<forall>x. lnk s' x l = lnk s x l)"
  using assms
proof (induction k)
  case (Suc k)
  obtain s1 where s1: "link_ends k s = Some s1" "skl_meta s1 = skl_meta s"
      "\<forall>l<k. map_option lk_next (lnk s1 (sk_head s) l) = Some (sk_tail s) \<and>
         map_option lk_prev (lnk s1 (sk_tail s) l) = Some (sk_head s)"
      "\<forall>l\<ge>k. \<forall>x. lnk s1 x l = lnk s x l"
    using Suc.IH [OF Suc.prems(1)] Suc.prems(2) less_SucI [of _ k] by blast
  note m1 = skl_metaD [OF s1(2)]
  obtain lh lt where l: "lnk s1 (sk_head s) k = Some lh" "lnk s1 (sk_tail s) k = Some lt"
    using Suc.prems(2) s1(4) by (metis lessI not_None_eq order_refl)
  obtain s2 where s2: "set_link (\<lambda>l. l\<lparr>lk_next := sk_tail s\<rparr>) (sk_head s) k s1 = Some s2" "skl_meta s2 = skl_meta s1"
      "\<And>l x. lnk s2 x l = (if l = k \<and> x = sk_head s then Some (lh\<lparr>lk_next := sk_tail s\<rparr>) else lnk s1 x l)"
    using set_link_spec [OF l(1), of "\<lambda>l. l\<lparr>lk_next := sk_tail s\<rparr>"] by blast
  note m2 = skl_metaD [OF s2(2)]
  have l2: "lnk s2 (sk_tail s) k = Some lt" using s2(3) l Suc.prems(1) by auto
  obtain s3 where s3: "set_link (\<lambda>l. l\<lparr>lk_prev := sk_head s\<rparr>) (sk_tail s) k s2 = Some s3" "skl_meta s3 = skl_meta s2"
      "\<And>l x. lnk s3 x l = (if l = k \<and> x = sk_tail s then Some (lt\<lparr>lk_prev := sk_head s\<rparr>) else lnk s2 x l)"
    using set_link_spec [OF l2, of "\<lambda>l. l\<lparr>lk_prev := sk_head s\<rparr>"] by blast
  have "link_ends (Suc k) s = Some s3" using s1(1) s2(1) s3(1) m1 m2 by simp
  moreover have "map_option lk_next (lnk s3 (sk_head s) l) = Some (sk_tail s) \<and>
      map_option lk_prev (lnk s3 (sk_tail s) l) = Some (sk_head s)" if "l < Suc k" for l
    using that s1(3) s2(3) [of _ l] s3(3) [of _ l] Suc.prems(1) by (cases "l = k") auto
  moreover have "lnk s3 x l = lnk s x l" if "Suc k \<le> l" for x l
    using that s1(4) s2(3) [of x l] s3(3) [of x l] by simp
  ultimately show ?case using s1(2) s2(2) s3(2) by (intro exI [of _ s3]) simp
qed simp

context abbreviated_order
begin

lemma skl_Init_ok:
  assumes "sk_cap s0 \<le> maxNodesSize"
  shows "\<exists>s. skl_Init env cmp abk s0 = Some s \<and> skl_ok cmp abk s st (\<lambda>_. []) \<and> sk_len s = 2 * node_size maxHeight"
proof -
  define sa where "sa = \<lparr>sk_cmp = cmp, sk_abbreviatedKey = abk, sk_nodes = Map.empty, sk_len = 0,
    sk_cap = (if sk_cap s0 < 256 then 256 else sk_cap s0), sk_head = 0, sk_tail = 0,
    sk_height = 1, sk_rand = sk_rand s0\<rparr>"
  have sz: "node_size maxHeight = 184" by (simp add: node_size_def maxNodeSize_def)
  have a: "sk_len sa \<le> sk_cap sa" "sk_cap sa \<le> maxNodesSize" "\<forall>nd\<in>dom (sk_nodes sa). unat nd < sk_len sa" "sk_len sa = 0"
    using assms by (simp_all add: sa_def maxNodesSize_def)
  have h: "1 \<le> maxHeight" "maxHeight \<le> maxHeight" by (simp_all add: maxHeight_def)
  let ?n = "\<lparr>nd_offset = 0, nd_keyStart = 0, nd_keyEnd = 0, nd_abbreviatedKey = 0, nd_links = replicate maxHeight (env_links env)\<rparr>"
  obtain c1 n1 where n1: "184 \<le> c1" "c1 \<le> maxNodesSize" "unat n1 = 0"
      "skl_newNode env maxHeight 0 0 0 0 sa = Some (Inr (n1, sa\<lparr>sk_nodes := [n1 \<mapsto> ?n], sk_len := 184, sk_cap := c1\<rparr>))"
    using skl_newNode_spec [OF a(1,2) h a(3), of env 0 0 0 0]
    by (auto simp add: sz a(4) maxNodesSize_def) (auto simp add: sa_def)
  define sb where "sb = sa\<lparr>sk_nodes := [n1 \<mapsto> ?n], sk_len := 184, sk_cap := c1, sk_head := n1\<rparr>"
  have b: "sk_len sb \<le> sk_cap sb" "sk_cap sb \<le> maxNodesSize" "\<forall>nd\<in>dom (sk_nodes sb). unat nd < sk_len sb" "sk_len sb = 184"
    using n1 by (simp_all add: sb_def)
  obtain c2 n2 where n2: "368 \<le> c2" "c2 \<le> maxNodesSize" "unat n2 = 184" "n2 \<notin> dom (sk_nodes sb)"
      "skl_newNode env maxHeight 0 0 0 0 sb =
         Some (Inr (n2, sb\<lparr>sk_nodes := (sk_nodes sb)(n2 \<mapsto> ?n), sk_len := 368, sk_cap := c2\<rparr>))"
    using skl_newNode_spec [OF b(1,2) h b(3), of env 0 0 0 0] by (auto simp add: sz b(4) maxNodesSize_def)
  define sc where "sc = sb\<lparr>sk_nodes := (sk_nodes sb)(n2 \<mapsto> ?n), sk_len := 368, sk_cap := c2, sk_tail := n2\<rparr>"
  have ne: "n1 \<noteq> n2" using n1(3) n2(3) by auto
  have ht: "sk_head sc = n1" "sk_tail sc = n2" by (simp_all add: sc_def sb_def)
  have "\<forall>l<maxHeight. lnk sc (sk_head sc) l \<noteq> None \<and> lnk sc (sk_tail sc) l \<noteq> None"
    using ne by (simp add: ht lnk_def sc_def sb_def)
  then obtain s where s: "link_ends maxHeight sc = Some s" "skl_meta s = skl_meta sc"
      "\<forall>l<maxHeight. map_option lk_next (lnk s n1 l) = Some n2 \<and> map_option lk_prev (lnk s n2 l) = Some n1"
    using link_ends_spec [of sc maxHeight] ne ht by auto
  note m = skl_metaD [OF s(2)] meta_node [OF s(2)]
  have "skl_Init env cmp abk s0 = Some s"
    using n1(4) n2(5) s(1) unfolding skl_Init_def sa_def [symmetric] by (simp add: sb_def sc_def)
  moreover have "skl_ok cmp abk s st (\<lambda>_. [])"
    unfolding skl_ok_def using s(3) n1(3) n2(1-3) ne
    by (auto simp add: m sc_def sb_def sa_def maxHeight_def split: if_splits)
  ultimately show ?thesis by (simp add: m sc_def sz)
qed

end

section \<open>Add\<close>

lemma Uvarint_from_length: "Uvarint_from i x bs = (v, n) \<Longrightarrow> n \<le> int i + int (length bs)"
  by (induction i x bs rule: Uvarint_from.induct) (force split: if_splits)+

lemma Uvarint_length: "Uvarint bs = (v, n) \<Longrightarrow> n \<le> int (length bs)"
  using Uvarint_from_length [of 0 0 bs v n] by (simp add: Uvarint_def)

text \<open>The key of the record at an offset of the storage.\<close>

definition record_key :: "bytes \<Rightarrow> nat \<Rightarrow> bytes option" where
  "record_key st off =
     (let data = drop (off + 1) st; (v, n) = Uvarint data
      in if 0 < n \<and> unat v \<le> length (drop (nat n) data) then Some (take (unat v) (drop (nat n) data)) else None)"

text \<open>The entries of a skiplist: keys with the offsets of their records. A new entry goes before the
  first one whose key is not smaller.\<close>

definition skl_entries :: "Skiplist \<Rightarrow> bytes \<Rightarrow> (nat \<Rightarrow> u32 list) \<Rightarrow> (bytes \<times> u32) list" where
  "skl_entries s st L = map (\<lambda>nd. (node_key s st nd, node_off s nd)) (L 0)"

definition insert_newest :: "(bytes \<Rightarrow> bytes \<Rightarrow> int) \<Rightarrow> bytes \<times> u32 \<Rightarrow> (bytes \<times> u32) list \<Rightarrow> (bytes \<times> u32) list" where
  "insert_newest cmp e es =
     filter (\<lambda>x. cmp (fst x) (fst e) < 0) es @ e # filter (\<lambda>x. \<not> cmp (fst x) (fst e) < 0) es"

lemma height_from_bounds: "1 \<le> h \<Longrightarrow> h \<le> maxHeight \<Longrightarrow> h \<le> height_from p rnd h \<and> height_from p rnd h \<le> maxHeight"
proof (induction p rnd h rule: height_from.induct)
  case (1 p rnd h)
  then show ?case by (cases "h < maxHeight \<and> rnd \<le> p h") (auto simp add: height_from.simps [of p rnd h])
qed

lemma raise_height_spec:
  assumes "sk_height s + d \<le> length spl"
  shows "\<exists>spl'. raise_height d s spl = (s\<lparr>sk_height := sk_height s + d\<rparr>, spl') \<and> length spl' = length spl \<and>
    (\<forall>l<length spl. spl' ! l = (if sk_height s \<le> l \<and> l < sk_height s + d then (sk_head s, sk_tail s) else spl ! l))"
  using assms
proof (induction d arbitrary: s spl)
  case (Suc d)
  let ?s = "s\<lparr>sk_height := sk_height s + 1\<rparr>"
  let ?spl = "spl[sk_height s := (sk_head s, sk_tail s)]"
  obtain spl' where "raise_height d ?s ?spl = (?s\<lparr>sk_height := sk_height ?s + d\<rparr>, spl')" "length spl' = length ?spl"
      "\<forall>l<length ?spl. spl' ! l = (if sk_height ?s \<le> l \<and> l < sk_height ?s + d then (sk_head ?s, sk_tail ?s) else ?spl ! l)"
    using Suc.IH [of ?s ?spl] Suc.prems by auto
  then show ?case using Suc.prems by (intro exI [of _ spl']) (auto simp add: nth_list_update)
qed auto

lemma tail_splices_spec:
  assumes "\<forall>l<k. skl_getPrev s (sk_tail s) l = Some (p l)" "k \<le> length spl"
  shows "\<exists>spl'. tail_splices s k spl = Some spl' \<and> length spl' = length spl \<and> (\<forall>l<k. spl' ! l = (p l, sk_tail s))"
  using assms
proof (induction k)
  case (Suc k)
  then obtain spl' where "tail_splices s k spl = Some spl'" "length spl' = length spl" "\<forall>l<k. spl' ! l = (p l, sk_tail s)"
    by auto
  then show ?case using Suc.prems by (auto simp add: nth_list_update less_Suc_eq)
qed simp

context abbreviated_order
begin

lemma getPrev_tail:
  assumes "skl_ok cmp abk s st L" "l < maxHeight"
  shows "skl_getPrev s (sk_tail s) l = Some (last (sk_head s # L l))"
proof -
  have "chain (\<lambda>x. lnk s x l) (sk_head s # L l @ [sk_tail s])" using assms by (simp add: skl_ok_def)
  moreover have "sk_head s # L l @ [sk_tail s] = butlast (sk_head s # L l) @ last (sk_head s # L l) # sk_tail s # []"
    using append_butlast_last_id [of "sk_head s # L l"] by (metis append.assoc append_Cons append_Nil list.distinct(1))
  ultimately have "map_option lk_prev (lnk s (sk_tail s) l) = Some (last (sk_head s # L l))"
    using chain_next by metis
  then show ?thesis by (simp add: getPrev_lnk)
qed

text \<open>The test of the fast path holds when every key of the list is smaller.\<close>

lemma append_at_end_spec:
  assumes ok: "skl_ok cmp abk s st L"
  shows "skl_append_at_end s st key (abk key) (last (sk_head s # L 0)) = Some (from_key cmp s st key (L 0) = [])"
proof (cases "L 0 = []")
  case True
  then show ?thesis by (simp add: skl_append_at_end_def from_key_def)
next
  case False
  let ?p = "last (L 0)"
  let ?k = "node_key s st ?p"
  have p: "?p \<in> set (L 0)" using False by simp
  obtain n where n: "sk_nodes s ?p = Some n" "nd_keyStart n \<le> nd_keyEnd n" "unat (nd_keyEnd n) \<le> length st"
      "nd_abbreviatedKey n = abk ?k" and ne: "?p \<noteq> sk_head s"
    using level_nodes [OF ok p] ok by (auto simp add: node_ok_def skl_ok_def)
  have sub: "subslice st (nd_keyStart n) (nd_keyEnd n) = Some ?k" using n by (simp add: subslice_def node_key_def)
  have lt: "0 < cmp key ?k \<longleftrightarrow> cmp ?k key < 0" using cmp_swap [of key ?k] by linarith
  have so: "sorted_wrt (\<lambda>a b. cmp (node_key s st a) (node_key s st b) \<le> 0) (L 0)" and cs: "sk_cmp s = cmp"
    using ok by (simp_all add: skl_ok_def)
  have le: "cmp (node_key s st x) ?k \<le> 0" if "x \<in> set (L 0)" for x
  proof (cases "x = ?p")
    case False
    have "L 0 = butlast (L 0) @ [?p]" using \<open>L 0 \<noteq> []\<close> by simp
    then have "sorted_wrt (\<lambda>a b. cmp (node_key s st a) (node_key s st b) \<le> 0) (butlast (L 0) @ [?p])" "x \<in> set (butlast (L 0))"
      using so that False by (metis, metis Un_iff empty_iff empty_set set_ConsD set_append)
    then show ?thesis by (auto simp add: sorted_wrt_append)
  qed simp
  have fk: "from_key cmp s st key (L 0) = [] \<longleftrightarrow> cmp ?k key < 0"
    using le p cmp_le_less_trans [of _ ?k key] by (auto simp add: from_key_def filter_empty_conv)
  have "skl_append_at_end s st key (abk key) ?p = Some (cmp ?k key < 0)"
  proof -
    have "cmp ?k key < 0" if "abk ?k < abk key" using that abk_mono [of key ?k] lt by (meson leD not_less)
    moreover have "\<not> cmp ?k key < 0" if "abk key < abk ?k" using that abk_mono [of ?k key] by force
    ultimately show ?thesis by (auto simp add: skl_append_at_end_def ne n sub cs lt)
  qed
  then show ?thesis using False fk by simp
qed

text \<open>On either path the splices of the levels in use are those of the key.\<close>

lemma splices_found:
  assumes ok: "skl_ok cmp abk s st L"
  shows "\<exists>spl. (if from_key cmp s st key (L 0) = [] then tail_splices s (sk_height s) (replicate maxHeight (0, 0))
                else findSplice s st key (abk key) (replicate maxHeight (0, 0))) = Some spl \<and>
    length spl = maxHeight \<and> (\<forall>l < sk_height s. spl ! l = splice_at cmp s st key (L l))"
proof (cases "from_key cmp s st key (L 0) = []")
  case True
  have hm: "sk_height s \<le> maxHeight" using ok by (simp add: skl_ok_def)
  have all: "splice_at cmp s st key (L l) = (last (sk_head s # L l), sk_tail s)" for l
  proof -
    have "from_key cmp s st key (L l) = []"
      using True levels_subset [OF ok, of 0 l] by (auto simp add: from_key_def filter_empty_conv)
    moreover from this have "before cmp s st key (L l) = L l"
      using before_from [of s st "L l" key] ok by (simp add: skl_ok_def)
    ultimately show ?thesis by (simp add: splice_at_def)
  qed
  show ?thesis
    using tail_splices_spec [of "sk_height s" s "\<lambda>l. last (sk_head s # L l)" "replicate maxHeight (0, 0)"]
      getPrev_tail [OF ok] hm True all by auto
next
  case False
  have h: "1 \<le> sk_height s" "sk_height s \<le> maxHeight" using ok by (simp_all add: skl_ok_def)
  then have "sk_height s - 1 < maxHeight" by linarith
  then obtain spl where "findSplice s st key (abk key) (replicate maxHeight (0, 0)) = Some spl" "length spl = maxHeight"
      "\<forall>l. l \<le> sk_height s - 1 \<longrightarrow> spl ! l = splice_at cmp s st key (L l)"
    using findSplice_from_spec [OF ok, of "sk_height s - 1" "sk_head s" key "replicate maxHeight (0, 0)"]
    by (auto simp add: findSplice_def)
  then show ?thesis using False h by auto
qed

lemma entries_insert:
  assumes "\<And>x. x \<noteq> nd \<Longrightarrow> node_key s' st x = node_key s st x \<and> node_off s' x = node_off s x"
    and "node_key s' st nd = key" "node_off s' nd = off" "nd \<notin> set (L 0)" "0 < h"
  shows "skl_entries s' st (insert_levels s st key h nd L) = insert_newest cmp (key, off) (skl_entries s st L)"
proof -
  have "map (\<lambda>nd. (node_key s' st nd, node_off s' nd)) (filter P (L 0)) = map (\<lambda>nd. (node_key s st nd, node_off s nd)) (filter P (L 0))" for P
  proof (rule map_cong [OF refl])
    fix x
    assume "x \<in> set (filter P (L 0))"
    then have "x \<noteq> nd" using assms(4) by auto
    then show "(node_key s' st x, node_off s' x) = (node_key s st x, node_off s x)" using assms(1) by simp
  qed
  then show ?thesis
    using assms(2,3,5) by (simp add: skl_entries_def insert_levels_def insert_newest_def before_def from_key_def filter_map comp_def)
qed

lemma record_key_slice:
  assumes "record_key st (unat (off :: u32)) = Some key" "length st < 2 ^ 32" "unat off + 1 \<le> length st"
  obtains v n where "Uvarint (drop (unat off + 1) st) = (v, n)" "0 < n" "unat v \<le> length st - (unat off + 1) - nat n"
    "key = take (unat v) (drop (nat n) (drop (unat off + 1) st))"
    "unat (1 + off + word_of_int n) = unat off + 1 + nat n"
    "unat (1 + off + word_of_int n + ucast v) = unat off + 1 + nat n + unat v"
    "unat off + 1 + nat n + unat v \<le> length st"
proof -
  obtain v n where vn: "Uvarint (drop (unat off + 1) st) = (v, n)" by (cases "Uvarint (drop (unat off + 1) st)")
  have r: "0 < n" "unat v \<le> length st - (unat off + 1) - nat n" "key = take (unat v) (drop (nat n) (drop (unat off + 1) st))"
    using assms(1) vn by (auto simp add: record_key_def Let_def split: if_splits)
  have len: "nat n \<le> length st - (unat off + 1)" using Uvarint_length [OF vn] by simp
  have bound: "unat off + 1 + nat n + unat v \<le> length st" using r(2) len assms(3) by linarith
  define a b where "a = nat n" and "b = unat v"
  have "n = int a" using r(1) by (simp add: a_def)
  then have w: "word_of_int n = (of_nat a :: u32)" "(ucast v :: u32) = of_nat b"
    by (simp_all add: b_def)
  have B: "unat (1 + off + of_nat a + of_nat b :: u32) = unat off + 1 + a + b"
    using bound assms(2) unat_of_nat32 [of "1 + unat off + a + b"] by (simp add: a_def b_def maxNodesSize_def add.assoc)
  have A: "unat (1 + off + of_nat a :: u32) = unat off + 1 + a"
    using bound assms(2) unat_of_nat32 [of "1 + unat off + a"] by (simp add: a_def maxNodesSize_def add.assoc)
  have "unat (1 + off + word_of_int n) = unat off + 1 + nat n"
      "unat (1 + off + word_of_int n + ucast v) = unat off + 1 + nat n + unat v"
    unfolding w a_def [symmetric] b_def [symmetric] by (rule A, rule B)
  from that [OF vn r this bound] show thesis .
qed

end

context abbreviated_order
begin

lemma raised_splices:
  assumes ok: "skl_ok cmp abk s st L" and h: "1 \<le> h" "h \<le> maxHeight" and s1: "s1 = s\<lparr>sk_rand := r\<rparr>"
    and spl: "length spl = maxHeight" "\<forall>l. l < sk_height s \<longrightarrow> spl ! l = splice_at cmp s st key (L l)"
  obtains s2 spl2 where "raise_height (h - sk_height s1) s1 spl = (s2, spl2)" "skl_ok cmp abk s2 st L" "h \<le> sk_height s2"
    "\<forall>l<h. spl2 ! l = splice_at cmp s2 st key (L l)" "skl_entries s2 st L = skl_entries s st L" "sk_len s2 = sk_len s"
proof -
  note I = ok [unfolded skl_ok_def]
  define s2 where "s2 = s1\<lparr>sk_height := sk_height s1 + (h - sk_height s1)\<rparr>"
  have s2h: "sk_height s2 = max (sk_height s) h" by (simp add: s2_def s1)
  have hl: "sk_height s1 + (h - sk_height s1) \<le> length spl" using h I spl(1) by (auto simp add: s1)
  obtain spl2 where spl2: "raise_height (h - sk_height s1) s1 spl = (s2, spl2)" "length spl2 = length spl"
      "\<forall>l<length spl. spl2 ! l = (if sk_height s1 \<le> l \<and> l < sk_height s1 + (h - sk_height s1) then (sk_head s1, sk_tail s1) else spl ! l)"
    using raise_height_spec [OF hl] unfolding s2_def by blast
  have same: "node_key s2 = node_key s" "node_off s2 = node_off s" "node_ok s2 = node_ok s" "lnk s2 = lnk s"
    by (auto simp add: fun_eq_iff node_key_def node_off_def node_ok_def lnk_def s2_def s1)
  have ok2: "skl_ok cmp abk s2 st L" using I h s2h unfolding skl_ok_def same by (simp add: s2_def s1)
  have "spl2 ! l = splice_at cmp s2 st key (L l)" if l: "l < h" for l
  proof -
    have "splice_at cmp s2 st key (L l) = splice_at cmp s st key (L l)"
      by (simp add: splice_at_def before_def from_key_def same) (simp add: s2_def s1)
    moreover have "splice_at cmp s st key (L l) = (sk_head s, sk_tail s)" if "sk_height s \<le> l"
      using I that by (simp add: splice_at_def before_def from_key_def)
    ultimately show ?thesis using spl2(3) spl h l by (auto simp add: s1)
  qed
  then show thesis using that [OF spl2(1) ok2] s2h by (auto simp add: skl_entries_def same) (simp add: s2_def s1)
qed

text \<open>\<^verbatim>\<open>Add\<close> up to the allocation of the node.\<close>

lemma skl_Add_prepare:
  assumes ok: "skl_ok cmp abk s st L" and st: "length st < 2 ^ 32" "unat off + 1 \<le> length st"
    and key: "record_key st (unat off) = Some key"
  obtains h s2 spl2 ks ke where "1 \<le> h" "h \<le> maxHeight" "skl_ok cmp abk s2 st L" "h \<le> sk_height s2"
    "\<forall>l<h. spl2 ! l = splice_at cmp s2 st key (L l)" "skl_entries s2 st L = skl_entries s st L" "sk_len s2 = sk_len s"
    "off < ks" "ks \<le> ke" "unat ke \<le> length st" "slice (unat ks) (unat ke) st = key"
    "skl_Add env st off s =
      (case skl_newNode env h off ks ke (abk key) s2 of
         None \<Rightarrow> None
       | Some (Inl e) \<Rightarrow> Some (Some e, s2)
       | Some (Inr (nd, s3)) \<Rightarrow> map_option (\<lambda>s4. (None, s4)) (link_levels nd spl2 h s3))"
proof -
  obtain v n where r: "Uvarint (drop (unat off + 1) st) = (v, n)" "0 < n" "unat v \<le> length st - (unat off + 1) - nat n"
      "key = take (unat v) (drop (nat n) (drop (unat off + 1) st))"
      "unat (1 + off + word_of_int n) = unat off + 1 + nat n"
      "unat (1 + off + word_of_int n + ucast v) = unat off + 1 + nat n + unat v"
      "unat off + 1 + nat n + unat v \<le> length st"
    using record_key_slice [OF key st] by blast
  define ks where "ks = 1 + off + word_of_int n"
  define ke where "ke = ks + ucast v"
  have kse: "unat ks = unat off + 1 + nat n" "unat ke = unat off + 1 + nat n + unat v" using r(5,6) by (simp_all add: ks_def ke_def)
  have off1: "unat (off + 1) = unat off + 1" using st unat_of_nat32 [of "unat off + 1"] by (simp add: maxNodesSize_def add.commute)
  obtain spl where spl: "(if from_key cmp s st key (L 0) = [] then tail_splices s (sk_height s) (replicate maxHeight (0, 0))
        else findSplice s st key (abk key) (replicate maxHeight (0, 0))) = Some spl"
      "length spl = maxHeight" "\<forall>l. l < sk_height s \<longrightarrow> spl ! l = splice_at cmp s st key (L l)"
    using splices_found [OF ok] by blast
  define h where "h = height_from (env_probabilities env) (ucast (env_rand env (sk_rand s))) 1"
  have h: "1 \<le> h" "h \<le> maxHeight" using height_from_bounds [of 1] by (simp_all add: h_def maxHeight_def)
  define s1 where "s1 = s\<lparr>sk_rand := sk_rand s + 1\<rparr>"
  obtain s2 spl2 where s2: "raise_height (h - sk_height s1) s1 spl = (s2, spl2)" "skl_ok cmp abk s2 st L" "h \<le> sk_height s2"
      "\<forall>l<h. spl2 ! l = splice_at cmp s2 st key (L l)" "skl_entries s2 st L = skl_entries s st L" "sk_len s2 = sk_len s"
    using raised_splices [OF ok h s1_def spl(2,3)] by blast
  have c: "\<not> length st < unat (off + 1)" "\<not> n \<le> 0" "\<not> length (drop (nat n) (drop (unat (off + 1)) st)) < unat v"
    using st r(2,3) by (simp_all add: off1)
  have k: "take (unat v) (drop (nat n) (drop (unat (off + 1)) st)) = key" using r(4) by (simp add: off1)
  have rh: "randomHeight env s = (h, s1)" by (simp add: randomHeight_def h_def s1_def)
  have abk: "sk_abbreviatedKey s = abk" using ok by (simp add: skl_ok_def)
  have prev: "skl_getPrev s (sk_tail s) 0 = Some (last (sk_head s # L 0))"
    by (rule getPrev_tail [OF ok]) (simp add: maxHeight_def)
  have "skl_Add env st off s =
      (case skl_newNode env h off ks ke (abk key) s2 of
         None \<Rightarrow> None
       | Some (Inl e) \<Rightarrow> Some (Some e, s2)
       | Some (Inr (nd, s3)) \<Rightarrow> map_option (\<lambda>s4. (None, s4)) (link_levels nd spl2 h s3))"
    using c k rh abk prev spl(1) append_at_end_spec [OF ok, of key] s2(1) r(1)
    by (simp add: skl_Add_def off1 Let_def ks_def ke_def map_conv_bind_option comp_def split: option.splits sum.splits)
  moreover have "slice (unat ks) (unat ke) st = key" using r(4) by (simp add: kse slice_def add.commute)
  moreover have "off < ks" "ks \<le> ke" "unat ke \<le> length st"
    using kse r(7) by (simp_all add: word_less_nat_alt word_le_nat_alt)
  ultimately show thesis using that [OF h s2(2-6)] by blast
qed

text \<open>Adding a record inserts its key before the keys that are not smaller, or fails without an
  effect on the entries when the nodes would exceed 4 GiB.\<close>

lemma skl_Add_spec:
  assumes ok: "skl_ok cmp abk s st L" and st: "length st < 2 ^ 32" "unat off + 1 \<le> length st"
    and key: "record_key st (unat off) = Some key"
  obtains (added) s' L' where "skl_Add env st off s = Some (None, s')" "skl_ok cmp abk s' st L'"
      "skl_entries s' st L' = insert_newest cmp (key, off) (skl_entries s st L)" "sk_len s' \<le> sk_len s + maxNodeSize"
  | (full) s' where "skl_Add env st off s = Some (Some ErrTooManyRecords, s')" "skl_ok cmp abk s' st L"
      "skl_entries s' st L = skl_entries s st L" "maxNodesSize < sk_len s + maxNodeSize"
proof -
  obtain h s2 spl2 ks ke where h: "1 \<le> h" "h \<le> maxHeight" and ok2: "skl_ok cmp abk s2 st L" and s2h: "h \<le> sk_height s2"
    and spl_h: "\<forall>l<h. spl2 ! l = splice_at cmp s2 st key (L l)"
    and entries: "skl_entries s2 st L = skl_entries s st L" and len2: "sk_len s2 = sk_len s"
    and ks: "off < ks" "ks \<le> ke" "unat ke \<le> length st" and sl: "slice (unat ks) (unat ke) st = key"
    and add: "skl_Add env st off s =
      (case skl_newNode env h off ks ke (abk key) s2 of
         None \<Rightarrow> None
       | Some (Inl e) \<Rightarrow> Some (Some e, s2)
       | Some (Inr (nd, s3)) \<Rightarrow> map_option (\<lambda>s4. (None, s4)) (link_levels nd spl2 h s3))"
    using skl_Add_prepare [OF ok st key, of env] by blast
  note I2 = ok2 [unfolded skl_ok_def]
  have a: "sk_len s2 \<le> sk_cap s2" "sk_cap s2 \<le> maxNodesSize" "\<forall>nd\<in>dom (sk_nodes s2). unat nd < sk_len s2" using I2 by blast+
  have sz: "node_size h \<le> maxNodeSize" "0 < node_size h" using node_size_bounds [of h] by (simp_all add: maxNodeSize_def)
  from skl_newNode_spec [OF a(1,2) h a(3), of env off ks ke "abk key"] show thesis
  proof (elim disjE exE conjE)
    assume "maxNodesSize < sk_len s2 + node_size h" "skl_newNode env h off ks ke (abk key) s2 = Some (Inl ErrTooManyRecords)"
    then show thesis using full [of s2] add ok2 entries sz(1) len2 by simp
  next
    fix c nd
    let ?n = "\<lparr>nd_offset = off, nd_keyStart = ks, nd_keyEnd = ke, nd_abbreviatedKey = abk key, nd_links = replicate h (env_links env)\<rparr>"
    let ?s3 = "s2\<lparr>sk_nodes := (sk_nodes s2)(nd \<mapsto> ?n), sk_len := sk_len s2 + node_size h, sk_cap := c\<rparr>"
    assume c: "sk_len s2 + node_size h \<le> c" "c \<le> maxNodesSize" "unat nd = sk_len s2" "nd \<notin> dom (sk_nodes s2)"
      and nn: "skl_newNode env h off ks ke (abk key) s2 = Some (Inr (nd, ?s3))"
    have "\<exists>s4. link_levels nd spl2 h ?s3 = Some s4 \<and> skl_ok cmp abk s4 st (insert_levels s2 st key h nd L) \<and>
        skl_meta s4 = skl_meta ?s3"
      by (rule insert_ok [OF ok2 _ _ refl]) (use h s2h c sz ks sl spl_h in simp_all)
    then obtain s4 where s4: "link_levels nd spl2 h ?s3 = Some s4" "skl_ok cmp abk s4 st (insert_levels s2 st key h nd L)"
        "skl_meta s4 = skl_meta ?s3" by blast
    note m = skl_metaD [OF s4(3)] meta_node [OF s4(3)]
    have nd0: "nd \<notin> set (L 0)" using I2 c(4) by (auto simp add: node_ok_def)
    have k3: "node_key ?s3 st x = (if x = nd then key else node_key s2 st x)"
        "node_off ?s3 x = (if x = nd then off else node_off s2 x)" for x
      using sl by (simp_all add: node_key_def node_off_def)
    have "skl_entries s4 st (insert_levels s2 st key h nd L) = insert_newest cmp (key, off) (skl_entries s2 st L)"
      by (rule entries_insert) (use h nd0 in \<open>simp_all add: m k3\<close>)
    moreover have "skl_Add env st off s = Some (None, s4)" using add nn s4(1) by simp
    ultimately show thesis using added [of s4] s4(2) entries sz(1) len2 by (simp add: m)
  qed
qed

end

section \<open>Iteration\<close>

text \<open>The internal key an entry is iterated with: the offset of its record stands for its sequence number.\<close>

definition entry_ikey :: "bytes \<Rightarrow> bytes \<times> u32 \<Rightarrow> InternalKey" where
  "entry_ikey st e = MakeInternalKey (fst e) (ucast (snd e) OR InternalKeySeqNumBatch) (st ! unat (snd e))"

lemma entry_ikey_UserKey [simp]: "UserKey (entry_ikey st e) = fst e"
  by (simp add: entry_ikey_def MakeInternalKey_def)

lemma take_two_drop: "Suc i < length xs \<Longrightarrow> xs = take i xs @ xs ! i # xs ! Suc i # drop (Suc (Suc i)) xs"
  by (simp add: Cons_nth_drop_Suc)

definition below :: "(bytes \<Rightarrow> bytes \<Rightarrow> int) \<Rightarrow> bytes option \<Rightarrow> bytes \<times> u32 \<Rightarrow> bool" where
  "below cmp upper e = (case upper of None \<Rightarrow> True | Some u \<Rightarrow> cmp (fst e) u < 0)"

definition above :: "(bytes \<Rightarrow> bytes \<Rightarrow> int) \<Rightarrow> bytes option \<Rightarrow> bytes \<times> u32 \<Rightarrow> bool" where
  "above cmp lower e = (case lower of None \<Rightarrow> True | Some l \<Rightarrow> cmp l (fst e) \<le> 0)"

text \<open>The keys seen by calling \<^verbatim>\<open>Next\<close> (or \<^verbatim>\<open>Prev\<close>) until it returns no key, after a first
  positioning call with the given result.\<close>

fun skl_scan ::
    "(skl_Iterator \<Rightarrow> (InternalKey option \<times> skl_Iterator) option) \<Rightarrow> nat \<Rightarrow> (InternalKey option \<times> skl_Iterator) option \<Rightarrow>
     InternalKey list option" where
  "skl_scan step 0 r = None"
| "skl_scan step (Suc fuel) r =
     (case r of
        None \<Rightarrow> None
      | Some (None, it) \<Rightarrow> Some []
      | Some (Some k, it) \<Rightarrow> map_option (\<lambda>ks. k # ks) (skl_scan step fuel (step it)))"

text \<open>The key and the node a seek ends at.\<close>

definition seek_view :: "(InternalKey option \<times> skl_Iterator) option \<Rightarrow> (InternalKey option \<times> u32) option" where
  "seek_view r = map_option (\<lambda>(k, it). (k, si_nd it)) r"

definition skl_at :: "Skiplist \<Rightarrow> (nat \<Rightarrow> u32 list) \<Rightarrow> nat \<Rightarrow> u32" where
  "skl_at s L i = (sk_head s # L 0 @ [sk_tail s]) ! i"

context abbreviated_order
begin

lemma skl_at_simps:
  "skl_at s L 0 = sk_head s" "skl_at s L (Suc (length (L 0))) = sk_tail s" "i < length (L 0) \<Longrightarrow> skl_at s L (Suc i) = L 0 ! i"
  by (simp_all add: skl_at_def nth_append)

lemma skl_at_next:
  assumes "skl_ok cmp abk s st L" "i \<le> length (L 0)"
  shows "skl_getNext s (skl_at s L i) 0 = Some (skl_at s L (Suc i))" "skl_getPrev s (skl_at s L (Suc i)) 0 = Some (skl_at s L i)"
proof -
  let ?C = "sk_head s # L 0 @ [sk_tail s]"
  have "chain (\<lambda>x. lnk s x 0) ?C" using assms(1) by (simp add: skl_ok_def maxHeight_def)
  moreover have "?C = take i ?C @ ?C ! i # ?C ! Suc i # drop (Suc (Suc i)) ?C"
    using assms(2) by (intro take_two_drop) simp
  ultimately have "map_option lk_next (lnk s (?C ! i) 0) = Some (?C ! Suc i) \<and> map_option lk_prev (lnk s (?C ! Suc i) 0) = Some (?C ! i)"
    using chain_next by metis
  then show "skl_getNext s (skl_at s L i) 0 = Some (skl_at s L (Suc i))" "skl_getPrev s (skl_at s L (Suc i)) 0 = Some (skl_at s L i)"
    by (simp_all add: getNext_lnk getPrev_lnk skl_at_def)
qed

lemma entries_nth: "i < length (L 0) \<Longrightarrow> skl_entries s st L ! i = (node_key s st (L 0 ! i), node_off s (L 0 ! i))"
  by (simp add: skl_entries_def)

lemma length_entries [simp]: "length (skl_entries s st L) = length (L 0)"
  by (simp add: skl_entries_def)

lemma getKey_entry:
  assumes "skl_ok cmp abk s st L" "i < length (L 0)"
  shows "skl_getKey s st (L 0 ! i) = Some (entry_ikey st (skl_entries s st L ! i))"
    "L 0 ! i \<noteq> sk_head s" "L 0 ! i \<noteq> sk_tail s"
proof -
  have m: "L 0 ! i \<in> set (L 0)" using assms(2) by simp
  note n = level_nodes [OF assms(1) m]
  then obtain n where "sk_nodes s (L 0 ! i) = Some n" "nd_keyStart n \<le> nd_keyEnd n" "unat (nd_keyEnd n) \<le> length st"
      "nd_offset n < nd_keyStart n" by (auto simp add: node_ok_def)
  then show "skl_getKey s st (L 0 ! i) = Some (entry_ikey st (skl_entries s st L ! i))"
    using assms(2)
    by (simp add: skl_getKey_def subslice_def entries_nth entry_ikey_def node_key_def node_off_def word_le_nat_alt
        word_less_nat_alt)
  show "L 0 ! i \<noteq> sk_head s" "L 0 ! i \<noteq> sk_tail s" using n by blast+
qed

text \<open>A move to an entry yields its key, unless it is past the bound.\<close>

lemma skl_forward_spec:
  assumes ok: "skl_ok cmp abk s st L" and i: "i \<le> length (L 0)"
  shows "skl_forward s st it (skl_at s L (Suc i)) =
    Some (if i < length (L 0) \<and> below cmp (si_upper it) (skl_entries s st L ! i)
          then (Some (entry_ikey st (skl_entries s st L ! i)),
                it\<lparr>si_nd := skl_at s L (Suc i), si_key := entry_ikey st (skl_entries s st L ! i)\<rparr>)
          else (None, it\<lparr>si_nd := sk_tail s\<rparr>))"
proof (cases "i < length (L 0)")
  case True
  have cs: "sk_cmp s = cmp" using ok by (simp add: skl_ok_def)
  have "cmp u k \<le> 0 \<longleftrightarrow> \<not> cmp k u < 0" for u k using cmp_swap [of u k] by linarith
  then show ?thesis using getKey_entry [OF ok True] True
    by (auto simp add: skl_forward_def skl_at_simps cs below_def split: option.splits)
next
  case False
  then have "i = length (L 0)" using i by simp
  then show ?thesis by (simp add: skl_forward_def skl_at_simps)
qed

lemma skl_backward_spec:
  assumes ok: "skl_ok cmp abk s st L" and i: "i \<le> length (L 0)"
  shows "skl_backward s st it (skl_at s L i) =
    Some (if 0 < i \<and> above cmp (si_lower it) (skl_entries s st L ! (i - 1))
          then (Some (entry_ikey st (skl_entries s st L ! (i - 1))),
                it\<lparr>si_nd := skl_at s L i, si_key := entry_ikey st (skl_entries s st L ! (i - 1))\<rparr>)
          else (None, it\<lparr>si_nd := sk_head s\<rparr>))"
proof (cases i)
  case 0
  then show ?thesis by (simp add: skl_backward_def skl_at_simps)
next
  case (Suc j)
  then have j: "j < length (L 0)" using i by simp
  have cs: "sk_cmp s = cmp" using ok by (simp add: skl_ok_def)
  show ?thesis using getKey_entry [OF ok j] j
    by (auto simp add: skl_backward_def Suc skl_at_simps cs above_def not_less split: option.splits)
qed

text \<open>Seeks find the place of the key.\<close>

lemma entries_sorted:
  assumes "skl_ok cmp abk s st L"
  shows "sorted_wrt (\<lambda>a b. cmp (fst a) (fst b) \<le> 0) (skl_entries s st L)"
proof -
  have "sorted_wrt (\<lambda>a b. cmp (node_key s st a) (node_key s st b) \<le> 0) (L 0)" using assms by (simp add: skl_ok_def)
  then show ?thesis by (simp add: skl_entries_def sorted_wrt_map)
qed

definition rank :: "(bytes \<times> u32) list \<Rightarrow> bytes \<Rightarrow> nat" where
  "rank es key = length (filter (\<lambda>e. cmp (fst e) key < 0) es)"

lemma seek_splice:
  assumes ok: "skl_ok cmp abk s st L"
  shows "seekForBaseSplice s st key (abk key) =
    Some (skl_at s L (rank (skl_entries s st L) key), skl_at s L (Suc (rank (skl_entries s st L) key)))"
    "rank (skl_entries s st L) key \<le> length (L 0)"
proof -
  let ?A = "before cmp s st key (L 0)"
  let ?B = "from_key cmp s st key (L 0)"
  have r: "rank (skl_entries s st L) key = length ?A"
    by (simp add: rank_def skl_entries_def before_def filter_map comp_def)
  have "sorted_wrt (\<lambda>a b. cmp (node_key s st a) (node_key s st b) \<le> 0) (L 0)" using ok by (simp add: skl_ok_def)
  then have sp: "L 0 = ?A @ ?B" by (rule before_from)
  have "skl_at s L (length ?A) = last (sk_head s # ?A)"
  proof (cases ?A rule: rev_cases)
    case (snoc xs x)
    have "(L 0 @ [sk_tail s]) ! length xs = x" by (subst sp) (simp add: snoc nth_append)
    then show ?thesis by (simp add: skl_at_def snoc)
  qed (simp add: skl_at_def)
  moreover have "skl_at s L (Suc (length ?A)) = hd (?B @ [sk_tail s])"
  proof -
    have "(L 0 @ [sk_tail s]) ! length ?A = (?B @ [sk_tail s]) ! 0" by (subst sp) (simp add: nth_append)
    then show ?thesis by (simp add: skl_at_def hd_conv_nth)
  qed
  moreover have h: "1 \<le> sk_height s" "sk_height s \<le> maxHeight" using ok by (simp_all add: skl_ok_def)
  ultimately show "seekForBaseSplice s st key (abk key) =
      Some (skl_at s L (rank (skl_entries s st L) key), skl_at s L (Suc (rank (skl_entries s st L) key)))"
    using seekForBaseSplice_from_spec [OF ok, of "sk_height s - 1" "sk_head s" key]
    by (simp add: seekForBaseSplice_def splice_at_def r)
  show "rank (skl_entries s st L) key \<le> length (L 0)" using r sp by (metis le_add1 length_append)
qed

text \<open>Scans from the place of an entry.\<close>

lemma scan_forward:
  assumes ok: "skl_ok cmp abk s st L" and i: "i \<le> length (L 0)" "length (L 0) - i < fuel"
  shows "skl_scan (skl_Next s st) fuel (skl_forward s st it (skl_at s L (Suc i))) =
    Some (map (entry_ikey st) (takeWhile (below cmp (si_upper it)) (drop i (skl_entries s st L))))"
  using i
proof (induction fuel arbitrary: i it)
  case (Suc fuel)
  let ?es = "skl_entries s st L"
  show ?case
  proof (cases "i < length (L 0) \<and> below cmp (si_upper it) (?es ! i)")
    case True
    let ?it = "it\<lparr>si_nd := skl_at s L (Suc i), si_key := entry_ikey st (?es ! i)\<rparr>"
    have nx: "skl_Next s st ?it = skl_forward s st ?it (skl_at s L (Suc (Suc i)))"
      using skl_at_next(1) [OF ok, of "Suc i"] True by (simp add: skl_Next_def)
    have "skl_scan (skl_Next s st) fuel (skl_Next s st ?it) =
        Some (map (entry_ikey st) (takeWhile (below cmp (si_upper it)) (drop (Suc i) ?es)))"
    proof -
      have "length (L 0) - Suc i < fuel" "Suc i \<le> length (L 0)" using Suc.prems True by auto
      then show ?thesis unfolding nx using Suc.IH [of "Suc i" ?it] by simp
    qed
    moreover have "drop i ?es = ?es ! i # drop (Suc i) ?es" using True by (simp add: Cons_nth_drop_Suc)
    ultimately show ?thesis using True by (simp add: skl_forward_spec [OF ok Suc.prems(1)])
  next
    case False
    then have "takeWhile (below cmp (si_upper it)) (drop i ?es) = []"
      using Suc.prems(1) by (cases "i < length (L 0)") (simp_all add: Cons_nth_drop_Suc [symmetric])
    then show ?thesis using False by (auto simp add: skl_forward_spec [OF ok Suc.prems(1)])
  qed
qed simp

lemma scan_backward:
  assumes ok: "skl_ok cmp abk s st L" and i: "i \<le> length (L 0)" "i < fuel"
  shows "skl_scan (skl_Prev s st) fuel (skl_backward s st it (skl_at s L i)) =
    Some (map (entry_ikey st) (takeWhile (above cmp (si_lower it)) (rev (take i (skl_entries s st L)))))"
  using i
proof (induction fuel arbitrary: i it)
  case (Suc fuel)
  let ?es = "skl_entries s st L"
  show ?case
  proof (cases "0 < i \<and> above cmp (si_lower it) (?es ! (i - 1))")
    case True
    then obtain j where j: "i = Suc j" "j < length (L 0)" using Suc.prems(1) by (cases i) auto
    let ?it = "it\<lparr>si_nd := skl_at s L i, si_key := entry_ikey st (?es ! (i - 1))\<rparr>"
    have pv: "skl_Prev s st ?it = skl_backward s st ?it (skl_at s L j)"
      using skl_at_next(2) [OF ok, of j] j by (simp add: skl_Prev_def)
    have "skl_scan (skl_Prev s st) fuel (skl_Prev s st ?it) =
        Some (map (entry_ikey st) (takeWhile (above cmp (si_lower it)) (rev (take j ?es))))"
      unfolding pv using Suc.IH [of j ?it] Suc.prems j by simp
    moreover have "rev (take i ?es) = ?es ! (i - 1) # rev (take j ?es)" using j by (simp add: take_Suc_conv_app_nth)
    ultimately show ?thesis using True by (simp add: skl_backward_spec [OF ok Suc.prems(1)])
  next
    case False
    then have "takeWhile (above cmp (si_lower it)) (rev (take i ?es)) = []"
      using Suc.prems(1) by (cases i) (auto simp add: take_Suc_conv_app_nth)
    then show ?thesis using False by (auto simp add: skl_backward_spec [OF ok Suc.prems(1)])
  qed
qed simp

lemma entries_split:
  assumes "skl_ok cmp abk s st L"
  shows "drop (rank (skl_entries s st L) key) (skl_entries s st L) = filter (\<lambda>e. \<not> cmp (fst e) key < 0) (skl_entries s st L)"
    "take (rank (skl_entries s st L) key) (skl_entries s st L) = filter (\<lambda>e. cmp (fst e) key < 0) (skl_entries s st L)"
proof -
  have "es = filter (\<lambda>e. cmp (fst e) key < 0) es @ filter (\<lambda>e. \<not> cmp (fst e) key < 0) es"
    if "sorted_wrt (\<lambda>a b. cmp (fst a) (fst b) \<le> 0) es" for es :: "(bytes \<times> u32) list"
    using that
  proof (induction es)
    case (Cons a es)
    show ?case
    proof (cases "cmp (fst a) key < 0")
      case False
      then have "\<not> cmp (fst b) key < 0" if "b \<in> set es" for b
        using Cons.prems that cmp_le_less_trans [of "fst a" "fst b" key] by auto
      then show ?thesis using False by (simp add: filter_empty_conv)
    qed (use Cons in simp)
  qed simp
  from this [OF entries_sorted [OF assms]]
  show "drop (rank (skl_entries s st L) key) (skl_entries s st L) = filter (\<lambda>e. \<not> cmp (fst e) key < 0) (skl_entries s st L)"
    "take (rank (skl_entries s st L) key) (skl_entries s st L) = filter (\<lambda>e. cmp (fst e) key < 0) (skl_entries s st L)"
    by (metis append_eq_conv_conj rank_def)+
qed

lemma SeekGE_scan:
  assumes ok: "skl_ok cmp abk s st L" and fuel: "length (L 0) < fuel"
  shows "skl_scan (skl_Next s st) fuel (skl_SeekGE s st key False it) =
    Some (map (entry_ikey st) (takeWhile (below cmp (si_upper it)) (filter (\<lambda>e. \<not> cmp (fst e) key < 0) (skl_entries s st L))))"
proof -
  have "sk_abbreviatedKey s = abk" using ok by (simp add: skl_ok_def)
  then have "skl_SeekGE s st key False it = skl_forward s st it (skl_at s L (Suc (rank (skl_entries s st L) key)))"
    using seek_splice(1) [OF ok, of key] by (simp add: skl_SeekGE_def skl_seek_def)
  then show ?thesis
    using scan_forward [OF ok seek_splice(2) [OF ok, of key], of fuel it] fuel entries_split(1) [OF ok, of key] by simp
qed

lemma SeekLT_scan:
  assumes ok: "skl_ok cmp abk s st L" and fuel: "length (L 0) < fuel"
  shows "skl_scan (skl_Prev s st) fuel (skl_SeekLT s st key it) =
    Some (map (entry_ikey st) (takeWhile (above cmp (si_lower it)) (rev (filter (\<lambda>e. cmp (fst e) key < 0) (skl_entries s st L)))))"
proof -
  have "sk_abbreviatedKey s = abk" using ok by (simp add: skl_ok_def)
  then have "skl_SeekLT s st key it = skl_backward s st it (skl_at s L (rank (skl_entries s st L) key))"
    using seek_splice(1) [OF ok, of key] by (simp add: skl_SeekLT_def)
  then show ?thesis
    using scan_backward [OF ok seek_splice(2) [OF ok, of key], of fuel it] fuel seek_splice(2) [OF ok, of key]
      entries_split(2) [OF ok, of key] by simp
qed

lemma First_scan:
  assumes ok: "skl_ok cmp abk s st L" and fuel: "length (L 0) < fuel"
  shows "skl_scan (skl_Next s st) fuel (skl_First s st it) =
    Some (map (entry_ikey st) (takeWhile (below cmp (si_upper it)) (skl_entries s st L)))"
proof -
  have "skl_First s st it = skl_forward s st it (skl_at s L (Suc 0))"
    using skl_at_next(1) [OF ok, of 0] by (simp add: skl_First_def skl_at_simps)
  then show ?thesis using scan_forward [OF ok, of 0 fuel it] fuel by simp
qed

lemma Last_scan:
  assumes ok: "skl_ok cmp abk s st L" and fuel: "length (L 0) < fuel"
  shows "skl_scan (skl_Prev s st) fuel (skl_Last s st it) =
    Some (map (entry_ikey st) (takeWhile (above cmp (si_lower it)) (rev (skl_entries s st L))))"
proof -
  have "skl_Last s st it = skl_backward s st it (skl_at s L (length (L 0)))"
    using skl_at_next(2) [OF ok, of "length (L 0)"] by (simp add: skl_Last_def skl_at_simps)
  then show ?thesis using scan_backward [OF ok, of "length (L 0)" fuel it] fuel by simp
qed

text \<open>\<^verbatim>\<open>SeekGE\<close> with \<^verbatim>\<open>TrySeekUsingNext\<close>, from an entry that is not past the key.\<close>

definition iter_at :: "Skiplist \<Rightarrow> bytes \<Rightarrow> (nat \<Rightarrow> u32 list) \<Rightarrow> nat \<Rightarrow> skl_Iterator \<Rightarrow> bool" where
  "iter_at s st L i it \<longleftrightarrow>
     i < length (L 0) \<and> below cmp (si_upper it) (skl_entries s st L ! i) \<and>
     si_nd it = skl_at s L (Suc i) \<and> si_key it = entry_ikey st (skl_entries s st L ! i)"

lemma rank_iff:
  assumes ok: "skl_ok cmp abk s st L" and i: "i < length (L 0)"
  shows "cmp (fst (skl_entries s st L ! i)) key < 0 \<longleftrightarrow> i < rank (skl_entries s st L) key"
proof -
  let ?es = "skl_entries s st L"
  have sp: "?es = take (rank ?es key) ?es @ drop (rank ?es key) ?es" by simp
  show ?thesis
  proof (cases "i < rank ?es key")
    case True
    have "?es ! i = take (rank ?es key) ?es ! i" using True by simp
    also have "\<dots> \<in> set (take (rank ?es key) ?es)" using True i by (intro nth_mem) simp
    finally show ?thesis using True entries_split(2) [OF ok, of key] by simp
  next
    case False
    have "?es ! i = drop (rank ?es key) ?es ! (i - rank ?es key)" using False i by simp
    also have "\<dots> \<in> set (drop (rank ?es key) ?es)" using False i by (intro nth_mem) simp
    finally show ?thesis using False entries_split(1) [OF ok, of key] by simp
  qed
qed

lemma below_mono:
  assumes ok: "skl_ok cmp abk s st L" and i: "i \<le> j" "j < length (L 0)" and b: "below cmp upper (skl_entries s st L ! j)"
  shows "below cmp upper (skl_entries s st L ! i)"
proof (cases "i = j")
  case False
  then have "cmp (fst (skl_entries s st L ! i)) (fst (skl_entries s st L ! j)) \<le> 0"
    using entries_sorted [OF ok] i by (simp add: sorted_wrt_iff_nth_less)
  then show ?thesis using b cmp_le_less_trans by (auto simp add: below_def split: option.splits)
qed (use b in simp)

lemma forward_view:
  assumes "skl_ok cmp abk s st L" "i \<le> length (L 0)" "si_upper it' = si_upper it"
  shows "seek_view (skl_forward s st it' (skl_at s L (Suc i))) = seek_view (skl_forward s st it (skl_at s L (Suc i)))"
  using assms by (auto simp add: seek_view_def skl_forward_spec)

lemma seek_stop:
  assumes ok: "skl_ok cmp abk s st L" and at: "iter_at s st L i it" "i \<le> rank (skl_entries s st L) key"
    and nlt: "\<not> cmp (fst (skl_entries s st L ! i)) key < 0"
  shows "seek_view (Some (Some (si_key it), it)) =
    seek_view (skl_forward s st it (skl_at s L (Suc (rank (skl_entries s st L) key))))"
proof -
  have "i = rank (skl_entries s st L) key" using at nlt rank_iff [OF ok, of i key] by (auto simp add: iter_at_def)
  then show ?thesis using at(1) skl_forward_spec [OF ok, of i it] by (auto simp add: iter_at_def seek_view_def)
qed

lemma seek_using_next_spec:
  assumes ok: "skl_ok cmp abk s st L" and at: "iter_at s st L i it" and r: "i \<le> rank (skl_entries s st L) key"
  shows "\<exists>r. seek_using_next m s st key it (cmp (fst (skl_entries s st L ! i)) key < 0) = Some r \<and>
    (case r of
       Inl res \<Rightarrow> seek_view (Some res) = seek_view (skl_forward s st it (skl_at s L (Suc (rank (skl_entries s st L) key))))
     | Inr it' \<Rightarrow> si_upper it' = si_upper it)"
  using at r
proof (induction m arbitrary: i it)
  case 0
  then show ?case using seek_stop [OF ok 0] by (subst seek_using_next.simps) auto
next
  case (Suc m)
  let ?es = "skl_entries s st L"
  let ?r = "rank ?es key"
  have cs: "sk_cmp s = cmp" using ok by (simp add: skl_ok_def)
  have rn: "?r \<le> length (L 0)" by (rule seek_splice(2) [OF ok])
  show ?case
  proof (cases "cmp (fst (?es ! i)) key < 0")
    case False
    then show ?thesis using seek_stop [OF ok Suc.prems] by (subst seek_using_next.simps) auto
  next
    case True
    then have ir: "Suc i \<le> ?r" using rank_iff [OF ok, of i key] Suc.prems(1) by (simp add: iter_at_def)
    have nx: "skl_Next s st it = skl_forward s st it (skl_at s L (Suc (Suc i)))"
      using skl_at_next(1) [OF ok, of "Suc i"] ir rn Suc.prems(1) by (simp add: skl_Next_def iter_at_def)
    show ?thesis
    proof (cases "Suc i < length (L 0) \<and> below cmp (si_upper it) (?es ! Suc i)")
      case here: True
      let ?it = "it\<lparr>si_nd := skl_at s L (Suc (Suc i)), si_key := entry_ikey st (?es ! Suc i)\<rparr>"
      have "iter_at s st L (Suc i) ?it" using here by (simp add: iter_at_def)
      from Suc.IH [OF this ir] obtain r where
          r: "seek_using_next m s st key ?it (cmp (fst (?es ! Suc i)) key < 0) = Some r"
          "case r of
             Inl res \<Rightarrow> seek_view (Some res) = seek_view (skl_forward s st ?it (skl_at s L (Suc ?r)))
           | Inr it' \<Rightarrow> si_upper it' = si_upper ?it" by blast
      have "seek_view (skl_forward s st ?it (skl_at s L (Suc ?r))) = seek_view (skl_forward s st it (skl_at s L (Suc ?r)))"
        by (rule forward_view [OF ok rn]) simp
      with r(2) have "case r of
             Inl res \<Rightarrow> seek_view (Some res) = seek_view (skl_forward s st it (skl_at s L (Suc ?r)))
           | Inr it' \<Rightarrow> si_upper it' = si_upper it" by (cases r) auto
      with r(1) show ?thesis using True here nx skl_forward_spec [OF ok, of "Suc i" it]
        by (subst seek_using_next.simps) (simp add: cs)
    next
      case False
      have "\<not> (?r < length (L 0) \<and> below cmp (si_upper it) (?es ! ?r))"
        using below_mono [OF ok ir] False ir by auto
      then have "seek_view (skl_forward s st it (skl_at s L (Suc ?r))) = Some (None, sk_tail s)"
        using skl_forward_spec [OF ok rn, of it] by (auto simp add: seek_view_def)
      moreover have "skl_Next s st it = Some (None, it\<lparr>si_nd := sk_tail s\<rparr>)"
        using nx skl_forward_spec [OF ok, of "Suc i" it] ir rn False by auto
      ultimately show ?thesis using True
        by (subst seek_using_next.simps) (auto simp add: seek_view_def)
    qed
  qed
qed

lemma SeekGE_next_view:
  assumes ok: "skl_ok cmp abk s st L" and at: "iter_at s st L i it" and r: "i \<le> rank (skl_entries s st L) key"
  shows "seek_view (skl_SeekGE s st key True it) = seek_view (skl_SeekGE s st key False it)"
proof -
  let ?r = "rank (skl_entries s st L) key"
  have cs: "sk_cmp s = cmp" "sk_abbreviatedKey s = abk" using ok by (simp_all add: skl_ok_def)
  have seek: "skl_seek s st key it' = skl_forward s st it' (skl_at s L (Suc ?r))" for it'
    using seek_splice(1) [OF ok, of key] cs by (simp add: skl_seek_def)
  have nt: "si_nd it \<noteq> sk_tail s" using at getKey_entry(3) [OF ok, of i] by (auto simp add: iter_at_def skl_at_simps)
  obtain r where r5: "seek_using_next 5 s st key it (cmp (fst (skl_entries s st L ! i)) key < 0) = Some r"
      "case r of Inl res \<Rightarrow> seek_view (Some res) = seek_view (skl_forward s st it (skl_at s L (Suc ?r)))
       | Inr it' \<Rightarrow> si_upper it' = si_upper it"
    using seek_using_next_spec [OF ok at r] by blast
  have "UserKey (si_key it) = fst (skl_entries s st L ! i)" using at by (simp add: iter_at_def)
  then have "skl_SeekGE s st key True it = (case r of Inl res \<Rightarrow> Some res | Inr it1 \<Rightarrow> skl_seek s st key it1)"
    using r5(1) nt cs by (simp add: skl_SeekGE_def)
  moreover have "skl_SeekGE s st key False it = skl_forward s st it (skl_at s L (Suc ?r))"
    using seek by (simp add: skl_SeekGE_def)
  ultimately show ?thesis
  proof (cases r)
    case (Inr it1)
    have "seek_view (skl_forward s st it1 (skl_at s L (Suc ?r))) = seek_view (skl_forward s st it (skl_at s L (Suc ?r)))"
      by (rule forward_view [OF ok seek_splice(2) [OF ok]]) (use r5(2) Inr in simp)
    then show ?thesis
      using Inr \<open>skl_SeekGE s st key True it = _\<close> \<open>skl_SeekGE s st key False it = _\<close> by (simp add: seek)
  qed (use r5(2) in simp)
qed

end

section \<open>The abstract index\<close>

text \<open>\<open>index_rep cmp abk st s es\<close>: over the storage \<open>st\<close> the skiplist holds the entries \<open>es\<close>, in this order.\<close>

definition index_rep ::
    "(bytes \<Rightarrow> bytes \<Rightarrow> int) \<Rightarrow> (bytes \<Rightarrow> u64) \<Rightarrow> bytes \<Rightarrow> Skiplist \<Rightarrow> (bytes \<times> u32) list \<Rightarrow> bool" where
  "index_rep cmp abk st s es \<longleftrightarrow> (\<exists>L. skl_ok cmp abk s st L \<and> skl_entries s st L = es)"

text \<open>Ascending keys, and for one key the newest record first.\<close>

definition newest_sorted :: "(bytes \<Rightarrow> bytes \<Rightarrow> int) \<Rightarrow> (bytes \<times> u32) list \<Rightarrow> bool" where
  "newest_sorted cmp es = sorted_wrt (\<lambda>a b. cmp (fst a) (fst b) < 0 \<or> fst a = fst b \<and> snd b < snd a) es"

lemma mset_insert_newest: "mset (insert_newest cmp e es) = add_mset e (mset es)"
  by (induction es) (auto simp add: insert_newest_def)

lemma bit_batch_seq: "bit InternalKeySeqNumBatch n \<longleftrightarrow> n = 55"
  unfolding InternalKeySeqNumBatch_def by (subst bit_push_bit_iff) (auto simp add: bit_1_iff simp del: push_bit_of_1)

lemma unat_batch_seq: "unat (ucast (off :: u32) OR InternalKeySeqNumBatch) = unat off + 2 ^ 55"
proof -
  have "ucast off OR InternalKeySeqNumBatch = ucast off + InternalKeySeqNumBatch"
    by (rule disjunctive_add [symmetric]) (auto simp add: bit_simps bit_batch_seq dest: bit_imp_le_length)
  moreover have "unat (ucast off :: u64) = unat off" "unat off < 2 ^ 32"
    using unsigned_less [of off, where 'a = nat] by (simp_all add: unsigned_ucast_eq take_bit_nat_eq_self)
  ultimately show ?thesis by (simp add: InternalKeySeqNumBatch_def push_bit_eq_mult unat_word_ariths)
qed

lemma unat_entry_trailer: "unat (Trailer (entry_ikey st e)) = (unat (snd e) + 2 ^ 55) * 256 + unat (st ! unat (snd e))"
proof -
  have "unat (snd e) < 2 ^ 32" using unsigned_less [of "snd e", where 'a = nat] by simp
  then have b: "unat (ucast (snd e) OR InternalKeySeqNumBatch) < 2 ^ 56" unfolding unat_batch_seq by simp
  have "unat (Trailer (entry_ikey st e)) =
      unat (push_bit 8 (ucast (snd e) OR InternalKeySeqNumBatch) OR ucast (st ! unat (snd e)) :: u64)"
    by (simp add: entry_ikey_def MakeInternalKey_def)
  also have "\<dots> = unat (ucast (snd e) OR InternalKeySeqNumBatch) * 256 + unat (st ! unat (snd e))"
    by (rule unat_trailer [OF b])
  finally show ?thesis unfolding unat_batch_seq .
qed

lemma entry_trailer_less: "snd b < snd a \<Longrightarrow> Trailer (entry_ikey st b) < Trailer (entry_ikey st a)"
  using unat_byte [of "st ! unat (snd b)"] unfolding word_less_nat_alt unat_entry_trailer by simp

context key_order
begin

lemma newest_sorted_insert:
  assumes "newest_sorted cmp es" "\<forall>x\<in>set es. snd x < snd e"
  shows "newest_sorted cmp (insert_newest cmp e es)"
proof -
  have f: "cmp (fst x) (fst e) < 0 \<Longrightarrow> \<not> cmp (fst y) (fst e) < 0 \<Longrightarrow> cmp (fst x) (fst y) < 0" for x y
    using cmp_less_trans [of "fst x" "fst e" "fst y"] cmp_swap [of "fst e" "fst y"] by linarith
  have g: "cmp (fst e) k < 0" if "\<not> cmp k (fst e) < 0" "fst e \<noteq> k" for k
    using that cmp_swap [of "fst e" k] cmp_eq [of "fst e" k] by linarith
  show ?thesis
    using assms f unfolding newest_sorted_def insert_newest_def
    by (auto simp add: sorted_wrt_append sorted_wrt_filter intro: g)
qed

lemma newest_sorted_ikeys:
  assumes "newest_sorted cmp es"
  shows "sorted_wrt (\<lambda>a b. InternalCompare cmp a b < 0) (map (entry_ikey st) es)"
  using assms unfolding newest_sorted_def sorted_wrt_map
  by (rule sorted_wrt_mono_rel [rotated]) (auto simp add: InternalCompare_less entry_trailer_less)

end

context abbreviated_order
begin

lemma index_rep_init:
  assumes "NewSkiplist env cmp abk = Some s"
  shows "index_rep cmp abk st s []" "sk_len s = 368"
proof -
  obtain s' where "skl_Init env cmp abk \<lparr>sk_cmp = cmp, sk_abbreviatedKey = abk, sk_nodes = Map.empty, sk_len = 0, sk_cap = 0,
        sk_head = 0, sk_tail = 0, sk_height = 0, sk_rand = 0\<rparr> = Some s'"
      "skl_ok cmp abk s' st (\<lambda>_. [])" "sk_len s' = 2 * node_size maxHeight"
    using skl_Init_ok [of "\<lparr>sk_cmp = cmp, sk_abbreviatedKey = abk, sk_nodes = Map.empty, sk_len = 0, sk_cap = 0,
        sk_head = 0, sk_tail = 0, sk_height = 0, sk_rand = 0\<rparr>" env st] by auto
  then show "index_rep cmp abk st s []" "sk_len s = 368"
    using assms by (auto simp add: NewSkiplist_def index_rep_def skl_entries_def node_size_def maxNodeSize_def)
qed

lemma NewSkiplist_returns: "\<exists>s. NewSkiplist env cmp abk = Some s"
  using skl_Init_ok [of "\<lparr>sk_cmp = cmp, sk_abbreviatedKey = abk, sk_nodes = Map.empty, sk_len = 0, sk_cap = 0,
        sk_head = 0, sk_tail = 0, sk_height = 0, sk_rand = 0\<rparr>" env] by (auto simp add: NewSkiplist_def)

lemma index_rep_add:
  assumes "index_rep cmp abk st s es" "length st < 2 ^ 32" "unat off + 1 \<le> length st" "record_key st (unat off) = Some key"
  obtains (added) s' where "skl_Add env st off s = Some (None, s')"
      "index_rep cmp abk st s' (insert_newest cmp (key, off) es)" "sk_len s' \<le> sk_len s + maxNodeSize"
  | (full) s' where "skl_Add env st off s = Some (Some ErrTooManyRecords, s')" "index_rep cmp abk st s' es"
      "maxNodesSize < sk_len s + maxNodeSize"
proof -
  obtain L where L: "skl_ok cmp abk s st L" "skl_entries s st L = es" using assms(1) by (auto simp add: index_rep_def)
  show thesis
  proof (rule skl_Add_spec [OF L(1) assms(2-4), of env])
    show thesis if "skl_Add env st off s = Some (None, s')" "skl_ok cmp abk s' st L'"
      "skl_entries s' st L' = insert_newest cmp (key, off) (skl_entries s st L)" "sk_len s' \<le> sk_len s + maxNodeSize" for s' L'
      using added [of s'] that L(2) by (auto simp add: index_rep_def)
    show thesis if "skl_Add env st off s = Some (Some ErrTooManyRecords, s')" "skl_ok cmp abk s' st L"
      "skl_entries s' st L = skl_entries s st L" "maxNodesSize < sk_len s + maxNodeSize" for s'
      using full [of s'] that L(2) by (auto simp add: index_rep_def)
  qed
qed

text \<open>The entries survive changes of the storage that keep the bytes of the records.\<close>

lemma index_rep_grow:
  assumes rep: "index_rep cmp abk st s es" and len: "length st \<le> length st'"
    and off: "\<forall>e\<in>set es. b \<le> unat (snd e)" and same: "drop b (take (length st) st') = drop b st"
  shows "index_rep cmp abk st' s es"
proof -
  obtain L where ok: "skl_ok cmp abk s st L" and es: "skl_entries s st L = es" using rep by (auto simp add: index_rep_def)
  have keys: "node_key s st' nd = node_key s st nd \<and> node_ok s st' nd" if nd: "nd \<in> set (L 0)" for nd
  proof -
    obtain n where n: "sk_nodes s nd = Some n" "nd_keyStart n \<le> nd_keyEnd n" "unat (nd_keyEnd n) \<le> length st"
        "nd_offset n < nd_keyStart n" "nd_abbreviatedKey n = sk_abbreviatedKey s (node_key s st nd)"
      using level_nodes [OF ok nd] by (auto simp add: node_ok_def)
    have "(node_key s st nd, nd_offset n) \<in> set es"
      using nd n(1) unfolding es [symmetric] by (auto simp add: skl_entries_def node_off_def intro: rev_image_eqI)
    then have "b \<le> unat (nd_offset n)" using off by fastforce
    then have bk: "b \<le> unat (nd_keyStart n)" using n(4) by (simp add: word_less_nat_alt)
    have "slice i j xs = slice (i - b) (j - b) (drop b (take m xs))" if "b \<le> i" "j \<le> m" for i j m and xs :: bytes
      using that by (simp add: slice_def drop_take min_def)
    from this [OF bk n(3), of st'] this [OF bk n(3), of st] same
    have "node_key s st' nd = node_key s st nd" by (simp add: node_key_def n(1))
    moreover have "unat (nd_keyEnd n) \<le> length st'" using n(3) len by simp
    ultimately show ?thesis using n by (simp add: node_ok_def)
  qed
  have "sorted_wrt (\<lambda>a b. cmp (node_key s st' a) (node_key s st' b) \<le> 0) (L l)" for l
  proof -
    have "set (L l) \<subseteq> set (L 0)" using levels_subset [OF ok, of 0 l] by simp
    then have k: "node_key s st' x = node_key s st x" if "x \<in> set (L l)" for x using keys that by blast
    have "sorted_wrt (\<lambda>a b. cmp (node_key s st a) (node_key s st b) \<le> 0) (L l)" using ok by (simp add: skl_ok_def)
    then show ?thesis by (rule sorted_wrt_mono_rel [rotated]) (simp add: k)
  qed
  then have "skl_ok cmp abk s st' L" using ok keys unfolding skl_ok_def by simp
  moreover have "skl_entries s st' L = es" using es keys by (auto simp add: skl_entries_def)
  ultimately show ?thesis by (auto simp add: index_rep_def)
qed

lemma index_scans:
  assumes "index_rep cmp abk st s es" "length es < fuel"
  shows "skl_scan (skl_Next s st) fuel (skl_First s st it) = Some (map (entry_ikey st) (takeWhile (below cmp (si_upper it)) es))"
    "skl_scan (skl_Prev s st) fuel (skl_Last s st it) = Some (map (entry_ikey st) (takeWhile (above cmp (si_lower it)) (rev es)))"
    "skl_scan (skl_Next s st) fuel (skl_SeekGE s st key False it) =
       Some (map (entry_ikey st) (takeWhile (below cmp (si_upper it)) (filter (\<lambda>e. \<not> cmp (fst e) key < 0) es)))"
    "skl_scan (skl_Prev s st) fuel (skl_SeekLT s st key it) =
       Some (map (entry_ikey st) (takeWhile (above cmp (si_lower it)) (rev (filter (\<lambda>e. cmp (fst e) key < 0) es))))"
proof -
  obtain L where L: "skl_ok cmp abk s st L" "skl_entries s st L = es" "length (L 0) < fuel"
    using assms by (auto simp add: index_rep_def)
  show "skl_scan (skl_Next s st) fuel (skl_First s st it) = Some (map (entry_ikey st) (takeWhile (below cmp (si_upper it)) es))"
    "skl_scan (skl_Prev s st) fuel (skl_Last s st it) = Some (map (entry_ikey st) (takeWhile (above cmp (si_lower it)) (rev es)))"
    "skl_scan (skl_Next s st) fuel (skl_SeekGE s st key False it) =
       Some (map (entry_ikey st) (takeWhile (below cmp (si_upper it)) (filter (\<lambda>e. \<not> cmp (fst e) key < 0) es)))"
    "skl_scan (skl_Prev s st) fuel (skl_SeekLT s st key it) =
       Some (map (entry_ikey st) (takeWhile (above cmp (si_lower it)) (rev (filter (\<lambda>e. cmp (fst e) key < 0) es))))"
    using First_scan [OF L(1,3), of it] Last_scan [OF L(1,3), of it] SeekGE_scan [OF L(1,3), of key it]
      SeekLT_scan [OF L(1,3), of key it] unfolding L(2) by simp_all
qed

end

declare skl_scan.simps(2) [simp del]

lemma unbounded [simp]: "takeWhile (below cmp None) es = es" "takeWhile (above cmp None) es = es"
  by (simp_all add: takeWhile_eq_all_conv below_def above_def)

context abbreviated_order
begin

lemma rank_mono:
  assumes "cmp k1 k2 \<le> 0"
  shows "rank es k1 \<le> rank es k2"
proof -
  have "filter (\<lambda>e. cmp (fst e) k1 < 0) es = filter (\<lambda>e. cmp (fst e) k1 < 0) (filter (\<lambda>e. cmp (fst e) k2 < 0) es)"
    using cmp_less_trans [OF _ assms] by (auto intro: filter_cong)
  then show ?thesis unfolding rank_def by (metis length_filter_le)
qed

lemma index_seek_next:
  assumes rep: "index_rep cmp abk st s es" and k: "cmp k1 k2 \<le> 0"
    and seek: "skl_SeekGE s st k1 False it = Some (Some ik, it1)"
  shows "seek_view (skl_SeekGE s st k2 True it1) = seek_view (skl_SeekGE s st k2 False it1)"
proof -
  obtain L where ok: "skl_ok cmp abk s st L" using rep by (auto simp add: index_rep_def)
  let ?r = "rank (skl_entries s st L) k1"
  have "sk_abbreviatedKey s = abk" using ok by (simp add: skl_ok_def)
  then have "skl_forward s st it (skl_at s L (Suc ?r)) = Some (Some ik, it1)"
    using seek seek_splice(1) [OF ok, of k1] by (simp add: skl_SeekGE_def skl_seek_def)
  then have "iter_at s st L ?r it1"
    using skl_forward_spec [OF ok seek_splice(2) [OF ok], of it k1] by (auto simp add: iter_at_def split: if_splits)
  then show ?thesis using SeekGE_next_view [OF ok] rank_mono [OF k] by blast
qed

end

interpretation abbr: abbreviated_order bytes_compare AbbreviatedKey
  by unfold_locales (rule AbbreviatedKey_mono)

section \<open>The properties of the index\<close>

text \<open>Records added one after the other, with the results of the calls.\<close>

fun skl_adds :: "skl_env \<Rightarrow> bytes \<Rightarrow> u32 list \<Rightarrow> Skiplist \<Rightarrow> (skl_error option list \<times> Skiplist) option" where
  "skl_adds env st [] s = Some ([], s)"
| "skl_adds env st (off # offs) s =
     do { (err, s1) \<leftarrow> skl_Add env st off s;
          (errs, s2) \<leftarrow> skl_adds env st offs s1;
          Some (err # errs, s2) }"

definition index_input :: "bytes \<Rightarrow> u32 list \<Rightarrow> bool" where
  "index_input st offs \<longleftrightarrow>
     length st < 2 ^ 32 \<and> sorted_wrt (<) offs \<and>
     (\<forall>off\<in>set offs. unat off + 1 \<le> length st \<and> record_key st (unat off) \<noteq> None) \<and>
     368 + 184 * length offs \<le> maxNodesSize"

definition index_built :: "skl_env \<Rightarrow> bytes \<Rightarrow> u32 list \<Rightarrow> Skiplist \<Rightarrow> bool" where
  "index_built env st offs s \<longleftrightarrow>
     (\<exists>s0. NewSkiplist env bytes_compare AbbreviatedKey = Some s0 \<and>
        skl_adds env st offs s0 = Some (replicate (length offs) None, s))"

definition record_entry :: "bytes \<Rightarrow> u32 \<Rightarrow> bytes \<times> u32" where
  "record_entry st off = (the (record_key st (unat off)), off)"

lemma skl_adds_spec:
  assumes "index_rep bytes_compare AbbreviatedKey st s es" "newest_sorted bytes_compare es" "length st < 2 ^ 32" "sorted_wrt (<) offs"
    and "\<forall>off\<in>set offs. unat off + 1 \<le> length st \<and> record_key st (unat off) \<noteq> None"
    and "\<forall>e\<in>set es. \<forall>off\<in>set offs. snd e < off" "sk_len s + 184 * length offs \<le> maxNodesSize"
  shows "\<exists>s' es'. skl_adds env st offs s = Some (replicate (length offs) None, s') \<and>
    index_rep bytes_compare AbbreviatedKey st s' es' \<and> newest_sorted bytes_compare es' \<and>
    mset es' = mset es + mset (map (record_entry st) offs)"
  using assms
proof (induction offs arbitrary: s es)
  case (Cons off offs)
  obtain key where key: "record_key st (unat off) = Some key" using Cons.prems(5) by auto
  have off1: "unat off + 1 \<le> length st" using Cons.prems(5) by simp
  obtain s1 where s1: "skl_Add env st off s = Some (None, s1)" "sk_len s1 \<le> sk_len s + maxNodeSize"
      "index_rep bytes_compare AbbreviatedKey st s1 (insert_newest bytes_compare (key, off) es)"
    using abbr.index_rep_add [OF Cons.prems(1,3) off1 key, of env] Cons.prems(7)
    by (auto simp add: maxNodeSize_def)
  let ?es = "insert_newest bytes_compare (key, off) es"
  have so: "newest_sorted bytes_compare ?es" using Cons.prems(2,6) by (intro dflt.newest_sorted_insert) auto
  have set: "set ?es = insert (key, off) (set es)" using arg_cong [OF mset_insert_newest, of set_mset] by simp
  obtain s' es' where r: "skl_adds env st offs s1 = Some (replicate (length offs) None, s')"
      "index_rep bytes_compare AbbreviatedKey st s' es'" "newest_sorted bytes_compare es'"
      "mset es' = mset ?es + mset (map (record_entry st) offs)"
    using Cons.IH [OF s1(3) so Cons.prems(3)] Cons.prems(4-7) s1(2) by (auto simp add: set maxNodeSize_def)
  moreover have "mset es' = mset es + mset (map (record_entry st) (off # offs))"
    using r(4) key by (simp add: mset_insert_newest record_entry_def)
  ultimately show ?case using s1(1) by auto
qed auto

lemma index_built_spec:
  assumes "index_input st offs"
  obtains s es where "index_built env st offs s" "index_rep bytes_compare AbbreviatedKey st s es"
    "newest_sorted bytes_compare es" "mset es = mset (map (record_entry st) offs)"
proof -
  obtain s0 where s0: "NewSkiplist env bytes_compare AbbreviatedKey = Some s0" using abbr.NewSkiplist_returns by blast
  have "newest_sorted bytes_compare []" by (simp add: newest_sorted_def)
  from skl_adds_spec [OF abbr.index_rep_init(1) [OF s0] this, of st offs env] abbr.index_rep_init(2) [OF s0] assms
  show thesis using that s0 unfolding index_input_def index_built_def by auto
qed

lemma index_built_unique: "index_built env st offs s \<Longrightarrow> index_built env st offs s' \<Longrightarrow> s = s'"
  by (auto simp add: index_built_def)

lemma length_record_entries: "mset es = mset (map (record_entry st) offs) \<Longrightarrow> length es = length offs"
  by (metis length_map size_mset)

text \<open>C23. The skiplist of a batch orders its records: adding the offsets of well-formed records of a batch
  of less than 4 GiB, in the order of the records, never panics, wraps or fails as long as the nodes, at
  most 184 bytes each, stay below 4 GiB; whatever the random heights, a scan from the first entry then
  yields every record once, in strictly ascending order of internal keys: ascending user keys, and
  records of one user key from the newest to the oldest.\<close>

theorem batch_index_orders_records:
  assumes "index_input st offs"
  shows "\<exists>s ks. index_built env st offs s \<and>
    skl_scan (skl_Next s st) (length offs + 1) (skl_First s st (skl_NewIter None None)) = Some ks \<and>
    sorted_wrt (\<lambda>a b. InternalCompare bytes_compare a b < 0) ks \<and>
    mset ks = mset (map (\<lambda>off. entry_ikey st (record_entry st off)) offs)"
proof -
  obtain s es where s: "index_built env st offs s" "index_rep bytes_compare AbbreviatedKey st s es"
      "newest_sorted bytes_compare es" "mset es = mset (map (record_entry st) offs)"
    using index_built_spec [OF assms] by blast
  have "skl_scan (skl_Next s st) (length offs + 1) (skl_First s st (skl_NewIter None None)) = Some (map (entry_ikey st) es)"
    using abbr.index_scans(1) [OF s(2), of "length offs + 1" "skl_NewIter None None"] length_record_entries [OF s(4)]
    by (simp add: skl_NewIter_def)
  moreover have "mset (map (entry_ikey st) es) = mset (map (\<lambda>off. entry_ikey st (record_entry st off)) offs)"
    using s(4) by (simp add: image_mset.compositionality comp_def)
  ultimately show ?thesis using s(1) dflt.newest_sorted_ikeys [OF s(3)] by blast
qed

definition index_example :: bytes where
  "index_example = replicate 12 0 @ [1, 1, 98, 1, 120] @ [1, 1, 97, 1, 121] @ [0, 1, 98] @ [1, 2, 97, 99, 0]"

definition index_example_env :: skl_env where
  "index_example_env =
     \<lparr>env_rand = \<lambda>n. of_nat n, env_probabilities = \<lambda>h. of_nat (20 - h), env_links = \<lparr>lk_next = 0, lk_prev = 0\<rparr>\<rparr>"

lemma index_example_input: "index_input index_example [12, 17, 22, 25]"
  by (simp add: index_input_def index_example_def record_key_def Uvarint_def maxNodesSize_def)

lemma example_count: "length [12 :: u32, 17, 22, 25] + 1 = 5"
  by simp

theorem batch_index_orders_records_witness:
  "\<exists>s ks. index_built index_example_env index_example [12, 17, 22, 25] s \<and>
    skl_scan (skl_Next s index_example) 5 (skl_First s index_example (skl_NewIter None None)) = Some ks \<and>
    sorted_wrt (\<lambda>a b. InternalCompare bytes_compare a b < 0) ks \<and> length ks = 4"
proof -
  obtain s ks where "index_built index_example_env index_example [12, 17, 22, 25] s"
      "skl_scan (skl_Next s index_example) 5 (skl_First s index_example (skl_NewIter None None)) = Some ks"
      "sorted_wrt (\<lambda>a b. InternalCompare bytes_compare a b < 0) ks"
      "mset ks = mset (map (\<lambda>off. entry_ikey index_example (record_entry index_example off)) [12, 17, 22, 25])"
    using batch_index_orders_records [OF index_example_input, of index_example_env, unfolded example_count] by blast
  moreover from mset_eq_length [OF this(4)] have "length ks = 4" by simp
  ultimately show ?thesis by blast
qed

text \<open>C24. Seeks on the index of a batch agree with the sorted list of its records: with \<open>ks\<close> the keys of a
  full scan, \<^verbatim>\<open>SeekGE\<close> and \<^verbatim>\<open>Next\<close> yield the keys that are not below the sought one, up to the upper
  bound; \<^verbatim>\<open>SeekLT\<close> and \<^verbatim>\<open>Prev\<close> those below it from the last one down to the lower bound; \<^verbatim>\<open>Last\<close>
  and \<^verbatim>\<open>Prev\<close> all of them backwards; and a \<^verbatim>\<open>SeekGE\<close> that is allowed to try \<^verbatim>\<open>Next\<close> first, after a
  seek to a smaller key, ends at the same key and node as one that is not.\<close>

theorem batch_index_seeks:
  assumes "index_input st offs" "index_built env st offs s"
    and "skl_scan (skl_Next s st) (length offs + 1) (skl_First s st (skl_NewIter None None)) = Some ks"
  shows "skl_scan (skl_Next s st) (length offs + 1) (skl_SeekGE s st key False (skl_NewIter lower upper)) =
      Some (takeWhile (\<lambda>k. \<forall>u. upper = Some u \<longrightarrow> bytes_compare (UserKey k) u < 0)
              (filter (\<lambda>k. 0 \<le> bytes_compare (UserKey k) key) ks)) \<and>
    skl_scan (skl_Prev s st) (length offs + 1) (skl_SeekLT s st key (skl_NewIter lower upper)) =
      Some (takeWhile (\<lambda>k. \<forall>l. lower = Some l \<longrightarrow> bytes_compare l (UserKey k) \<le> 0)
              (rev (filter (\<lambda>k. bytes_compare (UserKey k) key < 0) ks))) \<and>
    skl_scan (skl_Prev s st) (length offs + 1) (skl_Last s st (skl_NewIter None None)) = Some (rev ks) \<and>
    (\<forall>k2 ik it. bytes_compare key k2 \<le> 0 \<longrightarrow>
       skl_SeekGE s st key False (skl_NewIter lower upper) = Some (Some ik, it) \<longrightarrow>
       seek_view (skl_SeekGE s st k2 True it) = seek_view (skl_SeekGE s st k2 False it))"
proof -
  obtain es where es: "index_rep bytes_compare AbbreviatedKey st s es" "mset es = mset (map (record_entry st) offs)"
    using index_built_spec [OF assms(1), of env] index_built_unique [OF assms(2)] by metis
  note sc = abbr.index_scans [OF es(1), of "length offs + 1"] and len = length_record_entries [OF es(2)]
  have ks: "ks = map (entry_ikey st) es"
    using assms(3) sc(1) [of "skl_NewIter None None"] len by (simp add: skl_NewIter_def)
  have b: "below bytes_compare upper = (\<lambda>e. \<forall>u. upper = Some u \<longrightarrow> bytes_compare (UserKey (entry_ikey st e)) u < 0)"
    and a: "above bytes_compare lower = (\<lambda>e. \<forall>l. lower = Some l \<longrightarrow> bytes_compare l (UserKey (entry_ikey st e)) \<le> 0)"
    by (auto simp add: below_def above_def fun_eq_iff split: option.splits)
  have "skl_scan (skl_Next s st) (length offs + 1) (skl_SeekGE s st key False (skl_NewIter lower upper)) =
      Some (takeWhile (\<lambda>k. \<forall>u. upper = Some u \<longrightarrow> bytes_compare (UserKey k) u < 0)
              (filter (\<lambda>k. 0 \<le> bytes_compare (UserKey k) key) ks))"
    using sc(3) [of key "skl_NewIter lower upper"] len
    by (simp add: skl_NewIter_def b ks filter_map takeWhile_map comp_def not_less)
  moreover have "skl_scan (skl_Prev s st) (length offs + 1) (skl_SeekLT s st key (skl_NewIter lower upper)) =
      Some (takeWhile (\<lambda>k. \<forall>l. lower = Some l \<longrightarrow> bytes_compare l (UserKey k) \<le> 0)
              (rev (filter (\<lambda>k. bytes_compare (UserKey k) key < 0) ks)))"
    using sc(4) [of key "skl_NewIter lower upper"] len
    by (simp add: skl_NewIter_def a ks filter_map takeWhile_map comp_def rev_map)
  moreover have "skl_scan (skl_Prev s st) (length offs + 1) (skl_Last s st (skl_NewIter None None)) = Some (rev ks)"
    using sc(2) [of "skl_NewIter None None"] len by (simp add: skl_NewIter_def ks rev_map)
  ultimately show ?thesis using abbr.index_seek_next [OF es(1)] by blast
qed

theorem batch_index_seeks_witness:
  "\<exists>s ks. index_built index_example_env index_example [12, 17, 22, 25] s \<and>
    skl_scan (skl_Next s index_example) 5 (skl_SeekGE s index_example [98] False (skl_NewIter None (Some [99]))) =
      Some (takeWhile (\<lambda>k. \<forall>u. Some [99] = Some u \<longrightarrow> bytes_compare (UserKey k) u < 0)
              (filter (\<lambda>k. 0 \<le> bytes_compare (UserKey k) [98]) ks))"
proof -
  obtain s es where s: "index_built index_example_env index_example [12, 17, 22, 25] s"
      "index_rep bytes_compare AbbreviatedKey index_example s es" "mset es = mset (map (record_entry index_example) [12, 17, 22, 25])"
    using index_built_spec [OF index_example_input] by metis
  have "skl_scan (skl_Next s index_example) (length [12 :: u32, 17, 22, 25] + 1) (skl_First s index_example (skl_NewIter None None)) =
      Some (map (entry_ikey index_example) es)"
    unfolding example_count using abbr.index_scans(1) [OF s(2), of 5 "skl_NewIter None None"] length_record_entries [OF s(3)]
    by (simp add: skl_NewIter_def)
  from batch_index_seeks [OF index_example_input s(1) this, of "[98]" None "Some [99]", unfolded example_count] show ?thesis using s(1) by blast
qed

end
