(* ===== verification/Keyspan.thy ===== *)
theory Keyspan
  imports InternalKey "HOL-Library.Multiset"
begin

text \<open>
  Package \<^verbatim>\<open>internal/keyspan\<close>: spans of keys (\<^verbatim>\<open>span.go\<close>), the fragmenter that splits
  overlapping spans at their overlap points (\<^verbatim>\<open>fragmenter.go\<close>), the iterator over fragmented
  spans with the searches built on it (\<^verbatim>\<open>iter.go\<close>, \<^verbatim>\<open>get.go\<close>, \<^verbatim>\<open>seek.go\<close>) and the
  truncation of a span to bounds (\<^verbatim>\<open>truncate.go\<close>). A nil slice is the empty list.

  Go's \<^verbatim>\<open>sort.Sort\<close> is not stable: what it makes of equal elements is left open. It enters the
  definitions as an argument, and \<open>sorts_by\<close> is what its documentation promises.
\<close>

section \<open>Spans\<close>

datatype KeysOrder = ByTrailerDesc | BySuffixAsc

record Key =
  k_trailer :: u64
  k_suffix :: bytes
  k_value :: bytes

record Span =
  sp_start :: bytes
  sp_end :: bytes
  sp_keys :: "Key list"
  sp_order :: KeysOrder

datatype span_panic =
    PanicNoKeys            \<comment> \<open>span contains no keys\<close>
  | PanicKeysOrder         \<comment> \<open>span's keys unexpectedly not in trailer order\<close>
  | PanicFinished          \<comment> \<open>span fragmenter already finished\<close>
  | PanicFlushedKey        \<comment> \<open>start key < flushed key\<close>
  | PanicNotInOrder        \<comment> \<open>keys must be added in order\<close>
  | PanicUpperTruncated    \<comment> \<open>upper bound should not be truncated\<close>

definition Key_SeqNum :: "Key \<Rightarrow> u64" where
  "Key_SeqNum k = drop_bit 8 (k_trailer k)"

definition Key_VisibleAt :: "u64 \<Rightarrow> Key \<Rightarrow> bool" where
  "Key_VisibleAt snapshot k =
     (let seq = Key_SeqNum k in seq < snapshot \<or> seq AND InternalKeySeqNumBatch \<noteq> 0)"

definition Key_Kind :: "Key \<Rightarrow> kind" where
  "Key_Kind k = ucast (k_trailer k AND 0xff)"

definition Key_Equal :: "(bytes \<Rightarrow> bytes \<Rightarrow> bool) \<Rightarrow> Key \<Rightarrow> Key \<Rightarrow> bool" where
  "Key_Equal equal k b =
     (k_trailer k = k_trailer b \<and> equal (k_suffix k) (k_suffix b) \<and> k_value k = k_value b)"

definition Span_Empty :: "Span \<Rightarrow> bool" where
  "Span_Empty s = (length (sp_keys s) = 0)"

text \<open>The guard of the operations that need the keys in trailer order, and of those that need a key.\<close>

definition need_trailer_order :: "Span \<Rightarrow> span_panic + 'a \<Rightarrow> span_panic + 'a" where
  "need_trailer_order s r = (if sp_order s \<noteq> ByTrailerDesc then Inl PanicKeysOrder else r)"

definition need_keys :: "Span \<Rightarrow> span_panic + 'a \<Rightarrow> span_panic + 'a" where
  "need_keys s r = (if length (sp_keys s) = 0 then Inl PanicNoKeys else need_trailer_order s r)"

definition SmallestKey :: "Span \<Rightarrow> span_panic + InternalKey" where
  "SmallestKey s = need_keys s (Inr \<lparr>UserKey = sp_start s, Trailer = k_trailer (sp_keys s ! 0)\<rparr>)"

definition LargestKey :: "Span \<Rightarrow> span_panic + InternalKey" where
  "LargestKey s =
     need_keys s (Inr (MakeExclusiveSentinelKey (Key_Kind (sp_keys s ! (length (sp_keys s) - 1))) (sp_end s)))"

definition SmallestSeqNum :: "Span \<Rightarrow> span_panic + u64" where
  "SmallestSeqNum s = need_keys s (Inr (Key_SeqNum (sp_keys s ! (length (sp_keys s) - 1))))"

definition LargestSeqNum :: "Span \<Rightarrow> span_panic + u64" where
  "LargestSeqNum s = need_keys s (Inr (Key_SeqNum (sp_keys s ! 0)))"

text \<open>The scan of \<^verbatim>\<open>Visible\<close>: the last index of a batch key and of a key that is not visible, or -1.\<close>

fun visible_scan :: "u64 \<Rightarrow> int \<Rightarrow> Key list \<Rightarrow> int \<Rightarrow> int \<Rightarrow> int \<times> int" where
  "visible_scan snapshot i [] lastBatchIdx lastNonVisibleIdx = (lastBatchIdx, lastNonVisibleIdx)"
| "visible_scan snapshot i (k # ks) lastBatchIdx lastNonVisibleIdx =
     (let seqNum = Key_SeqNum k
      in if seqNum AND InternalKeySeqNumBatch \<noteq> 0 then visible_scan snapshot (i + 1) ks i lastNonVisibleIdx
         else if snapshot \<le> seqNum then visible_scan snapshot (i + 1) ks lastBatchIdx i
         else visible_scan snapshot (i + 1) ks lastBatchIdx lastNonVisibleIdx)"

definition Span_Visible :: "u64 \<Rightarrow> Span \<Rightarrow> span_panic + Span" where
  "Span_Visible snapshot s =
     need_trailer_order s
       (let ret = \<lparr>sp_start = sp_start s, sp_end = sp_end s, sp_keys = [], sp_order = ByTrailerDesc\<rparr>;
            keys = sp_keys s; n = int (length keys);
            (lastBatchIdx, lastNonVisibleIdx) = visible_scan snapshot 0 keys (-1) (-1)
        in if length keys = 0 then Inr ret
           else if lastNonVisibleIdx = -1 then Inr (ret\<lparr>sp_keys := keys\<rparr>)
           else if lastBatchIdx = -1 then Inr (ret\<lparr>sp_keys := drop (nat (lastNonVisibleIdx + 1)) keys\<rparr>)
           else if lastNonVisibleIdx = n - 1 then Inr (ret\<lparr>sp_keys := take (nat (lastBatchIdx + 1)) keys\<rparr>)
           else Inr (ret\<lparr>sp_keys := take (nat (lastBatchIdx + 1)) keys @ drop (nat (lastNonVisibleIdx + 1)) keys\<rparr>))"

definition Span_VisibleAt :: "u64 \<Rightarrow> Span \<Rightarrow> span_panic + bool" where
  "Span_VisibleAt snapshot s =
     need_trailer_order s
       (if length (sp_keys s) = 0 then Inr False
        else if Key_SeqNum (sp_keys s ! 0) AND InternalKeySeqNumBatch \<noteq> 0 then Inr True
        else Inr (Key_SeqNum (sp_keys s ! (length (sp_keys s) - 1)) < snapshot))"

definition Span_Contains :: "(bytes \<Rightarrow> bytes \<Rightarrow> int) \<Rightarrow> bytes \<Rightarrow> Span \<Rightarrow> bool" where
  "Span_Contains cmp key s = (cmp (sp_start s) key \<le> 0 \<and> cmp key (sp_end s) < 0)"

definition Span_Covers :: "u64 \<Rightarrow> Span \<Rightarrow> span_panic + bool" where
  "Span_Covers seqNum s =
     need_trailer_order s (Inr (\<not> Span_Empty s \<and> seqNum < Key_SeqNum (sp_keys s ! 0)))"

fun covers_at :: "u64 \<Rightarrow> u64 \<Rightarrow> Key list \<Rightarrow> bool" where
  "covers_at snapshot seqNum [] = False"
| "covers_at snapshot seqNum (k # ks) =
     (let kseq = Key_SeqNum k
      in if kseq AND InternalKeySeqNumBatch \<noteq> 0 then seqNum < kseq
         else if kseq < snapshot then seqNum < kseq
         else covers_at snapshot seqNum ks)"

definition Span_CoversAt :: "u64 \<Rightarrow> u64 \<Rightarrow> Span \<Rightarrow> span_panic + bool" where
  "Span_CoversAt snapshot seqNum s = need_trailer_order s (Inr (covers_at snapshot seqNum (sp_keys s)))"

section \<open>The fragmenter\<close>

text \<open>\<open>fr_out\<close> is what \<^verbatim>\<open>Emit\<close> was called with, in order.\<close>

record Fragmenter =
  fr_pending :: "Span list"
  fr_flushedKey :: "bytes option"
  fr_finished :: bool
  fr_out :: "Span list"

definition new_Fragmenter :: Fragmenter where
  "new_Fragmenter = \<lparr>fr_pending = [], fr_flushedKey = None, fr_finished = False, fr_out = []\<rparr>"

type_synonym 'a sorter = "'a list \<Rightarrow> 'a list"

definition sorts_by :: "('a \<Rightarrow> 'a \<Rightarrow> bool) \<Rightarrow> 'a sorter \<Rightarrow> bool" where
  "sorts_by lt srt \<longleftrightarrow>
     (\<forall>xs. mset (srt xs) = mset xs \<and> sorted_wrt (\<lambda>a b. \<not> lt b a) (srt xs))"

text \<open>\<^verbatim>\<open>sort.Stable\<close>: equal elements keep their order.\<close>

fun stable_insert :: "('a \<Rightarrow> 'a \<Rightarrow> bool) \<Rightarrow> 'a \<Rightarrow> 'a list \<Rightarrow> 'a list" where
  "stable_insert lt x [] = [x]"
| "stable_insert lt x (y # ys) = (if lt y x then y # stable_insert lt x ys else x # y # ys)"

definition stable_sort :: "('a \<Rightarrow> 'a \<Rightarrow> bool) \<Rightarrow> 'a list \<Rightarrow> 'a list" where
  "stable_sort lt xs = foldr (stable_insert lt) xs []"

definition spansByEndKey_Less :: "(bytes \<Rightarrow> bytes \<Rightarrow> int) \<Rightarrow> Span \<Rightarrow> Span \<Rightarrow> bool" where
  "spansByEndKey_Less cmp a b = (cmp (sp_end a) (sp_end b) < 0)"

definition keysBySeqNumKind_Less :: "Key \<Rightarrow> Key \<Rightarrow> bool" where
  "keysBySeqNumKind_Less a b = (k_trailer b < k_trailer a)"

function flush_loop ::
    "(bytes \<Rightarrow> bytes \<Rightarrow> int) \<Rightarrow> Key sorter \<Rightarrow> Span list \<Rightarrow> bytes option \<Rightarrow> Span list" where
  "flush_loop cmp sortKeys [] lastKey = []"
| "flush_loop cmp sortKeys (b # bs) lastKey =
     (let split = sp_end b;
          remove = 1 + length (filter (\<lambda>s. cmp split (sp_end s) = 0) bs);
          flushBuf = sortKeys (sp_keys b @ concat (map sp_keys bs));
          emitted = \<lparr>sp_start = sp_start b, sp_end = split, sp_keys = flushBuf, sp_order = ByTrailerDesc\<rparr>
      in emitted #
         (if (case lastKey of Some l \<Rightarrow> 0 < cmp split l | None \<Rightarrow> False) then []
          else flush_loop cmp sortKeys (map (\<lambda>s. s\<lparr>sp_start := split\<rparr>) (drop remove (b # bs))) lastKey))"
  by pat_completeness auto
termination
  by (relation "measure (\<lambda>(c, k, buf, l). length buf)") auto

definition fragmenter_flush ::
    "(bytes \<Rightarrow> bytes \<Rightarrow> int) \<Rightarrow> Span sorter \<Rightarrow> Key sorter \<Rightarrow> Span list \<Rightarrow> bytes option \<Rightarrow> Fragmenter \<Rightarrow> Fragmenter" where
  "fragmenter_flush cmp sortSpans sortKeys buf lastKey f =
     f\<lparr>fr_out := fr_out f @ flush_loop cmp sortKeys (sortSpans buf) lastKey\<rparr>"

text \<open>The loop of \<^verbatim>\<open>truncateAndFlush\<close>: the spans, or parts of them, before the key, and those after it.\<close>

fun truncate_pending ::
    "(bytes \<Rightarrow> bytes \<Rightarrow> int) \<Rightarrow> bytes \<Rightarrow> Span list \<Rightarrow> Span list \<Rightarrow> Span list \<Rightarrow> Span list \<times> Span list" where
  "truncate_pending cmp key [] flushed pending = (flushed, pending)"
| "truncate_pending cmp key (s # ss) flushed pending =
     (if cmp key (sp_end s) < 0
      then truncate_pending cmp key ss
             (if cmp (sp_start s) key < 0
              then flushed @ [\<lparr>sp_start = sp_start s, sp_end = key, sp_keys = sp_keys s, sp_order = ByTrailerDesc\<rparr>]
              else flushed)
             (pending @ [\<lparr>sp_start = key, sp_end = sp_end s, sp_keys = sp_keys s, sp_order = ByTrailerDesc\<rparr>])
      else truncate_pending cmp key ss (flushed @ [s]) pending)"

definition truncateAndFlush ::
    "(bytes \<Rightarrow> bytes \<Rightarrow> int) \<Rightarrow> Span sorter \<Rightarrow> Key sorter \<Rightarrow> bytes \<Rightarrow> Fragmenter \<Rightarrow> Fragmenter" where
  "truncateAndFlush cmp sortSpans sortKeys key f =
     (let (flushed, pending) = truncate_pending cmp key (fr_pending f) [] []
      in fragmenter_flush cmp sortSpans sortKeys flushed None
           (f\<lparr>fr_flushedKey := Some key, fr_pending := pending\<rparr>))"

definition Fragmenter_Add ::
    "(bytes \<Rightarrow> bytes \<Rightarrow> int) \<Rightarrow> Span sorter \<Rightarrow> Key sorter \<Rightarrow> Span \<Rightarrow> Fragmenter \<Rightarrow> span_panic + Fragmenter" where
  "Fragmenter_Add cmp sortSpans sortKeys s f =
     (if fr_finished f then Inl PanicFinished
      else if sp_order s \<noteq> ByTrailerDesc then Inl PanicKeysOrder
      else if (case fr_flushedKey f of Some k \<Rightarrow> cmp (sp_start s) k < 0 | None \<Rightarrow> False) then Inl PanicFlushedKey
      else if 0 \<le> cmp (sp_start s) (sp_end s) then Inr f
      else if 0 < length (fr_pending f)
      then let c = cmp (sp_start (fr_pending f ! 0)) (sp_start s)
        in if 0 < c then Inl PanicNotInOrder
           else if c = 0 then Inr (f\<lparr>fr_pending := fr_pending f @ [s]\<rparr>)
           else let f1 = truncateAndFlush cmp sortSpans sortKeys (sp_start s) f
             in Inr (f1\<lparr>fr_pending := fr_pending f1 @ [s]\<rparr>)
      else Inr (f\<lparr>fr_pending := fr_pending f @ [s]\<rparr>))"

datatype Cover = NoCover | CoversInvisibly | CoversVisibly

text \<open>The two loops of \<^verbatim>\<open>Covers\<close>; \<open>Inl\<close> is the return from within the inner one.\<close>

fun covers_keys :: "u64 \<Rightarrow> u64 \<Rightarrow> Key list \<Rightarrow> Cover \<Rightarrow> Cover + Cover" where
  "covers_keys snapshot seqNum [] cover = Inr cover"
| "covers_keys snapshot seqNum (k # ks) cover =
     (let kseq = Key_SeqNum k
      in if seqNum < kseq
         then if kseq < snapshot \<or> kseq AND InternalKeySeqNumBatch \<noteq> 0 then Inl CoversVisibly
              else covers_keys snapshot seqNum ks CoversInvisibly
         else covers_keys snapshot seqNum ks cover)"

fun covers_spans ::
    "(bytes \<Rightarrow> bytes \<Rightarrow> int) \<Rightarrow> bytes \<Rightarrow> u64 \<Rightarrow> u64 \<Rightarrow> Span list \<Rightarrow> Cover \<Rightarrow> Cover" where
  "covers_spans cmp ukey snapshot seqNum [] cover = cover"
| "covers_spans cmp ukey snapshot seqNum (s # ss) cover =
     (if cmp ukey (sp_end s) < 0
      then case covers_keys snapshot seqNum (sp_keys s) cover of
             Inl c \<Rightarrow> c
           | Inr c \<Rightarrow> covers_spans cmp ukey snapshot seqNum ss c
      else covers_spans cmp ukey snapshot seqNum ss cover)"

definition Fragmenter_Covers ::
    "(bytes \<Rightarrow> bytes \<Rightarrow> int) \<Rightarrow> InternalKey \<Rightarrow> u64 \<Rightarrow> Fragmenter \<Rightarrow> span_panic + Cover" where
  "Fragmenter_Covers cmp key snapshot f =
     (if fr_finished f then Inl PanicFinished
      else if length (fr_pending f) = 0 then Inr NoCover
      else if 0 < cmp (sp_start (fr_pending f ! 0)) (UserKey key) then Inl PanicNotInOrder
      else Inr (covers_spans cmp (UserKey key) snapshot (SeqNum key) (fr_pending f) NoCover))"

definition Fragmenter_Empty :: "Fragmenter \<Rightarrow> bool" where
  "Fragmenter_Empty f = (fr_finished f \<or> length (fr_pending f) = 0)"

definition TruncateAndFlushTo ::
    "(bytes \<Rightarrow> bytes \<Rightarrow> int) \<Rightarrow> Span sorter \<Rightarrow> Key sorter \<Rightarrow> bytes \<Rightarrow> Fragmenter \<Rightarrow> span_panic + Fragmenter" where
  "TruncateAndFlushTo cmp sortSpans sortKeys key f =
     (if fr_finished f then Inl PanicFinished
      else if (case fr_flushedKey f of Some k \<Rightarrow> cmp key k < 0 | None \<Rightarrow> False) then Inl PanicFlushedKey
      else if 0 < length (fr_pending f) \<and> 0 < cmp (sp_start (fr_pending f ! 0)) key then Inl PanicNotInOrder
      else if 0 < length (fr_pending f) \<and> cmp (sp_start (fr_pending f ! 0)) key = 0 then Inr f
      else Inr (truncateAndFlush cmp sortSpans sortKeys key f))"

definition Fragmenter_Start :: "Fragmenter \<Rightarrow> bytes option" where
  "Fragmenter_Start f = (if 0 < length (fr_pending f) then Some (sp_start (fr_pending f ! 0)) else None)"

definition Fragmenter_Finish ::
    "(bytes \<Rightarrow> bytes \<Rightarrow> int) \<Rightarrow> Span sorter \<Rightarrow> Key sorter \<Rightarrow> Fragmenter \<Rightarrow> span_panic + Fragmenter" where
  "Fragmenter_Finish cmp sortSpans sortKeys f =
     (if fr_finished f then Inl PanicFinished
      else Inr ((fragmenter_flush cmp sortSpans sortKeys (fr_pending f) None f)\<lparr>fr_finished := True\<rparr>))"

section \<open>Iterating over fragmented spans\<close>

record SpanIter =
  ki_spans :: "Span list"
  ki_index :: int

definition NewIter :: "Span list \<Rightarrow> SpanIter" where
  "NewIter spans = \<lparr>ki_spans = spans, ki_index = -1\<rparr>"

text \<open>The inlined binary search of the seeks: the least index from which on \<open>before\<close> does not hold.\<close>

function span_search :: "(Span \<Rightarrow> bool) \<Rightarrow> Span list \<Rightarrow> nat \<Rightarrow> nat \<Rightarrow> nat" where
  "span_search before spans index upper =
     (if index < upper
      then let h = (index + upper) div 2
        in if before (spans ! h) then span_search before spans (h + 1) upper
           else span_search before spans index h
      else index)"
  by pat_completeness auto
termination
  by (relation "measure (\<lambda>(b, s, i, u). u - i)") auto

declare span_search.simps [simp del]

definition span_at :: "SpanIter \<Rightarrow> Span option" where
  "span_at i =
     (if 0 \<le> ki_index i \<and> ki_index i < int (length (ki_spans i)) then Some (ki_spans i ! nat (ki_index i)) else None)"

definition Iter_SeekGE :: "(bytes \<Rightarrow> bytes \<Rightarrow> int) \<Rightarrow> bytes \<Rightarrow> SpanIter \<Rightarrow> Span option \<times> SpanIter" where
  "Iter_SeekGE cmp key i =
     (let i1 = i\<lparr>ki_index := int (span_search (\<lambda>s. 0 \<le> cmp key (sp_end s)) (ki_spans i) 0 (length (ki_spans i)))\<rparr>
      in (span_at i1, i1))"

definition Iter_SeekLT :: "(bytes \<Rightarrow> bytes \<Rightarrow> int) \<Rightarrow> bytes \<Rightarrow> SpanIter \<Rightarrow> Span option \<times> SpanIter" where
  "Iter_SeekLT cmp key i =
     (let i1 = i\<lparr>ki_index :=
            int (span_search (\<lambda>s. 0 < cmp key (sp_start s)) (ki_spans i) 0 (length (ki_spans i))) - 1\<rparr>
      in (span_at i1, i1))"

definition Iter_First :: "SpanIter \<Rightarrow> Span option \<times> SpanIter" where
  "Iter_First i = (if length (ki_spans i) = 0 then (None, i) else let i1 = i\<lparr>ki_index := 0\<rparr> in (span_at i1, i1))"

definition Iter_Last :: "SpanIter \<Rightarrow> Span option \<times> SpanIter" where
  "Iter_Last i =
     (if length (ki_spans i) = 0 then (None, i)
      else let i1 = i\<lparr>ki_index := int (length (ki_spans i)) - 1\<rparr> in (span_at i1, i1))"

definition Iter_Next :: "SpanIter \<Rightarrow> Span option \<times> SpanIter" where
  "Iter_Next i =
     (if int (length (ki_spans i)) \<le> ki_index i then (None, i)
      else let i1 = i\<lparr>ki_index := ki_index i + 1\<rparr> in (span_at i1, i1))"

definition Iter_Prev :: "SpanIter \<Rightarrow> Span option \<times> SpanIter" where
  "Iter_Prev i =
     (if ki_index i < 0 then (None, i)
      else let i1 = i\<lparr>ki_index := ki_index i - 1\<rparr> in (span_at i1, i1))"

text \<open>\<^verbatim>\<open>Get\<close> and \<^verbatim>\<open>SeekLE\<close> work on any fragment iterator: its methods are arguments.\<close>

definition keyspan_Get ::
    "(bytes \<Rightarrow> bytes \<Rightarrow> int) \<Rightarrow> (bytes \<Rightarrow> 'it \<Rightarrow> Span option \<times> 'it) \<Rightarrow> ('it \<Rightarrow> Span option \<times> 'it) \<Rightarrow>
     bytes \<Rightarrow> 'it \<Rightarrow> Span option \<times> 'it" where
  "keyspan_Get cmp seekLT nxt key it =
     (let (iterSpan, it1) = seekLT key it;
          (candidate, it2) = (case iterSpan of Some s \<Rightarrow> (Some s, it1) | None \<Rightarrow> nxt it1)
      in case candidate of
           None \<Rightarrow> (None, it2)
         | Some s \<Rightarrow>
             if iterSpan = None \<and> cmp key (sp_start s) < 0 then (None, it2)
             else if 0 \<le> cmp key (sp_end s)
             then let (iterSpan2, it3) = nxt it2
               in case iterSpan2 of
                    None \<Rightarrow> (None, it3)
                  | Some s2 \<Rightarrow> if cmp key (sp_start s2) < 0 then (None, it3) else (Some s2, it3)
             else (Some s, it2))"

definition keyspan_SeekLE ::
    "(bytes \<Rightarrow> bytes \<Rightarrow> int) \<Rightarrow> (bytes \<Rightarrow> 'it \<Rightarrow> Span option \<times> 'it) \<Rightarrow> ('it \<Rightarrow> Span option \<times> 'it) \<Rightarrow>
     ('it \<Rightarrow> Span option \<times> 'it) \<Rightarrow> bytes \<Rightarrow> 'it \<Rightarrow> Span option \<times> 'it" where
  "keyspan_SeekLE cmp seekLT nxt prv key it =
     (case seekLT key it of
        (None, it1) \<Rightarrow>
          (case nxt it1 of
             (None, it2) \<Rightarrow> (None, it2)
           | (Some s, it2) \<Rightarrow> if cmp key (sp_start s) < 0 then (None, it2) else (Some s, it2))
      | (Some s, it1) \<Rightarrow>
          if 0 \<le> cmp key (sp_end s)
          then (case nxt it1 of
                  (None, it2) \<Rightarrow> prv it2
                | (Some s2, it2) \<Rightarrow> if cmp key (sp_start s2) < 0 then prv it2 else (Some s2, it2))
          else (Some s, it1))"

section \<open>Truncation\<close>

text \<open>The keys of a span that begins at the end bound: those with a trailer not below the bound's.\<close>

fun keys_above :: "u64 \<Rightarrow> Key list \<Rightarrow> Key list" where
  "keys_above trailer [] = []"
| "keys_above trailer (k # ks) = (if k_trailer k < trailer then [] else k # keys_above trailer ks)"

definition Truncate_span ::
    "(bytes \<Rightarrow> bytes \<Rightarrow> int) \<Rightarrow> bytes \<Rightarrow> bytes \<Rightarrow> InternalKey option \<Rightarrow> InternalKey option \<Rightarrow> bool \<Rightarrow> Span \<Rightarrow>
     span_panic + Span option" where
  "Truncate_span cmp lower upper start_bound end_bound panicOnUpperTruncate s =
     (if (case start_bound of Some k \<Rightarrow> cmp (sp_end s) (UserKey k) \<le> 0 | None \<Rightarrow> False) then Inr None
      else if (case end_bound of Some k \<Rightarrow> 0 < cmp (sp_start s) (UserKey k) | None \<Rightarrow> False) then Inr None
      else let keys = (case end_bound of
                         Some k \<Rightarrow> if cmp (sp_start s) (UserKey k) = 0 then keys_above (Trailer k) (sp_keys s) else sp_keys s
                       | None \<Rightarrow> sp_keys s);
               truncated = (0 < cmp (sp_end s) upper);
               res = \<lparr>sp_start = (if cmp (sp_start s) lower < 0 then lower else sp_start s),
                      sp_end = (if truncated then upper else sp_end s),
                      sp_keys = keys, sp_order = ByTrailerDesc\<rparr>
        in if panicOnUpperTruncate \<and> truncated then Inl PanicUpperTruncated
           else if \<not> Span_Empty res \<and> cmp (sp_start res) (sp_end res) < 0 then Inr (Some res)
           else Inr None)"

end
