(* ===== verification/KeyspanProofs.thy ===== *)
theory KeyspanProofs
  imports Keyspan
begin

text \<open>
  Correctness of the \<^verbatim>\<open>keyspan\<close> package: visibility in a span, the fragmenter (an invariant of
  its state that every operation keeps, and what the fragments it emits hold at each user key), the
  searches over fragmented spans under the contract \<open>fragment_iter\<close> of fragment iterators, and the
  interpretation of that contract for the iterator over a slice.
\<close>

section \<open>Visibility\<close>

text \<open>The keys of a span in their physical order.\<close>

definition trailer_desc :: "Key list \<Rightarrow> bool" where
  "trailer_desc ks = sorted_wrt (\<lambda>a b. k_trailer b \<le> k_trailer a) ks"

text \<open>Sequence numbers have 56 bits, so the batch bit is set exactly on the upper half of them.\<close>

lemma seqnum_bound: "Key_SeqNum k < push_bit 56 1"
proof -
  have "unat (k_trailer k) < 2 ^ 64" using unsigned_less [of "k_trailer k", where 'a = nat] by simp
  then have "unat (k_trailer k) div 2 ^ 8 < 2 ^ 56" by (simp add: less_mult_imp_div_less)
  then show ?thesis by (simp add: Key_SeqNum_def word_less_nat_alt drop_bit_eq_div unat_div)
qed

lemma batch_bit_iff:
  assumes "(x :: u64) < push_bit 56 1"
  shows "x AND InternalKeySeqNumBatch \<noteq> 0 \<longleftrightarrow> push_bit 55 1 \<le> x"
proof -
  have "InternalKeySeqNumBatch = 2 ^ 55"
    by (simp add: InternalKeySeqNumBatch_def)
  then have "x AND InternalKeySeqNumBatch \<noteq> 0 \<longleftrightarrow> bit x 55"
    by (metis and_exp_eq_0_iff_not_bit)
  also have "\<dots> \<longleftrightarrow> bit (unat x) 55" by (simp add: bit_simps)
  also have "\<dots> \<longleftrightarrow> odd (unat x div 2 ^ 55)" by (simp add: bit_iff_odd)
  also have "\<dots> \<longleftrightarrow> 2 ^ 55 \<le> unat x"
  proof -
    have "unat x div 2 ^ 55 < 2" using assms by (simp add: word_less_nat_alt less_mult_imp_div_less)
    then have "unat x div 2 ^ 55 = 0 \<or> unat x div 2 ^ 55 = 1" by linarith
    then show ?thesis by (auto simp add: div_eq_0_iff)
  qed
  also have "\<dots> \<longleftrightarrow> push_bit 55 1 \<le> x" by (simp add: word_le_nat_alt)
  finally show ?thesis .
qed

lemma seqnum_mono: "k_trailer b \<le> k_trailer a \<Longrightarrow> Key_SeqNum b \<le> Key_SeqNum a"
  by (simp add: Key_SeqNum_def word_le_nat_alt drop_bit_eq_div unat_div div_le_mono)

definition batch_key :: "Key \<Rightarrow> bool" where
  "batch_key k = (Key_SeqNum k AND InternalKeySeqNumBatch \<noteq> 0)"

lemma batch_key_mono: "k_trailer b \<le> k_trailer a \<Longrightarrow> batch_key b \<Longrightarrow> batch_key a"
  using seqnum_mono [of b a] by (simp add: batch_key_def batch_bit_iff [OF seqnum_bound])

lemma Key_VisibleAt_iff: "Key_VisibleAt snapshot k \<longleftrightarrow> Key_SeqNum k < snapshot \<or> batch_key k"
  by (simp add: Key_VisibleAt_def batch_key_def Let_def)

text \<open>A span's keys are batch keys, then keys that are not visible, then visible committed keys.\<close>

lemma visible_split:
  assumes "trailer_desc ks"
  obtains bs hs vs where "ks = bs @ hs @ vs" "\<forall>k\<in>set bs. batch_key k"
    "\<forall>k\<in>set hs. \<not> batch_key k \<and> snapshot \<le> Key_SeqNum k"
    "\<forall>k\<in>set vs. \<not> batch_key k \<and> Key_SeqNum k < snapshot"
  using assms
proof (induction ks arbitrary: thesis)
  case Nil
  then show ?case by force
next
  case (Cons k ks)
  have desc: "trailer_desc ks" and le: "\<forall>x\<in>set ks. k_trailer x \<le> k_trailer k"
    using Cons.prems(2) by (simp_all add: trailer_desc_def)
  obtain bs hs vs where s: "ks = bs @ hs @ vs" "\<forall>k\<in>set bs. batch_key k"
      "\<forall>k\<in>set hs. \<not> batch_key k \<and> snapshot \<le> Key_SeqNum k"
      "\<forall>k\<in>set vs. \<not> batch_key k \<and> Key_SeqNum k < snapshot"
    using Cons.IH [OF _ desc] by metis
  consider (b) "batch_key k" | (h) "\<not> batch_key k" "snapshot \<le> Key_SeqNum k"
    | (v) "\<not> batch_key k" "Key_SeqNum k < snapshot" by force
  then show ?case
  proof cases
    case b
    show ?thesis by (rule Cons.prems(1) [of "k # bs" hs vs]) (use b s in auto)
  next
    case h
    have "bs = []" using h s(1,2) le batch_key_mono by (cases bs) auto
    then show ?thesis by (intro Cons.prems(1) [of "[]" "k # hs" vs]) (use h s in auto)
  next
    case v
    have "bs = []" using v s(1,2) le batch_key_mono by (cases bs) auto
    moreover have "hs = []"
    proof (cases hs)
      case (Cons x xs)
      then have "Key_SeqNum x \<le> Key_SeqNum k" using le s(1) seqnum_mono by auto
      then show ?thesis using v s(3) Cons by force
    qed simp
    ultimately show ?thesis by (intro Cons.prems(1) [of "[]" "[]" "k # vs"]) (use v s in auto)
  qed
qed

lemma visible_scan_append:
  "visible_scan snapshot i (xs @ ys) lb ln =
     (case visible_scan snapshot i xs lb ln of (lb1, ln1) \<Rightarrow> visible_scan snapshot (i + int (length xs)) ys lb1 ln1)"
  by (induction xs arbitrary: i lb ln) (simp_all add: Let_def add.assoc)

lemma visible_scan_batch:
  "\<forall>k\<in>set bs. batch_key k \<Longrightarrow>
   visible_scan snapshot i bs lb ln = (if bs = [] then lb else i + int (length bs) - 1, ln)"
  by (induction bs arbitrary: i lb) (auto simp add: Let_def batch_key_def)

lemma visible_scan_hidden:
  "\<forall>k\<in>set hs. \<not> batch_key k \<and> snapshot \<le> Key_SeqNum k \<Longrightarrow>
   visible_scan snapshot i hs lb ln = (lb, if hs = [] then ln else i + int (length hs) - 1)"
  by (induction hs arbitrary: i ln) (auto simp add: Let_def batch_key_def)

lemma visible_scan_visible:
  "\<forall>k\<in>set vs. \<not> batch_key k \<and> Key_SeqNum k < snapshot \<Longrightarrow> visible_scan snapshot i vs lb ln = (lb, ln)"
  by (induction vs arbitrary: i) (auto simp add: Let_def batch_key_def)

lemma filter_visible:
  assumes "\<forall>k\<in>set bs. batch_key k" "\<forall>k\<in>set hs. \<not> batch_key k \<and> snapshot \<le> Key_SeqNum k"
    "\<forall>k\<in>set vs. \<not> batch_key k \<and> Key_SeqNum k < snapshot"
  shows "filter (Key_VisibleAt snapshot) (bs @ hs @ vs) = bs @ vs"
proof -
  have "filter (Key_VisibleAt snapshot) bs = bs" "filter (Key_VisibleAt snapshot) vs = vs"
    using assms(1,3) by (simp_all add: Key_VisibleAt_iff)
  moreover have "filter (Key_VisibleAt snapshot) hs = []"
    using assms(2) by (auto simp add: Key_VisibleAt_iff filter_empty_conv not_less)
  ultimately show ?thesis by simp
qed

lemma Span_Visible_filter:
  assumes "sp_order s = ByTrailerDesc" "trailer_desc (sp_keys s)"
  shows "Span_Visible snapshot s = Inr (s\<lparr>sp_keys := filter (Key_VisibleAt snapshot) (sp_keys s)\<rparr>)"
proof -
  obtain bs hs vs where s: "sp_keys s = bs @ hs @ vs" and c: "\<forall>k\<in>set bs. batch_key k"
      "\<forall>k\<in>set hs. \<not> batch_key k \<and> snapshot \<le> Key_SeqNum k"
      "\<forall>k\<in>set vs. \<not> batch_key k \<and> Key_SeqNum k < snapshot"
    using visible_split [OF assms(2)] by metis
  have "visible_scan snapshot 0 (bs @ hs @ vs) (-1) (-1) =
      (if bs = [] then -1 else int (length bs) - 1, if hs = [] then -1 else int (length bs) + int (length hs) - 1)"
    using c by (simp add: visible_scan_append visible_scan_batch visible_scan_hidden visible_scan_visible)
  moreover obtain a b where
      "s = \<lparr>sp_start = a, sp_end = b, sp_keys = bs @ hs @ vs, sp_order = ByTrailerDesc\<rparr>"
    using s assms(1) by (cases s) simp
  moreover have "hs \<noteq> [] \<Longrightarrow> int (length bs) + int (length hs) \<noteq> 0" by (cases hs) auto
  ultimately show ?thesis
    using filter_visible [OF c]
    by (auto simp add: Span_Visible_def need_trailer_order_def Let_def nat_add_distrib)
qed

lemma covers_at_iff:
  assumes "trailer_desc ks"
  shows "covers_at snapshot seqNum ks \<longleftrightarrow> (\<exists>k\<in>set ks. Key_VisibleAt snapshot k \<and> seqNum < Key_SeqNum k)"
  using assms
proof (induction ks)
  case (Cons k ks)
  have le: "\<forall>x\<in>set ks. Key_SeqNum x \<le> Key_SeqNum k" and d: "trailer_desc ks"
    using Cons.prems seqnum_mono by (auto simp add: trailer_desc_def)
  show ?case
    using Cons.IH [OF d] le by (auto simp add: Let_def Key_VisibleAt_def dest: order.strict_trans2)
qed simp

lemma Span_VisibleAt_iff:
  assumes "sp_order s = ByTrailerDesc" "trailer_desc (sp_keys s)"
  shows "Span_VisibleAt snapshot s = Inr (\<exists>k\<in>set (sp_keys s). Key_VisibleAt snapshot k)"
proof (cases "sp_keys s = []")
  case False
  let ?l = "last (sp_keys s)" and ?f = "hd (sp_keys s)"
  have ends: "sp_keys s ! 0 = ?f" "sp_keys s ! (length (sp_keys s) - 1) = ?l"
    using False by (simp_all add: hd_conv_nth last_conv_nth)
  have mem: "?f \<in> set (sp_keys s)" "?l \<in> set (sp_keys s)" using False by auto
  have first: "k_trailer k \<le> k_trailer ?f" if "k \<in> set (sp_keys s)" for k
    using that assms(2) False by (cases "sp_keys s") (auto simp add: trailer_desc_def)
  have lst: "k_trailer ?l \<le> k_trailer k" if "k \<in> set (sp_keys s)" for k
    using that assms(2) False
    by (cases "sp_keys s" rule: rev_cases) (auto simp add: trailer_desc_def sorted_wrt_append)
  have "(\<exists>k\<in>set (sp_keys s). Key_VisibleAt snapshot k) \<longleftrightarrow> batch_key ?f \<or> Key_SeqNum ?l < snapshot"
  proof
    assume "\<exists>k\<in>set (sp_keys s). Key_VisibleAt snapshot k"
    then obtain k where k: "k \<in> set (sp_keys s)" "Key_SeqNum k < snapshot \<or> batch_key k"
      by (auto simp add: Key_VisibleAt_iff)
    then show "batch_key ?f \<or> Key_SeqNum ?l < snapshot"
      using batch_key_mono [OF first [OF k(1)]] seqnum_mono [OF lst [OF k(1)]] by auto
  next
    assume "batch_key ?f \<or> Key_SeqNum ?l < snapshot"
    then show "\<exists>k\<in>set (sp_keys s). Key_VisibleAt snapshot k"
      using mem by (auto simp add: Key_VisibleAt_iff)
  qed
  then show ?thesis
    using assms(1) False ends by (simp add: Span_VisibleAt_def need_trailer_order_def batch_key_def)
qed (use assms in \<open>simp add: Span_VisibleAt_def need_trailer_order_def\<close>)

section \<open>Fragmenting\<close>

text \<open>The keys that apply at a user key, and what it means for spans to be fragmented.\<close>

definition keys_at :: "(bytes \<Rightarrow> bytes \<Rightarrow> int) \<Rightarrow> Span list \<Rightarrow> bytes \<Rightarrow> Key multiset" where
  "keys_at cmp ss u = mset (concat (map sp_keys (filter (Span_Contains cmp u) ss)))"

definition fragmented :: "(bytes \<Rightarrow> bytes \<Rightarrow> int) \<Rightarrow> Span list \<Rightarrow> bool" where
  "fragmented cmp ss \<longleftrightarrow>
     sorted_wrt (\<lambda>a b. cmp (sp_end a) (sp_start b) \<le> 0) ss \<and>
     (\<forall>s\<in>set ss. cmp (sp_start s) (sp_end s) < 0)"

text \<open>What every emitted span satisfies.\<close>

definition emitted_ok :: "Span \<Rightarrow> bool" where
  "emitted_ok s \<longleftrightarrow> sp_order s = ByTrailerDesc \<and> trailer_desc (sp_keys s)"

lemma keys_at_simps [simp]:
  "keys_at cmp [] u = {#}"
  "keys_at cmp (s # ss) u = (if Span_Contains cmp u s then mset (sp_keys s) else {#}) + keys_at cmp ss u"
  "keys_at cmp (ss @ ss') u = keys_at cmp ss u + keys_at cmp ss' u"
  by (simp_all add: keys_at_def)

lemma keys_at_mset: "mset ss = mset ss' \<Longrightarrow> keys_at cmp ss u = keys_at cmp ss' u"
proof -
  have e: "keys_at cmp xs u = \<Sum>\<^sub># (image_mset (\<lambda>s. mset (sp_keys s)) (filter_mset (Span_Contains cmp u) (mset xs)))" for xs
    by (induction xs) auto
  show "mset ss = mset ss' \<Longrightarrow> keys_at cmp ss u = keys_at cmp ss' u" by (simp add: e)
qed

lemma keys_at_none: "\<forall>s\<in>set ss. \<not> Span_Contains cmp u s \<Longrightarrow> keys_at cmp ss u = {#}"
  by (induction ss) auto

lemma keys_at_all:
  "\<forall>s\<in>set ss. Span_Contains cmp u s \<Longrightarrow> keys_at cmp ss u = mset (concat (map sp_keys ss))"
  by (induction ss) auto

lemma keys_at_cong:
  "list_all2 (\<lambda>a b. sp_keys a = sp_keys b \<and> Span_Contains cmp u a = Span_Contains cmp u b) ss ss' \<Longrightarrow>
   keys_at cmp ss u = keys_at cmp ss' u"
  by (induction rule: list_all2_induct) auto

lemma sorts_byD:
  assumes "sorts_by lt srt"
  shows "mset (srt xs) = mset xs" "set (srt xs) = set xs" "sorted_wrt (\<lambda>a b. \<not> lt b a) (srt xs)"
  using assms by (auto simp add: sorts_by_def dest: mset_eq_setD)

context key_order
begin

abbreviation "lt a b \<equiv> cmp a b < 0"
abbreviation "le a b \<equiv> cmp a b \<le> 0"

lemma not_lt: "\<not> lt a b \<longleftrightarrow> le b a"
  using cmp_swap [of a b] by auto

lemma zero_le_cmp: "0 \<le> cmp a b \<longleftrightarrow> le b a"
  using cmp_swap [of a b] by auto

lemma le_total: "le a b \<or> lt b a"
  using cmp_swap [of a b] by auto

lemma Contains_iff: "Span_Contains cmp u s \<longleftrightarrow> le (sp_start s) u \<and> lt u (sp_end s)"
  by (simp add: Span_Contains_def)

text \<open>The buffer of a flush: spans with a common start, in the order of their ends.\<close>

definition flush_buf :: "bytes \<Rightarrow> Span list \<Rightarrow> bool" where
  "flush_buf x buf \<longleftrightarrow>
     sorted_wrt (\<lambda>a b. le (sp_end a) (sp_end b)) buf \<and>
     (\<forall>s\<in>set buf. sp_start s = x \<and> lt x (sp_end s))"

lemma drop_ending:
  assumes "sorted_wrt (\<lambda>a b. le (sp_end a) (sp_end b)) bs" "\<forall>s\<in>set bs. le split (sp_end s)"
  shows "drop (length (filter (\<lambda>s. cmp split (sp_end s) = 0) bs)) bs = filter (\<lambda>s. sp_end s \<noteq> split) bs"
  using assms
proof (induction bs)
  case (Cons b bs)
  show ?case
  proof (cases "sp_end b = split")
    case True
    then show ?thesis using Cons by simp
  next
    case False
    have lt: "lt split (sp_end b)" using False Cons.prems(2) cmp_eq [of split "sp_end b"] by auto
    have "lt split (sp_end s)" if "s \<in> set bs" for s
      using cmp_less_trans [OF lt] Cons.prems(1) that by simp
    then have "filter (\<lambda>s. cmp split (sp_end s) = 0) (b # bs) = []"
      "filter (\<lambda>s. sp_end s \<noteq> split) (b # bs) = b # bs"
      using lt by (fastforce simp add: filter_empty_conv filter_id_conv)+
    then show ?thesis by simp
  qed
qed simp

lemma flush_loop_Nil_Cons:
  assumes "flush_buf x (b # bs)"
  shows "flush_loop cmp sortKeys (b # bs) None =
    \<lparr>sp_start = x, sp_end = sp_end b, sp_keys = sortKeys (sp_keys b @ concat (map sp_keys bs)), sp_order = ByTrailerDesc\<rparr> #
    flush_loop cmp sortKeys (map (\<lambda>s. s\<lparr>sp_start := sp_end b\<rparr>) (filter (\<lambda>s. sp_end s \<noteq> sp_end b) bs)) None"
  using assms drop_ending [of bs "sp_end b"] by (simp add: flush_buf_def Let_def)

lemma flush_buf_rest:
  assumes "flush_buf x (b # bs)"
  shows "flush_buf (sp_end b) (map (\<lambda>s. s\<lparr>sp_start := sp_end b\<rparr>) (filter (\<lambda>s. sp_end s \<noteq> sp_end b) bs))"
proof -
  have "lt (sp_end b) (sp_end s)" if "s \<in> set bs" "sp_end s \<noteq> sp_end b" for s
    using assms that cmp_eq [of "sp_end b" "sp_end s"] by (force simp add: flush_buf_def)
  then show ?thesis
    using assms by (auto simp add: flush_buf_def sorted_wrt_map sorted_wrt_filter)
qed

lemma keys_at_rest:
  assumes "flush_buf x (b # bs)" "le (sp_end b) u"
  shows "keys_at cmp (map (\<lambda>s. s\<lparr>sp_start := sp_end b\<rparr>) (filter (\<lambda>s. sp_end s \<noteq> sp_end b) bs)) u =
    keys_at cmp (b # bs) u"
proof -
  have x: "lt x (sp_end b)" "\<forall>s\<in>set bs. sp_start s = x" using assms(1) by (auto simp add: flush_buf_def)
  have xu: "le x u" using x(1) assms(2) cmp_less_trans by (meson less_imp_le)
  have nb: "\<not> lt u (sp_end b)" using assms(2) by (simp add: not_lt)
  have "keys_at cmp (map (\<lambda>s. s\<lparr>sp_start := sp_end b\<rparr>) (filter (\<lambda>s. sp_end s \<noteq> sp_end b) bs)) u = keys_at cmp bs u"
    using x(2) xu assms(2) nb by (induction bs) (auto simp add: Contains_iff)
  then show ?thesis using nb by (simp add: Contains_iff)
qed

lemma flush_step_keys:
  assumes fb: "flush_buf x (b # bs)" and starts: "\<forall>s\<in>set out. le (sp_end b) (sp_start s)"
    and ks: "mset ks = mset (sp_keys b @ concat (map sp_keys bs))"
    and rest: "le (sp_end b) u \<Longrightarrow> keys_at cmp out u = keys_at cmp (b # bs) u"
  shows "keys_at cmp (\<lparr>sp_start = x, sp_end = sp_end b, sp_keys = ks, sp_order = ord\<rparr> # out) u = keys_at cmp (b # bs) u"
proof (cases "lt u (sp_end b)")
  case True
  have "\<not> Span_Contains cmp u s" if "s \<in> set out" for s
  proof -
    have "lt u (sp_start s)" using cmp_less_trans [OF True] starts that by blast
    then show ?thesis using not_lt [of u "sp_start s"] by (auto simp add: Contains_iff)
  qed
  then have out: "keys_at cmp out u = {#}" by (intro keys_at_none) blast
  show ?thesis
  proof (cases "le x u")
    case le: True
    have "Span_Contains cmp u s" if "s \<in> set (b # bs)" for s
    proof -
      have "le (sp_end b) (sp_end s)" "sp_start s = x" using fb that by (auto simp add: flush_buf_def)
      then show ?thesis using cmp_less_trans [OF True] le by (simp add: Contains_iff)
    qed
    then have "keys_at cmp (b # bs) u = mset (concat (map sp_keys (b # bs)))" by (intro keys_at_all) blast
    then show ?thesis using out ks le True by (simp add: Contains_iff)
  next
    case False
    then have "\<forall>s\<in>set (b # bs). \<not> Span_Contains cmp u s" using fb by (auto simp add: Contains_iff flush_buf_def)
    then show ?thesis using keys_at_none [of "b # bs" cmp u] out False by (simp add: Contains_iff)
  qed
next
  case False
  then show ?thesis using rest not_lt [of u "sp_end b"] by (simp add: Contains_iff)
qed

lemma flush_loop_correct:
  assumes "sorts_by keysBySeqNumKind_Less sortKeys" "flush_buf x buf"
  shows "(\<forall>u. keys_at cmp (flush_loop cmp sortKeys buf None) u = keys_at cmp buf u) \<and>
    fragmented cmp (flush_loop cmp sortKeys buf None) \<and>
    (\<forall>s\<in>set (flush_loop cmp sortKeys buf None).
       emitted_ok s \<and> le x (sp_start s) \<and> sp_end s \<in> sp_end ` set buf)"
  using assms(2)
proof (induction "length buf" arbitrary: buf x rule: less_induct)
  case less
  show ?case
  proof (cases buf)
    case Nil
    then show ?thesis by (simp add: fragmented_def)
  next
    case (Cons b bs)
    define rest where "rest = map (\<lambda>s. s\<lparr>sp_start := sp_end b\<rparr>) (filter (\<lambda>s. sp_end s \<noteq> sp_end b) bs)"
    define out where "out = flush_loop cmp sortKeys rest None"
    define e where "e = \<lparr>sp_start = x, sp_end = sp_end b, sp_keys = sortKeys (sp_keys b @ concat (map sp_keys bs)),
      sp_order = ByTrailerDesc\<rparr>"
    have fb: "flush_buf x (b # bs)" using less.prems Cons by simp
    have eq: "flush_loop cmp sortKeys buf None = e # out"
      using flush_loop_Nil_Cons [OF fb] Cons by (simp add: e_def out_def rest_def)
    have "length rest < length buf" by (simp add: rest_def Cons le_imp_less_Suc)
    note IH = less.hyps [OF this flush_buf_rest [OF fb, folded rest_def], folded out_def]
    have xb: "lt x (sp_end b)" using fb by (simp add: flush_buf_def)
    have starts: "\<forall>s\<in>set out. le (sp_end b) (sp_start s)" using IH by blast
    have keys: "keys_at cmp (e # out) u = keys_at cmp buf u" for u
      unfolding e_def Cons
    proof (rule flush_step_keys [OF fb starts])
      show "mset (sortKeys (sp_keys b @ concat (map sp_keys bs))) = mset (sp_keys b @ concat (map sp_keys bs))"
        by (rule sorts_byD(1) [OF assms(1)])
      show "keys_at cmp out u = keys_at cmp (b # bs) u" if "le (sp_end b) u"
        using IH keys_at_rest [OF fb that] by (simp add: rest_def)
    qed
    have frag: "fragmented cmp (e # out)"
      using IH xb starts by (simp add: fragmented_def e_def)
    have ok: "emitted_ok e"
      using sorts_byD(3) [OF assms(1), of "sp_keys b @ concat (map sp_keys bs)"]
      by (simp add: e_def emitted_ok_def trailer_desc_def keysBySeqNumKind_Less_def not_less)
    have rest_ends: "sp_end ` set rest \<subseteq> sp_end ` set buf" by (auto simp add: rest_def Cons)
    have "emitted_ok s \<and> le x (sp_start s) \<and> sp_end s \<in> sp_end ` set buf" if "s \<in> set out" for s
    proof -
      have "le x (sp_start s)" using cmp_less_trans [OF xb] starts that by fastforce
      then show ?thesis using IH rest_ends that by blast
    qed
    then show ?thesis using keys frag ok by (simp add: eq) (simp add: e_def Cons)
  qed
qed

end

text \<open>The operations a caller interleaves, with the key each is at, and the spans they add.\<close>

datatype frag_op = FragAdd Span | FragFlushTo bytes

fun frag_key :: "frag_op \<Rightarrow> bytes" where
  "frag_key (FragAdd s) = sp_start s"
| "frag_key (FragFlushTo key) = key"

fun frag_run ::
    "(bytes \<Rightarrow> bytes \<Rightarrow> int) \<Rightarrow> Span sorter \<Rightarrow> Key sorter \<Rightarrow> frag_op list \<Rightarrow> Fragmenter \<Rightarrow> span_panic + Fragmenter" where
  "frag_run cmp sortSpans sortKeys [] f = Fragmenter_Finish cmp sortSpans sortKeys f"
| "frag_run cmp sortSpans sortKeys (FragAdd s # ops) f =
     rbind (Fragmenter_Add cmp sortSpans sortKeys s f) (frag_run cmp sortSpans sortKeys ops)"
| "frag_run cmp sortSpans sortKeys (FragFlushTo key # ops) f =
     rbind (TruncateAndFlushTo cmp sortSpans sortKeys key f) (frag_run cmp sortSpans sortKeys ops)"

fun added_spans :: "frag_op list \<Rightarrow> Span list" where
  "added_spans [] = []"
| "added_spans (FragAdd s # ops) = s # added_spans ops"
| "added_spans (FragFlushTo key # ops) = added_spans ops"

fun flush_keys :: "frag_op list \<Rightarrow> bytes list" where
  "flush_keys [] = []"
| "flush_keys (FragAdd s # ops) = flush_keys ops"
| "flush_keys (FragFlushTo key # ops) = key # flush_keys ops"

context key_order
begin

text \<open>
  The invariant: the spans \<open>added\<close> so far are the emitted fragments and the pending spans, which
  share a start that no emitted fragment reaches beyond; nothing crosses the keys \<open>cuts\<close> flushed to;
  \<open>hi\<close> bounds the keys of the operations so far.
\<close>

definition frag_inv :: "Span list \<Rightarrow> bytes list \<Rightarrow> bytes \<Rightarrow> Fragmenter \<Rightarrow> bool" where
  "frag_inv added cuts hi f \<longleftrightarrow>
     \<not> fr_finished f \<and> fragmented cmp (fr_out f) \<and> (\<forall>s\<in>set (fr_out f). emitted_ok s) \<and>
     (\<forall>u. keys_at cmp (fr_out f) u + keys_at cmp (fr_pending f) u = keys_at cmp added u) \<and>
     (\<forall>s\<in>set (fr_pending f). lt (sp_start s) (sp_end s) \<and> le (sp_start s) hi) \<and>
     (\<exists>x. \<forall>s\<in>set (fr_pending f). sp_start s = x) \<and>
     (case fr_flushedKey f of None \<Rightarrow> True | Some k \<Rightarrow> le k hi) \<and>
     (\<forall>s\<in>set (fr_out f). le (sp_end s) hi \<and> (\<forall>p\<in>set (fr_pending f). le (sp_end s) (sp_start p))) \<and>
     (\<forall>k\<in>set cuts. le k hi \<and> (\<forall>s\<in>set (fr_out f). le (sp_end s) k \<or> le k (sp_start s)) \<and>
        (\<forall>p\<in>set (fr_pending f). le k (sp_start p)))"

lemma truncate_pending_eq:
  assumes "\<forall>s\<in>set ss. lt (sp_start s) key"
  shows "truncate_pending cmp key ss ds ps =
    (ds @ map (\<lambda>s. if lt key (sp_end s) then s\<lparr>sp_end := key, sp_order := ByTrailerDesc\<rparr> else s) ss,
     ps @ map (\<lambda>s. s\<lparr>sp_start := key, sp_order := ByTrailerDesc\<rparr>) (filter (\<lambda>s. lt key (sp_end s)) ss))"
  using assms by (induction ss arbitrary: ds ps) (auto simp add: Span.defs)

lemma truncate_keys_at:
  assumes "\<forall>s\<in>set ss. lt (sp_start s) key"
  shows "keys_at cmp (map (\<lambda>s. if lt key (sp_end s) then s\<lparr>sp_end := key, sp_order := ByTrailerDesc\<rparr> else s) ss) u +
    keys_at cmp (map (\<lambda>s. s\<lparr>sp_start := key, sp_order := ByTrailerDesc\<rparr>) (filter (\<lambda>s. lt key (sp_end s)) ss)) u =
    keys_at cmp ss u"
  using assms
proof (induction ss)
  case (Cons s ss)
  have sk: "lt (sp_start s) key" using Cons.prems by simp
  have "le (sp_start s) u" if "le key u" using cmp_less_trans [OF sk that] by simp
  moreover have "lt u (sp_end s)" if "lt u key" "lt key (sp_end s)" using cmp_less_trans [OF that(1)] that(2) by simp
  moreover have "le key u \<longleftrightarrow> \<not> lt u key" by (simp add: not_lt)
  ultimately show ?case using Cons by (auto simp add: Contains_iff add.assoc add.left_commute)
qed simp

lemma truncateAndFlush_inv:
  assumes inv: "frag_inv added cuts hi f" and sk: "sorts_by keysBySeqNumKind_Less sortKeys"
    and ss: "sorts_by (spansByEndKey_Less cmp) sortSpans"
    and pend: "\<forall>p\<in>set (fr_pending f). lt (sp_start p) key" and hi: "le hi key"
  shows "frag_inv added (key # cuts) key (truncateAndFlush cmp sortSpans sortKeys key f)"
    and "\<forall>p\<in>set (fr_pending (truncateAndFlush cmp sortSpans sortKeys key f)). sp_start p = key"
proof -
  define ds where "ds = map (\<lambda>s. if lt key (sp_end s) then s\<lparr>sp_end := key, sp_order := ByTrailerDesc\<rparr> else s) (fr_pending f)"
  define ps where "ps = map (\<lambda>s. s\<lparr>sp_start := key, sp_order := ByTrailerDesc\<rparr>) (filter (\<lambda>s. lt key (sp_end s)) (fr_pending f))"
  define out where "out = flush_loop cmp sortKeys (sortSpans ds) None"
  have res: "truncateAndFlush cmp sortSpans sortKeys key f =
      f\<lparr>fr_flushedKey := Some key, fr_pending := ps, fr_out := fr_out f @ out\<rparr>"
    using truncate_pending_eq [OF pend, of "[]" "[]"]
    by (simp add: truncateAndFlush_def fragmenter_flush_def ds_def ps_def out_def)
  note I = inv [unfolded frag_inv_def]
  obtain x where "\<forall>s\<in>set (fr_pending f). sp_start s = x" using I by blast
  moreover have "\<forall>s\<in>set (fr_pending f). lt (sp_start s) (sp_end s)" using I by blast
  ultimately have x: "\<forall>s\<in>set (fr_pending f). sp_start s = x \<and> lt x (sp_end s) \<and> lt x key"
    using pend by auto
  have fb: "flush_buf x (sortSpans ds)"
  proof -
    have "sorted_wrt (\<lambda>a b. le (sp_end a) (sp_end b)) (sortSpans ds)"
      using sorts_byD(3) [OF ss, of ds] by (simp add: spansByEndKey_Less_def not_lt)
    moreover have "\<forall>s\<in>set ds. sp_start s = x \<and> lt x (sp_end s)" using x by (auto simp add: ds_def)
    ultimately show ?thesis by (simp add: flush_buf_def sorts_byD(2) [OF ss])
  qed
  note fl = flush_loop_correct [OF sk fb, folded out_def]
  have ends: "le (sp_end s) key" if "s \<in> set out" for s
  proof -
    have "sp_end s \<in> sp_end ` set ds" using fl that by (simp add: sorts_byD(2) [OF ss])
    then show ?thesis by (auto simp add: ds_def not_lt)
  qed
  show p: "\<forall>p\<in>set (fr_pending (truncateAndFlush cmp sortSpans sortKeys key f)). sp_start p = key"
    by (auto simp add: res ps_def)
  have sep: "\<exists>p\<in>set (fr_pending f). le (sp_start p) (sp_start s')" if "s' \<in> set out" for s'
  proof -
    have "ds \<noteq> []" using fl that by (auto simp add: sorts_byD(2) [OF ss])
    then obtain p where "p \<in> set (fr_pending f)" by (cases "fr_pending f") (auto simp add: ds_def)
    then show ?thesis using x fl that by auto
  qed
  have old: "fragmented cmp (fr_out f)" "\<forall>s\<in>set (fr_out f). emitted_ok s"
    "\<forall>s\<in>set (fr_out f). le (sp_end s) hi \<and> (\<forall>p\<in>set (fr_pending f). le (sp_end s) (sp_start p))"
    "\<not> fr_finished f"
    "\<forall>k\<in>set cuts. le k hi \<and> (\<forall>s\<in>set (fr_out f). le (sp_end s) k \<or> le k (sp_start s)) \<and> (\<forall>p\<in>set (fr_pending f). le k (sp_start p))"
    "\<forall>u. keys_at cmp (fr_out f) u + keys_at cmp (fr_pending f) u = keys_at cmp added u"
    using I by blast+
  have after_old: "le (sp_end s) (sp_start s')" if "s \<in> set (fr_out f)" "s' \<in> set out" for s s'
    using sep [OF that(2)] old(3) that(1) cmp_trans by blast
  have frag: "fragmented cmp (fr_out f @ out)"
    using old(1) fl after_old by (auto simp add: fragmented_def sorted_wrt_append)
  have keys: "keys_at cmp (fr_out f @ out) u + keys_at cmp ps u = keys_at cmp added u" for u
  proof -
    have "keys_at cmp out u = keys_at cmp ds u" using fl keys_at_mset [OF sorts_byD(1) [OF ss]] by simp
    moreover have "keys_at cmp ds u + keys_at cmp ps u = keys_at cmp (fr_pending f) u"
      unfolding ds_def ps_def by (rule truncate_keys_at [OF pend])
    ultimately show ?thesis using old(6) by (simp add: add.assoc)
  qed
  have le_key: "le a key" if "le a hi" for a using cmp_trans [OF that hi] .
  have cuts: "le k key \<and> (\<forall>s\<in>set (fr_out f @ out). le (sp_end s) k \<or> le k (sp_start s)) \<and> (\<forall>p\<in>set ps. le k (sp_start p))"
    if "k \<in> set (key # cuts)" for k
  proof (cases "k = key")
    case True
    then show ?thesis using le_key old(3) ends by (auto simp add: ps_def)
  next
    case False
    then have k: "k \<in> set cuts" using that by simp
    have "le k (sp_start s')" if "s' \<in> set out" for s' using sep [OF that] old(5) k cmp_trans by blast
    moreover have "le k key" using old(5) k le_key by blast
    ultimately show ?thesis using old(5) k by (auto simp add: ps_def)
  qed
  have pend': "\<forall>s\<in>set ps. lt (sp_start s) (sp_end s) \<and> le (sp_start s) key"
    and pend_same: "\<exists>x. \<forall>s\<in>set ps. sp_start s = x"
    by (auto simp add: ps_def)
  have ends': "\<forall>s\<in>set (fr_out f @ out). le (sp_end s) key \<and> (\<forall>p\<in>set ps. le (sp_end s) (sp_start p))"
    using old(3) le_key ends by (auto simp add: ps_def)
  have ok: "\<forall>s\<in>set (fr_out f @ out). emitted_ok s" using old(2) fl by auto
  show "frag_inv added (key # cuts) key (truncateAndFlush cmp sortSpans sortKeys key f)"
    unfolding frag_inv_def res
    using frag keys ok cuts pend' pend_same ends' old(4) by simp
qed


lemma frag_inv_hi:
  assumes "frag_inv added cuts hi f" "le hi hi'"
  shows "frag_inv added cuts hi' f"
proof -
  have m: "le a hi'" if "le a hi" for a using cmp_trans [OF that assms(2)] .
  show ?thesis using assms(1) m unfolding frag_inv_def by (auto split: option.splits)
qed

lemma frag_inv_cuts: "frag_inv added (k # cuts) hi f \<Longrightarrow> frag_inv added cuts hi f"
  by (simp add: frag_inv_def)

lemma frag_inv_push:
  assumes inv: "frag_inv added cuts hi f" and s: "lt (sp_start s) (sp_end s)" "le hi (sp_start s)"
    and same: "\<forall>p\<in>set (fr_pending f). sp_start p = sp_start s"
  shows "frag_inv (added @ [s]) cuts (sp_start s) (f\<lparr>fr_pending := fr_pending f @ [s]\<rparr>)"
proof -
  note I = frag_inv_hi [OF inv s(2), unfolded frag_inv_def]
  have "\<forall>u. keys_at cmp (fr_out f) u + keys_at cmp (fr_pending f) u = keys_at cmp added u" using I by blast
  then have "\<forall>u. keys_at cmp (fr_out f) u + keys_at cmp (fr_pending f @ [s]) u = keys_at cmp (added @ [s]) u"
    by (metis add.assoc keys_at_simps(3))
  moreover have "\<exists>x. \<forall>p\<in>set (fr_pending f @ [s]). sp_start p = x" using same by auto
  ultimately show ?thesis using I s(1) unfolding frag_inv_def by simp
qed

lemma pending_start:
  assumes "frag_inv added cuts hi f" "p \<in> set (fr_pending f)"
  shows "sp_start p = sp_start (fr_pending f ! 0)"
proof -
  obtain x where x: "\<forall>s\<in>set (fr_pending f). sp_start s = x" using assms(1) unfolding frag_inv_def by blast
  moreover have "fr_pending f ! 0 \<in> set (fr_pending f)" using assms(2) by (cases "fr_pending f") auto
  ultimately show ?thesis using assms(2) by auto
qed

lemma frag_inv_flushed:
  assumes "frag_inv added cuts hi f" "le hi key"
  shows "\<not> (case fr_flushedKey f of Some k \<Rightarrow> lt key k | None \<Rightarrow> False)"
    and "\<forall>p\<in>set (fr_pending f). le (sp_start p) key" and "\<not> fr_finished f"
proof -
  note I = frag_inv_hi [OF assms, unfolded frag_inv_def]
  have "case fr_flushedKey f of None \<Rightarrow> True | Some k \<Rightarrow> le k key" using I by blast
  then show "\<not> (case fr_flushedKey f of Some k \<Rightarrow> lt key k | None \<Rightarrow> False)"
    by (auto simp add: not_lt split: option.splits)
  show "\<forall>p\<in>set (fr_pending f). le (sp_start p) key" "\<not> fr_finished f" using I by blast+
qed

lemma Add_inv:
  assumes inv: "frag_inv added cuts hi f" and sk: "sorts_by keysBySeqNumKind_Less sortKeys"
    and ss: "sorts_by (spansByEndKey_Less cmp) sortSpans"
    and s: "sp_order s = ByTrailerDesc" "le hi (sp_start s)"
  obtains f' where "Fragmenter_Add cmp sortSpans sortKeys s f = Inr f'"
    "frag_inv (added @ [s]) cuts (sp_start s) f'"
proof -
  note g = frag_inv_flushed [OF inv s(2)]
  consider (none) "le (sp_end s) (sp_start s)"
    | (first) "lt (sp_start s) (sp_end s)" "fr_pending f = []"
    | (same) "lt (sp_start s) (sp_end s)" "fr_pending f \<noteq> []" "sp_start (fr_pending f ! 0) = sp_start s"
    | (later) "lt (sp_start s) (sp_end s)" "fr_pending f \<noteq> []" "lt (sp_start (fr_pending f ! 0)) (sp_start s)"
    using g(2) le_total [of "sp_end s" "sp_start s"] cmp_eq [of "sp_start (fr_pending f ! 0)" "sp_start s"]
    by (cases "fr_pending f") force+
  then show thesis
  proof cases
    case none
    then have add: "Fragmenter_Add cmp sortSpans sortKeys s f = Inr f"
      using g s(1) by (simp add: Fragmenter_Add_def zero_le_cmp)
    have "\<not> Span_Contains cmp u s" for u
      using none cmp_less_trans [of u "sp_end s" "sp_start s"] not_lt [of u "sp_start s"] by (auto simp add: Contains_iff)
    then have "keys_at cmp (added @ [s]) u = keys_at cmp added u" for u by simp
    then have "frag_inv (added @ [s]) cuts (sp_start s) f"
      using frag_inv_hi [OF inv s(2)] by (simp add: frag_inv_def del: keys_at_simps(3))
    then show thesis using that add by blast
  next
    case first
    have "Fragmenter_Add cmp sortSpans sortKeys s f = Inr (f\<lparr>fr_pending := fr_pending f @ [s]\<rparr>)"
      using g s(1) first by (simp add: Fragmenter_Add_def)
    then show thesis using that frag_inv_push [OF inv first(1) s(2)] first(2) by simp
  next
    case same
    have "Fragmenter_Add cmp sortSpans sortKeys s f = Inr (f\<lparr>fr_pending := fr_pending f @ [s]\<rparr>)"
      using g s(1) same by (simp add: Fragmenter_Add_def)
    moreover have "\<forall>p\<in>set (fr_pending f). sp_start p = sp_start s" using pending_start [OF inv] same(3) by simp
    ultimately show thesis using that frag_inv_push [OF inv same(1) s(2)] by simp
  next
    case later
    let ?f = "truncateAndFlush cmp sortSpans sortKeys (sp_start s) f"
    have add: "Fragmenter_Add cmp sortSpans sortKeys s f = Inr (?f\<lparr>fr_pending := fr_pending ?f @ [s]\<rparr>)"
      using g s(1) later by (simp add: Fragmenter_Add_def Let_def)
    have "\<forall>p\<in>set (fr_pending f). lt (sp_start p) (sp_start s)" using pending_start [OF inv] later(3) by simp
    note t = truncateAndFlush_inv [OF inv sk ss this s(2)]
    show thesis using that add frag_inv_push [OF frag_inv_cuts [OF t(1)] later(1) _ t(2)] by simp
  qed
qed

lemma FlushTo_inv:
  assumes inv: "frag_inv added cuts hi f" and sk: "sorts_by keysBySeqNumKind_Less sortKeys"
    and ss: "sorts_by (spansByEndKey_Less cmp) sortSpans" and key: "le hi key"
  obtains f' where "TruncateAndFlushTo cmp sortSpans sortKeys key f = Inr f'" "frag_inv added (key # cuts) key f'"
proof (cases "fr_pending f \<noteq> [] \<and> sp_start (fr_pending f ! 0) = key")
  case True
  note g = frag_inv_flushed [OF inv key]
  have starts: "\<forall>p\<in>set (fr_pending f). sp_start p = key" using pending_start [OF inv] True by simp
  have "TruncateAndFlushTo cmp sortSpans sortKeys key f = Inr f"
    using g True by (simp add: TruncateAndFlushTo_def)
  moreover have "frag_inv added (key # cuts) key f"
    using frag_inv_hi [OF inv key] starts by (simp add: frag_inv_def)
  ultimately show thesis using that by blast
next
  case False
  note g = frag_inv_flushed [OF inv key]
  have lt: "\<forall>p\<in>set (fr_pending f). lt (sp_start p) key"
  proof
    fix p assume p: "p \<in> set (fr_pending f)"
    then have "sp_start p \<noteq> key" using False pending_start [OF inv p] by auto
    then show "lt (sp_start p) key" using g(2) p cmp_eq [of "sp_start p" key] by force
  qed
  have "fr_pending f \<noteq> [] \<Longrightarrow> lt (sp_start (fr_pending f ! 0)) key" using lt by (cases "fr_pending f") auto
  then have "TruncateAndFlushTo cmp sortSpans sortKeys key f = Inr (truncateAndFlush cmp sortSpans sortKeys key f)"
    using g by (auto simp add: TruncateAndFlushTo_def)
  then show thesis using that truncateAndFlush_inv(1) [OF inv sk ss lt key] by blast
qed

lemma Finish_inv:
  assumes inv: "frag_inv added cuts hi f" and sk: "sorts_by keysBySeqNumKind_Less sortKeys"
    and ss: "sorts_by (spansByEndKey_Less cmp) sortSpans"
  obtains f' where "Fragmenter_Finish cmp sortSpans sortKeys f = Inr f'" "fragmented cmp (fr_out f')"
    "\<forall>s\<in>set (fr_out f'). emitted_ok s" "\<forall>u. keys_at cmp (fr_out f') u = keys_at cmp added u"
    "\<forall>k\<in>set cuts. \<forall>s\<in>set (fr_out f'). le (sp_end s) k \<or> le k (sp_start s)"
proof -
  note I = inv [unfolded frag_inv_def]
  obtain x where x: "\<forall>s\<in>set (fr_pending f). sp_start s = x" using I by blast
  have w: "\<forall>s\<in>set (fr_pending f). lt (sp_start s) (sp_end s)" using I by blast
  have fb: "flush_buf x (sortSpans (fr_pending f))"
    using sorts_byD(2,3) [OF ss, of "fr_pending f"] x w by (simp add: flush_buf_def spansByEndKey_Less_def not_lt)
  define out where "out = flush_loop cmp sortKeys (sortSpans (fr_pending f)) None"
  note fl = flush_loop_correct [OF sk fb, folded out_def]
  define f' where "f' = f\<lparr>fr_out := fr_out f @ out, fr_finished := True\<rparr>"
  have fin: "Fragmenter_Finish cmp sortSpans sortKeys f = Inr f'"
    using I by (simp add: Fragmenter_Finish_def fragmenter_flush_def f'_def out_def)
  have old: "fragmented cmp (fr_out f)" "\<forall>s\<in>set (fr_out f). emitted_ok s"
    "\<forall>s\<in>set (fr_out f). \<forall>p\<in>set (fr_pending f). le (sp_end s) (sp_start p)"
    "\<forall>k\<in>set cuts. (\<forall>s\<in>set (fr_out f). le (sp_end s) k \<or> le k (sp_start s)) \<and> (\<forall>p\<in>set (fr_pending f). le k (sp_start p))"
    "\<forall>u. keys_at cmp (fr_out f) u + keys_at cmp (fr_pending f) u = keys_at cmp added u"
    using I by blast+
  have sep: "\<exists>p\<in>set (fr_pending f). le (sp_start p) (sp_start s')" if "s' \<in> set out" for s'
  proof -
    have "sp_end s' \<in> sp_end ` set (fr_pending f)" using fl that by (simp add: sorts_byD(2) [OF ss])
    then obtain p where "p \<in> set (fr_pending f)" by blast
    then show ?thesis using x fl that by auto
  qed
  have after_old: "le (sp_end s) (sp_start s')" if "s \<in> set (fr_out f)" "s' \<in> set out" for s s'
    using sep [OF that(2)] old(3) that(1) cmp_trans by blast
  have "le k (sp_start s')" if "k \<in> set cuts" "s' \<in> set out" for k s'
    using sep [OF that(2)] old(4) that(1) cmp_trans by blast
  then have "\<forall>k\<in>set cuts. \<forall>s\<in>set (fr_out f'). le (sp_end s) k \<or> le k (sp_start s)"
    using old(4) by (auto simp add: f'_def)
  moreover have "fragmented cmp (fr_out f')"
    using old(1) fl after_old by (auto simp add: fragmented_def sorted_wrt_append f'_def)
  moreover have "\<forall>s\<in>set (fr_out f'). emitted_ok s" using old(2) fl by (auto simp add: f'_def)
  moreover have "\<forall>u. keys_at cmp (fr_out f') u = keys_at cmp added u"
    using old(5) fl keys_at_mset [OF sorts_byD(1) [OF ss]] by (simp add: f'_def)
  ultimately show thesis using that fin by blast
qed

lemma frag_run_correct:
  assumes "frag_inv added cuts hi f" and sk: "sorts_by keysBySeqNumKind_Less sortKeys"
    and ss: "sorts_by (spansByEndKey_Less cmp) sortSpans"
    and "sorted_wrt (\<lambda>a b. le (frag_key a) (frag_key b)) ops" "\<forall>op\<in>set ops. le hi (frag_key op)"
    and "\<forall>s\<in>set (added_spans ops). sp_order s = ByTrailerDesc"
  shows "\<exists>f'. frag_run cmp sortSpans sortKeys ops f = Inr f' \<and> fragmented cmp (fr_out f') \<and>
    (\<forall>s\<in>set (fr_out f'). emitted_ok s) \<and>
    (\<forall>u. keys_at cmp (fr_out f') u = keys_at cmp (added @ added_spans ops) u) \<and>
    (\<forall>k\<in>set (cuts @ flush_keys ops). \<forall>s\<in>set (fr_out f'). le (sp_end s) k \<or> le k (sp_start s))"
  using assms(1,4-)
proof (induction ops arbitrary: added cuts hi f rule: added_spans.induct)
  case 1
  then show ?case using Finish_inv [OF "1.prems"(1) sk ss] by (metis append_Nil2 added_spans.simps(1) flush_keys.simps(1) frag_run.simps(1))
next
  case (2 s ops)
  obtain f' where f': "Fragmenter_Add cmp sortSpans sortKeys s f = Inr f'" "frag_inv (added @ [s]) cuts (sp_start s) f'"
    using Add_inv [OF "2.prems"(1) sk ss, of s] "2.prems"(3,4) by auto
  show ?case using "2.IH" [OF f'(2)] "2.prems" f'(1) by simp
next
  case (3 key ops)
  obtain f' where f': "TruncateAndFlushTo cmp sortSpans sortKeys key f = Inr f'" "frag_inv added (key # cuts) key f'"
    using FlushTo_inv [OF "3.prems"(1) sk ss, of key] "3.prems"(3) by auto
  have "\<exists>f''. frag_run cmp sortSpans sortKeys ops f' = Inr f'' \<and> fragmented cmp (fr_out f'') \<and>
    (\<forall>s\<in>set (fr_out f''). emitted_ok s) \<and>
    (\<forall>u. keys_at cmp (fr_out f'') u = keys_at cmp (added @ added_spans ops) u) \<and>
    (\<forall>k\<in>set ((key # cuts) @ flush_keys ops). \<forall>s\<in>set (fr_out f''). le (sp_end s) k \<or> le k (sp_start s))"
    using "3.prems" by (intro "3.IH" [OF f'(2)]) auto
  then show ?case using f'(1) by (auto simp add: ball_Un)
qed

lemma frag_inv_new: "frag_inv [] [] [] new_Fragmenter"
  by (simp add: frag_inv_def new_Fragmenter_def fragmented_def)

end

section \<open>Searching fragmented spans\<close>

text \<open>\<open>split_at P ss n\<close>: the first \<open>n\<close> elements are those that satisfy \<open>P\<close>.\<close>

definition split_at :: "('a \<Rightarrow> bool) \<Rightarrow> 'a list \<Rightarrow> nat \<Rightarrow> bool" where
  "split_at P ss n \<longleftrightarrow> n \<le> length ss \<and> (\<forall>i<length ss. P (ss ! i) \<longleftrightarrow> i < n)"

lemma span_search_split:
  "split_at P ss n \<Longrightarrow> lo \<le> n \<Longrightarrow> n \<le> hi \<Longrightarrow> hi \<le> length ss \<Longrightarrow> span_search P ss lo hi = n"
proof (induction P ss lo hi rule: span_search.induct)
  case (1 P ss lo hi)
  show ?case
  proof (cases "lo < hi")
    case True
    let ?h = "(lo + hi) div 2"
    have h: "lo \<le> ?h" "?h < hi" using True by simp_all
    have P: "P (ss ! ?h) \<longleftrightarrow> ?h < n" using "1.prems" h by (simp add: split_at_def)
    show ?thesis
    proof (cases "P (ss ! ?h)")
      case True
      then have "span_search P ss (?h + 1) hi = n" using "1.IH"(1) [of ?h] "1.prems" h P \<open>lo < hi\<close> by simp
      then show ?thesis using True \<open>lo < hi\<close> by (simp add: span_search.simps [of P ss lo hi] Let_def)
    next
      case False
      then have "span_search P ss lo ?h = n" using "1.IH"(2) [of ?h] "1.prems" h P \<open>lo < hi\<close> by simp
      then show ?thesis using False \<open>lo < hi\<close> by (simp add: span_search.simps [of P ss lo hi] Let_def)
    qed
  next
    case False
    then show ?thesis using "1.prems" by (simp add: span_search.simps [of P ss lo hi])
  qed
qed

lemma split_at_unique:
  assumes "split_at P ss n" "split_at P ss m"
  shows "n = m"
proof (rule ccontr)
  assume "n \<noteq> m"
  then consider "n < m" | "m < n" by linarith
  then show False
  proof cases
    case 1
    then have "n < length ss" using assms(2) by (simp add: split_at_def)
    then have "P (ss ! n) \<longleftrightarrow> n < n" "P (ss ! n) \<longleftrightarrow> n < m" using assms unfolding split_at_def by blast+
    then show False using 1 by simp
  next
    case 2
    then have "m < length ss" using assms(1) by (simp add: split_at_def)
    then have "P (ss ! m) \<longleftrightarrow> m < m" "P (ss ! m) \<longleftrightarrow> m < n" using assms unfolding split_at_def by blast+
    then show False using 2 by simp
  qed
qed

lemma split_at_exists:
  assumes "\<And>i j. i < j \<Longrightarrow> j < length ss \<Longrightarrow> P (ss ! j) \<Longrightarrow> P (ss ! i)"
  obtains n where "split_at P ss n"
proof -
  let ?n = "length (takeWhile P ss)"
  have "P (ss ! i) \<longleftrightarrow> i < ?n" if i: "i < length ss" for i
  proof
    assume "P (ss ! i)"
    then show "i < ?n"
    proof (rule contrapos_pp)
      assume n: "\<not> i < ?n"
      then have "?n < length ss" using i by simp
      then have "\<not> P (ss ! ?n)" by (rule nth_length_takeWhile)
      then show "\<not> P (ss ! i)" using n i assms [of ?n i] by (cases "i = ?n") auto
    qed
  next
    assume "i < ?n"
    then show "P (ss ! i)" by (metis nth_mem set_takeWhileD takeWhile_nth)
  qed
  then show thesis using that [of ?n] length_takeWhile_le [of P ss] by (auto simp add: split_at_def)
qed

definition span_of :: "Span list \<Rightarrow> int \<Rightarrow> Span option" where
  "span_of ss i = (if 0 \<le> i \<and> i < int (length ss) then Some (ss ! nat i) else None)"

lemma span_at_eq: "span_at i = span_of (ki_spans i) (ki_index i)"
  by (simp add: span_at_def span_of_def)

context key_order
begin

lemma fragmented_nth:
  assumes "fragmented cmp ss"
  shows "i < j \<Longrightarrow> j < length ss \<Longrightarrow> le (sp_end (ss ! i)) (sp_start (ss ! j))"
    and "i < length ss \<Longrightarrow> lt (sp_start (ss ! i)) (sp_end (ss ! i))"
    and "i < j \<Longrightarrow> j < length ss \<Longrightarrow> lt (sp_start (ss ! i)) (sp_start (ss ! j))"
proof -
  show e: "i < j \<Longrightarrow> j < length ss \<Longrightarrow> le (sp_end (ss ! i)) (sp_start (ss ! j))"
    using assms by (auto simp add: fragmented_def sorted_wrt_iff_nth_less)
  show w: "i < length ss \<Longrightarrow> lt (sp_start (ss ! i)) (sp_end (ss ! i))" for i
    using assms by (simp add: fragmented_def)
  show "i < j \<Longrightarrow> j < length ss \<Longrightarrow> lt (sp_start (ss ! i)) (sp_start (ss ! j))"
    using e cmp_less_trans [OF w] by simp
qed

lemma split_starts:
  assumes "fragmented cmp ss"
  obtains n where "split_at (\<lambda>s. lt (sp_start s) key) ss n"
  using fragmented_nth(3) [OF assms] cmp_less_trans less_imp_le
  by (metis (no_types, lifting) split_at_exists [of ss "\<lambda>s. lt (sp_start s) key"])

lemma split_starts_le:
  assumes f: "fragmented cmp ss" and m: "split_at (\<lambda>s. lt (sp_start s) key) ss m"
    and n: "split_at (\<lambda>s. le (sp_start s) key) ss n"
  shows "n = (if m < length ss \<and> sp_start (ss ! m) = key then Suc m else m)"
proof -
  have "le (sp_start (ss ! i)) key \<longleftrightarrow> i < (if m < length ss \<and> sp_start (ss ! m) = key then Suc m else m)"
    if i: "i < length ss" for i
  proof (cases "i \<le> m")
    case True
    then show ?thesis
      using m i cmp_eq [of "sp_start (ss ! i)" key] by (cases "i = m") (auto simp add: split_at_def less_imp_le)
  next
    case False
    have "\<not> lt (sp_start (ss ! m)) key" using m i False by (simp add: split_at_def)
    then have "lt key (sp_start (ss ! i))"
      using fragmented_nth(3) [OF f _ i, of m] False cmp_le_less_trans by (auto simp add: not_lt)
    then show ?thesis using False not_lt [of key "sp_start (ss ! i)"] by auto
  qed
  then show ?thesis using split_at_unique [OF n] m by (auto simp add: split_at_def)
qed

lemma split_ends:
  assumes "fragmented cmp ss"
  obtains n where "split_at (\<lambda>s. le (sp_end s) key) ss n"
proof (rule split_at_exists [of ss "\<lambda>s. le (sp_end s) key"])
  fix i j assume ij: "i < j" "j < length ss" and le: "le (sp_end (ss ! j)) key"
  have "le (sp_end (ss ! i)) (sp_end (ss ! j))"
    using fragmented_nth(1) [OF assms ij] fragmented_nth(2) [OF assms ij(2)] cmp_trans by (meson less_imp_le)
  then show "le (sp_end (ss ! i)) key" using le cmp_trans by blast
qed

text \<open>At most one fragment contains a key.\<close>

lemma find_contains:
  assumes f: "fragmented cmp ss" and i: "i < length ss" and c: "Span_Contains cmp key (ss ! i)"
  shows "find (Span_Contains cmp key) ss = Some (ss ! i)"
proof -
  have "\<not> Span_Contains cmp key (ss ! j)" if "j < i" for j
  proof -
    have "le (sp_end (ss ! j)) (sp_start (ss ! i))" using fragmented_nth(1) [OF f that i] .
    then have "le (sp_end (ss ! j)) key" using c cmp_trans by (auto simp add: Contains_iff)
    then show ?thesis by (simp add: Contains_iff not_lt)
  qed
  then show ?thesis using i c by (auto simp add: find_Some_iff)
qed

lemma keys_at_found:
  "fragmented cmp ss \<Longrightarrow> find (Span_Contains cmp u) ss = Some s \<Longrightarrow> keys_at cmp ss u = mset (sp_keys s)"
proof (induction ss)
  case (Cons x xs)
  have f: "fragmented cmp xs" using Cons.prems(1) by (simp add: fragmented_def)
  show ?case
  proof (cases "Span_Contains cmp u x")
    case True
    have "\<not> Span_Contains cmp u y" if "y \<in> set xs" for y
    proof -
      have "lt u (sp_start y)"
        using Cons.prems(1) that True cmp_less_trans by (auto simp add: fragmented_def Contains_iff)
      then show ?thesis using not_lt [of u "sp_start y"] by (auto simp add: Contains_iff)
    qed
    then have "keys_at cmp xs u = {#}" by (intro keys_at_none) blast
    then show ?thesis using True Cons.prems(2) by simp
  next
    case False
    then show ?thesis using Cons.IH [OF f] Cons.prems(2) by simp
  qed
qed simp

lemma find_between:
  assumes f: "fragmented cmp ss" and n: "split_at (\<lambda>s. lt (sp_start s) key) ss n"
    and before: "0 < n \<Longrightarrow> le (sp_end (ss ! (n - 1))) key"
    and after: "n < length ss \<Longrightarrow> lt key (sp_start (ss ! n))"
  shows "find (Span_Contains cmp key) ss = None"
proof -
  have "\<not> Span_Contains cmp key (ss ! i)" if i: "i < length ss" for i
  proof (cases "i < n")
    case True
    have "le (sp_end (ss ! i)) key"
    proof (cases "i = n - 1")
      case False
      have "i < n - 1" "n - 1 < length ss" using True False n by (auto simp add: split_at_def)
      then have "le (sp_end (ss ! i)) (sp_start (ss ! (n - 1)))" by (rule fragmented_nth(1) [OF f])
      moreover have "lt (sp_start (ss ! (n - 1))) key" using n \<open>i < n - 1\<close> \<open>n - 1 < length ss\<close> by (simp add: split_at_def)
      ultimately show ?thesis using cmp_trans by (meson less_imp_le)
    qed (use before True in auto)
    then show ?thesis by (simp add: Contains_iff not_lt)
  next
    case False
    then have n': "n < length ss" using i by simp
    have "lt key (sp_start (ss ! i))"
      using fragmented_nth(3) [OF f _ i, of n] after [OF n'] False cmp_less_trans by (cases "i = n") (auto simp add: less_imp_le)
    then show ?thesis using not_lt [of key "sp_start (ss ! i)"] by (simp add: Contains_iff)
  qed
  then show ?thesis by (auto simp add: find_None_iff in_set_conv_nth)
qed

end

section \<open>The contract of fragment iterators\<close>

lemma keyspan_Get_fst:
  "fst (keyspan_Get cmp seekLT nxt key it) =
     (let it1 = snd (seekLT key it); second = (\<lambda>it2. case fst (nxt it2) of None \<Rightarrow> None
            | Some s2 \<Rightarrow> if cmp key (sp_start s2) < 0 then None else Some s2)
      in case fst (seekLT key it) of
           None \<Rightarrow> (case fst (nxt it1) of None \<Rightarrow> None
                    | Some s \<Rightarrow> if cmp key (sp_start s) < 0 then None
                              else if 0 \<le> cmp key (sp_end s) then second (snd (nxt it1)) else Some s)
         | Some s \<Rightarrow> if 0 \<le> cmp key (sp_end s) then second it1 else Some s)"
  by (auto simp add: keyspan_Get_def Let_def split: prod.splits option.splits)

lemma keyspan_SeekLE_fst:
  "fst (keyspan_SeekLE cmp seekLT nxt prv key it) =
     (let it1 = snd (seekLT key it); it2 = snd (nxt it1)
      in case fst (seekLT key it) of
           None \<Rightarrow> (case fst (nxt it1) of None \<Rightarrow> None | Some s \<Rightarrow> if cmp key (sp_start s) < 0 then None else Some s)
         | Some s \<Rightarrow>
             if 0 \<le> cmp key (sp_end s)
             then (case fst (nxt it1) of None \<Rightarrow> fst (prv it2)
                   | Some s2 \<Rightarrow> if cmp key (sp_start s2) < 0 then fst (prv it2) else Some s2)
             else Some s)"
  by (auto simp add: keyspan_SeekLE_def Let_def split: prod.splits option.splits)

text \<open>
  What \<^verbatim>\<open>Get\<close> and \<^verbatim>\<open>SeekLE\<close> rely on of a \<^verbatim>\<open>FragmentIterator\<close>: it stands on a
  list of spans, before the first (-1), at one of them, or after the last; \<^verbatim>\<open>SeekLT\<close> moves to the
  last span that starts before the key, \<^verbatim>\<open>Next\<close> and \<^verbatim>\<open>Prev\<close> by one.
\<close>

locale fragment_iter = key_order +
  fixes spans :: "'it \<Rightarrow> Span list" and pos :: "'it \<Rightarrow> int"
    and seekLT :: "bytes \<Rightarrow> 'it \<Rightarrow> Span option \<times> 'it"
    and nxt :: "'it \<Rightarrow> Span option \<times> 'it" and prv :: "'it \<Rightarrow> Span option \<times> 'it"
  assumes seekLT_pos: "split_at (\<lambda>s. cmp (sp_start s) key < 0) (spans it) n \<Longrightarrow>
      pos (snd (seekLT key it)) = int n - 1 \<and> spans (snd (seekLT key it)) = spans it \<and>
      fst (seekLT key it) = span_of (spans it) (int n - 1)"
    and nxt_pos: "pos it < int (length (spans it)) \<Longrightarrow>
      pos (snd (nxt it)) = pos it + 1 \<and> spans (snd (nxt it)) = spans it \<and>
      fst (nxt it) = span_of (spans it) (pos it + 1)"
    and prv_pos: "0 \<le> pos it \<Longrightarrow> fst (prv it) = span_of (spans it) (pos it - 1)"
begin

text \<open>After the seek, the iterator stands before the key and the next span is at or after it.\<close>

lemma seek_next:
  assumes "split_at (\<lambda>s. cmp (sp_start s) key < 0) (spans it) n"
  shows "fst (seekLT key it) = (if n = 0 then None else Some (spans it ! (n - 1)))"
    and "fst (nxt (snd (seekLT key it))) = (if n < length (spans it) then Some (spans it ! n) else None)"
    and "pos (snd (nxt (snd (seekLT key it)))) = int n" "spans (snd (nxt (snd (seekLT key it)))) = spans it"
proof -
  note s = seekLT_pos [OF assms]
  have n: "n \<le> length (spans it)" using assms by (simp add: split_at_def)
  show "fst (seekLT key it) = (if n = 0 then None else Some (spans it ! (n - 1)))"
    using s n by (auto simp add: span_of_def nat_diff_distrib)
  show "fst (nxt (snd (seekLT key it))) = (if n < length (spans it) then Some (spans it ! n) else None)"
    "pos (snd (nxt (snd (seekLT key it)))) = int n" "spans (snd (nxt (snd (seekLT key it)))) = spans it"
    using nxt_pos [of "snd (seekLT key it)"] s n by (auto simp add: span_of_def)
qed

lemma Get_find:
  assumes f: "fragmented cmp (spans it)"
  shows "fst (keyspan_Get cmp seekLT nxt key it) = find (Span_Contains cmp key) (spans it)"
proof -
  let ?ss = "spans it"
  obtain n where n: "split_at (\<lambda>s. cmp (sp_start s) key < 0) ?ss n" using split_starts [OF f] by blast
  note sn = seek_next [OF n]
  have nth: "i < length ?ss \<Longrightarrow> lt (sp_start (?ss ! i)) key \<longleftrightarrow> i < n" for i using n by (simp add: split_at_def)
  have at_n: "fst (keyspan_Get cmp seekLT nxt key it) = find (Span_Contains cmp key) ?ss"
    if here: "0 < n \<Longrightarrow> le (sp_end (?ss ! (n - 1))) key"
      and val: "fst (keyspan_Get cmp seekLT nxt key it) =
        (if n < length ?ss \<and> \<not> lt key (sp_start (?ss ! n)) then Some (?ss ! n) else None)"
  proof (cases "n < length ?ss \<and> \<not> lt key (sp_start (?ss ! n))")
    case True
    then have "sp_start (?ss ! n) = key" using nth [of n] by (intro cmp_antisym) (auto simp add: not_lt)
    then have "Span_Contains cmp key (?ss ! n)" using fragmented_nth(2) [OF f, of n] True by (simp add: Contains_iff)
    then show ?thesis using find_contains [OF f, of n] True val by simp
  next
    case False
    then show ?thesis using find_between [OF f n here] val by auto
  qed
  have split: "fst (seekLT key it) = r1 \<Longrightarrow> seekLT key it = (r1, snd (seekLT key it))" for r1 by auto
  show ?thesis
  proof (cases "n = 0")
    case True
    have "n < length ?ss \<Longrightarrow> \<not> lt key (sp_start (?ss ! 0)) \<Longrightarrow> lt key (sp_end (?ss ! 0))"
      using nth [of 0] cmp_antisym [of "sp_start (?ss ! 0)" key] fragmented_nth(2) [OF f, of 0] True by (simp add: not_lt)
    then show ?thesis
      using sn True by (intro at_n) (auto simp add: keyspan_Get_fst Let_def zero_le_cmp not_lt [symmetric])
  next
    case False
    have n1: "n - 1 < length ?ss" using n False by (auto simp add: split_at_def)
    have s: "lt (sp_start (?ss ! (n - 1))) key" using nth [OF n1] False by simp
    show ?thesis
    proof (cases "lt key (sp_end (?ss ! (n - 1)))")
      case True
      then have "Span_Contains cmp key (?ss ! (n - 1))" using s by (simp add: Contains_iff less_imp_le)
      then have "find (Span_Contains cmp key) ?ss = Some (?ss ! (n - 1))"
        by (rule find_contains [OF f n1])
      then show ?thesis
        using sn False True by (simp add: keyspan_Get_fst Let_def zero_le_cmp not_lt [symmetric])
    next
      case False': False
      then show ?thesis
        using sn False by (intro at_n) (simp_all add: keyspan_Get_fst Let_def zero_le_cmp not_lt [symmetric])
    qed
  qed
qed

lemma SeekLE_last:
  assumes f: "fragmented cmp (spans it)"
    and n: "split_at (\<lambda>s. cmp (sp_start s) key \<le> 0) (spans it) n"
  shows "fst (keyspan_SeekLE cmp seekLT nxt prv key it) = (if n = 0 then None else Some (spans it ! (n - 1)))"
proof -
  let ?ss = "spans it"
  obtain m where m: "split_at (\<lambda>s. cmp (sp_start s) key < 0) ?ss m" using split_starts [OF f] by blast
  note sn = seek_next [OF m] and mn = split_starts_le [OF f m n]
  have nth: "i < length ?ss \<Longrightarrow> lt (sp_start (?ss ! i)) key \<longleftrightarrow> i < m" for i using m by (simp add: split_at_def)
  have m_le: "m \<le> length ?ss" using m by (simp add: split_at_def)
  have at_m: "\<not> lt key (sp_start (?ss ! m)) \<longleftrightarrow> sp_start (?ss ! m) = key" if "m < length ?ss"
    using nth [OF that] cmp_antisym [of "sp_start (?ss ! m)" key] by (auto simp add: not_lt)
  have past: "lt key (sp_start (?ss ! m))" if "0 < m" "lt key (sp_end (?ss ! (m - 1)))" "m < length ?ss"
    using fragmented_nth(1) [OF f, of "m - 1" m] that cmp_less_trans by simp
  show ?thesis
  proof (cases "m = 0")
    case True
    then show ?thesis
      using sn mn at_m by (auto simp add: keyspan_SeekLE_fst Let_def)
  next
    case False
    have prev_m: "fst (prv (snd (nxt (snd (seekLT key it))))) = Some (?ss ! (m - 1))"
      using prv_pos [of "snd (nxt (snd (seekLT key it)))"] sn(3,4) m_le False
      by (auto simp add: span_of_def nat_diff_distrib)
    show ?thesis
      using sn mn at_m past prev_m False
      by (auto simp add: keyspan_SeekLE_fst Let_def zero_le_cmp not_lt [symmetric])
  qed
qed

end

interpretation slice_iter: fragment_iter bytes_compare "ki_spans :: SpanIter \<Rightarrow> Span list" ki_index
  "Iter_SeekLT bytes_compare" Iter_Next Iter_Prev
proof unfold_locales
  fix key n and it :: SpanIter
  assume n: "split_at (\<lambda>s. bytes_compare (sp_start s) key < 0) (ki_spans it) n"
  have swap: "0 < bytes_compare key x \<longleftrightarrow> bytes_compare x key < 0" for x using dflt.cmp_swap [of x key] by simp
  have "span_search (\<lambda>s. 0 < bytes_compare key (sp_start s)) (ki_spans it) 0 (length (ki_spans it)) = n"
    using n by (intro span_search_split) (auto simp add: split_at_def swap)
  then show "ki_index (snd (Iter_SeekLT bytes_compare key it)) = int n - 1 \<and>
      ki_spans (snd (Iter_SeekLT bytes_compare key it)) = ki_spans it \<and>
      fst (Iter_SeekLT bytes_compare key it) = span_of (ki_spans it) (int n - 1)"
    by (simp add: Iter_SeekLT_def Let_def span_at_eq)
qed (auto simp add: Iter_Next_def Iter_Prev_def Let_def span_at_eq)

section \<open>Properties\<close>

lemma mset_stable_sort: "mset (stable_sort lt xs) = mset xs"
proof -
  have "mset (stable_insert lt x ys) = {#x#} + mset ys" for x ys by (induction ys) auto
  then show ?thesis by (induction xs) (simp_all add: stable_sort_def)
qed

lemma stable_sort_sorts:
  assumes trans: "\<And>a b c. \<not> lt b a \<Longrightarrow> \<not> lt c b \<Longrightarrow> \<not> lt c a" and asym: "\<And>a b. lt a b \<Longrightarrow> \<not> lt b a"
  shows "sorts_by lt (stable_sort lt)"
proof -
  have ins: "sorted_wrt (\<lambda>a b. \<not> lt b a) ys \<Longrightarrow> sorted_wrt (\<lambda>a b. \<not> lt b a) (stable_insert lt x ys)" for x ys
  proof (induction ys)
    case (Cons y ys)
    have set: "set (stable_insert lt x ys) = insert x (set ys)" by (induction ys) auto
    show ?case
    proof (cases "lt y x")
      case True
      then show ?thesis using Cons set asym [OF True] by simp
    next
      case False
      then have "\<forall>z\<in>set ys. \<not> lt z x" using Cons.prems trans [OF False] by simp
      then show ?thesis using Cons.prems False by simp
    qed
  qed simp
  have "sorted_wrt (\<lambda>a b. \<not> lt b a) (stable_sort lt xs)" for xs
    by (induction xs) (simp_all add: stable_sort_def ins)
  then show ?thesis by (simp add: sorts_by_def mset_stable_sort)
qed

lemma sorts_keys: "sorts_by keysBySeqNumKind_Less (stable_sort keysBySeqNumKind_Less)"
  by (rule stable_sort_sorts) (auto simp add: keysBySeqNumKind_Less_def)

lemma sorts_spans: "sorts_by (spansByEndKey_Less bytes_compare) (stable_sort (spansByEndKey_Less bytes_compare))"
proof (rule stable_sort_sorts)
  show "\<not> spansByEndKey_Less bytes_compare c a"
    if "\<not> spansByEndKey_Less bytes_compare b a" "\<not> spansByEndKey_Less bytes_compare c b" for a b c
    using that dflt.cmp_trans [of "sp_end a" "sp_end b" "sp_end c"] by (simp add: spansByEndKey_Less_def dflt.not_lt)
  show "\<not> spansByEndKey_Less bytes_compare b a" if "spansByEndKey_Less bytes_compare a b" for a b
    using that dflt.not_lt [of "sp_end b" "sp_end a"] by (simp add: spansByEndKey_Less_def)
qed

text \<open>C27. The three visibility scans of a span agree with their reference definitions when the keys
  are in trailer order: \<^verbatim>\<open>Visible\<close>, which returns slices of the key list, keeps exactly the keys
  visible at the snapshot; \<^verbatim>\<open>VisibleAt\<close>, which looks at the first and the last key only, decides
  whether there is one; and \<^verbatim>\<open>CoversAt\<close>, which stops at the first visible key, decides whether a
  visible key is newer than the given sequence number.\<close>

theorem visibility_scans_exact:
  assumes "sp_order s = ByTrailerDesc" "trailer_desc (sp_keys s)"
  shows "Span_Visible snapshot s = Inr (s\<lparr>sp_keys := filter (Key_VisibleAt snapshot) (sp_keys s)\<rparr>) \<and>
    Span_VisibleAt snapshot s = Inr (\<exists>k\<in>set (sp_keys s). Key_VisibleAt snapshot k) \<and>
    Span_CoversAt snapshot seqNum s =
      Inr (\<exists>k\<in>set (sp_keys s). Key_VisibleAt snapshot k \<and> seqNum < Key_SeqNum k)"
  using assms Span_Visible_filter Span_VisibleAt_iff covers_at_iff
  by (simp add: Span_CoversAt_def need_trailer_order_def)

definition demo_span :: Span where
  "demo_span = \<lparr>sp_start = [1], sp_end = [5],
     sp_keys = map (\<lambda>n. \<lparr>k_trailer = MakeTrailer n InternalKeyKindRangeDelete, k_suffix = [], k_value = []\<rparr>)
       [InternalKeySeqNumBatch OR 7, 9, 3], sp_order = ByTrailerDesc\<rparr>"

theorem visibility_scans_exact_witness:
  "Span_Visible 5 demo_span = Inr (demo_span\<lparr>sp_keys := filter (Key_VisibleAt 5) (sp_keys demo_span)\<rparr>) \<and>
   length (filter (Key_VisibleAt 5) (sp_keys demo_span)) = 2"
  using visibility_scans_exact [of demo_span 5] by code_simp

text \<open>C26. Fragmenting is correct: spans added in the order of their start keys, with truncating flushes
  at keys in between, are never refused; the fragments emitted are in order and do not overlap, none
  crosses a key that was flushed to, the keys of each are in trailer order, and at every user key the
  fragments hold exactly the keys of the spans added (with multiplicity). Whatever
  \<^verbatim>\<open>sort.Sort\<close> makes of equal elements.\<close>

theorem fragmenter_correct:
  assumes "sorts_by keysBySeqNumKind_Less sortKeys" "sorts_by (spansByEndKey_Less bytes_compare) sortSpans"
    and "sorted_wrt (\<lambda>a b. bytes_compare (frag_key a) (frag_key b) \<le> 0) ops"
    and "\<forall>s\<in>set (added_spans ops). sp_order s = ByTrailerDesc"
  shows "\<exists>f. frag_run bytes_compare sortSpans sortKeys ops new_Fragmenter = Inr f \<and>
    fragmented bytes_compare (fr_out f) \<and>
    (\<forall>s\<in>set (fr_out f). sp_order s = ByTrailerDesc \<and> trailer_desc (sp_keys s)) \<and>
    (\<forall>u. keys_at bytes_compare (fr_out f) u = keys_at bytes_compare (added_spans ops) u) \<and>
    (\<forall>k\<in>set (flush_keys ops). \<forall>s\<in>set (fr_out f).
       bytes_compare (sp_end s) k \<le> 0 \<or> bytes_compare k (sp_start s) \<le> 0)"
  using dflt.frag_run_correct [OF dflt.frag_inv_new assms(1-3) _ assms(4)]
  by (simp add: emitted_ok_def dflt.cmp_empty)

definition demo_rangedel :: "byte \<Rightarrow> byte \<Rightarrow> u64 \<Rightarrow> Span" where
  "demo_rangedel a b n = \<lparr>sp_start = [a], sp_end = [b],
     sp_keys = [\<lparr>k_trailer = MakeTrailer n InternalKeyKindRangeDelete, k_suffix = [], k_value = []\<rparr>],
     sp_order = ByTrailerDesc\<rparr>"

theorem fragmenter_correct_witness:
  "\<exists>f. frag_run bytes_compare (stable_sort (spansByEndKey_Less bytes_compare)) (stable_sort keysBySeqNumKind_Less)
      [FragAdd (demo_rangedel 1 5 9), FragAdd (demo_rangedel 2 8 3), FragFlushTo [4], FragAdd (demo_rangedel 6 7 5)]
      new_Fragmenter = Inr f \<and> fragmented bytes_compare (fr_out f) \<and>
    (\<forall>s\<in>set (fr_out f). sp_order s = ByTrailerDesc \<and> trailer_desc (sp_keys s)) \<and>
    (\<forall>u. keys_at bytes_compare (fr_out f) u =
       keys_at bytes_compare [demo_rangedel 1 5 9, demo_rangedel 2 8 3, demo_rangedel 6 7 5] u) \<and>
    (\<forall>k\<in>{[4]}. \<forall>s\<in>set (fr_out f). bytes_compare (sp_end s) k \<le> 0 \<or> bytes_compare k (sp_start s) \<le> 0)"
  using fragmenter_correct [OF sorts_keys sorts_spans, of
      "[FragAdd (demo_rangedel 1 5 9), FragAdd (demo_rangedel 2 8 3), FragFlushTo [4], FragAdd (demo_rangedel 6 7 5)]"]
  by (simp add: demo_rangedel_def)

text \<open>C25. Looking a user key up among the fragments of a set of spans, with \<^verbatim>\<open>Get\<close> on the slice
  iterator, finds exactly the keys of the spans that contain it, newest first; nothing is found
  when no key applies there.\<close>

theorem fragments_answer_lookups:
  assumes "sorts_by keysBySeqNumKind_Less sortKeys" "sorts_by (spansByEndKey_Less bytes_compare) sortSpans"
    and "sorted_wrt (\<lambda>a b. bytes_compare (sp_start a) (sp_start b) \<le> 0) ss"
    and "\<forall>s\<in>set ss. sp_order s = ByTrailerDesc"
    and "frag_run bytes_compare sortSpans sortKeys (map FragAdd ss) new_Fragmenter = Inr f"
  shows "case fst (keyspan_Get bytes_compare (Iter_SeekLT bytes_compare) Iter_Next u (NewIter (fr_out f))) of
      None \<Rightarrow> keys_at bytes_compare ss u = {#}
    | Some s \<Rightarrow> mset (sp_keys s) = keys_at bytes_compare ss u \<and> trailer_desc (sp_keys s)"
proof -
  have added: "added_spans (map FragAdd xs) = xs" for xs by (induction xs) auto
  have f: "fragmented bytes_compare (fr_out f)" "\<forall>s\<in>set (fr_out f). emitted_ok s"
    "\<forall>u. keys_at bytes_compare (fr_out f) u = keys_at bytes_compare ss u"
    using dflt.frag_run_correct [OF dflt.frag_inv_new assms(1,2), of "map FragAdd ss"] assms(3-)
    by (auto simp add: sorted_wrt_map added dflt.cmp_empty)
  have get: "fst (keyspan_Get bytes_compare (Iter_SeekLT bytes_compare) Iter_Next u (NewIter (fr_out f))) =
      find (Span_Contains bytes_compare u) (fr_out f)"
    using slice_iter.Get_find [of "NewIter (fr_out f)" u] f(1) by (simp add: NewIter_def)
  show ?thesis
  proof (cases "find (Span_Contains bytes_compare u) (fr_out f)")
    case None
    then have "keys_at bytes_compare (fr_out f) u = {#}" by (intro keys_at_none) (auto simp add: find_None_iff)
    then show ?thesis using f(3) get None by simp
  next
    case (Some s)
    then have "keys_at bytes_compare (fr_out f) u = mset (sp_keys s)" "s \<in> set (fr_out f)"
      using dflt.keys_at_found [OF f(1)] by (auto simp add: find_Some_iff)
    then show ?thesis using f(2,3) get Some by (auto simp add: emitted_ok_def)
  qed
qed

definition demo_fragments :: Fragmenter where
  "demo_fragments =
     (case frag_run bytes_compare (stable_sort (spansByEndKey_Less bytes_compare)) (stable_sort keysBySeqNumKind_Less)
             (map FragAdd [demo_rangedel 1 5 9, demo_rangedel 2 8 3]) new_Fragmenter of
        Inr f \<Rightarrow> f | Inl _ \<Rightarrow> new_Fragmenter)"

theorem fragments_answer_lookups_witness:
  "case fst (keyspan_Get bytes_compare (Iter_SeekLT bytes_compare) Iter_Next [3] (NewIter (fr_out demo_fragments))) of
      None \<Rightarrow> False
    | Some s \<Rightarrow> mset (sp_keys s) = keys_at bytes_compare [demo_rangedel 1 5 9, demo_rangedel 2 8 3] [3] \<and>
        length (sp_keys s) = 2"
proof -
  let ?ss = "[demo_rangedel 1 5 9, demo_rangedel 2 8 3]"
  let ?get = "fst (keyspan_Get bytes_compare (Iter_SeekLT bytes_compare) Iter_Next [3] (NewIter (fr_out demo_fragments)))"
  have f: "frag_run bytes_compare (stable_sort (spansByEndKey_Less bytes_compare)) (stable_sort keysBySeqNumKind_Less)
      (map FragAdd ?ss) new_Fragmenter = Inr demo_fragments"
    by code_simp
  have "case ?get of None \<Rightarrow> keys_at bytes_compare ?ss [3] = {#}
    | Some s \<Rightarrow> mset (sp_keys s) = keys_at bytes_compare ?ss [3] \<and> trailer_desc (sp_keys s)"
    by (rule fragments_answer_lookups [OF sorts_keys sorts_spans _ _ f]) (simp_all add: demo_rangedel_def)
  moreover have "case ?get of None \<Rightarrow> False | Some s \<Rightarrow> length (sp_keys s) = 2" by code_simp
  ultimately show ?thesis by (cases ?get) simp_all
qed

end
