(* ===== verification/Rangekey.thy ===== *)
theory Rangekey
  imports KeyspanProofs
begin

text \<open>
  Packages \<^verbatim>\<open>internal/rangekey\<close> and \<^verbatim>\<open>internal/rangedel\<close>: the encoding of the range keys and
  the range deletions of a span as internal key/value pairs (\<^verbatim>\<open>rangekey.go\<close>, \<^verbatim>\<open>rangedel.go\<close>)
  and the coalescing of range keys into the state they describe (\<^verbatim>\<open>coalesce.go\<close>). An encoder
  writes into a buffer whose length was computed ahead; the buffer it is given, and the one it keeps between
  calls, are part of the model.
\<close>

section \<open>Encoding\<close>

datatype rk_error =
    CorruptEndKey kind            \<comment> \<open>unable to decode range key end\<close>
  | CorruptSuffixValue            \<comment> \<open>unable to decode range key suffix-value tuple\<close>
  | CorruptUnsetSuffix            \<comment> \<open>unable to decode range key unset suffix\<close>
  | CorruptTrailingData           \<comment> \<open>RANGEKEYDELs must not contain additional data\<close>
  | CorruptKind kind              \<comment> \<open>not a range key\<close>
  | CorruptRangeDelKind kind      \<comment> \<open>rangedel.Encode cannot encode the key\<close>
  | RkPanic                       \<comment> \<open>a slice index out of range, or the panic of \<^verbatim>\<open>DecodeEndKey\<close>\<close>

record SuffixValue =
  sv_suffix :: bytes
  sv_value :: bytes

function lenVarint_from :: "u32 \<Rightarrow> nat \<Rightarrow> nat" where
  "lenVarint_from x n = (if x < 0x80 then n else lenVarint_from (drop_bit 7 x) (n + 1))"
  by pat_completeness auto
termination
proof (relation "measure (\<lambda>(x, n). unat x)")
  fix x :: u32 and n :: nat
  assume "\<not> x < 0x80"
  then have "128 \<le> unat x" by (simp add: word_less_nat_alt)
  then have "unat x div 128 < unat x" by simp
  then show "((drop_bit 7 x, n + 1), x, n) \<in> measure (\<lambda>(x, n). unat x)"
    by (simp add: drop_bit_eq_div unat_div)
qed simp

declare lenVarint_from.simps [simp del]

definition lenVarint :: "nat \<Rightarrow> nat" where
  "lenVarint v = lenVarint_from (of_nat v) 1"

fun encodedSetSuffixValuesLen :: "SuffixValue list \<Rightarrow> nat" where
  "encodedSetSuffixValuesLen [] = 0"
| "encodedSetSuffixValuesLen (sv # svs) =
     lenVarint (length (sv_suffix sv)) + length (sv_suffix sv) + lenVarint (length (sv_value sv)) +
     length (sv_value sv) + encodedSetSuffixValuesLen svs"

text \<open>
  Writing a string with its length at position \<open>n\<close> of the buffer \<open>dst\<close>: \<^verbatim>\<open>binary.PutUvarint(dst[n:], _)\<close> panics when
  the length does not fit, \<^verbatim>\<open>copy(dst[n:], _)\<close> stops at the end of the buffer. The result is the buffer and the next
  position.
\<close>

definition put_string :: "bytes \<Rightarrow> bytes \<times> nat \<Rightarrow> rk_error + (bytes \<times> nat)" where
  "put_string b = (\<lambda>(dst, n).
     let l = put_uvarint (of_nat (length b)); n1 = n + length l
     in if length dst < n1 then Inl RkPanic
        else Inr (copy_at n1 b (copy_at n l dst), n1 + min (length b) (length dst - n1)))"

fun encodeSetSuffixValues :: "SuffixValue list \<Rightarrow> bytes \<times> nat \<Rightarrow> rk_error + (bytes \<times> nat)" where
  "encodeSetSuffixValues [] dst = Inr dst"
| "encodeSetSuffixValues (sv # svs) dst =
     rbind (put_string (sv_suffix sv) dst) (\<lambda>dst1.
     rbind (put_string (sv_value sv) dst1) (\<lambda>dst2. encodeSetSuffixValues svs dst2))"

definition EncodedSetValueLen :: "bytes \<Rightarrow> SuffixValue list \<Rightarrow> nat" where
  "EncodedSetValueLen endKey svs = lenVarint (length endKey) + length endKey + encodedSetSuffixValuesLen svs"

definition EncodeSetValue :: "bytes \<Rightarrow> bytes \<Rightarrow> SuffixValue list \<Rightarrow> rk_error + (bytes \<times> nat)" where
  "EncodeSetValue dst endKey svs = rbind (put_string endKey (dst, 0)) (encodeSetSuffixValues svs)"

fun encodedUnsetSuffixesLen :: "bytes list \<Rightarrow> nat" where
  "encodedUnsetSuffixesLen [] = 0"
| "encodedUnsetSuffixesLen (s # ss) = lenVarint (length s) + length s + encodedUnsetSuffixesLen ss"

fun encodeUnsetSuffixes :: "bytes list \<Rightarrow> bytes \<times> nat \<Rightarrow> rk_error + (bytes \<times> nat)" where
  "encodeUnsetSuffixes [] dst = Inr dst"
| "encodeUnsetSuffixes (s # ss) dst = rbind (put_string s dst) (encodeUnsetSuffixes ss)"

definition EncodedUnsetValueLen :: "bytes \<Rightarrow> bytes list \<Rightarrow> nat" where
  "EncodedUnsetValueLen endKey sufs =
     lenVarint (length endKey) + length endKey + encodedUnsetSuffixesLen sufs"

definition EncodeUnsetValue :: "bytes \<Rightarrow> bytes \<Rightarrow> bytes list \<Rightarrow> rk_error + (bytes \<times> nat)" where
  "EncodeUnsetValue dst endKey sufs = rbind (put_string endKey (dst, 0)) (encodeUnsetSuffixes sufs)"

text \<open>
  An encoder: its buffer, as long as its capacity, with whatever earlier calls left in it, and the keys gathered for
  the next flush. \<^verbatim>\<open>Emit\<close> is a function on the state of whoever receives the pairs; it may fail.
\<close>

record Encoder =
  enc_buf :: bytes
  enc_unsets :: "bytes list"
  enc_sets :: "SuffixValue list"

type_synonym ('e, 's) emit = "InternalKey \<Rightarrow> bytes \<Rightarrow> 's \<Rightarrow> 'e + 's"

text \<open>The value of \<open>l\<close> bytes is encoded into the buffer, which is replaced if it is too small, and emitted.\<close>

definition emit_encoded ::
    "(rk_error, 's) emit \<Rightarrow> InternalKey \<Rightarrow> nat \<Rightarrow> (bytes \<Rightarrow> rk_error + (bytes \<times> nat)) \<Rightarrow> Encoder \<times> 's \<Rightarrow> rk_error + (Encoder \<times> 's)" where
  "emit_encoded emit ik l encode = (\<lambda>(e, st).
     let buf = (if length (enc_buf e) < l then replicate l 0 else enc_buf e)
     in rbind (encode (take l buf)) (\<lambda>(out, n).
        rbind (emit ik out st) (\<lambda>st1. Inr (e\<lparr>enc_buf := out @ drop l buf\<rparr>, st1))))"

definition Encoder_flush ::
    "(rk_error, 's) emit \<Rightarrow> Span \<Rightarrow> u64 \<Rightarrow> bool \<Rightarrow> Encoder \<times> 's \<Rightarrow> rk_error + (Encoder \<times> 's)" where
  "Encoder_flush emit s seqNum del = (\<lambda>(e, st).
     rbind (if 0 < length (enc_sets e)
            then emit_encoded emit (MakeInternalKey (sp_start s) seqNum InternalKeyKindRangeKeySet)
                   (EncodedSetValueLen (sp_end s) (enc_sets e))
                   (\<lambda>dst. EncodeSetValue dst (sp_end s) (enc_sets e)) (e, st)
            else Inr (e, st)) (\<lambda>(e1, st1).
     rbind (if 0 < length (enc_unsets e1)
            then emit_encoded emit (MakeInternalKey (sp_start s) seqNum InternalKeyKindRangeKeyUnset)
                   (EncodedUnsetValueLen (sp_end s) (enc_unsets e1))
                   (\<lambda>dst. EncodeUnsetValue dst (sp_end s) (enc_unsets e1)) (e1, st1)
            else Inr (e1, st1)) (\<lambda>(e2, st2).
     if del
     then rbind (emit (MakeInternalKey (sp_start s) seqNum InternalKeyKindRangeKeyDelete) (sp_end s) st2)
            (\<lambda>st3. Inr (e2, st3))
     else Inr (e2, st2))))"

fun Encode_keys ::
    "(rk_error, 's) emit \<Rightarrow> Span \<Rightarrow> Key list \<Rightarrow> u64 \<Rightarrow> bool \<Rightarrow> Encoder \<times> 's \<Rightarrow> rk_error + (Encoder \<times> 's)" where
  "Encode_keys emit s [] seqNum del est = Encoder_flush emit s seqNum del est"
| "Encode_keys emit s (k # ks) seqNum del est =
     rbind (if Key_SeqNum k \<noteq> seqNum
            then rbind (Encoder_flush emit s seqNum del est)
                   (\<lambda>(e1, st1). Inr (Key_SeqNum k, False, e1\<lparr>enc_sets := [], enc_unsets := []\<rparr>, st1))
            else Inr (seqNum, del, est))
       (\<lambda>(seqNum1, del1, e1, st1).
          if Key_Kind k = InternalKeyKindRangeKeySet
          then Encode_keys emit s ks seqNum1 del1
                 (e1\<lparr>enc_sets := enc_sets e1 @ [\<lparr>sv_suffix = k_suffix k, sv_value = k_value k\<rparr>]\<rparr>, st1)
          else if Key_Kind k = InternalKeyKindRangeKeyUnset
          then Encode_keys emit s ks seqNum1 del1 (e1\<lparr>enc_unsets := enc_unsets e1 @ [k_suffix k]\<rparr>, st1)
          else if Key_Kind k = InternalKeyKindRangeKeyDelete
          then Encode_keys emit s ks seqNum1 True (e1, st1)
          else Inl (CorruptKind (Key_Kind k)))"

text \<open>At the first key the code resets the accumulators without a flush: its sequence number is the first.\<close>

definition Encoder_Encode :: "(rk_error, 's) emit \<Rightarrow> Span \<Rightarrow> Encoder \<times> 's \<Rightarrow> rk_error + (Encoder \<times> 's)" where
  "Encoder_Encode emit s = (\<lambda>(e, st).
     case sp_keys s of
       [] \<Rightarrow> Inr (e, st)
     | k # ks \<Rightarrow> Encode_keys emit s (k # ks) (Key_SeqNum k) False (e\<lparr>enc_sets := [], enc_unsets := []\<rparr>, st))"

definition Rangekey_Encode :: "(rk_error, 's) emit \<Rightarrow> Span \<Rightarrow> 's \<Rightarrow> rk_error + 's" where
  "Rangekey_Encode emit s st =
     rbind (Encoder_Encode emit s (\<lparr>enc_buf = [], enc_unsets = [], enc_sets = []\<rparr>, st)) (\<lambda>(e, st1). Inr st1)"

section \<open>Decoding\<close>

definition DecodeEndKey :: "kind \<Rightarrow> bytes \<Rightarrow> rk_error + (bytes \<times> bytes) option" where
  "DecodeEndKey kind data =
     (if kind = InternalKeyKindRangeKeyDelete then Inr (Some (data, []))
      else if kind = InternalKeyKindRangeKeySet \<or> kind = InternalKeyKindRangeKeyUnset
      then let (v, n) = Uvarint data
        in if n \<le> 0 \<or> of_nat (length data) \<le> word_of_int n + v then Inr None
           else if length data < nat n + unat v then Inl RkPanic
           else Inr (Some (take (unat v) (drop (nat n) data), drop (nat n + unat v) data))
      else Inl RkPanic)"

definition decodeVarstring :: "bytes \<Rightarrow> rk_error + (bytes \<times> bytes) option" where
  "decodeVarstring data =
     (let (l, n) = Uvarint data
      in if n \<le> 0 then Inr None
         else if length data < nat n + unat l then Inl RkPanic
         else Inr (Some (take (unat l) (drop (nat n) data), drop (nat n + unat l) data)))"

definition decodeSuffixValue :: "bytes \<Rightarrow> rk_error + (SuffixValue \<times> bytes) option" where
  "decodeSuffixValue data =
     rbind (decodeVarstring data) (\<lambda>r1. case r1 of
       None \<Rightarrow> Inr None
     | Some (suff, data1) \<Rightarrow>
         rbind (decodeVarstring data1) (\<lambda>r2. case r2 of
           None \<Rightarrow> Inr None
         | Some (v, data2) \<Rightarrow> Inr (Some (\<lparr>sv_suffix = suff, sv_value = v\<rparr>, data2))))"

definition decodeSuffix :: "bytes \<Rightarrow> rk_error + (bytes \<times> bytes) option" where
  "decodeSuffix data = decodeVarstring data"

text \<open>Each successful read consumes its length prefix, so the loops end.\<close>

lemma decodeVarstring_shorter:
  "decodeVarstring data = Inr (Some (v, rest)) \<Longrightarrow> length rest < length data"
  by (auto simp add: decodeVarstring_def split: if_splits prod.splits)

lemma decodeSuffixValue_shorter:
  "decodeSuffixValue data = Inr (Some (sv, rest)) \<Longrightarrow> length rest < length data"
  by (fastforce simp add: decodeSuffixValue_def split: option.splits dest: decodeVarstring_shorter)

function decode_sets :: "u64 \<Rightarrow> bytes \<Rightarrow> Key list \<Rightarrow> rk_error + Key list" where
  "decode_sets trailer v keys =
     (if length v = 0 then Inr keys
      else rbind (decodeSuffixValue v) (\<lambda>r. case r of
        None \<Rightarrow> Inl CorruptSuffixValue
      | Some (sv, v1) \<Rightarrow>
          decode_sets trailer v1 (keys @ [\<lparr>k_trailer = trailer, k_suffix = sv_suffix sv, k_value = sv_value sv\<rparr>])))"
  by pat_completeness auto
termination
  by (relation "measure (\<lambda>(t, v, k). length v)") (auto dest: decodeSuffixValue_shorter)

function decode_unsets :: "u64 \<Rightarrow> bytes \<Rightarrow> Key list \<Rightarrow> rk_error + Key list" where
  "decode_unsets trailer v keys =
     (if length v = 0 then Inr keys
      else rbind (decodeSuffix v) (\<lambda>r. case r of
        None \<Rightarrow> Inl CorruptUnsetSuffix
      | Some (suff, v1) \<Rightarrow>
          decode_unsets trailer v1 (keys @ [\<lparr>k_trailer = trailer, k_suffix = suff, k_value = []\<rparr>])))"
  by pat_completeness auto
termination
  by (relation "measure (\<lambda>(t, v, k). length v)") (auto simp add: decodeSuffix_def dest: decodeVarstring_shorter)

declare decode_sets.simps [simp del] decode_unsets.simps [simp del]

definition Rangekey_Decode :: "InternalKey \<Rightarrow> bytes \<Rightarrow> Key list \<Rightarrow> rk_error + Span" where
  "Rangekey_Decode ik v keysDst =
     rbind (DecodeEndKey (Kind ik) v) (\<lambda>r. case r of
       None \<Rightarrow> Inl (CorruptEndKey (Kind ik))
     | Some (endKey, v1) \<Rightarrow>
         rbind (if Kind ik = InternalKeyKindRangeKeySet then decode_sets (Trailer ik) v1 keysDst
                else if Kind ik = InternalKeyKindRangeKeyUnset then decode_unsets (Trailer ik) v1 keysDst
                else if Kind ik = InternalKeyKindRangeKeyDelete
                then if 0 < length v1 then Inl CorruptTrailingData
                     else Inr (keysDst @ [\<lparr>k_trailer = Trailer ik, k_suffix = [], k_value = []\<rparr>])
                else Inl (CorruptKind (Kind ik)))
           (\<lambda>keys. Inr \<lparr>sp_start = UserKey ik, sp_end = endKey, sp_keys = keys, sp_order = ByTrailerDesc\<rparr>))"

definition IsRangeKey :: "kind \<Rightarrow> bool" where
  "IsRangeKey kind =
     (kind = InternalKeyKindRangeKeyDelete \<or> kind = InternalKeyKindRangeKeyUnset \<or> kind = InternalKeyKindRangeKeySet)"

section \<open>Range deletions\<close>

fun Rangedel_Encode :: "(rk_error, 's) emit \<Rightarrow> Span \<Rightarrow> Key list \<Rightarrow> 's \<Rightarrow> rk_error + 's" where
  "Rangedel_Encode emit s [] st = Inr st"
| "Rangedel_Encode emit s (k # ks) st =
     (if Key_Kind k \<noteq> InternalKeyKindRangeDelete then Inl (CorruptRangeDelKind (Key_Kind k))
      else rbind (emit \<lparr>UserKey = sp_start s, Trailer = k_trailer k\<rparr> (sp_end s) st) (Rangedel_Encode emit s ks))"

definition Rangedel_Decode :: "InternalKey \<Rightarrow> bytes \<Rightarrow> Key list \<Rightarrow> Span" where
  "Rangedel_Decode ik v keysDst =
     \<lparr>sp_start = UserKey ik, sp_end = v,
      sp_keys = keysDst @ [\<lparr>k_trailer = Trailer ik, k_suffix = [], k_value = []\<rparr>], sp_order = ByTrailerDesc\<rparr>"

section \<open>Coalescing\<close>

definition KeysBySuffix_Less :: "(bytes \<Rightarrow> bytes \<Rightarrow> int) \<Rightarrow> Key \<Rightarrow> Key \<Rightarrow> bool" where
  "KeysBySuffix_Less cmp a b = (cmp (k_suffix a) (k_suffix b) < 0)"

text \<open>The first loop of \<^verbatim>\<open>coalesce\<close>: the visible keys before the first visible deletion, and that deletion.\<close>

fun coalesce_prefix :: "u64 \<Rightarrow> Key list \<Rightarrow> Key list \<Rightarrow> Key list \<times> Key option" where
  "coalesce_prefix snapshot [] acc = (acc, None)"
| "coalesce_prefix snapshot (k # ks) acc =
     (if \<not> Key_VisibleAt snapshot k then coalesce_prefix snapshot ks acc
      else if Key_Kind k = InternalKeyKindRangeKeyDelete then (acc, Some k)
      else coalesce_prefix snapshot ks (acc @ [k]))"

text \<open>
  The second loop, over the sorted keys: \<open>i\<close> is the index, \<open>prev\<close> the suffix of the last key kept
  (\<^verbatim>\<open>prevSuffix\<close>) and \<open>kept\<close> the slice of the result once \<^verbatim>\<open>shadowing\<close> is set.
\<close>

fun coalesce_shadow ::
    "(bytes \<Rightarrow> bytes \<Rightarrow> bool) \<Rightarrow> Key list \<Rightarrow> nat \<Rightarrow> Key list \<Rightarrow> bytes \<Rightarrow> Key list option \<Rightarrow> Key list" where
  "coalesce_shadow equal all i [] prev kept = (case kept of None \<Rightarrow> all | Some ks \<Rightarrow> ks)"
| "coalesce_shadow equal all i (k # ks) prev kept =
     (if 0 < i \<and> equal prev (k_suffix k)
      then coalesce_shadow equal all (i + 1) ks prev (case kept of None \<Rightarrow> Some (take i all) | Some out \<Rightarrow> Some out)
      else coalesce_shadow equal all (i + 1) ks (k_suffix k)
             (case kept of None \<Rightarrow> None | Some out \<Rightarrow> Some (out @ [k])))"

definition coalesce ::
    "(bytes \<Rightarrow> bytes \<Rightarrow> int) \<Rightarrow> (bytes \<Rightarrow> bytes \<Rightarrow> bool) \<Rightarrow> u64 \<Rightarrow> Key list \<Rightarrow> Key list" where
  "coalesce cmp equal snapshot keys =
     (let (acc, del) = coalesce_prefix snapshot keys [];
          all = stable_sort (KeysBySuffix_Less cmp) acc
      in coalesce_shadow equal all 0 all [] None @ (case del of Some k \<Rightarrow> [k] | None \<Rightarrow> []))"

definition Coalesce ::
    "(bytes \<Rightarrow> bytes \<Rightarrow> int) \<Rightarrow> (bytes \<Rightarrow> bytes \<Rightarrow> bool) \<Rightarrow> Key sorter \<Rightarrow> Key list \<Rightarrow> Key list" where
  "Coalesce cmp equal sortKeys keys = sortKeys (coalesce cmp equal (- 1) keys)"

fun transform_keys :: "Key list \<Rightarrow> Key list \<Rightarrow> rk_error + Key list" where
  "transform_keys [] dst = Inr dst"
| "transform_keys (k # ks) dst =
     (if Key_Kind k = InternalKeyKindRangeKeySet then transform_keys ks (dst @ [k])
      else if Key_Kind k = InternalKeyKindRangeKeyUnset then transform_keys ks dst
      else if Key_Kind k = InternalKeyKindRangeKeyDelete then transform_keys ks dst
      else Inl (CorruptKind (Key_Kind k)))"

definition Transform ::
    "(bytes \<Rightarrow> bytes \<Rightarrow> int) \<Rightarrow> (bytes \<Rightarrow> bytes \<Rightarrow> bool) \<Rightarrow> Key sorter \<Rightarrow> u64 \<Rightarrow> bool \<Rightarrow> Span \<Rightarrow> rk_error + Span" where
  "Transform cmp equal sortKeys snapshot internalKeys s =
     (let keys = coalesce cmp equal snapshot (sp_keys s)
      in if internalKeys
         then if sp_order s \<noteq> ByTrailerDesc then Inl RkPanic
              else Inr \<lparr>sp_start = sp_start s, sp_end = sp_end s, sp_keys = sortKeys keys, sp_order = ByTrailerDesc\<rparr>
         else rbind (transform_keys keys []) (\<lambda>dst.
           Inr \<lparr>sp_start = sp_start s, sp_end = sp_end s, sp_keys = dst, sp_order = BySuffixAsc\<rparr>))"

fun same_sets :: "(bytes \<Rightarrow> bytes \<Rightarrow> bool) \<Rightarrow> Key list \<Rightarrow> Key list \<Rightarrow> bool" where
  "same_sets equal (a # as) (b # bs) =
     (if \<not> equal (k_suffix a) (k_suffix b) then False
      else if k_value a \<noteq> k_value b then False
      else same_sets equal as bs)"
| "same_sets equal _ _ = True"

definition ShouldDefragment :: "(bytes \<Rightarrow> bytes \<Rightarrow> bool) \<Rightarrow> bool \<Rightarrow> Span \<Rightarrow> Span \<Rightarrow> rk_error + bool" where
  "ShouldDefragment equal internalKeys a b =
     (if internalKeys then Inl RkPanic
      else if length (sp_keys a) \<noteq> length (sp_keys b) \<or> length (sp_keys a) = 0 then Inr False
      else if sp_order a \<noteq> BySuffixAsc \<or> sp_order b \<noteq> BySuffixAsc then Inl RkPanic
      else Inr (same_sets equal (sp_keys a) (sp_keys b)))"

end
