(* ===== verification/Batch.thy ===== *)
theory Batch
  imports BatchsklProofs Rangekey
begin

text \<open>
  \<^verbatim>\<open>batch.go\<close>: the write batch. Its data is a header (sequence number and count) and one record
  per operation; an indexed batch also keeps skiplists of the offsets of its records. Modelled here:
  the operations that add records, \<^verbatim>\<open>Apply\<close>, \<^verbatim>\<open>Repr\<close>/\<^verbatim>\<open>SetRepr\<close>, the reader of a
  representation and the accounting. The byte slice is its contents and its capacity; the pointer
  to the database is whether it is set. Not modelled: the pools, and the fields of the commit
  pipeline (wait groups, statistics, error).
\<close>

section \<open>State\<close>

definition batchCountOffset :: nat where "batchCountOffset = 8"
definition batchHeaderLen :: nat where "batchHeaderLen = 12"
definition batchInitialSize :: nat where "batchInitialSize = 1024"
definition batchMaxRetainedSize :: nat where "batchMaxRetainedSize = 1048576"
definition maxVarintLen32 :: nat where "maxVarintLen32 = 5"
definition MaxVarintLen64 :: nat where "MaxVarintLen64 = 10"
definition maxBatchSize :: nat where "maxBatchSize = 2 ^ 32 - 1"

definition FormatRangeKeys :: nat where "FormatRangeKeys = 8"
definition FormatFlushableIngest :: nat where "FormatFlushableIngest = 13"
definition FormatDeleteSizedAndObsolete :: nat where "FormatDeleteSizedAndObsolete = 15"

datatype batch_error = ErrInvalidBatch | ErrIndex skl_error | ErrCorruption

datatype batch_panic =
    PanicCommitting            \<comment> \<open>batch already committing\<close>
  | PanicBatchTooLarge         \<comment> \<open>\<^verbatim>\<open>panic(ErrBatchTooLarge)\<close>\<close>
  | PanicInvalidApplication    \<comment> \<open>invalid batch application\<close>
  | PanicInvalidKind           \<comment> \<open>invalid key kind for batch\<close>
  | PanicInternalKeyKind       \<comment> \<open>unexpected range delete or range key kind in AddInternalKey\<close>
  | PanicIngestSST             \<comment> \<open>invalid call to ingestSST\<close>
  | PanicCount                 \<comment> \<open>\<^verbatim>\<open>panic(ErrInvalidBatch)\<close>\<close>
  | PanicLengthMismatch        \<comment> \<open>unexpected internal value length mismatch\<close>
  | PanicIndexRange            \<comment> \<open>a slice index out of range, or a failure inside the index\<close>
  | PanicFragment span_panic   \<comment> \<open>a panic of the span fragmenter\<close>
  | Diverges                   \<comment> \<open>a loop that doubles a capacity of 0 for ever\<close>
  | UnsafeRead                 \<comment> \<open>a read past the end of a slice through an unsafe pointer\<close>

datatype index_ref = NoIndex | PointIndex | RangeDelIndex | RangeKeyIndex

text \<open>The key and the value of a deferred operation are subslices of the data: their start and length.\<close>

record DeferredBatchOp =
  op_index :: index_ref
  op_key :: "nat \<times> nat"
  op_value :: "nat \<times> nat"
  op_offset :: u32

record Batch =
  b_data :: bytes
  b_cap :: nat
  b_cmp :: "bytes \<Rightarrow> bytes \<Rightarrow> int"
  b_abbreviatedKey :: "bytes \<Rightarrow> u64"
  b_memTableSize :: u64
  b_db :: bool
  b_count :: u64
  b_countRangeDels :: u64
  b_countRangeKeys :: u64
  b_deferredOp :: DeferredBatchOp
  b_index :: "Skiplist option"
  b_rangeDelIndex :: "Skiplist option"
  b_rangeKeyIndex :: "Skiplist option"
  b_tombstones :: "Span list option"
  b_tombstonesSeqNum :: u64
  b_rangeKeys :: "Span list option"
  b_rangeKeysSeqNum :: u64
  b_minimumFormatMajorVersion :: nat
  b_ingestedSSTBatch :: bool
  b_committing :: bool
  b_applied :: bool

text \<open>Beside the skiplists' environment: what the memory past the end of the data holds, and the
  capacity \<^verbatim>\<open>append\<close> chooses when the one at hand is too small for a length.\<close>

record batch_env =
  be_skl :: skl_env
  be_mem :: "bytes \<Rightarrow> nat \<Rightarrow> byte"
  be_append_cap :: "nat \<Rightarrow> nat \<Rightarrow> nat"

type_synonym batch_result = "batch_panic + batch_error option \<times> Batch"

definition empty_Batch :: "bool \<Rightarrow> Batch" where
  "empty_Batch db =
     \<lparr>b_data = [], b_cap = 0, b_cmp = (\<lambda>_ _. 0), b_abbreviatedKey = (\<lambda>_. 0), b_memTableSize = 0, b_db = db,
      b_count = 0, b_countRangeDels = 0, b_countRangeKeys = 0,
      b_deferredOp = \<lparr>op_index = NoIndex, op_key = (0, 0), op_value = (0, 0), op_offset = 0\<rparr>,
      b_index = None, b_rangeDelIndex = None, b_rangeKeyIndex = None, b_tombstones = None,
      b_tombstonesSeqNum = 0, b_rangeKeys = None, b_rangeKeysSeqNum = 0, b_minimumFormatMajorVersion = 0,
      b_ingestedSSTBatch = False, b_committing = False, b_applied = False\<rparr>"

text \<open>A batch fresh from the pool.\<close>

definition newBatch :: Batch where
  "newBatch = empty_Batch True"

definition newBatchWithSize :: "nat \<Rightarrow> Batch" where
  "newBatchWithSize sz = newBatch\<lparr>b_cap := sz\<rparr>"

definition newIndexedBatch ::
    "batch_env \<Rightarrow> (bytes \<Rightarrow> bytes \<Rightarrow> int) \<Rightarrow> (bytes \<Rightarrow> u64) \<Rightarrow> Batch option" where
  "newIndexedBatch env cmp abk =
     (case NewSkiplist (be_skl env) cmp abk of
        None \<Rightarrow> None
      | Some s \<Rightarrow> Some ((empty_Batch True)\<lparr>b_cmp := cmp, b_abbreviatedKey := abk, b_index := Some s\<rparr>))"

definition nextSeqNum :: "Batch \<Rightarrow> u64" where
  "nextSeqNum b = of_nat (length (b_data b)) OR InternalKeySeqNumBatch"

section \<open>Space\<close>

text \<open>The doubling loops of \<^verbatim>\<open>init\<close> and \<^verbatim>\<open>grow\<close>.\<close>

partial_function (option) double_until :: "nat \<Rightarrow> nat \<Rightarrow> nat option" where
  "double_until n sz = (if n < sz then double_until (n * 2) sz else Some n)"

definition batch_init :: "nat \<Rightarrow> Batch \<Rightarrow> batch_panic + Batch" where
  "batch_init sz b =
     (case double_until batchInitialSize sz of
        None \<Rightarrow> Inl Diverges
      | Some n \<Rightarrow> Inr (b\<lparr>b_cap := (if b_cap b < n then n else b_cap b), b_data := replicate batchHeaderLen 0\<rparr>))"

text \<open>The calls of \<^verbatim>\<open>init\<close> on data that has not been set.\<close>

definition ensure_init :: "nat \<Rightarrow> Batch \<Rightarrow> batch_panic + Batch" where
  "ensure_init sz b = (if length (b_data b) = 0 then batch_init sz b else Inr b)"

definition batch_grow :: "batch_env \<Rightarrow> nat \<Rightarrow> Batch \<Rightarrow> batch_panic + Batch" where
  "batch_grow env n b =
     (let newSize = length (b_data b) + n;
          stale = map (be_mem env (b_data b)) [length (b_data b)..<newSize]
      in if maxBatchSize \<le> newSize then Inl PanicBatchTooLarge
         else if b_cap b < newSize
         then case double_until (2 * b_cap b) newSize of
                None \<Rightarrow> Inl Diverges
              | Some newCap \<Rightarrow> Inr (b\<lparr>b_cap := newCap, b_data := b_data b @ stale\<rparr>)
         else Inr (b\<lparr>b_data := b_data b @ stale\<rparr>))"

text \<open>\<^verbatim>\<open>arenaskl.MaxNodeSize\<close> and \<^verbatim>\<open>memTableEntrySize\<close>; a node of the memtable's skiplist takes
  at most 184 bytes besides its key and value, and 3 bytes of padding.\<close>

definition MaxNodeSize :: "u32 \<Rightarrow> u32 \<Rightarrow> u64" where
  "MaxNodeSize keySize valueSize = 184 + ucast keySize + ucast valueSize + 3"

definition memTableEntrySize :: "nat \<Rightarrow> nat \<Rightarrow> u64" where
  "memTableEntrySize keyBytes valueBytes = MaxNodeSize (of_nat keyBytes + 8) (of_nat valueBytes)"

section \<open>Adding records\<close>

text \<open>The inlined \<^verbatim>\<open>binary.PutUvarint\<close> on a 32-bit length.\<close>

function put_uvarint32 :: "u32 \<Rightarrow> bytes" where
  "put_uvarint32 x = (if x < 0x80 then [ucast x] else (ucast x OR 0x80) # put_uvarint32 (drop_bit 7 x))"
  by pat_completeness auto
termination
proof (relation "measure unat")
  fix x :: u32
  assume "\<not> x < 0x80"
  then have "128 \<le> unat x" by (simp add: word_less_nat_alt)
  then have "unat x div 128 < unat x" by simp
  then show "(drop_bit 7 x, x) \<in> measure unat" by (simp add: drop_bit_eq_div unat_div)
qed simp

declare put_uvarint32.simps [simp del]

definition prepareDeferredKeyValueRecord ::
    "batch_env \<Rightarrow> nat \<Rightarrow> nat \<Rightarrow> kind \<Rightarrow> Batch \<Rightarrow> batch_panic + Batch" where
  "prepareDeferredKeyValueRecord env keyLen valueLen kind b =
     (if b_committing b then Inl PanicCommitting
      else
        rbind (ensure_init (keyLen + valueLen + 2 * MaxVarintLen64 + batchHeaderLen) b) (\<lambda>b1.
        let b2 = b1\<lparr>b_count := b_count b1 + 1, b_memTableSize := b_memTableSize b1 + memTableEntrySize keyLen valueLen\<rparr>;
            pos = length (b_data b2);
            b3 = b2\<lparr>b_deferredOp := (b_deferredOp b2)\<lparr>op_offset := of_nat pos\<rparr>\<rparr>
        in rbind (batch_grow env (1 + 2 * maxVarintLen32 + keyLen + valueLen) b3) (\<lambda>b4.
        let d1 = (b_data b4)[pos := kind];
            klen = put_uvarint32 (of_nat keyLen);
            d2 = copy_at (pos + 1) klen d1;
            pos2 = pos + 1 + length klen;
            pos3 = pos2 + keyLen;
            vlen = put_uvarint32 (of_nat valueLen);
            d3 = copy_at pos3 vlen d2;
            pos4 = pos3 + length vlen
        in Inr (b4\<lparr>b_data := take (pos4 + valueLen) d3,
                   b_deferredOp := (b_deferredOp b4)\<lparr>op_key := (pos2, keyLen), op_value := (pos4, valueLen)\<rparr>\<rparr>))))"

definition prepareDeferredKeyRecord :: "batch_env \<Rightarrow> nat \<Rightarrow> kind \<Rightarrow> Batch \<Rightarrow> batch_panic + Batch" where
  "prepareDeferredKeyRecord env keyLen kind b =
     (if b_committing b then Inl PanicCommitting
      else
        rbind (ensure_init (keyLen + MaxVarintLen64 + batchHeaderLen) b) (\<lambda>b1.
        let b2 = b1\<lparr>b_count := b_count b1 + 1, b_memTableSize := b_memTableSize b1 + memTableEntrySize keyLen 0\<rparr>;
            pos = length (b_data b2);
            b3 = b2\<lparr>b_deferredOp := (b_deferredOp b2)\<lparr>op_offset := of_nat pos\<rparr>\<rparr>
        in rbind (batch_grow env (1 + maxVarintLen32 + keyLen) b3) (\<lambda>b4.
        let d1 = (b_data b4)[pos := kind];
            klen = put_uvarint32 (of_nat keyLen);
            d2 = copy_at (pos + 1) klen d1;
            pos2 = pos + 1 + length klen
        in Inr (b4\<lparr>b_data := take (pos2 + keyLen) d2,
                   b_deferredOp := (b_deferredOp b4)\<lparr>op_key := (pos2, keyLen), op_value := (0, 0)\<rparr>\<rparr>))))"

text \<open>\<^verbatim>\<open>copy\<close> into the key or the value of the deferred operation.\<close>

definition copy_slice :: "nat \<times> nat \<Rightarrow> bytes \<Rightarrow> Batch \<Rightarrow> Batch" where
  "copy_slice sl src b = b\<lparr>b_data := copy_at (fst sl) (take (snd sl) src) (b_data b)\<rparr>"

definition copy_key :: "bytes \<Rightarrow> Batch \<Rightarrow> Batch" where
  "copy_key key b = copy_slice (op_key (b_deferredOp b)) key b"

definition copy_value :: "bytes \<Rightarrow> Batch \<Rightarrow> Batch" where
  "copy_value v b = copy_slice (op_value (b_deferredOp b)) v b"

definition set_op_index :: "index_ref \<Rightarrow> Batch \<Rightarrow> Batch" where
  "set_op_index r b = b\<lparr>b_deferredOp := (b_deferredOp b)\<lparr>op_index := r\<rparr>\<rparr>"

definition point_ref :: "Batch \<Rightarrow> index_ref" where
  "point_ref b = (case b_index b of Some _ \<Rightarrow> PointIndex | None \<Rightarrow> NoIndex)"

text \<open>\<^verbatim>\<open>index.Add(offset)\<close> on the index a reference names; the storage is the batch's data.\<close>

definition index_add :: "batch_env \<Rightarrow> index_ref \<Rightarrow> u32 \<Rightarrow> Batch \<Rightarrow> batch_result" where
  "index_add env r offset b =
     (let put = (\<lambda>s. case r of
             PointIndex \<Rightarrow> b\<lparr>b_index := Some s\<rparr>
           | RangeDelIndex \<Rightarrow> b\<lparr>b_rangeDelIndex := Some s\<rparr>
           | RangeKeyIndex \<Rightarrow> b\<lparr>b_rangeKeyIndex := Some s\<rparr>
           | NoIndex \<Rightarrow> b);
          idx = (case r of
             PointIndex \<Rightarrow> b_index b
           | RangeDelIndex \<Rightarrow> b_rangeDelIndex b
           | RangeKeyIndex \<Rightarrow> b_rangeKeyIndex b
           | NoIndex \<Rightarrow> None)
      in case idx of
           None \<Rightarrow> Inr (None, b)
         | Some s \<Rightarrow>
             (case skl_Add (be_skl env) (b_data b) offset s of
                None \<Rightarrow> Inl PanicIndexRange
              | Some (err, s1) \<Rightarrow> Inr (map_option ErrIndex err, put s1)))"

text \<open>The inlined \<^verbatim>\<open>Finish\<close> of the point operations and of the range operations: the former add to
  \<^verbatim>\<open>b.index\<close>, the latter to the index of the deferred operation.\<close>

definition finish_point :: "batch_env \<Rightarrow> Batch \<Rightarrow> batch_result" where
  "finish_point env b = index_add env (point_ref b) (op_offset (b_deferredOp b)) b"

definition DeferredBatchOp_Finish :: "batch_env \<Rightarrow> Batch \<Rightarrow> batch_result" where
  "DeferredBatchOp_Finish env b = index_add env (op_index (b_deferredOp b)) (op_offset (b_deferredOp b)) b"

definition AddInternalKey :: "batch_env \<Rightarrow> InternalKey \<Rightarrow> bytes \<Rightarrow> Batch \<Rightarrow> batch_result" where
  "AddInternalKey env key v b =
     (if Kind key \<in> {InternalKeyKindRangeDelete, InternalKeyKindRangeKeySet, InternalKeyKindRangeKeyUnset,
                     InternalKeyKindRangeKeyDelete}
      then Inl PanicInternalKeyKind
      else if Kind key \<in> {InternalKeyKindSingleDelete, InternalKeyKindDelete}
      then rbind (prepareDeferredKeyRecord env (length (UserKey key)) (Kind key) b) (\<lambda>b1.
             finish_point env (copy_key (UserKey key) (set_op_index (point_ref b1) b1)))
      else rbind (prepareDeferredKeyValueRecord env (length (UserKey key)) (length v) (Kind key) b) (\<lambda>b1.
             finish_point env (copy_value v (copy_key (UserKey key) (set_op_index (point_ref b1) b1)))))"

definition SetDeferred :: "batch_env \<Rightarrow> nat \<Rightarrow> nat \<Rightarrow> Batch \<Rightarrow> batch_panic + Batch" where
  "SetDeferred env keyLen valueLen b =
     rbind (prepareDeferredKeyValueRecord env keyLen valueLen InternalKeyKindSet b)
       (\<lambda>b1. Inr (set_op_index (point_ref b1) b1))"

definition Batch_Set :: "batch_env \<Rightarrow> bytes \<Rightarrow> bytes \<Rightarrow> Batch \<Rightarrow> batch_result" where
  "Batch_Set env key v b =
     rbind (SetDeferred env (length key) (length v) b) (\<lambda>b1. finish_point env (copy_value v (copy_key key b1)))"

definition MergeDeferred :: "batch_env \<Rightarrow> nat \<Rightarrow> nat \<Rightarrow> Batch \<Rightarrow> batch_panic + Batch" where
  "MergeDeferred env keyLen valueLen b =
     rbind (prepareDeferredKeyValueRecord env keyLen valueLen InternalKeyKindMerge b)
       (\<lambda>b1. Inr (set_op_index (point_ref b1) b1))"

definition Batch_Merge :: "batch_env \<Rightarrow> bytes \<Rightarrow> bytes \<Rightarrow> Batch \<Rightarrow> batch_result" where
  "Batch_Merge env key v b =
     rbind (MergeDeferred env (length key) (length v) b) (\<lambda>b1. finish_point env (copy_value v (copy_key key b1)))"

definition DeleteDeferred :: "batch_env \<Rightarrow> nat \<Rightarrow> Batch \<Rightarrow> batch_panic + Batch" where
  "DeleteDeferred env keyLen b =
     rbind (prepareDeferredKeyRecord env keyLen InternalKeyKindDelete b) (\<lambda>b1. Inr (set_op_index (point_ref b1) b1))"

definition Batch_Delete :: "batch_env \<Rightarrow> bytes \<Rightarrow> Batch \<Rightarrow> batch_result" where
  "Batch_Delete env key b = rbind (DeleteDeferred env (length key) b) (\<lambda>b1. finish_point env (copy_key key b1))"

definition DeleteSizedDeferred :: "batch_env \<Rightarrow> nat \<Rightarrow> u32 \<Rightarrow> Batch \<Rightarrow> batch_panic + Batch" where
  "DeleteSizedDeferred env keyLen deletedValueSize b =
     (let b1 = (if b_minimumFormatMajorVersion b < FormatDeleteSizedAndObsolete
                then b\<lparr>b_minimumFormatMajorVersion := FormatDeleteSizedAndObsolete\<rparr> else b);
          buf = put_uvarint (ucast deletedValueSize + of_nat keyLen)
      in rbind (prepareDeferredKeyValueRecord env keyLen (length buf) InternalKeyKindDeleteSized b1)
           (\<lambda>b2. Inr (copy_value buf (set_op_index (point_ref b2) b2))))"

definition Batch_DeleteSized :: "batch_env \<Rightarrow> bytes \<Rightarrow> u32 \<Rightarrow> Batch \<Rightarrow> batch_result" where
  "Batch_DeleteSized env key deletedValueSize b =
     rbind (DeleteSizedDeferred env (length key) deletedValueSize b) (\<lambda>b1. finish_point env (copy_key key b1))"

definition SingleDeleteDeferred :: "batch_env \<Rightarrow> nat \<Rightarrow> Batch \<Rightarrow> batch_panic + Batch" where
  "SingleDeleteDeferred env keyLen b =
     rbind (prepareDeferredKeyRecord env keyLen InternalKeyKindSingleDelete b)
       (\<lambda>b1. Inr (set_op_index (point_ref b1) b1))"

definition Batch_SingleDelete :: "batch_env \<Rightarrow> bytes \<Rightarrow> Batch \<Rightarrow> batch_result" where
  "Batch_SingleDelete env key b =
     rbind (SingleDeleteDeferred env (length key) b) (\<lambda>b1. finish_point env (copy_key key b1))"

text \<open>The lazily allocated indexes of range deletions and range keys; the cached fragments are dropped.\<close>

definition use_rangeDelIndex :: "batch_env \<Rightarrow> Batch \<Rightarrow> batch_panic + Batch" where
  "use_rangeDelIndex env b =
     (case b_index b of
        None \<Rightarrow> Inr b
      | Some _ \<Rightarrow>
          let b1 = b\<lparr>b_tombstones := None, b_tombstonesSeqNum := 0\<rparr>
          in case b_rangeDelIndex b1 of
               Some _ \<Rightarrow> Inr b1
             | None \<Rightarrow>
                 (case NewSkiplist (be_skl env) (b_cmp b) (b_abbreviatedKey b) of
                    None \<Rightarrow> Inl PanicIndexRange
                  | Some s \<Rightarrow> Inr (b1\<lparr>b_rangeDelIndex := Some s\<rparr>)))"

definition use_rangeKeyIndex :: "batch_env \<Rightarrow> Batch \<Rightarrow> batch_panic + Batch" where
  "use_rangeKeyIndex env b =
     (case b_index b of
        None \<Rightarrow> Inr b
      | Some _ \<Rightarrow>
          let b1 = b\<lparr>b_rangeKeys := None, b_rangeKeysSeqNum := 0\<rparr>
          in case b_rangeKeyIndex b1 of
               Some _ \<Rightarrow> Inr b1
             | None \<Rightarrow>
                 (case NewSkiplist (be_skl env) (b_cmp b) (b_abbreviatedKey b) of
                    None \<Rightarrow> Inl PanicIndexRange
                  | Some s \<Rightarrow> Inr (b1\<lparr>b_rangeKeyIndex := Some s\<rparr>)))"

definition set_range_op_index :: "index_ref \<Rightarrow> Batch \<Rightarrow> Batch" where
  "set_range_op_index r b = (case b_index b of Some _ \<Rightarrow> set_op_index r b | None \<Rightarrow> b)"

definition DeleteRangeDeferred :: "batch_env \<Rightarrow> nat \<Rightarrow> nat \<Rightarrow> Batch \<Rightarrow> batch_panic + Batch" where
  "DeleteRangeDeferred env startLen endLen b =
     rbind (prepareDeferredKeyValueRecord env startLen endLen InternalKeyKindRangeDelete b) (\<lambda>b1.
     rbind (use_rangeDelIndex env (b1\<lparr>b_countRangeDels := b_countRangeDels b1 + 1\<rparr>)) (\<lambda>b2.
     Inr (set_range_op_index RangeDelIndex b2)))"

definition Batch_DeleteRange :: "batch_env \<Rightarrow> bytes \<Rightarrow> bytes \<Rightarrow> Batch \<Rightarrow> batch_result" where
  "Batch_DeleteRange env start_key end_key b =
     rbind (DeleteRangeDeferred env (length start_key) (length end_key) b)
       (\<lambda>b1. DeferredBatchOp_Finish env (copy_value end_key (copy_key start_key b1)))"

definition incrementRangeKeysCount :: "batch_env \<Rightarrow> Batch \<Rightarrow> batch_panic + Batch" where
  "incrementRangeKeysCount env b =
     (let b1 = b\<lparr>b_countRangeKeys := b_countRangeKeys b + 1\<rparr>;
          b2 = (if b_minimumFormatMajorVersion b1 < FormatRangeKeys
                then b1\<lparr>b_minimumFormatMajorVersion := FormatRangeKeys\<rparr> else b1)
      in rbind (use_rangeKeyIndex env b2) (\<lambda>b3. Inr (set_range_op_index RangeKeyIndex b3)))"

definition rangeKeyDeferred :: "kind \<Rightarrow> batch_env \<Rightarrow> nat \<Rightarrow> nat \<Rightarrow> Batch \<Rightarrow> batch_panic + Batch" where
  "rangeKeyDeferred kind env startLen valueLen b =
     rbind (prepareDeferredKeyValueRecord env startLen valueLen kind b) (incrementRangeKeysCount env)"

definition rangeKeySetDeferred :: "batch_env \<Rightarrow> nat \<Rightarrow> nat \<Rightarrow> Batch \<Rightarrow> batch_panic + Batch" where
  "rangeKeySetDeferred = rangeKeyDeferred InternalKeyKindRangeKeySet"

definition rangeKeyUnsetDeferred :: "batch_env \<Rightarrow> nat \<Rightarrow> nat \<Rightarrow> Batch \<Rightarrow> batch_panic + Batch" where
  "rangeKeyUnsetDeferred = rangeKeyDeferred InternalKeyKindRangeKeyUnset"

definition RangeKeyDeleteDeferred :: "batch_env \<Rightarrow> nat \<Rightarrow> nat \<Rightarrow> Batch \<Rightarrow> batch_panic + Batch" where
  "RangeKeyDeleteDeferred = rangeKeyDeferred InternalKeyKindRangeKeyDelete"

text \<open>
  \<^verbatim>\<open>RangeKeySet\<close> and \<^verbatim>\<open>RangeKeyUnset\<close> let the encoders of range keys write into the value of the operation, a
  subslice of the data.
\<close>

definition encode_value ::
    "batch_env \<Rightarrow> nat \<Rightarrow> (bytes \<Rightarrow> rk_error + (bytes \<times> nat)) \<Rightarrow> Batch \<Rightarrow> batch_result" where
  "encode_value env internalValueLen encode b =
     (let (i, l) = op_value (b_deferredOp b)
      in case encode (slice i (i + l) (b_data b)) of
           Inl _ \<Rightarrow> Inl PanicIndexRange
         | Inr (v, n) \<Rightarrow>
             if n \<noteq> internalValueLen then Inl PanicLengthMismatch
             else DeferredBatchOp_Finish env (copy_value v b))"

definition Batch_RangeKeySet :: "batch_env \<Rightarrow> bytes \<Rightarrow> bytes \<Rightarrow> bytes \<Rightarrow> bytes \<Rightarrow> Batch \<Rightarrow> batch_result" where
  "Batch_RangeKeySet env start_key end_key suff v b =
     (let suffixValues = [\<lparr>sv_suffix = suff, sv_value = v\<rparr>];
          internalValueLen = EncodedSetValueLen end_key suffixValues
      in rbind (rangeKeySetDeferred env (length start_key) internalValueLen b) (\<lambda>b1.
           encode_value env internalValueLen (\<lambda>dst. EncodeSetValue dst end_key suffixValues) (copy_key start_key b1)))"

definition Batch_RangeKeyUnset :: "batch_env \<Rightarrow> bytes \<Rightarrow> bytes \<Rightarrow> bytes \<Rightarrow> Batch \<Rightarrow> batch_result" where
  "Batch_RangeKeyUnset env start_key end_key suff b =
     (let internalValueLen = EncodedUnsetValueLen end_key [suff]
      in rbind (rangeKeyUnsetDeferred env (length start_key) internalValueLen b) (\<lambda>b1.
           encode_value env internalValueLen (\<lambda>dst. EncodeUnsetValue dst end_key [suff]) (copy_key start_key b1)))"

definition Batch_RangeKeyDelete :: "batch_env \<Rightarrow> bytes \<Rightarrow> bytes \<Rightarrow> Batch \<Rightarrow> batch_result" where
  "Batch_RangeKeyDelete env start_key end_key b =
     rbind (RangeKeyDeleteDeferred env (length start_key) (length end_key) b)
       (\<lambda>b1. DeferredBatchOp_Finish env (copy_value end_key (copy_key start_key b1)))"

definition Batch_LogData :: "batch_env \<Rightarrow> bytes \<Rightarrow> Batch \<Rightarrow> batch_result" where
  "Batch_LogData env data b =
     rbind (prepareDeferredKeyRecord env (length data) InternalKeyKindLogData b)
       (\<lambda>b1. Inr (None, (copy_key data b1)\<lparr>b_count := b_count b, b_memTableSize := b_memTableSize b\<rparr>))"

definition Batch_Empty :: "Batch \<Rightarrow> bool" where
  "Batch_Empty b = (length (b_data b) \<le> batchHeaderLen)"

definition Batch_ingestSST :: "batch_env \<Rightarrow> u64 \<Rightarrow> Batch \<Rightarrow> batch_panic + Batch" where
  "Batch_ingestSST env fileNum b =
     rbind (if Batch_Empty b then Inr (b\<lparr>b_ingestedSSTBatch := True\<rparr>)
            else if \<not> b_ingestedSSTBatch b then Inl PanicIngestSST
            else Inr b) (\<lambda>b1.
     let buf = put_uvarint fileNum
     in rbind (prepareDeferredKeyRecord env (length buf) InternalKeyKindIngestSST b1) (\<lambda>b2.
          Inr ((copy_key buf b2)\<lparr>b_memTableSize := b_memTableSize b1,
                                 b_minimumFormatMajorVersion := FormatFlushableIngest\<rparr>)))"

section \<open>Header and representation\<close>

definition Batch_Len :: "Batch \<Rightarrow> nat" where
  "Batch_Len b = (if length (b_data b) \<le> batchHeaderLen then batchHeaderLen else length (b_data b))"

definition Batch_Count :: "Batch \<Rightarrow> batch_panic + u32" where
  "Batch_Count b = (if 2 ^ 32 - 1 < unat (b_count b) then Inl PanicCount else Inr (ucast (b_count b)))"

definition setCount :: "u32 \<Rightarrow> Batch \<Rightarrow> Batch" where
  "setCount v b = b\<lparr>b_count := ucast v\<rparr>"

text \<open>The writes to the header panic on data shorter than it.\<close>

definition put_header :: "nat \<Rightarrow> bytes \<Rightarrow> Batch \<Rightarrow> batch_panic + Batch" where
  "put_header off bs b =
     (if length (b_data b) < off + length bs then Inl PanicIndexRange
      else Inr (b\<lparr>b_data := copy_at off bs (b_data b)\<rparr>))"

definition setSeqNum :: "u64 \<Rightarrow> Batch \<Rightarrow> batch_panic + Batch" where
  "setSeqNum seqNum b = put_header 0 (le_encode 8 seqNum) b"

definition Batch_SeqNum :: "Batch \<Rightarrow> batch_panic + u64 \<times> Batch" where
  "Batch_SeqNum b =
     rbind (ensure_init batchHeaderLen b) (\<lambda>b1.
       case le_read 8 (b_data b1) of None \<Rightarrow> Inl PanicIndexRange | Some n \<Rightarrow> Inr (n, b1))"

definition Batch_Repr :: "Batch \<Rightarrow> batch_panic + bytes \<times> Batch" where
  "Batch_Repr b =
     rbind (ensure_init batchHeaderLen b) (\<lambda>b1.
     rbind (Batch_Count b1) (\<lambda>count.
     rbind (put_header batchCountOffset (le_encode 4 count) b1) (\<lambda>b2.
     Inr (b_data b2, b2))))"

section \<open>Reading records\<close>

text \<open>
  The bytes of a length prefix are read through an unsafe pointer, without bounds checks: a read
  past the end is \<open>UnsafeRead\<close>.
\<close>

definition batchDecodeStr :: "bytes \<Rightarrow> batch_panic + (bytes \<times> bytes) option" where
  "batchDecodeStr data =
     (let rd = (\<lambda>i (f :: byte \<Rightarrow> batch_panic + u32 \<times> nat). if i < length data then f (data ! i) else Inl UnsafeRead)
      in if length data = 0 then Inl PanicIndexRange
         else rbind
           (rd 0 (\<lambda>a. if a < 128 then Inr (ucast a, 1)
            else rd 1 (\<lambda>b. if b < 128 then Inr (push_bit 7 (ucast b) OR ucast (a AND 0x7f), 2)
            else rd 2 (\<lambda>c. if c < 128
                 then Inr (push_bit 14 (ucast c) OR push_bit 7 (ucast (b AND 0x7f)) OR ucast (a AND 0x7f), 3)
            else rd 3 (\<lambda>d. if d < 128
                 then Inr (push_bit 21 (ucast d) OR push_bit 14 (ucast (c AND 0x7f)) OR
                           push_bit 7 (ucast (b AND 0x7f)) OR ucast (a AND 0x7f), 4)
            else rd 4 (\<lambda>e.
                 Inr (push_bit 28 (ucast e) OR push_bit 21 (ucast (d AND 0x7f)) OR push_bit 14 (ucast (c AND 0x7f)) OR
                      push_bit 7 (ucast (b AND 0x7f)) OR ucast (a AND 0x7f), 5)))))))
           (\<lambda>(v, n).
              let data1 = drop n data
              in if of_nat (length data1) < v then Inr None
                 else Inr (Some (drop (unat v) data1, take (unat v) data1))))"

text \<open>The kinds whose records have a value.\<close>

definition has_value :: "kind \<Rightarrow> bool" where
  "has_value kind =
     (kind \<in> {InternalKeyKindSet, InternalKeyKindMerge, InternalKeyKindRangeDelete, InternalKeyKindRangeKeySet,
              InternalKeyKindRangeKeyUnset, InternalKeyKindRangeKeyDelete, InternalKeyKindDeleteSized})"

datatype next_result =
    NextEnd
  | NextErr batch_error
  | NextEntry kind bytes bytes bytes   \<comment> \<open>the kind, the user key, the value and the rest of the input\<close>

definition BatchReader_Next :: "bytes \<Rightarrow> batch_panic + next_result" where
  "BatchReader_Next r =
     (if length r = 0 then Inr NextEnd
      else let kind = r ! 0
      in if InternalKeyKindMax < kind then Inr (NextErr ErrInvalidBatch)
         else rbind (batchDecodeStr (drop 1 r)) (\<lambda>k. case k of
           None \<Rightarrow> Inr (NextErr ErrInvalidBatch)
         | Some (r1, ukey) \<Rightarrow>
             if has_value kind
             then rbind (batchDecodeStr r1) (\<lambda>v. case v of
                    None \<Rightarrow> Inr (NextErr ErrInvalidBatch)
                  | Some (r2, value) \<Rightarrow> Inr (NextEntry kind ukey value r2))
             else Inr (NextEntry kind ukey [] r1)))"

definition Batch_Reader :: "Batch \<Rightarrow> batch_panic + bytes \<times> Batch" where
  "Batch_Reader b = rbind (ensure_init batchHeaderLen b) (\<lambda>b1. Inr (drop batchHeaderLen (b_data b1), b1))"

definition ReadBatch :: "bytes \<Rightarrow> bytes \<times> u32" where
  "ReadBatch repr =
     (if length repr \<le> batchHeaderLen then ([], 0)
      else (drop batchHeaderLen repr, le_decode (slice batchCountOffset batchHeaderLen repr)))"

text \<open>A record that is read is consumed, so the loops over a reader end.\<close>

lemma batchDecodeStr_shorter:
  "batchDecodeStr data = Inr (Some (rest, s)) \<Longrightarrow> length rest < length data"
  by (auto simp add: batchDecodeStr_def Let_def split: if_splits)

lemma BatchReader_Next_shorter:
  assumes "BatchReader_Next r = Inr (NextEntry kind k v rest)"
  shows "length rest < length r"
proof -
  obtain k' r1 where k: "batchDecodeStr (drop 1 r) = Inr (Some (r1, k'))"
      and v: "rest = r1 \<or> (\<exists>v'. batchDecodeStr r1 = Inr (Some (rest, v')))"
    using assms by (auto simp add: BatchReader_Next_def Let_def split: if_splits option.splits prod.splits)
      (metis option.exhaust surj_pair)+
  have "length r1 < length r" using batchDecodeStr_shorter [OF k] by simp
  with v show ?thesis using batchDecodeStr_shorter by fastforce
qed

section \<open>Accounting\<close>

definition count_kind :: "kind \<Rightarrow> Batch \<Rightarrow> Batch" where
  "count_kind kind b =
     (if kind = InternalKeyKindRangeDelete then b\<lparr>b_countRangeDels := b_countRangeDels b + 1\<rparr>
      else if kind \<in> {InternalKeyKindRangeKeySet, InternalKeyKindRangeKeyUnset, InternalKeyKindRangeKeyDelete}
      then b\<lparr>b_countRangeKeys := b_countRangeKeys b + 1\<rparr>
      else b)"

definition raise_format :: "nat \<Rightarrow> Batch \<Rightarrow> Batch" where
  "raise_format v b =
     (if b_minimumFormatMajorVersion b < v then b\<lparr>b_minimumFormatMajorVersion := v\<rparr> else b)"

function refresh_loop :: "bytes \<Rightarrow> Batch \<Rightarrow> batch_result" where
  "refresh_loop r b =
     rbind (BatchReader_Next r) (\<lambda>n. case n of
       NextEnd \<Rightarrow> Inr (None, if 0 < b_countRangeKeys b then raise_format FormatRangeKeys b else b)
     | NextErr e \<Rightarrow> Inr (Some e, b)
     | NextEntry kind key v r1 \<Rightarrow>
         let b1 = count_kind kind b
         in if kind = InternalKeyKindIngestSST then refresh_loop r1 (raise_format FormatFlushableIngest b1)
            else let b2 = (if kind = InternalKeyKindDeleteSized then raise_format FormatDeleteSizedAndObsolete b1 else b1)
              in refresh_loop r1 (b2\<lparr>b_memTableSize := b_memTableSize b2 + memTableEntrySize (length key) (length v)\<rparr>))"
  by pat_completeness auto
termination
  by (relation "measure (\<lambda>(r, b). length r)") (auto dest: BatchReader_Next_shorter)

declare refresh_loop.simps [simp del]

definition refreshMemTableSize :: "Batch \<Rightarrow> batch_result" where
  "refreshMemTableSize b =
     (let b1 = b\<lparr>b_memTableSize := 0\<rparr>
      in if length (b_data b1) < batchHeaderLen then Inr (None, b1)
         else let b2 = b1\<lparr>b_countRangeDels := 0, b_countRangeKeys := 0, b_minimumFormatMajorVersion := 0\<rparr>
           in rbind (Batch_Reader b2) (\<lambda>(r, b3). refresh_loop r b3))"

text \<open>The slice handed to \<^verbatim>\<open>SetRepr\<close> is its contents and its capacity.\<close>

definition SetRepr :: "bytes \<Rightarrow> nat \<Rightarrow> Batch \<Rightarrow> batch_result" where
  "SetRepr data cap b =
     (if length data < batchHeaderLen then Inr (Some ErrCorruption, b)
      else let b1 = b\<lparr>b_data := data, b_cap := cap,
                      b_count := ucast (le_decode (slice 8 12 data) :: u32)\<rparr>
        in if b_db b1 then refreshMemTableSize b1 else Inr (None, b1))"

text \<open>The loop of \<^verbatim>\<open>Apply\<close> over the records that were appended.\<close>

function apply_loop :: "batch_env \<Rightarrow> bytes \<Rightarrow> Batch \<Rightarrow> batch_result" where
  "apply_loop env iter b =
     (if length iter = 0 then Inr (None, b)
      else
        let offset = length (b_data b) - length iter
        in rbind (BatchReader_Next iter) (\<lambda>n. case n of
             NextEnd \<Rightarrow> Inr (None, b)
           | NextErr e \<Rightarrow> Inr (Some e, b)
           | NextEntry kind key v iter1 \<Rightarrow>
               if kind = InternalKeyKindIngestSST then Inl PanicInvalidKind
               else
                 let b1 = count_kind kind b;
                     add = (case b_index b1 of
                              None \<Rightarrow> Inr (None, b1)
                            | Some _ \<Rightarrow>
                                if kind = InternalKeyKindRangeDelete
                                then rbind (use_rangeDelIndex env b1) (index_add env RangeDelIndex (of_nat offset))
                                else if kind \<in> {InternalKeyKindRangeKeySet, InternalKeyKindRangeKeyUnset,
                                                InternalKeyKindRangeKeyDelete}
                                then rbind (use_rangeKeyIndex env b1) (index_add env RangeKeyIndex (of_nat offset))
                                else index_add env PointIndex (of_nat offset) b1)
                 in rbind add (\<lambda>(err, b2). case err of
                      Some e \<Rightarrow> Inr (Some e, b2)
                    | None \<Rightarrow>
                        apply_loop env iter1
                          (b2\<lparr>b_memTableSize := b_memTableSize b2 + memTableEntrySize (length key) (length v)\<rparr>))))"
  by pat_completeness auto
termination
  by (relation "measure (\<lambda>(e, r, b). length r)") (auto dest: BatchReader_Next_shorter)

declare apply_loop.simps [simp del]

definition Batch_Apply :: "batch_env \<Rightarrow> Batch \<Rightarrow> Batch \<Rightarrow> batch_result" where
  "Batch_Apply env batch b =
     (if b_ingestedSSTBatch b then Inl PanicInvalidApplication
      else if length (b_data batch) = 0 then Inr (None, b)
      else if length (b_data batch) < batchHeaderLen then Inr (Some ErrInvalidBatch, b)
      else rbind (ensure_init 0 b) (\<lambda>b1.
        let offset = length (b_data b1);
            newData = b_data b1 @ drop batchHeaderLen (b_data batch);
            b2 = b1\<lparr>b_data := newData,
                    b_cap := (if b_cap b1 < length newData then be_append_cap env (b_cap b1) (length newData) else b_cap b1)\<rparr>
        in rbind (Batch_Count b2) (\<lambda>c1.
           rbind (Batch_Count batch) (\<lambda>c2.
           let b3 = setCount (c1 + c2) b2
           in if b_db b3 \<or> b_index b3 \<noteq> None then apply_loop env (drop offset (b_data b3)) b3
              else Inr (None, b3)))))"

definition Batch_Indexed :: "Batch \<Rightarrow> bool" where
  "Batch_Indexed b = (b_index b \<noteq> None)"

text \<open>\<^verbatim>\<open>Reset\<close> keeps what manual reuse needs and empties the rest.\<close>

definition Batch_Reset :: "batch_env \<Rightarrow> Batch \<Rightarrow> batch_panic + Batch" where
  "Batch_Reset env b =
     (let b1 = (empty_Batch (b_db b))\<lparr>b_data := b_data b, b_cap := b_cap b, b_cmp := b_cmp b,
                b_abbreviatedKey := b_abbreviatedKey b, b_index := b_index b\<rparr>;
          b2 = (if b_cap b1 = 0 then b1
                else if batchMaxRetainedSize < b_cap b1 then b1\<lparr>b_data := [], b_cap := 0\<rparr>
                else b1\<lparr>b_data := replicate batchHeaderLen 0\<rparr>)
      in if 0 < b_cap b2 \<and> b_cap b2 < batchHeaderLen then Inl PanicIndexRange
         else case b_index b2 of
                None \<Rightarrow> Inr b2
              | Some s \<Rightarrow>
                  (case skl_Init (be_skl env) (b_cmp b2) (b_abbreviatedKey b2) s of
                     None \<Rightarrow> Inl PanicIndexRange
                   | Some s1 \<Rightarrow> Inr (b2\<lparr>b_index := Some s1\<rparr>)))"

text \<open>\<^verbatim>\<open>release\<close>, and \<^verbatim>\<open>Close\<close>, which is a call of it, hand the batch back to its pool.\<close>

definition Batch_release :: "batch_env \<Rightarrow> Batch \<Rightarrow> batch_panic + Batch" where
  "Batch_release env b =
     (if \<not> b_db b then Inr b
      else rbind (Batch_Reset env (b\<lparr>b_db := False\<rparr>)) (\<lambda>b1.
        Inr (b1\<lparr>b_cmp := (\<lambda>_ _. 0), b_abbreviatedKey := (\<lambda>_. 0),
                b_index := None, b_rangeDelIndex := None, b_rangeKeyIndex := None\<rparr>)))"

definition Batch_Close :: "batch_env \<Rightarrow> Batch \<Rightarrow> batch_panic + Batch" where
  "Batch_Close env b = Batch_release env b"

end
