(* ===== verification/BatchIter.thy ===== *)
theory BatchIter
  imports Batch KeyspanProofs
begin

text \<open>
  The iterators of \<^verbatim>\<open>batch.go\<close>: \<^verbatim>\<open>batchIter\<close> over an index of an indexed batch, the fragmented
  range deletions and range keys of a batch with their caches, and \<^verbatim>\<open>flushableBatch\<close>, the sorted view
  of a large batch, with its two iterators. A lazy value is the bytes it stands for.
\<close>

section \<open>Iterators over the index of a batch\<close>

text \<open>The iterator holds a pointer to the batch and to one of its indexes; both are given with each call.\<close>

record batchIter =
  bi_iter :: skl_Iterator
  bi_index :: index_ref
  bi_err :: bool
  bi_snapshot :: u64

definition bi_list :: "Batch \<Rightarrow> batchIter \<Rightarrow> Skiplist option" where
  "bi_list b it =
     (case bi_index it of
        PointIndex \<Rightarrow> b_index b
      | RangeDelIndex \<Rightarrow> b_rangeDelIndex b
      | RangeKeyIndex \<Rightarrow> b_rangeKeyIndex b
      | NoIndex \<Rightarrow> None)"

text \<open>\<^verbatim>\<open>value\<close>; keys without a value have none.\<close>

definition batchIter_value :: "Batch \<Rightarrow> Skiplist \<Rightarrow> batchIter \<Rightarrow> batch_panic + bytes \<times> batchIter" where
  "batchIter_value b s it =
     (case skl_KeyInfo s (bi_iter it) of
        None \<Rightarrow> Inl PanicIndexRange
      | Some (offset, _, keyEnd) \<Rightarrow>
          if length (b_data b) < unat offset then Inl PanicIndexRange
          else if length (b_data b) = unat offset then Inr ([], it\<lparr>bi_err := True\<rparr>)
          else if has_value (b_data b ! unat offset)
          then if length (b_data b) < unat keyEnd then Inl PanicIndexRange
               else rbind (batchDecodeStr (drop (unat keyEnd) (b_data b))) (\<lambda>r. case r of
                      None \<Rightarrow> Inr ([], it)
                    | Some (_, v) \<Rightarrow> Inr (v, it))
          else Inr ([], it))"

type_synonym batchIter_result = "batch_panic + (InternalKey \<times> bytes) option \<times> batchIter"

text \<open>The loop that steps over the records that are not visible at the snapshot.\<close>

partial_function (option) skip_hidden ::
    "(skl_Iterator \<Rightarrow> (InternalKey option \<times> skl_Iterator) option) \<Rightarrow> u64 \<Rightarrow> InternalKey option \<times> skl_Iterator \<Rightarrow>
     (InternalKey option \<times> skl_Iterator) option" where
  "skip_hidden step snapshot r =
     (case fst r of
        None \<Rightarrow> Some r
      | Some k \<Rightarrow>
          if snapshot \<le> SeqNum k then do { r1 \<leftarrow> step (snd r); skip_hidden step snapshot r1 } else Some r)"

text \<open>The body the positioning calls share: the move, the loop, and the value of the key found.\<close>

definition batchIter_move ::
    "(Skiplist \<Rightarrow> skl_Iterator \<Rightarrow> (InternalKey option \<times> skl_Iterator) option) \<Rightarrow>
     (Skiplist \<Rightarrow> skl_Iterator \<Rightarrow> (InternalKey option \<times> skl_Iterator) option) \<Rightarrow> Batch \<Rightarrow> batchIter \<Rightarrow> batchIter_result" where
  "batchIter_move move step b it =
     (case bi_list b it of
        None \<Rightarrow> Inl PanicIndexRange
      | Some s \<Rightarrow>
          (case move s (bi_iter it) of
             None \<Rightarrow> Inl PanicIndexRange
           | Some r0 \<Rightarrow>
               (case skip_hidden (step s) (bi_snapshot it) r0 of
                  None \<Rightarrow> Inl Diverges
                | Some (None, si) \<Rightarrow> Inr (None, it\<lparr>bi_iter := si\<rparr>)
                | Some (Some k, si) \<Rightarrow>
                    rbind (batchIter_value b s (it\<lparr>bi_iter := si\<rparr>)) (\<lambda>(v, it1). Inr (Some (k, v), it1)))))"

definition fwd :: "Batch \<Rightarrow> Skiplist \<Rightarrow> skl_Iterator \<Rightarrow> (InternalKey option \<times> skl_Iterator) option" where
  "fwd b = (\<lambda>s. skl_Next s (b_data b))"

definition bwd :: "Batch \<Rightarrow> Skiplist \<Rightarrow> skl_Iterator \<Rightarrow> (InternalKey option \<times> skl_Iterator) option" where
  "bwd b = (\<lambda>s. skl_Prev s (b_data b))"

definition batchIter_SeekGE :: "bytes \<Rightarrow> bool \<Rightarrow> bool \<Rightarrow> Batch \<Rightarrow> batchIter \<Rightarrow> batchIter_result" where
  "batchIter_SeekGE key trySeekUsingNext batchJustRefreshed b it =
     (let try = trySeekUsingNext \<and> \<not> batchJustRefreshed
      in batchIter_move (\<lambda>s. skl_SeekGE s (b_data b) key try) (fwd b) b (it\<lparr>bi_err := False\<rparr>))"

definition batchIter_SeekPrefixGE :: "bytes \<Rightarrow> bytes \<Rightarrow> bool \<Rightarrow> bool \<Rightarrow> Batch \<Rightarrow> batchIter \<Rightarrow> batchIter_result" where
  "batchIter_SeekPrefixGE pre key try refreshed b it =
     batchIter_SeekGE key try refreshed b (it\<lparr>bi_err := False\<rparr>)"

definition batchIter_SeekLT :: "bytes \<Rightarrow> Batch \<Rightarrow> batchIter \<Rightarrow> batchIter_result" where
  "batchIter_SeekLT key b it =
     batchIter_move (\<lambda>s. skl_SeekLT s (b_data b) key) (bwd b) b (it\<lparr>bi_err := False\<rparr>)"

definition batchIter_First :: "Batch \<Rightarrow> batchIter \<Rightarrow> batchIter_result" where
  "batchIter_First b it = batchIter_move (\<lambda>s. skl_First s (b_data b)) (fwd b) b (it\<lparr>bi_err := False\<rparr>)"

definition batchIter_Last :: "Batch \<Rightarrow> batchIter \<Rightarrow> batchIter_result" where
  "batchIter_Last b it = batchIter_move (\<lambda>s. skl_Last s (b_data b)) (bwd b) b (it\<lparr>bi_err := False\<rparr>)"

definition batchIter_Next :: "Batch \<Rightarrow> batchIter \<Rightarrow> batchIter_result" where
  "batchIter_Next b it = batchIter_move (fwd b) (fwd b) b it"

definition batchIter_NextPrefix :: "bytes \<Rightarrow> Batch \<Rightarrow> batchIter \<Rightarrow> batchIter_result" where
  "batchIter_NextPrefix succKey b it =
     batchIter_move (\<lambda>s. skl_SeekGE s (b_data b) succKey True) (fwd b) b it"

definition batchIter_Prev :: "Batch \<Rightarrow> batchIter \<Rightarrow> batchIter_result" where
  "batchIter_Prev b it = batchIter_move (bwd b) (bwd b) b it"

definition batchIter_SetBounds :: "bytes option \<Rightarrow> bytes option \<Rightarrow> batchIter \<Rightarrow> batchIter" where
  "batchIter_SetBounds lower upper it = it\<lparr>bi_iter := skl_SetBounds lower upper (bi_iter it)\<rparr>"

definition newInternalIter :: "bytes option \<Rightarrow> bytes option \<Rightarrow> batchIter" where
  "newInternalIter lower upper =
     \<lparr>bi_iter = skl_NewIter lower upper, bi_index = PointIndex, bi_err = False, bi_snapshot = InternalKeySeqNumMax\<rparr>"

section \<open>Fragments of range deletions and range keys\<close>

text \<open>
  The loops of \<^verbatim>\<open>fragmentRangeDels\<close> and \<^verbatim>\<open>fragmentRangeKeys\<close> over any iterator: \<open>nxt\<close> is its
  \<^verbatim>\<open>Next\<close> and \<open>r\<close> the result of the last call. The second returns without finishing the fragmenter
  when a range key cannot be decoded.
\<close>

partial_function (option) fragment_loop ::
    "(bytes \<Rightarrow> bytes \<Rightarrow> int) \<Rightarrow> Span sorter \<Rightarrow> Key sorter \<Rightarrow> (InternalKey \<Rightarrow> bytes \<Rightarrow> rk_error + Span) \<Rightarrow>
     ('i \<Rightarrow> batch_panic + (InternalKey \<times> bytes) option \<times> 'i) \<Rightarrow> Fragmenter \<Rightarrow> (InternalKey \<times> bytes) option \<times> 'i \<Rightarrow>
     (batch_panic + rk_error option \<times> Fragmenter) option" where
  "fragment_loop cmp sortSpans sortKeys decode nxt frag r =
     (case fst r of
        None \<Rightarrow>
          (case Fragmenter_Finish cmp sortSpans sortKeys frag of
             Inl p \<Rightarrow> Some (Inl (PanicFragment p))
           | Inr frag1 \<Rightarrow> Some (Inr (None, frag1)))
      | Some (k, v) \<Rightarrow>
          (case decode k v of
             Inl RkPanic \<Rightarrow> Some (Inl PanicIndexRange)
           | Inl e \<Rightarrow> Some (Inr (Some e, frag))
           | Inr s \<Rightarrow>
               (case Fragmenter_Add cmp sortSpans sortKeys s frag of
                  Inl p \<Rightarrow> Some (Inl (PanicFragment p))
                | Inr frag1 \<Rightarrow>
                    (case nxt (snd r) of
                       Inl p \<Rightarrow> Some (Inl p)
                     | Inr r1 \<Rightarrow> fragment_loop cmp sortSpans sortKeys decode nxt frag1 r1))))"

definition fragmentRangeDels ::
    "(bytes \<Rightarrow> bytes \<Rightarrow> int) \<Rightarrow> Span sorter \<Rightarrow> Key sorter \<Rightarrow> ('i \<Rightarrow> batch_panic + (InternalKey \<times> bytes) option \<times> 'i) \<Rightarrow>
     (batch_panic + (InternalKey \<times> bytes) option \<times> 'i) \<Rightarrow> batch_panic + Fragmenter" where
  "fragmentRangeDels cmp sortSpans sortKeys nxt first =
     rbind first (\<lambda>r.
       case fragment_loop cmp sortSpans sortKeys (\<lambda>k v. Inr (Rangedel_Decode k v [])) nxt new_Fragmenter r of
         None \<Rightarrow> Inl Diverges
       | Some res \<Rightarrow> rbind res (\<lambda>(_, frag). Inr frag))"

text \<open>The callers of \<^verbatim>\<open>fragmentRangeKeys\<close> drop its error.\<close>

definition fragmentRangeKeys ::
    "(bytes \<Rightarrow> bytes \<Rightarrow> int) \<Rightarrow> Span sorter \<Rightarrow> Key sorter \<Rightarrow> ('i \<Rightarrow> batch_panic + (InternalKey \<times> bytes) option \<times> 'i) \<Rightarrow>
     (batch_panic + (InternalKey \<times> bytes) option \<times> 'i) \<Rightarrow> batch_panic + rk_error option \<times> Fragmenter" where
  "fragmentRangeKeys cmp sortSpans sortKeys nxt first =
     rbind first (\<lambda>r.
       case fragment_loop cmp sortSpans sortKeys (\<lambda>k v. Rangekey_Decode k v []) nxt new_Fragmenter r of
         None \<Rightarrow> Inl Diverges
       | Some res \<Rightarrow> res)"

definition range_iter :: "index_ref \<Rightarrow> u64 \<Rightarrow> batchIter" where
  "range_iter r snapshot = \<lparr>bi_iter = skl_NewIter None None, bi_index = r, bi_err = False, bi_snapshot = snapshot\<rparr>"

definition initRangeDelIter :: "Span sorter \<Rightarrow> Key sorter \<Rightarrow> u64 \<Rightarrow> Batch \<Rightarrow> batch_panic + SpanIter \<times> Batch" where
  "initRangeDelIter sortSpans sortKeys batchSnapshot b =
     (case b_rangeDelIndex b of
        None \<Rightarrow> Inr (NewIter [], b)
      | Some _ \<Rightarrow>
          let nextSeq = nextSeqNum b;
              it = range_iter RangeDelIndex batchSnapshot;
              fill = rbind (fragmentRangeDels (b_cmp b) sortSpans sortKeys (batchIter_Next b) (batchIter_First b it)) (\<lambda>frag.
                Inr (NewIter (fr_out frag),
                     if nextSeq = batchSnapshot
                     then b\<lparr>b_tombstones := Some (fr_out frag), b_tombstonesSeqNum := nextSeq\<rparr> else b))
          in case b_tombstones b of
               Some ts \<Rightarrow> if b_tombstonesSeqNum b \<le> batchSnapshot then Inr (NewIter ts, b) else fill
             | None \<Rightarrow> fill)"

definition initRangeKeyIter :: "Span sorter \<Rightarrow> Key sorter \<Rightarrow> u64 \<Rightarrow> Batch \<Rightarrow> batch_panic + SpanIter \<times> Batch" where
  "initRangeKeyIter sortSpans sortKeys batchSnapshot b =
     (case b_rangeKeyIndex b of
        None \<Rightarrow> Inr (NewIter [], b)
      | Some _ \<Rightarrow>
          let nextSeq = nextSeqNum b;
              it = range_iter RangeKeyIndex batchSnapshot;
              fill = rbind (fragmentRangeKeys (b_cmp b) sortSpans sortKeys (batchIter_Next b) (batchIter_First b it)) (\<lambda>(_, frag).
                Inr (NewIter (fr_out frag),
                     if nextSeq = batchSnapshot
                     then b\<lparr>b_rangeKeys := Some (fr_out frag), b_rangeKeysSeqNum := nextSeq\<rparr> else b))
          in case b_rangeKeys b of
               Some ks \<Rightarrow> if b_rangeKeysSeqNum b \<le> batchSnapshot then Inr (NewIter ks, b) else fill
             | None \<Rightarrow> fill)"

section \<open>Flushable batches\<close>

record flushableBatchEntry =
  fe_offset :: u32
  fe_index :: u32
  fe_keyStart :: u32
  fe_keyEnd :: u32

record flushableBatch =
  fb_cmp :: "bytes \<Rightarrow> bytes \<Rightarrow> int"
  fb_data :: bytes
  fb_cap :: nat
  fb_seqNum :: u64
  fb_offsets :: "flushableBatchEntry list"
  fb_tombstones :: "Span list"
  fb_rangeKeys :: "Span list"

text \<open>
  The position in the data of the key of the record that a reader is at, which the code gets from the
  address of the key's first byte. An empty key has none and is taken to be two bytes after the start.
\<close>

definition key_position :: "bytes \<Rightarrow> bytes \<Rightarrow> nat" where
  "key_position data iter =
     (case batchDecodeStr (drop 1 iter) of
        Inr (Some (rest, key)) \<Rightarrow> length data - length rest - length key
      | _ \<Rightarrow> 0)"

definition flushable_entry :: "bytes \<Rightarrow> bytes \<Rightarrow> u32 \<Rightarrow> bytes \<Rightarrow> flushableBatchEntry" where
  "flushable_entry data iter index key =
     (let offset = of_nat (length data - length iter);
          keySize = of_nat (length key);
          keyStart = of_nat (key_position data iter)
      in if keySize = 0
         then \<lparr>fe_offset = offset, fe_index = index, fe_keyStart = offset + 2, fe_keyEnd = offset + 2\<rparr>
         else \<lparr>fe_offset = offset, fe_index = index, fe_keyStart = keyStart, fe_keyEnd = keyStart + keySize\<rparr>)"

type_synonym flushable_entries = "flushableBatchEntry list \<times> flushableBatchEntry list \<times> flushableBatchEntry list"

definition add_entry :: "kind \<Rightarrow> flushableBatchEntry \<Rightarrow> flushable_entries \<Rightarrow> flushable_entries" where
  "add_entry kind e = (\<lambda>(points, rangeDels, rangeKeys).
     if kind = InternalKeyKindRangeDelete then (points, rangeDels @ [e], rangeKeys)
     else if kind \<in> {InternalKeyKindRangeKeySet, InternalKeyKindRangeKeyUnset, InternalKeyKindRangeKeyDelete}
     then (points, rangeDels, rangeKeys @ [e])
     else (points @ [e], rangeDels, rangeKeys))"

function flushable_loop ::
    "bytes \<Rightarrow> bytes \<Rightarrow> u32 \<Rightarrow> flushable_entries \<Rightarrow> batch_panic + batch_error + flushable_entries" where
  "flushable_loop data iter index es =
     (if length iter = 0 then Inr (Inr es)
      else rbind (BatchReader_Next iter) (\<lambda>n. case n of
             NextEnd \<Rightarrow> Inr (Inr es)
           | NextErr e \<Rightarrow> Inr (Inl e)
           | NextEntry kind key v iter1 \<Rightarrow>
               flushable_loop data iter1 (index + 1) (add_entry kind (flushable_entry data iter index key) es)))"
  by pat_completeness auto
termination
  by (relation "measure (\<lambda>(d, r, i, e). length r)") (auto dest: BatchReader_Next_shorter)

declare flushable_loop.simps [simp del]

definition flushable_Less :: "(bytes \<Rightarrow> bytes \<Rightarrow> int) \<Rightarrow> bytes \<Rightarrow> flushableBatchEntry \<Rightarrow> flushableBatchEntry \<Rightarrow> bool" where
  "flushable_Less cmp data ei ej =
     (let c = cmp (slice (unat (fe_keyStart ei)) (unat (fe_keyEnd ei)) data)
                  (slice (unat (fe_keyStart ej)) (unat (fe_keyEnd ej)) data)
      in if c < 0 then True else if 0 < c then False else fe_offset ej < fe_offset ei)"

subsection \<open>The iterator\<close>

record flushableBatchIter =
  fi_batch :: flushableBatch
  fi_offsets :: "flushableBatchEntry list"
  fi_index :: int
  fi_key :: InternalKey
  fi_err :: bool
  fi_lower :: "bytes option"
  fi_upper :: "bytes option"

definition new_flushable_iter :: "flushableBatch \<Rightarrow> flushableBatchEntry list \<Rightarrow> bytes option \<Rightarrow> bytes option \<Rightarrow> flushableBatchIter" where
  "new_flushable_iter f offsets lower upper =
     \<lparr>fi_batch = f, fi_offsets = offsets, fi_index = -1, fi_key = \<lparr>UserKey = [], Trailer = 0\<rparr>, fi_err = False,
      fi_lower = lower, fi_upper = upper\<rparr>"

definition flushable_getKey :: "flushableBatchIter \<Rightarrow> nat \<Rightarrow> batch_panic + InternalKey" where
  "flushable_getKey it index =
     (let data = fb_data (fi_batch it)
      in if length (fi_offsets it) \<le> index then Inl PanicIndexRange
         else let e = fi_offsets it ! index
           in if length data \<le> unat (fe_offset e) then Inl PanicIndexRange
              else case subslice data (fe_keyStart e) (fe_keyEnd e) of
                     None \<Rightarrow> Inl PanicIndexRange
                   | Some key \<Rightarrow> Inr (MakeInternalKey key (fb_seqNum (fi_batch it) + ucast (fe_index e)) (data ! unat (fe_offset e))))"

definition flushable_value :: "flushableBatchIter \<Rightarrow> batch_panic + bytes \<times> flushableBatchIter" where
  "flushable_value it =
     (let data = fb_data (fi_batch it)
      in if fi_index it < 0 \<or> int (length (fi_offsets it)) \<le> fi_index it then Inl PanicIndexRange
         else let e = fi_offsets it ! nat (fi_index it)
           in if length data < unat (fe_offset e) then Inl PanicIndexRange
              else if length data = unat (fe_offset e) then Inr ([], it\<lparr>fi_err := True\<rparr>)
              else let kind = data ! unat (fe_offset e)
                in if InternalKeyKindMax < kind then Inr ([], it\<lparr>fi_err := True\<rparr>)
                   else if has_value kind
                   then if length data < unat (fe_keyEnd e) then Inl PanicIndexRange
                        else rbind (batchDecodeStr (drop (unat (fe_keyEnd e)) data)) (\<lambda>r. case r of
                               None \<Rightarrow> Inr ([], it\<lparr>fi_err := True\<rparr>)
                             | Some (_, v) \<Rightarrow> Inr (v, it))
                   else Inr ([], it))"

type_synonym flushable_result = "batch_panic + (InternalKey \<times> bytes) option \<times> flushableBatchIter"

text \<open>The ends the calls share: the key at the index, checked against the bound in the direction of the move.\<close>

definition flushable_forward :: "flushableBatchIter \<Rightarrow> flushable_result" where
  "flushable_forward it =
     (if int (length (fi_offsets it)) \<le> fi_index it then Inr (None, it)
      else rbind (flushable_getKey it (nat (fi_index it))) (\<lambda>k.
        let it1 = it\<lparr>fi_key := k\<rparr>
        in if (case fi_upper it of Some u \<Rightarrow> 0 \<le> fb_cmp (fi_batch it) (UserKey k) u | None \<Rightarrow> False)
           then Inr (None, it1\<lparr>fi_index := int (length (fi_offsets it))\<rparr>)
           else rbind (flushable_value it1) (\<lambda>(v, it2). Inr (Some (k, v), it2))))"

definition flushable_backward :: "flushableBatchIter \<Rightarrow> flushable_result" where
  "flushable_backward it =
     (if fi_index it < 0 then Inr (None, it)
      else rbind (flushable_getKey it (nat (fi_index it))) (\<lambda>k.
        let it1 = it\<lparr>fi_key := k\<rparr>
        in if (case fi_lower it of Some l \<Rightarrow> fb_cmp (fi_batch it) (UserKey k) l < 0 | None \<Rightarrow> False)
           then Inr (None, it1\<lparr>fi_index := -1\<rparr>)
           else rbind (flushable_value it1) (\<lambda>(v, it2). Inr (Some (k, v), it2))))"

text \<open>\<^verbatim>\<open>sort.Search\<close> with the test of the seeks; a panic of the test is a panic of the search.\<close>

function flushable_search :: "(nat \<Rightarrow> batch_panic + bool) \<Rightarrow> nat \<Rightarrow> nat \<Rightarrow> batch_panic + nat" where
  "flushable_search f i j =
     (if i < j
      then let h = (i + j) div 2
        in rbind (f h) (\<lambda>ok. if \<not> ok then flushable_search f (h + 1) j else flushable_search f i h)
      else Inr i)"
  by pat_completeness auto
termination
  by (relation "measure (\<lambda>(f, i, j). j - i)") auto

declare flushable_search.simps [simp del]

definition seek_index :: "bytes \<Rightarrow> flushableBatchIter \<Rightarrow> batch_panic + nat" where
  "seek_index key it =
     flushable_search
       (\<lambda>j. rbind (flushable_getKey it j) (\<lambda>k. Inr (InternalCompare (fb_cmp (fi_batch it)) (MakeSearchKey key) k \<le> 0)))
       0 (length (fi_offsets it))"

definition flushable_SeekGE :: "bytes \<Rightarrow> flushableBatchIter \<Rightarrow> flushable_result" where
  "flushable_SeekGE key it =
     (let it1 = it\<lparr>fi_err := False\<rparr>
      in rbind (seek_index key it1) (\<lambda>i. flushable_forward (it1\<lparr>fi_index := int i\<rparr>)))"

definition flushable_SeekPrefixGE :: "bytes \<Rightarrow> bytes \<Rightarrow> flushableBatchIter \<Rightarrow> flushable_result" where
  "flushable_SeekPrefixGE pre key it = flushable_SeekGE key it"

definition flushable_SeekLT :: "bytes \<Rightarrow> flushableBatchIter \<Rightarrow> flushable_result" where
  "flushable_SeekLT key it =
     (let it1 = it\<lparr>fi_err := False\<rparr>
      in rbind (seek_index key it1) (\<lambda>i. flushable_backward (it1\<lparr>fi_index := int i - 1\<rparr>)))"

definition flushable_First :: "flushableBatchIter \<Rightarrow> flushable_result" where
  "flushable_First it =
     (let it1 = it\<lparr>fi_err := False\<rparr>
      in if length (fi_offsets it1) = 0 then Inr (None, it1) else flushable_forward (it1\<lparr>fi_index := 0\<rparr>))"

definition flushable_Last :: "flushableBatchIter \<Rightarrow> flushable_result" where
  "flushable_Last it =
     (let it1 = it\<lparr>fi_err := False\<rparr>
      in if length (fi_offsets it1) = 0 then Inr (None, it1)
         else flushable_backward (it1\<lparr>fi_index := int (length (fi_offsets it1)) - 1\<rparr>))"

definition flushable_Next :: "flushableBatchIter \<Rightarrow> flushable_result" where
  "flushable_Next it =
     (if fi_index it = int (length (fi_offsets it)) then Inr (None, it)
      else flushable_forward (it\<lparr>fi_index := fi_index it + 1\<rparr>))"

definition flushable_NextPrefix :: "bytes \<Rightarrow> flushableBatchIter \<Rightarrow> flushable_result" where
  "flushable_NextPrefix succKey it = flushable_SeekGE succKey it"

definition flushable_Prev :: "flushableBatchIter \<Rightarrow> flushable_result" where
  "flushable_Prev it =
     (if fi_index it < 0 then Inr (None, it) else flushable_backward (it\<lparr>fi_index := fi_index it - 1\<rparr>))"

definition flushable_Valid :: "flushableBatchIter \<Rightarrow> bool" where
  "flushable_Valid it = (0 \<le> fi_index it \<and> fi_index it < int (length (fi_offsets it)))"

definition flushable_SetBounds :: "bytes option \<Rightarrow> bytes option \<Rightarrow> flushableBatchIter \<Rightarrow> flushableBatchIter" where
  "flushable_SetBounds lower upper it = it\<lparr>fi_lower := lower, fi_upper := upper\<rparr>"

subsection \<open>Construction\<close>

text \<open>\<^verbatim>\<open>sort.Sort\<close> on the entries is an argument, as for the spans.\<close>

definition newFlushableBatch ::
    "flushableBatchEntry sorter \<Rightarrow> Span sorter \<Rightarrow> Key sorter \<Rightarrow> (bytes \<Rightarrow> bytes \<Rightarrow> int) \<Rightarrow> Batch \<Rightarrow>
     batch_panic + batch_error + flushableBatch" where
  "newFlushableBatch sortEntries sortSpans sortKeys cmp batch =
     rbind (Batch_Count batch) (\<lambda>_.
     rbind (if b_cap batch = 0 then Inr (0, batch) else Batch_SeqNum batch) (\<lambda>(seqNum, batch1).
     let data = b_data batch;
         f = \<lparr>fb_cmp = cmp, fb_data = data, fb_cap = b_cap batch, fb_seqNum = seqNum, fb_offsets = [],
              fb_tombstones = [], fb_rangeKeys = []\<rparr>
     in rbind (if batchHeaderLen < length data then flushable_loop data (drop batchHeaderLen data) 0 ([], [], [])
               else Inr (Inr ([], [], []))) (\<lambda>r. case r of
          Inl e \<Rightarrow> Inr (Inl e)
        | Inr (points, rangeDels, rangeKeys) \<Rightarrow>
            let f1 = f\<lparr>fb_offsets := sortEntries points\<rparr>;
                delIter = new_flushable_iter f1 (sortEntries rangeDels) None None;
                keyIter = new_flushable_iter f1 (sortEntries rangeKeys) None None
            in rbind (if 0 < length rangeDels
                      then rbind (fragmentRangeDels cmp sortSpans sortKeys flushable_Next (flushable_First delIter)) (\<lambda>frag.
                             Inr (f1\<lparr>fb_tombstones := fr_out frag\<rparr>))
                      else Inr f1) (\<lambda>f2.
               rbind (if 0 < length rangeKeys
                      then rbind (fragmentRangeKeys cmp sortSpans sortKeys flushable_Next (flushable_First keyIter)) (\<lambda>(_, frag).
                             Inr (f2\<lparr>fb_rangeKeys := fr_out frag\<rparr>))
                      else Inr f2) (\<lambda>f3. Inr (Inr f3))))))"

definition shift_keys :: "u64 \<Rightarrow> Span \<Rightarrow> Span" where
  "shift_keys seqNum s =
     s\<lparr>sp_keys := map (\<lambda>k. k\<lparr>k_trailer := MakeTrailer (Key_SeqNum k + seqNum) (Key_Kind k)\<rparr>) (sp_keys s)\<rparr>"

definition flushable_setSeqNum :: "u64 \<Rightarrow> flushableBatch \<Rightarrow> batch_panic + flushableBatch" where
  "flushable_setSeqNum seqNum f =
     (if fb_seqNum f \<noteq> 0 then Inl PanicCount
      else Inr (f\<lparr>fb_seqNum := seqNum, fb_tombstones := map (shift_keys seqNum) (fb_tombstones f),
                  fb_rangeKeys := map (shift_keys seqNum) (fb_rangeKeys f)\<rparr>))"

definition flushable_newIter :: "bytes option \<Rightarrow> bytes option \<Rightarrow> flushableBatch \<Rightarrow> flushableBatchIter" where
  "flushable_newIter lower upper f = new_flushable_iter f (fb_offsets f) lower upper"

definition flushable_newRangeDelIter :: "flushableBatch \<Rightarrow> SpanIter option" where
  "flushable_newRangeDelIter f = (if length (fb_tombstones f) = 0 then None else Some (NewIter (fb_tombstones f)))"

definition flushable_newRangeKeyIter :: "flushableBatch \<Rightarrow> SpanIter option" where
  "flushable_newRangeKeyIter f = (if length (fb_rangeKeys f) = 0 then None else Some (NewIter (fb_rangeKeys f)))"

definition flushable_containsRangeKeys :: "flushableBatch \<Rightarrow> bool" where
  "flushable_containsRangeKeys f = (0 < length (fb_rangeKeys f))"

definition flushable_inuseBytes :: "flushableBatch \<Rightarrow> u64" where
  "flushable_inuseBytes f = of_int (int (length (fb_data f)) - int batchHeaderLen)"

definition flushable_totalBytes :: "flushableBatch \<Rightarrow> u64" where
  "flushable_totalBytes f = of_nat (fb_cap f)"

subsection \<open>The iterator of a flush\<close>

text \<open>It only moves forward and counts the bytes it has passed.\<close>

definition flush_valueSize :: "flushableBatchIter \<Rightarrow> batch_panic + u64" where
  "flush_valueSize it =
     (let data = fb_data (fi_batch it)
      in if fi_index it < 0 \<or> int (length (fi_offsets it)) \<le> fi_index it then Inl PanicIndexRange
         else let e = fi_offsets it ! nat (fi_index it)
           in if length data < unat (fe_offset e) then Inl PanicIndexRange
              else if length data = unat (fe_offset e) then Inr 0
              else let kind = data ! unat (fe_offset e)
                in if InternalKeyKindMax < kind then Inr 0
                   else if kind \<in> {InternalKeyKindSet, InternalKeyKindMerge, InternalKeyKindRangeDelete}
                   then if length data < unat (fe_keyEnd e) then Inl PanicIndexRange
                        else let (v, n) = Uvarint (drop (unat (fe_keyEnd e)) data)
                          in Inr (if n \<le> 0 then 0 else v + word_of_int n)
                   else Inr 0)"

definition flush_entry_bytes :: "flushableBatchIter \<Rightarrow> batch_panic + u64" where
  "flush_entry_bytes it =
     (let e = fi_offsets it ! nat (fi_index it)
      in rbind (flush_valueSize it) (\<lambda>n. Inr (ucast (fe_keyEnd e - fe_offset e) + n)))"

definition flush_First :: "flushableBatchIter \<Rightarrow> u64 \<Rightarrow> batch_panic + (InternalKey \<times> bytes) option \<times> flushableBatchIter \<times> u64" where
  "flush_First it bytesIterated =
     rbind (flushable_First (it\<lparr>fi_err := False\<rparr>)) (\<lambda>(r, it1).
       case r of
         None \<Rightarrow> Inr (None, it1, bytesIterated)
       | Some kv \<Rightarrow> rbind (flush_entry_bytes it1) (\<lambda>n. Inr (Some kv, it1, bytesIterated + n)))"

definition flush_Next :: "flushableBatchIter \<Rightarrow> u64 \<Rightarrow> batch_panic + (InternalKey \<times> bytes) option \<times> flushableBatchIter \<times> u64" where
  "flush_Next it bytesIterated =
     (if fi_index it = int (length (fi_offsets it)) then Inr (None, it, bytesIterated)
      else let it1 = it\<lparr>fi_index := fi_index it + 1\<rparr>
        in if fi_index it1 = int (length (fi_offsets it)) then Inr (None, it1, bytesIterated)
           else rbind (flushable_getKey it1 (nat (fi_index it1))) (\<lambda>k.
                let it2 = it1\<lparr>fi_key := k\<rparr>
                in rbind (flush_entry_bytes it2) (\<lambda>n.
                   rbind (flushable_value it2) (\<lambda>(v, it3). Inr (Some (k, v), it3, bytesIterated + n)))))"

end
