(* ===== verification/RangekeyProofs.thy ===== *)
theory RangekeyProofs
  imports Rangekey
begin

text \<open>
  The properties of range keys: the encoding of a span as point keys and its inverse
  (\<open>encode_decode_span\<close>), the precomputed lengths of the encodings, and the meaning of coalescing,
  stated against \<open>rk_state\<close>, the map from suffixes to values that a list of range keys describes.
\<close>

section \<open>The encoding is decoded\<close>

text \<open>The bytes of the encodings, without the buffers they are written to.\<close>

definition put_len :: "bytes \<Rightarrow> bytes" where
  "put_len b = put_uvarint (of_nat (length b))"

fun set_suffixes :: "SuffixValue list \<Rightarrow> bytes" where
  "set_suffixes [] = []"
| "set_suffixes (sv # svs) =
     put_len (sv_suffix sv) @ sv_suffix sv @ put_len (sv_value sv) @ sv_value sv @ set_suffixes svs"

definition set_value :: "bytes \<Rightarrow> SuffixValue list \<Rightarrow> bytes" where
  "set_value endKey svs = put_len endKey @ endKey @ set_suffixes svs"

fun unset_suffixes :: "bytes list \<Rightarrow> bytes" where
  "unset_suffixes [] = []"
| "unset_suffixes (s # ss) = put_len s @ s @ unset_suffixes ss"

definition unset_value :: "bytes \<Rightarrow> bytes list \<Rightarrow> bytes" where
  "unset_value endKey sufs = put_len endKey @ endKey @ unset_suffixes sufs"

text \<open>
  A routine that is given a buffer and a position writes the bytes \<open>bs\<close> there, if they fit, and leaves the rest of the
  buffer alone.
\<close>

definition writes :: "(bytes \<times> nat \<Rightarrow> rk_error + (bytes \<times> nat)) \<Rightarrow> bytes \<Rightarrow> bool" where
  "writes f bs \<longleftrightarrow>
     (\<forall>pre dst. length bs \<le> length dst \<longrightarrow>
        f (pre @ dst, length pre) = Inr (pre @ bs @ drop (length bs) dst, length pre + length bs))"

lemma writes_Nil: "writes Inr []"
  by (simp add: writes_def)

lemma writes_append:
  assumes "writes f as" "writes g bs"
  shows "writes (\<lambda>d. rbind (f d) g) (as @ bs)"
  unfolding writes_def
proof (intro allI impI)
  fix pre dst :: bytes
  assume l: "length (as @ bs) \<le> length dst"
  then have "length bs \<le> length (drop (length as) dst)" by simp
  then have "g ((pre @ as) @ drop (length as) dst, length (pre @ as)) =
      Inr ((pre @ as) @ bs @ drop (length bs) (drop (length as) dst), length (pre @ as) + length bs)"
    using assms(2) [unfolded writes_def] by blast
  moreover have "f (pre @ dst, length pre) = Inr (pre @ as @ drop (length as) dst, length pre + length as)"
    using assms(1) l by (simp add: writes_def)
  ultimately show "rbind (f (pre @ dst, length pre)) g =
      Inr (pre @ (as @ bs) @ drop (length (as @ bs)) dst, length pre + length (as @ bs))"
    by (simp add: add.commute add.assoc)
qed

lemma writes_put_string: "writes (put_string b) (put_len b @ b)"
  unfolding writes_def
proof (intro allI impI)
  fix pre dst :: bytes
  let ?l = "put_len b"
  assume l: "length (?l @ b) \<le> length dst"
  have "copy_at (length pre) ?l (pre @ dst) = pre @ ?l @ drop (length ?l) dst"
    using l by (simp add: copy_at_def)
  moreover have "copy_at (length pre + length ?l) b (pre @ ?l @ drop (length ?l) dst) = pre @ ?l @ b @ drop (length b) (drop (length ?l) dst)"
    using l by (simp add: copy_at_def)
  ultimately show "put_string b (pre @ dst, length pre) =
      Inr (pre @ (?l @ b) @ drop (length (?l @ b)) dst, length pre + length (?l @ b))"
    using l by (simp add: put_string_def put_len_def [symmetric] Let_def add.commute add.left_commute)
qed

lemma writes_set_suffixes: "writes (encodeSetSuffixValues svs) (set_suffixes svs)"
proof (induction svs)
  case Nil
  then show ?case using writes_Nil by (simp add: writes_def)
next
  case (Cons sv svs)
  have "writes (\<lambda>d. rbind (put_string (sv_suffix sv) d) (\<lambda>d. rbind (put_string (sv_value sv) d) (encodeSetSuffixValues svs)))
      ((put_len (sv_suffix sv) @ sv_suffix sv) @ (put_len (sv_value sv) @ sv_value sv) @ set_suffixes svs)"
    by (intro writes_append writes_put_string Cons.IH)
  then show ?case by (simp add: writes_def)
qed

lemma writes_unset_suffixes: "writes (encodeUnsetSuffixes sufs) (unset_suffixes sufs)"
proof (induction sufs)
  case Nil
  then show ?case using writes_Nil by (simp add: writes_def)
next
  case (Cons b sufs)
  have "writes (\<lambda>d. rbind (put_string b d) (encodeUnsetSuffixes sufs)) ((put_len b @ b) @ unset_suffixes sufs)"
    by (intro writes_append writes_put_string Cons.IH)
  then show ?case by (simp add: writes_def)
qed

lemma EncodeSetValue_fits:
  assumes "length (set_value e svs) \<le> length dst"
  shows "EncodeSetValue dst e svs = Inr (set_value e svs @ drop (length (set_value e svs)) dst, length (set_value e svs))"
proof -
  have "writes (\<lambda>d. rbind (put_string e d) (encodeSetSuffixValues svs)) (set_value e svs)"
    using writes_append [OF writes_put_string writes_set_suffixes] by (simp add: set_value_def)
  then show ?thesis using assms unfolding writes_def EncodeSetValue_def by (metis append_Nil list.size(3) add_0)
qed

lemma EncodeUnsetValue_fits:
  assumes "length (unset_value e sufs) \<le> length dst"
  shows "EncodeUnsetValue dst e sufs = Inr (unset_value e sufs @ drop (length (unset_value e sufs)) dst, length (unset_value e sufs))"
proof -
  have "writes (\<lambda>d. rbind (put_string e d) (encodeUnsetSuffixes sufs)) (unset_value e sufs)"
    using writes_append [OF writes_put_string writes_unset_suffixes] by (simp add: unset_value_def)
  then show ?thesis using assms unfolding writes_def EncodeUnsetValue_def by (metis append_Nil list.size(3) add_0)
qed

lemma put_len_nonempty [simp]: "put_len b \<noteq> []"
  by (simp add: put_len_def)

lemma decodeVarstring_put:
  "length b < 2 ^ 64 \<Longrightarrow> decodeVarstring (put_len b @ b @ rest) = Inr (Some (b, rest))"
  by (simp add: decodeVarstring_def put_len_def Uvarint_put_append unat_of_nat64 Let_def)

lemma decode_sets_encode:
  assumes "\<forall>sv\<in>set svs. length (sv_suffix sv) < 2 ^ 64 \<and> length (sv_value sv) < 2 ^ 64"
  shows "decode_sets t (set_suffixes svs) keys =
    Inr (keys @ map (\<lambda>sv. \<lparr>k_trailer = t, k_suffix = sv_suffix sv, k_value = sv_value sv\<rparr>) svs)"
  using assms
proof (induction svs arbitrary: keys)
  case Nil
  then show ?case by (simp add: decode_sets.simps)
next
  case (Cons sv svs)
  then show ?case
    by (simp add: decode_sets.simps [of t "put_len _ @ _"] decodeSuffixValue_def decodeVarstring_put)
qed

lemma decode_unsets_encode:
  assumes "\<forall>b\<in>set sufs. length b < 2 ^ 64"
  shows "decode_unsets t (unset_suffixes sufs) keys =
    Inr (keys @ map (\<lambda>b. \<lparr>k_trailer = t, k_suffix = b, k_value = []\<rparr>) sufs)"
  using assms
proof (induction sufs arbitrary: keys)
  case Nil
  then show ?case by (simp add: decode_unsets.simps)
next
  case (Cons b sufs)
  then show ?case
    by (simp add: decode_unsets.simps [of t "put_len _ @ _"] decodeSuffix_def decodeVarstring_put)
qed

lemma DecodeEndKey_put:
  assumes "k = InternalKeyKindRangeKeySet \<or> k = InternalKeyKindRangeKeyUnset" "rest \<noteq> []"
    and "length (put_len e @ e @ rest) < 2 ^ 64"
  shows "DecodeEndKey k (put_len e @ e @ rest) = Inr (Some (e, rest))"
proof -
  let ?n = "length (put_len e)"
  have e: "length e < 2 ^ 64" using assms(3) by simp
  have "\<not> (of_nat (length (put_len e @ e @ rest)) :: u64) \<le> word_of_int (int ?n) + of_nat (length e)"
  proof -
    have "word_of_int (int ?n) + of_nat (length e) = (of_nat (?n + length e) :: u64)" by simp
    moreover have "unat (of_nat (?n + length e) :: u64) = ?n + length e"
      using assms(3) by (intro unat_of_nat64) simp
    moreover have "unat (of_nat (length (put_len e @ e @ rest)) :: u64) = length (put_len e @ e @ rest)"
      using assms(3) by (intro unat_of_nat64) simp
    ultimately show ?thesis using assms(2) by (simp add: word_le_nat_alt not_le)
  qed
  then show ?thesis
    using assms(1) e by (auto simp add: DecodeEndKey_def put_len_def Uvarint_put_append unat_of_nat64 Let_def kind_defs)
qed

subsection \<open>Precomputed lengths\<close>

lemma lenVarint_from_eq: "lenVarint_from x n = n + length (put_uvarint (ucast x)) - 1"
proof (induction x n rule: lenVarint_from.induct)
  case (1 x n)
  have "unat x < 2 ^ 64" using unsigned_less [of x, where 'a = nat] by simp
  then have lt: "(ucast x :: u64) < 128 \<longleftrightarrow> x < 128"
    by (simp add: word_less_nat_alt unsigned_ucast_eq take_bit_nat_eq_self)
  have dr: "drop_bit 7 (ucast x :: u64) = ucast (drop_bit 7 x)"
    by (rule bit_word_eqI) (auto simp add: bit_simps dest: bit_imp_le_length)
  have pos: "0 < length (put_uvarint y)" for y by simp
  show ?case
  proof (cases "x < 128")
    case False
    then have "lenVarint_from x n = lenVarint_from (drop_bit 7 x) (n + 1)" by (simp add: lenVarint_from.simps [of x])
    also have "\<dots> = n + 1 + length (put_uvarint (ucast (drop_bit 7 x))) - 1" using 1 False by simp
    also have "\<dots> = n + length (put_uvarint (ucast x)) - 1"
      using False lt dr by (simp add: put_uvarint.simps [of "ucast x"])
    finally show ?thesis .
  qed (simp add: lenVarint_from.simps [of x] lt)
qed

lemma lenVarint_eq:
  assumes "n < 2 ^ 32"
  shows "lenVarint n = length (put_uvarint (of_nat n))"
proof -
  have "ucast (of_nat n :: u32) = (of_nat n :: u64)"
    using assms by (simp add: word_unat_eq_iff unsigned_ucast_eq unsigned_of_nat take_bit_nat_eq_self)
  then show ?thesis by (simp add: lenVarint_def lenVarint_from_eq)
qed

lemma EncodedSetValueLen_eq:
  assumes "length e < 2 ^ 32" "\<forall>sv\<in>set svs. length (sv_suffix sv) < 2 ^ 32 \<and> length (sv_value sv) < 2 ^ 32"
  shows "EncodedSetValueLen e svs = length (set_value e svs)"
proof -
  have "encodedSetSuffixValuesLen svs = length (set_suffixes svs)"
    using assms(2) by (induction svs) (simp_all add: lenVarint_eq put_len_def)
  then show ?thesis using assms(1) by (simp add: EncodedSetValueLen_def set_value_def lenVarint_eq put_len_def)
qed

lemma EncodedUnsetValueLen_eq:
  assumes "length e < 2 ^ 32" "\<forall>b\<in>set sufs. length b < 2 ^ 32"
  shows "EncodedUnsetValueLen e sufs = length (unset_value e sufs)"
proof -
  have "encodedUnsetSuffixesLen sufs = length (unset_suffixes sufs)"
    using assms(2) by (induction sufs) (simp_all add: lenVarint_eq put_len_def)
  then show ?thesis using assms(1) by (simp add: EncodedUnsetValueLen_def unset_value_def lenVarint_eq put_len_def)
qed

subsection \<open>Encoding a span\<close>

text \<open>The receiver that collects the pairs, and the decoder of each of them.\<close>

definition collect :: "(rk_error, (InternalKey \<times> bytes) list) emit" where
  "collect ik v st = Inr (st @ [(ik, v)])"

fun decode_pairs :: "(InternalKey \<times> bytes) list \<Rightarrow> rk_error + Span list" where
  "decode_pairs [] = Inr []"
| "decode_pairs ((ik, v) # ps) = rbind (Rangekey_Decode ik v []) (\<lambda>s. rbind (decode_pairs ps) (\<lambda>ss. Inr (s # ss)))"

text \<open>The keys a flush of the accumulators stands for.\<close>

definition group_keys :: "u64 \<Rightarrow> SuffixValue list \<Rightarrow> bytes list \<Rightarrow> bool \<Rightarrow> Key list" where
  "group_keys seq sets unsets del =
     map (\<lambda>sv. \<lparr>k_trailer = MakeTrailer seq InternalKeyKindRangeKeySet, k_suffix = sv_suffix sv, k_value = sv_value sv\<rparr>) sets @
     map (\<lambda>b. \<lparr>k_trailer = MakeTrailer seq InternalKeyKindRangeKeyUnset, k_suffix = b, k_value = []\<rparr>) unsets @
     (if del then [\<lparr>k_trailer = MakeTrailer seq InternalKeyKindRangeKeyDelete, k_suffix = [], k_value = []\<rparr>] else [])"

definition key_size :: "Key \<Rightarrow> nat" where
  "key_size k = length (k_suffix k) + length (k_value k) + 20"

definition keys_size :: "Key list \<Rightarrow> nat" where
  "keys_size ks = sum_list (map key_size ks)"

lemma keys_size_simps [simp]:
  "keys_size [] = 0" "keys_size (k # ks) = key_size k + keys_size ks" "keys_size (ks @ ks') = keys_size ks + keys_size ks'"
  by (simp_all add: keys_size_def)

lemma length_put_len: "length (put_len b) \<le> 10"
  by (simp add: put_len_def length_put_uvarint_10)

lemma length_encodeSet:
  "length (set_suffixes svs) \<le> keys_size (map (\<lambda>sv. \<lparr>k_trailer = t, k_suffix = sv_suffix sv, k_value = sv_value sv\<rparr>) svs)"
proof (induction svs)
  case (Cons sv svs)
  then show ?case using length_put_len [of "sv_suffix sv"] length_put_len [of "sv_value sv"] by (simp add: key_size_def)
qed simp

lemma length_encodeUnset:
  "length (unset_suffixes sufs) \<le> keys_size (map (\<lambda>b. \<lparr>k_trailer = t, k_suffix = b, k_value = []\<rparr>) sufs)"
proof (induction sufs)
  case (Cons b sufs)
  then show ?case using length_put_len [of b] by (simp add: key_size_def)
qed simp

lemma key_size_member: "k \<in> set ks \<Longrightarrow> key_size k \<le> keys_size ks"
  by (simp add: keys_size_def member_le_sum_list)

lemma Make_simps [simp]:
  "Kind (MakeInternalKey u seq k) = k" "Trailer (MakeInternalKey u seq k) = MakeTrailer seq k"
  "UserKey (MakeInternalKey u seq k) = u"
  by (simp_all add: Kind_def MakeInternalKey_def MakeTrailer_def trailer_Kind)

lemma Key_trailer: "k_trailer k = MakeTrailer (Key_SeqNum k) (Key_Kind k)"
  using trailer_split [of "k_trailer k"]
  by (simp add: MakeTrailer_def Key_SeqNum_def Key_Kind_def TrailerKind_def)

lemma decode_set_value:
  assumes "sets \<noteq> []" "length e + 10 + keys_size (group_keys seq sets [] False) < 2 ^ 64"
  shows "Rangekey_Decode (MakeInternalKey u seq InternalKeyKindRangeKeySet) (set_value e sets) [] =
    Inr \<lparr>sp_start = u, sp_end = e, sp_keys = group_keys seq sets [] False, sp_order = ByTrailerDesc\<rparr>"
proof -
  let ?t = "MakeTrailer seq InternalKeyKindRangeKeySet"
  have small: "length (put_len e @ e @ set_suffixes sets) < 2 ^ 64"
    using assms(2) length_put_len [of e] length_encodeSet [of sets ?t] by (simp add: group_keys_def)
  have ne: "set_suffixes sets \<noteq> []" using assms(1) by (cases sets) auto
  have "\<forall>sv\<in>set sets. length (sv_suffix sv) < 2 ^ 64 \<and> length (sv_value sv) < 2 ^ 64"
  proof
    fix sv assume "sv \<in> set sets"
    then have "\<lparr>k_trailer = ?t, k_suffix = sv_suffix sv, k_value = sv_value sv\<rparr> \<in> set (group_keys seq sets [] False)"
      by (simp add: group_keys_def image_iff) blast
    from key_size_member [OF this] show "length (sv_suffix sv) < 2 ^ 64 \<and> length (sv_value sv) < 2 ^ 64"
      using assms(2) by (simp add: key_size_def)
  qed
  then show ?thesis
    using DecodeEndKey_put [OF disjI1 [OF refl] ne small] decode_sets_encode [of sets ?t "[]"]
    by (simp add: Rangekey_Decode_def set_value_def group_keys_def)
qed

lemma decode_unset_value:
  assumes "unsets \<noteq> []" "length e + 10 + keys_size (group_keys seq [] unsets False) < 2 ^ 64"
  shows "Rangekey_Decode (MakeInternalKey u seq InternalKeyKindRangeKeyUnset) (unset_value e unsets) [] =
    Inr \<lparr>sp_start = u, sp_end = e, sp_keys = group_keys seq [] unsets False, sp_order = ByTrailerDesc\<rparr>"
proof -
  let ?t = "MakeTrailer seq InternalKeyKindRangeKeyUnset"
  have small: "length (put_len e @ e @ unset_suffixes unsets) < 2 ^ 64"
    using assms(2) length_put_len [of e] length_encodeUnset [of unsets ?t] by (simp add: group_keys_def)
  have ne: "unset_suffixes unsets \<noteq> []" using assms(1) by (cases unsets) auto
  have "\<forall>b\<in>set unsets. length b < 2 ^ 64"
  proof
    fix b assume "b \<in> set unsets"
    then have "\<lparr>k_trailer = ?t, k_suffix = b, k_value = []\<rparr> \<in> set (group_keys seq [] unsets False)"
      by (simp add: group_keys_def)
    from key_size_member [OF this] show "length b < 2 ^ 64" using assms(2) by (simp add: key_size_def)
  qed
  then show ?thesis
    using DecodeEndKey_put [OF disjI2 [OF refl] ne small] decode_unsets_encode [of unsets ?t "[]"]
    by (simp add: Rangekey_Decode_def unset_value_def group_keys_def kind_defs)
qed

lemma decode_del_value:
  "Rangekey_Decode (MakeInternalKey u seq InternalKeyKindRangeKeyDelete) e [] =
    Inr \<lparr>sp_start = u, sp_end = e, sp_keys = group_keys seq [] [] True, sp_order = ByTrailerDesc\<rparr>"
  by (simp add: Rangekey_Decode_def DecodeEndKey_def group_keys_def kind_defs)

text \<open>\<open>decodes_to s ps ks\<close>: the pairs decode to spans with the bounds of \<open>s\<close> and the keys \<open>ks\<close>.\<close>

definition decodes_to :: "Span \<Rightarrow> (InternalKey \<times> bytes) list \<Rightarrow> Key list \<Rightarrow> bool" where
  "decodes_to s ps ks \<longleftrightarrow>
     (\<exists>ss. decode_pairs ps = Inr ss \<and> (\<forall>t\<in>set ss. sp_start t = sp_start s \<and> sp_end t = sp_end s) \<and>
        concat (map sp_keys ss) = ks)"

lemma decode_pairs_append:
  "decode_pairs (ps @ qs) = rbind (decode_pairs ps) (\<lambda>ss. rbind (decode_pairs qs) (\<lambda>ts. Inr (ss @ ts)))"
proof (induction ps)
  case Nil
  then show ?case by (cases "decode_pairs qs") simp_all
next
  case (Cons p ps)
  then show ?case
    by (cases p; cases "Rangekey_Decode (fst p) (snd p) []"; cases "decode_pairs ps"; cases "decode_pairs qs") simp_all
qed

lemma decodes_to_Nil: "decodes_to s [] []"
  by (simp add: decodes_to_def)

lemma decodes_to_append: "decodes_to s ps ks \<Longrightarrow> decodes_to s qs ks' \<Longrightarrow> decodes_to s (ps @ qs) (ks @ ks')"
  by (auto simp add: decodes_to_def decode_pairs_append)

lemma decodes_to_single:
  "Rangekey_Decode ik v [] = Inr \<lparr>sp_start = sp_start s, sp_end = sp_end s, sp_keys = ks, sp_order = r\<rparr> \<Longrightarrow>
   decodes_to s [(ik, v)] ks"
  by (simp add: decodes_to_def)

text \<open>Strings whose lengths the 32-bit counts of \<^verbatim>\<open>lenVarint\<close> can hold.\<close>

definition small_keys :: "Key list \<Rightarrow> bool" where
  "small_keys ks \<longleftrightarrow> (\<forall>k\<in>set ks. length (k_suffix k) < 2 ^ 32 \<and> length (k_value k) < 2 ^ 32)"

lemma small_group:
  "small_keys (group_keys seq sets unsets del) \<longleftrightarrow>
     (\<forall>sv\<in>set sets. length (sv_suffix sv) < 2 ^ 32 \<and> length (sv_value sv) < 2 ^ 32) \<and> (\<forall>b\<in>set unsets. length b < 2 ^ 32)"
  by (cases del) (auto simp add: small_keys_def group_keys_def ball_Un)

lemma emit_encoded_exact:
  assumes "l = length bs" "\<And>dst. length dst = l \<Longrightarrow> encode dst = Inr (bs @ drop l dst, n)"
  shows "\<exists>buf. emit_encoded collect ik l encode (e, st) = Inr (e\<lparr>enc_buf := buf\<rparr>, st @ [(ik, bs)])"
  using assms by (auto simp add: emit_encoded_def collect_def Let_def min_def)

lemma flush_emits:
  assumes "length (sp_end s) < 2 ^ 32" "small_keys (group_keys seq (enc_sets e) (enc_unsets e) del)"
  shows "\<exists>buf. Encoder_flush collect s seq del (e, st) = Inr (e\<lparr>enc_buf := buf\<rparr>, st @
    (if enc_sets e = [] then [] else [(MakeInternalKey (sp_start s) seq InternalKeyKindRangeKeySet, set_value (sp_end s) (enc_sets e))]) @
    (if enc_unsets e = [] then [] else [(MakeInternalKey (sp_start s) seq InternalKeyKindRangeKeyUnset, unset_value (sp_end s) (enc_unsets e))]) @
    (if del then [(MakeInternalKey (sp_start s) seq InternalKeyKindRangeKeyDelete, sp_end s)] else []))"
proof -
  have small: "\<forall>sv\<in>set (enc_sets e). length (sv_suffix sv) < 2 ^ 32 \<and> length (sv_value sv) < 2 ^ 32"
      "\<forall>b\<in>set (enc_unsets e). length b < 2 ^ 32" using assms(2) by (simp_all add: small_group)
  note ls = EncodedSetValueLen_eq [OF assms(1) small(1)] and lu = EncodedUnsetValueLen_eq [OF assms(1) small(2)]
  have 1: "\<exists>buf. emit_encoded collect ik (EncodedSetValueLen (sp_end s) (enc_sets e)) (\<lambda>dst. EncodeSetValue dst (sp_end s) (enc_sets e)) (e, st) =
      Inr (e\<lparr>enc_buf := buf\<rparr>, st @ [(ik, set_value (sp_end s) (enc_sets e))])" for ik
    by (rule emit_encoded_exact) (simp_all add: ls EncodeSetValue_fits)
  have 2: "\<exists>buf. emit_encoded collect ik (EncodedUnsetValueLen (sp_end s) (enc_unsets e)) (\<lambda>dst. EncodeUnsetValue dst (sp_end s) (enc_unsets e)) (e', st') =
      Inr (e'\<lparr>enc_buf := buf\<rparr>, st' @ [(ik, unset_value (sp_end s) (enc_unsets e))])" for ik e' st'
    by (rule emit_encoded_exact) (simp_all add: lu EncodeUnsetValue_fits)
  obtain b1 where b1: "(if 0 < length (enc_sets e) then emit_encoded collect (MakeInternalKey (sp_start s) seq InternalKeyKindRangeKeySet)
        (EncodedSetValueLen (sp_end s) (enc_sets e)) (\<lambda>dst. EncodeSetValue dst (sp_end s) (enc_sets e)) (e, st) else Inr (e, st)) =
      Inr (e\<lparr>enc_buf := b1\<rparr>, st @ (if enc_sets e = [] then [] else
        [(MakeInternalKey (sp_start s) seq InternalKeyKindRangeKeySet, set_value (sp_end s) (enc_sets e))]))" (is "_ = Inr (_, ?st1)")
  proof (cases "enc_sets e = []")
    case True
    then show thesis using that [of "enc_buf e"] by simp
  next
    case False
    then show thesis using 1 that by auto
  qed
  obtain b2 where b2: "(if 0 < length (enc_unsets e) then emit_encoded collect (MakeInternalKey (sp_start s) seq InternalKeyKindRangeKeyUnset)
        (EncodedUnsetValueLen (sp_end s) (enc_unsets e)) (\<lambda>dst. EncodeUnsetValue dst (sp_end s) (enc_unsets e)) (e\<lparr>enc_buf := b1\<rparr>, ?st1)
        else Inr (e\<lparr>enc_buf := b1\<rparr>, ?st1)) =
      Inr (e\<lparr>enc_buf := b2\<rparr>, ?st1 @ (if enc_unsets e = [] then [] else
        [(MakeInternalKey (sp_start s) seq InternalKeyKindRangeKeyUnset, unset_value (sp_end s) (enc_unsets e))]))"
  proof (cases "enc_unsets e = []")
    case False
    obtain buf where "emit_encoded collect (MakeInternalKey (sp_start s) seq InternalKeyKindRangeKeyUnset)
        (EncodedUnsetValueLen (sp_end s) (enc_unsets e)) (\<lambda>dst. EncodeUnsetValue dst (sp_end s) (enc_unsets e)) (e\<lparr>enc_buf := b1\<rparr>, ?st1) =
      Inr (e\<lparr>enc_buf := buf\<rparr>, ?st1 @ [(MakeInternalKey (sp_start s) seq InternalKeyKindRangeKeyUnset, unset_value (sp_end s) (enc_unsets e))])"
      using 2 [of "MakeInternalKey (sp_start s) seq InternalKeyKindRangeKeyUnset" "e\<lparr>enc_buf := b1\<rparr>" ?st1] by auto
    then show thesis using False by (intro that [of buf]) simp
  qed (use that [of b1] in simp)
  have u: "enc_unsets (e\<lparr>enc_buf := b1\<rparr>) = enc_unsets e" by simp
  show ?thesis
    by (rule exI [of _ b2]) (simp only: Encoder_flush_def case_prod_conv b1 rbind_simps u b2, simp add: collect_def)
qed

lemma flush_decodes:
  assumes "length (sp_end s) + 10 + keys_size (group_keys seq (enc_sets e) (enc_unsets e) del) < 2 ^ 64"
    and "length (sp_end s) < 2 ^ 32" "small_keys (group_keys seq (enc_sets e) (enc_unsets e) del)"
  shows "\<exists>ps buf. Encoder_flush collect s seq del (e, st) = Inr (e\<lparr>enc_buf := buf\<rparr>, st @ ps) \<and>
    decodes_to s ps (group_keys seq (enc_sets e) (enc_unsets e) del)"
proof -
  let ?sets = "enc_sets e" and ?unsets = "enc_unsets e"
  let ?p1 = "if ?sets = [] then [] else [(MakeInternalKey (sp_start s) seq InternalKeyKindRangeKeySet, set_value (sp_end s) ?sets)]"
  let ?p2 = "if ?unsets = [] then [] else [(MakeInternalKey (sp_start s) seq InternalKeyKindRangeKeyUnset, unset_value (sp_end s) ?unsets)]"
  let ?p3 = "if del then [(MakeInternalKey (sp_start s) seq InternalKeyKindRangeKeyDelete, sp_end s)] else []"
  have split: "group_keys seq ?sets ?unsets del = group_keys seq ?sets [] False @ group_keys seq [] ?unsets False @ group_keys seq [] [] del"
    by (simp add: group_keys_def)
  have "decodes_to s ?p1 (group_keys seq ?sets [] False)"
  proof (cases "?sets = []")
    case False
    then show ?thesis using decode_set_value [of ?sets "sp_end s" seq "sp_start s"] assms(1) split
      by (auto intro: decodes_to_single)
  qed (simp add: group_keys_def decodes_to_Nil)
  moreover have "decodes_to s ?p2 (group_keys seq [] ?unsets False)"
  proof (cases "?unsets = []")
    case False
    then show ?thesis using decode_unset_value [of ?unsets "sp_end s" seq "sp_start s"] assms(1) split
      by (auto intro: decodes_to_single)
  qed (simp add: group_keys_def decodes_to_Nil)
  moreover have "decodes_to s ?p3 (group_keys seq [] [] del)"
  proof (cases del)
    case True
    then show ?thesis using decode_del_value by (simp add: decodes_to_single)
  qed (simp add: group_keys_def decodes_to_Nil)
  ultimately have "decodes_to s (?p1 @ ?p2 @ ?p3) (group_keys seq ?sets ?unsets del)"
    unfolding split by (intro decodes_to_append)
  then show ?thesis using flush_emits [OF assms(2,3), of st] by blast
qed

text \<open>The keys of a span as range keys are kept: in trailer order, a value only on sets, no suffix on
  deletes, and no two deletes at one sequence number.\<close>

definition canonical_key :: "Key \<Rightarrow> bool" where
  "canonical_key k \<longleftrightarrow>
     (if Key_Kind k = InternalKeyKindRangeKeySet then True
      else if Key_Kind k = InternalKeyKindRangeKeyUnset then k_value k = []
      else Key_Kind k = InternalKeyKindRangeKeyDelete \<and> k_suffix k = [] \<and> k_value k = [])"

definition canonical_keys :: "Key list \<Rightarrow> bool" where
  "canonical_keys ks \<longleftrightarrow>
     trailer_desc ks \<and> (\<forall>k\<in>set ks. canonical_key k) \<and>
     distinct (map k_trailer (filter (\<lambda>k. Key_Kind k = InternalKeyKindRangeKeyDelete) ks))"

lemma unat_MakeTrailer: "unat seq < 2 ^ 56 \<Longrightarrow> unat (MakeTrailer seq k) = unat seq * 256 + unat k"
  unfolding MakeTrailer_def by (rule unat_trailer)

lemma Key_SeqNum_less: "unat (Key_SeqNum k) < 2 ^ 56"
  using seqnum_bound [of k] by (simp add: word_less_nat_alt)

lemma Key_Kind_MakeTrailer [simp]:
  "Key_Kind \<lparr>k_trailer = MakeTrailer seq k, k_suffix = a, k_value = b\<rparr> = k"
  using trailer_Kind [of seq k] by (simp add: Key_Kind_def MakeTrailer_def TrailerKind_def)

lemma canonical_append: "canonical_keys (ks @ ks') \<Longrightarrow> canonical_keys ks'"
  by (auto simp add: canonical_keys_def trailer_desc_def sorted_wrt_append)

lemma canonical_Cons_cases:
  assumes "canonical_key k"
  obtains (set) "Key_Kind k = InternalKeyKindRangeKeySet"
      "k = \<lparr>k_trailer = MakeTrailer (Key_SeqNum k) InternalKeyKindRangeKeySet, k_suffix = k_suffix k, k_value = k_value k\<rparr>"
  | (unset) "Key_Kind k = InternalKeyKindRangeKeyUnset"
      "k = \<lparr>k_trailer = MakeTrailer (Key_SeqNum k) InternalKeyKindRangeKeyUnset, k_suffix = k_suffix k, k_value = []\<rparr>"
  | (del) "Key_Kind k = InternalKeyKindRangeKeyDelete"
      "k = \<lparr>k_trailer = MakeTrailer (Key_SeqNum k) InternalKeyKindRangeKeyDelete, k_suffix = [], k_value = []\<rparr>"
proof -
  have eq: "k = \<lparr>k_trailer = MakeTrailer (Key_SeqNum k) (Key_Kind k), k_suffix = k_suffix k, k_value = k_value k\<rparr>"
    using Key_trailer [of k] by (cases k) simp
  show thesis
    using assms eq that by (auto simp add: canonical_key_def split: if_splits)
qed

text \<open>The effect of a key on the accumulators.\<close>

definition add_group :: "Key \<Rightarrow> SuffixValue list \<times> bytes list \<times> bool \<Rightarrow> SuffixValue list \<times> bytes list \<times> bool" where
  "add_group k = (\<lambda>(sets, unsets, del).
     if Key_Kind k = InternalKeyKindRangeKeySet then (sets @ [\<lparr>sv_suffix = k_suffix k, sv_value = k_value k\<rparr>], unsets, del)
     else if Key_Kind k = InternalKeyKindRangeKeyUnset then (sets, unsets @ [k_suffix k], del)
     else (sets, unsets, True))"

lemma group_keys_add:
  assumes c: "canonical_keys (group_keys (Key_SeqNum k) sets unsets del @ [k])"
    and a: "add_group k (sets, unsets, del) = (sets', unsets', del')"
  shows "group_keys (Key_SeqNum k) sets' unsets' del' = group_keys (Key_SeqNum k) sets unsets del @ [k]"
proof -
  let ?g = "group_keys (Key_SeqNum k) sets unsets del"
  have ge: "unat (k_trailer k) \<le> unat (k_trailer x)" if "x \<in> set ?g" for x
    using c that by (auto simp add: canonical_keys_def trailer_desc_def sorted_wrt_append word_le_nat_alt)
  have t: "unat (k_trailer k) = unat (Key_SeqNum k) * 256 + unat (Key_Kind k)"
    using Key_trailer [of k] unat_MakeTrailer [OF Key_SeqNum_less [of k]] by metis
  have un: "unat (Key_Kind k) \<le> 20" if "unsets \<noteq> []"
    using ge [of "\<lparr>k_trailer = MakeTrailer (Key_SeqNum k) InternalKeyKindRangeKeyUnset, k_suffix = hd unsets, k_value = []\<rparr>"]
      that t unat_MakeTrailer [OF Key_SeqNum_less [of k]] by (simp add: group_keys_def kind_defs)
  have dl: "unat (Key_Kind k) \<le> 19" if "del"
    using ge [of "\<lparr>k_trailer = MakeTrailer (Key_SeqNum k) InternalKeyKindRangeKeyDelete, k_suffix = [], k_value = []\<rparr>"]
      that t unat_MakeTrailer [OF Key_SeqNum_less [of k]] by (simp add: group_keys_def kind_defs)
  have "canonical_key k" using c by (simp add: canonical_keys_def)
  then show ?thesis
  proof (cases rule: canonical_Cons_cases)
    case set
    then have "unsets = []" "\<not> del" using un dl by (auto simp add: kind_defs)
    moreover have "\<lparr>k_trailer = MakeTrailer (Key_SeqNum k) InternalKeyKindRangeKeySet, k_suffix = k_suffix k, k_value = k_value k\<rparr> = k"
      using set(2) by simp
    ultimately show ?thesis using a set(1) by (auto simp add: add_group_def group_keys_def)
  next
    case unset
    then have "\<not> del" using dl by (auto simp add: kind_defs)
    moreover have "\<lparr>k_trailer = MakeTrailer (Key_SeqNum k) InternalKeyKindRangeKeyUnset, k_suffix = k_suffix k, k_value = []\<rparr> = k"
      using unset(2) by simp
    ultimately show ?thesis using a unset(1) by (auto simp add: add_group_def group_keys_def kind_defs)
  next
    case del
    have "\<not> del"
    proof
      assume d: "del"
      have "distinct (map k_trailer (filter (\<lambda>k. Key_Kind k = InternalKeyKindRangeKeyDelete) (?g @ [k])))"
        using c by (simp add: canonical_keys_def)
      then show False using d del Key_trailer [of k] by (simp add: group_keys_def)
    qed
    moreover have "\<lparr>k_trailer = MakeTrailer (Key_SeqNum k) InternalKeyKindRangeKeyDelete, k_suffix = [], k_value = []\<rparr> = k"
      using del(2) by simp
    ultimately show ?thesis using a del(1) by (auto simp add: add_group_def group_keys_def kind_defs)
  qed
qed

text \<open>An encoder that has gathered these keys.\<close>

definition gathered :: "SuffixValue list \<times> bytes list \<times> bool \<Rightarrow> Encoder \<Rightarrow> Encoder" where
  "gathered = (\<lambda>(sets, unsets, del) e. e\<lparr>enc_sets := sets, enc_unsets := unsets\<rparr>)"

lemma Encode_keys_step:
  assumes "canonical_key k"
  shows "Encode_keys emit s (k # ks) seq del (e, st) =
    (if Key_SeqNum k \<noteq> seq
     then rbind (Encoder_flush emit s seq del (e, st)) (\<lambda>(e1, st1).
       let g = add_group k ([], [], False) in Encode_keys emit s ks (Key_SeqNum k) (snd (snd g)) (gathered g e1, st1))
     else let g = add_group k (enc_sets e, enc_unsets e, del) in Encode_keys emit s ks seq (snd (snd g)) (gathered g e, st))"
proof -
  have comm: "a\<lparr>enc_unsets := us, enc_sets := ss\<rparr> = a\<lparr>enc_sets := ss, enc_unsets := us\<rparr>" for us ss and a :: Encoder by simp
  show ?thesis
    using assms by (cases "Encoder_flush emit s seq del (e, st)")
      (auto simp add: canonical_key_def add_group_def gathered_def kind_defs Let_def comm split: if_splits)
qed

lemma Encode_keys_decodes:
  assumes "canonical_keys (group_keys seq (enc_sets e) (enc_unsets e) del @ ks)"
    and "length (sp_end s) + 10 + keys_size (group_keys seq (enc_sets e) (enc_unsets e) del @ ks) < 2 ^ 64"
    and "length (sp_end s) < 2 ^ 32" "small_keys (group_keys seq (enc_sets e) (enc_unsets e) del @ ks)"
  shows "\<exists>ps e'. Encode_keys collect s ks seq del (e, st) = Inr (e', st @ ps) \<and>
    decodes_to s ps (group_keys seq (enc_sets e) (enc_unsets e) del @ ks)"
  using assms
proof (induction ks arbitrary: seq e del st)
  case Nil
  then show ?case using flush_decodes [of s seq e del st] by (simp del: split_paired_Ex) blast
next
  case (Cons k ks)
  let ?g = "group_keys seq (enc_sets e) (enc_unsets e) del"
  have k: "canonical_key k" using Cons.prems(1) by (simp add: canonical_keys_def)
  have small: "small_keys ?g" "small_keys (k # ks)" using Cons.prems(4) by (simp_all add: small_keys_def)
  show ?case
  proof (cases "Key_SeqNum k = seq")
    case True
    obtain sets' unsets' del' where a: "add_group k (enc_sets e, enc_unsets e, del) = (sets', unsets', del')"
      by (metis prod_cases3)
    have "canonical_keys (?g @ [k])"
      using Cons.prems(1) by (auto simp add: canonical_keys_def trailer_desc_def sorted_wrt_append)
    then have g: "group_keys seq sets' unsets' del' = ?g @ [k]" using group_keys_add a True by blast
    let ?e = "gathered (sets', unsets', del') e"
    have e: "enc_sets ?e = sets'" "enc_unsets ?e = unsets'" by (simp_all add: gathered_def)
    have "\<exists>ps e'. Encode_keys collect s ks seq del' (?e, st) = Inr (e', st @ ps) \<and> decodes_to s ps (group_keys seq (enc_sets ?e) (enc_unsets ?e) del' @ ks)"
      using Cons.prems by (intro Cons.IH) (simp_all add: g e)
    then show ?thesis using True a g e by (simp add: Encode_keys_step [OF k] del: Encode_keys.simps)
  next
    case False
    obtain sets' unsets' del' where a: "add_group k ([], [], False) = (sets', unsets', del')"
      by (metis prod_cases3)
    have c: "canonical_keys (k # ks)" using canonical_append Cons.prems(1) by blast
    have n: "group_keys (Key_SeqNum k) [] [] False = []" by (simp add: group_keys_def)
    have "canonical_keys [k]" using c by (simp add: canonical_keys_def trailer_desc_def)
    then have g: "group_keys (Key_SeqNum k) sets' unsets' del' = [k]"
      using group_keys_add [of k "[]" "[]" False] a n by simp
    obtain ps1 buf where ps1: "Encoder_flush collect s seq del (e, st) = Inr (e\<lparr>enc_buf := buf\<rparr>, st @ ps1)" "decodes_to s ps1 ?g"
      using flush_decodes [OF _ Cons.prems(3) small(1), of st] Cons.prems(2) by auto
    let ?e = "gathered (sets', unsets', del') (e\<lparr>enc_buf := buf\<rparr>)"
    have e: "enc_sets ?e = sets'" "enc_unsets ?e = unsets'" by (simp_all add: gathered_def)
    have "\<exists>ps e'. Encode_keys collect s ks (Key_SeqNum k) del' (?e, st @ ps1) = Inr (e', (st @ ps1) @ ps) \<and>
        decodes_to s ps (group_keys (Key_SeqNum k) (enc_sets ?e) (enc_unsets ?e) del' @ ks)"
      using Cons.prems(2,3) c small(2) by (intro Cons.IH) (simp_all add: g e)
    then obtain ps e' where ps: "Encode_keys collect s ks (Key_SeqNum k) del' (?e, st @ ps1) = Inr (e', (st @ ps1) @ ps)"
        "decodes_to s ps (k # ks)" by (auto simp add: g e)
    have "Encode_keys collect s (k # ks) seq del (e, st) = Inr (e', st @ (ps1 @ ps))"
      using False ps1(1) a ps(1) by (simp add: Encode_keys_step [OF k] del: Encode_keys.simps)
    moreover have "decodes_to s (ps1 @ ps) (?g @ k # ks)" by (rule decodes_to_append [OF ps1(2) ps(2)])
    ultimately show ?thesis by blast
  qed
qed

section \<open>What range keys mean\<close>

text \<open>
  The state a span's keys describe: a map from suffixes to values, to which the keys are applied from
  the oldest to the newest. Keys are kept newest first, and at one sequence number sets come before
  unsets and these before deletes.
\<close>

definition rk_apply :: "Key \<Rightarrow> (bytes \<rightharpoonup> bytes) \<Rightarrow> (bytes \<rightharpoonup> bytes)" where
  "rk_apply k m =
     (if Key_Kind k = InternalKeyKindRangeKeySet then m(k_suffix k \<mapsto> k_value k)
      else if Key_Kind k = InternalKeyKindRangeKeyUnset then m(k_suffix k := None)
      else Map.empty)"

definition rk_state :: "Key list \<Rightarrow> (bytes \<rightharpoonup> bytes) \<Rightarrow> (bytes \<rightharpoonup> bytes)" where
  "rk_state ks m = foldr rk_apply ks m"

text \<open>Among sets and unsets the newest key of a suffix decides.\<close>

definition is_del :: "Key \<Rightarrow> bool" where
  "is_del k = (Key_Kind k = InternalKeyKindRangeKeyDelete)"

definition range_kind :: "Key \<Rightarrow> bool" where
  "range_kind k = IsRangeKey (Key_Kind k)"

lemma rk_state_first:
  assumes "\<forall>k\<in>set ks. range_kind k \<and> \<not> is_del k"
  shows "rk_state ks m x =
    (case find (\<lambda>k. k_suffix k = x) ks of
       None \<Rightarrow> m x
     | Some k \<Rightarrow> if Key_Kind k = InternalKeyKindRangeKeySet then Some (k_value k) else None)"
  using assms
proof (induction ks)
  case (Cons k ks)
  then show ?case
    by (auto simp add: rk_state_def rk_apply_def range_kind_def IsRangeKey_def is_del_def)
qed (simp add: rk_state_def)

lemma rk_state_del:
  assumes "is_del d"
  shows "rk_state (ks @ d # rest) m = rk_state ks Map.empty"
  using assms by (simp add: rk_state_def rk_apply_def is_del_def kind_defs)

lemma coalesce_prefix_spec:
  "coalesce_prefix snapshot ks acc = (acc', del) \<Longrightarrow>
   \<exists>new. acc' = acc @ new \<and> (\<forall>k\<in>set new. k \<in> set ks \<and> Key_VisibleAt snapshot k \<and> \<not> is_del k) \<and>
     (\<forall>d. del = Some d \<longrightarrow> is_del d \<and> d \<in> set ks \<and> Key_VisibleAt snapshot d) \<and>
     (case del of None \<Rightarrow> filter (Key_VisibleAt snapshot) ks = new
      | Some d \<Rightarrow> \<exists>rest. filter (Key_VisibleAt snapshot) ks = new @ d # rest)"
proof (induction snapshot ks acc rule: coalesce_prefix.induct)
  case (2 snapshot k ks acc)
  consider (hidden) "\<not> Key_VisibleAt snapshot k" | (del) "Key_VisibleAt snapshot k" "is_del k"
    | (keep) "Key_VisibleAt snapshot k" "\<not> is_del k" by blast
  then show ?case
  proof cases
    case hidden
    then have "coalesce_prefix snapshot ks acc = (acc', del)" using "2.prems" by simp
    from "2.IH"(1) [OF hidden this] obtain new where
        "acc' = acc @ new" "\<forall>k\<in>set new. k \<in> set ks \<and> Key_VisibleAt snapshot k \<and> \<not> is_del k"
        "\<forall>d. del = Some d \<longrightarrow> is_del d \<and> d \<in> set ks \<and> Key_VisibleAt snapshot d"
        "case del of None \<Rightarrow> filter (Key_VisibleAt snapshot) ks = new
         | Some d \<Rightarrow> \<exists>rest. filter (Key_VisibleAt snapshot) ks = new @ d # rest"
      by blast
    then show ?thesis using hidden by (intro exI [of _ new]) (simp split: option.splits)
  next
    case del
    then have "acc' = acc" "del = Some k" using "2.prems" by (simp_all add: is_del_def)
    then show ?thesis using del by (intro exI [of _ "[]"]) simp
  next
    case keep
    then have "coalesce_prefix snapshot ks (acc @ [k]) = (acc', del)" using "2.prems" by (simp add: is_del_def)
    from "2.IH"(2) [OF _ _ this] keep obtain new where
        "acc' = (acc @ [k]) @ new" "\<forall>k\<in>set new. k \<in> set ks \<and> Key_VisibleAt snapshot k \<and> \<not> is_del k"
        "\<forall>d. del = Some d \<longrightarrow> is_del d \<and> d \<in> set ks \<and> Key_VisibleAt snapshot d"
        "case del of None \<Rightarrow> filter (Key_VisibleAt snapshot) ks = new
         | Some d \<Rightarrow> \<exists>rest. filter (Key_VisibleAt snapshot) ks = new @ d # rest"
      by (auto simp add: is_del_def)
    then show ?thesis using keep by (intro exI [of _ "k # new"]) (simp split: option.splits)
  qed
qed simp

text \<open>The state of the visible keys is that of what the first loop leaves.\<close>

lemma coalesce_prefix_state:
  assumes "coalesce_prefix snapshot ks [] = (acc, del)"
  shows "rk_state (filter (Key_VisibleAt snapshot) ks) m = rk_state acc (case del of None \<Rightarrow> m | Some _ \<Rightarrow> Map.empty)"
  using coalesce_prefix_spec [OF assms] by (auto simp add: rk_state_del split: option.splits)

subsection \<open>Shadowing\<close>

text \<open>The second loop keeps the first of each run of keys with one suffix.\<close>

fun first_of_runs :: "bytes option \<Rightarrow> Key list \<Rightarrow> Key list" where
  "first_of_runs prev [] = []"
| "first_of_runs prev (k # ks) =
     (if prev = Some (k_suffix k) then first_of_runs prev ks else k # first_of_runs (Some (k_suffix k)) ks)"

lemma coalesce_shadow_runs:
  "all = pre @ ks \<Longrightarrow> i = length pre \<Longrightarrow>
    coalesce_shadow (=) all i ks prev kept =
      (case kept of None \<Rightarrow> pre | Some out \<Rightarrow> out) @ first_of_runs (if i = 0 then None else Some prev) ks"
proof (induction ks arbitrary: pre i prev kept)
  case Nil
  then show ?case by (auto split: option.splits)
next
  case (Cons k ks)
  show ?case
  proof (cases "0 < i \<and> prev = k_suffix k")
    case True
    have "coalesce_shadow (=) all (i + 1) ks prev (case kept of None \<Rightarrow> Some (take i all) | Some out \<Rightarrow> Some out) =
        (case (case kept of None \<Rightarrow> Some (take i all) | Some out \<Rightarrow> Some out) of None \<Rightarrow> pre @ [k] | Some out \<Rightarrow> out) @
        first_of_runs (if i + 1 = 0 then None else Some prev) ks"
      using Cons.prems by (intro Cons.IH) auto
    then show ?thesis using True Cons.prems by (auto split: option.splits)
  next
    case False
    have "coalesce_shadow (=) all (i + 1) ks (k_suffix k) (case kept of None \<Rightarrow> None | Some out \<Rightarrow> Some (out @ [k])) =
        (case (case kept of None \<Rightarrow> None | Some out \<Rightarrow> Some (out @ [k])) of None \<Rightarrow> pre @ [k] | Some out \<Rightarrow> out) @
        first_of_runs (if i + 1 = 0 then None else Some (k_suffix k)) ks"
      using Cons.prems by (intro Cons.IH) auto
    then show ?thesis using False by (auto split: option.splits)
  qed
qed

lemma find_filter: "find P xs = (case filter P xs of [] \<Rightarrow> None | x # _ \<Rightarrow> Some x)"
  by (induction xs) auto

context key_order
begin

lemma stable_filter:
  "filter (\<lambda>k. k_suffix k = x) (stable_sort (KeysBySuffix_Less cmp) ks) = filter (\<lambda>k. k_suffix k = x) ks"
proof -
  have "filter (\<lambda>k. k_suffix k = x) (stable_insert (KeysBySuffix_Less cmp) k ys) = filter (\<lambda>k. k_suffix k = x) (k # ys)" for k ys
    by (induction ys) (auto simp add: KeysBySuffix_Less_def)
  then show ?thesis by (induction ks) (simp_all add: stable_sort_def)
qed

lemma stable_sorted: "sorted_wrt (\<lambda>a b. le (k_suffix a) (k_suffix b)) (stable_sort (KeysBySuffix_Less cmp) ks)"
proof -
  have "sorts_by (KeysBySuffix_Less cmp) (stable_sort (KeysBySuffix_Less cmp))"
  proof (rule stable_sort_sorts)
    show "\<not> KeysBySuffix_Less cmp c a" if "\<not> KeysBySuffix_Less cmp b a" "\<not> KeysBySuffix_Less cmp c b" for a b c
      using that cmp_trans [of "k_suffix a" "k_suffix b" "k_suffix c"] by (simp add: KeysBySuffix_Less_def not_lt)
    show "\<not> KeysBySuffix_Less cmp b a" if "KeysBySuffix_Less cmp a b" for a b
      using that not_lt [of "k_suffix b" "k_suffix a"] by (simp add: KeysBySuffix_Less_def)
  qed
  then show ?thesis using sorts_byD(3) by (fastforce simp add: KeysBySuffix_Less_def not_lt)
qed

lemma first_of_runs_set: "set (first_of_runs prev ks) \<subseteq> set ks"
  by (induction prev ks rule: first_of_runs.induct) auto

lemma first_of_runs_sorted:
  assumes "sorted_wrt (\<lambda>a b. le (k_suffix a) (k_suffix b)) ks"
    and "\<forall>p. prev = Some p \<longrightarrow> (\<forall>k\<in>set ks. le p (k_suffix k))"
  shows "sorted_wrt (\<lambda>a b. lt (k_suffix a) (k_suffix b)) (first_of_runs prev ks) \<and>
    (\<forall>p. prev = Some p \<longrightarrow> (\<forall>k\<in>set (first_of_runs prev ks). lt p (k_suffix k)))"
  using assms
proof (induction prev ks rule: first_of_runs.induct)
  case (2 prev k ks)
  show ?case
  proof (cases "prev = Some (k_suffix k)")
    case True
    then show ?thesis using 2 by simp
  next
    case False
    have IH: "sorted_wrt (\<lambda>a b. lt (k_suffix a) (k_suffix b)) (first_of_runs (Some (k_suffix k)) ks)"
      "\<forall>k'\<in>set (first_of_runs (Some (k_suffix k)) ks). lt (k_suffix k) (k_suffix k')"
      using "2.IH"(2) [OF False] "2.prems"(1) by simp_all
    have "lt p (k_suffix k')" if "prev = Some p" "k' \<in> set (first_of_runs prev (k # ks))" for p k'
    proof -
      have pk: "lt p (k_suffix k)" using "2.prems"(2) False that(1) cmp_eq [of p "k_suffix k"] by force
      then show ?thesis using that False IH(2) cmp_less_trans [OF pk] by (auto simp add: less_imp_le)
    qed
    then show ?thesis using IH False by simp
  qed
qed simp

lemma first_of_runs_find:
  assumes "sorted_wrt (\<lambda>a b. le (k_suffix a) (k_suffix b)) ks"
    and "\<forall>p. prev = Some p \<longrightarrow> (\<forall>k\<in>set ks. le p (k_suffix k))"
  shows "find (\<lambda>k. k_suffix k = x) (first_of_runs prev ks) = (if prev = Some x then None else find (\<lambda>k. k_suffix k = x) ks)"
  using assms
proof (induction prev ks rule: first_of_runs.induct)
  case (2 prev k ks)
  have k: "\<forall>k'\<in>set ks. le (k_suffix k) (k_suffix k')" using "2.prems"(1) by simp
  show ?case
  proof (cases "prev = Some (k_suffix k)")
    case True
    then show ?thesis using 2 by simp
  next
    case False
    have IH: "find (\<lambda>k. k_suffix k = x) (first_of_runs (Some (k_suffix k)) ks) =
        (if k_suffix k = x then None else find (\<lambda>k. k_suffix k = x) ks)"
      using "2.IH"(2) [OF False] "2.prems"(1) by simp
    have "find (\<lambda>k. k_suffix k = x) ks = None" if p: "prev = Some x"
    proof -
      have "lt x (k_suffix k)" using "2.prems"(2) False p cmp_eq [of x "k_suffix k"] by force
      then have "k_suffix k' \<noteq> x" if "k' \<in> set ks" for k'
        using cmp_less_trans [of x "k_suffix k" "k_suffix k'"] k that by auto
      then show ?thesis by (auto simp add: find_None_iff)
    qed
    then show ?thesis using IH False by auto
  qed
qed simp

text \<open>What \<^verbatim>\<open>coalesce\<close> leaves: one key per suffix, the newest, in the order of the suffixes, and the deletion.\<close>

lemma coalesce_spec:
  assumes "\<forall>k\<in>set keys. range_kind k"
  obtains kept del where "coalesce cmp (=) snapshot keys = kept @ (case del of Some d \<Rightarrow> [d] | None \<Rightarrow> [])"
    "sorted_wrt (\<lambda>a b. lt (k_suffix a) (k_suffix b)) kept" "\<forall>k\<in>set kept. k \<in> set keys \<and> \<not> is_del k"
    "\<And>m. rk_state (filter (Key_VisibleAt snapshot) keys) m = rk_state kept (case del of None \<Rightarrow> m | Some _ \<Rightarrow> Map.empty)"
    "\<forall>d. del = Some d \<longrightarrow> is_del d \<and> d \<in> set keys \<and>
       (\<exists>new rest. filter (Key_VisibleAt snapshot) keys = new @ d # rest \<and> set kept \<subseteq> set new)"
proof -
  obtain acc del where p: "coalesce_prefix snapshot keys [] = (acc, del)" by (cases "coalesce_prefix snapshot keys []")
  let ?all = "stable_sort (KeysBySuffix_Less cmp) acc"
  let ?kept = "first_of_runs None ?all"
  note sp = coalesce_prefix_spec [OF p]
  have acc: "\<forall>k\<in>set acc. k \<in> set keys \<and> \<not> is_del k" using sp by auto
  have sub: "set ?kept \<subseteq> set acc"
    using first_of_runs_set [of None ?all] mset_stable_sort [of "KeysBySuffix_Less cmp" acc] by (metis set_mset_mset)
  have kind: "\<forall>k\<in>set acc. range_kind k \<and> \<not> is_del k" "\<forall>k\<in>set ?kept. range_kind k \<and> \<not> is_del k"
    using acc assms sub by blast+
  have "find (\<lambda>k. k_suffix k = x) ?kept = find (\<lambda>k. k_suffix k = x) acc" for x
    using first_of_runs_find [OF stable_sorted, of None acc x] by (simp add: find_filter stable_filter)
  then have "rk_state ?kept m = rk_state acc m" for m
    using kind by (intro ext) (simp add: rk_state_first)
  then have state: "rk_state (filter (Key_VisibleAt snapshot) keys) m =
      rk_state ?kept (case del of None \<Rightarrow> m | Some _ \<Rightarrow> Map.empty)" for m
    using coalesce_prefix_state [OF p] by simp
  have res: "coalesce cmp (=) snapshot keys = ?kept @ (case del of Some d \<Rightarrow> [d] | None \<Rightarrow> [])"
    using coalesce_shadow_runs [of ?all "[]" ?all 0 "[]" None] by (simp add: coalesce_def p Let_def)
  have del: "\<forall>d. del = Some d \<longrightarrow> is_del d \<and> d \<in> set keys \<and>
      (\<exists>new rest. filter (Key_VisibleAt snapshot) keys = new @ d # rest \<and> set ?kept \<subseteq> set new)"
    using sp sub by auto
  show thesis
    using that [OF res conjunct1 [OF first_of_runs_sorted [OF stable_sorted]] _ state del] acc sub by auto
qed

end

lemma Key_VisibleAt_max: "Key_VisibleAt (- 1) k"
proof -
  have "Key_SeqNum k < 2 ^ 56" using seqnum_bound by simp
  also have "(2 ^ 56 :: u64) \<le> - 1" by simp
  finally show ?thesis by (simp add: Key_VisibleAt_def)
qed

lemma transform_keys_eq:
  assumes "\<forall>k\<in>set ks. range_kind k"
  shows "transform_keys ks dst = Inr (dst @ filter (\<lambda>k. Key_Kind k = InternalKeyKindRangeKeySet) ks)"
  using assms by (induction ks arbitrary: dst) (auto simp add: range_kind_def IsRangeKey_def)

text \<open>In a list with one key per suffix, membership decides what is found.\<close>

lemma find_distinct:
  assumes "distinct (map f xs)"
  shows "find (\<lambda>x. f x = y) xs = Some x \<longleftrightarrow> x \<in> set xs \<and> f x = y"
  using assms by (induction xs) auto

lemma map_of_sets:
  assumes "distinct (map k_suffix ks)" "\<forall>k\<in>set ks. range_kind k \<and> \<not> is_del k"
  shows "map_of (map (\<lambda>k. (k_suffix k, k_value k)) (filter (\<lambda>k. Key_Kind k = InternalKeyKindRangeKeySet) ks)) =
    rk_state ks Map.empty"
  using assms
proof (induction ks)
  case (Cons k ks)
  have IH: "map_of (map (\<lambda>k. (k_suffix k, k_value k)) (filter (\<lambda>k. Key_Kind k = InternalKeyKindRangeKeySet) ks)) =
      rk_state ks Map.empty" using Cons by simp
  have "rk_state ks Map.empty (k_suffix k) = None"
  proof -
    have "find (\<lambda>k'. k_suffix k' = k_suffix k) ks = None" using Cons.prems(1) by (simp add: find_None_iff) (metis imageI)
    then show ?thesis using Cons.prems(2) by (simp add: rk_state_first)
  qed
  then have "rk_state ks Map.empty = (rk_state ks Map.empty)(k_suffix k := None)" by (simp add: fun_upd_idem)
  then show ?case using Cons.prems IH
    by (auto simp add: rk_state_def rk_apply_def range_kind_def is_del_def IsRangeKey_def)
qed (simp add: rk_state_def)

context key_order
begin

lemma sorted_suffix_distinct: "sorted_wrt (\<lambda>a b. lt (k_suffix a) (k_suffix b)) ks \<Longrightarrow> distinct (map k_suffix ks)"
  by (induction ks) auto

lemma sorted_filter_suffix:
  "sorted_wrt (\<lambda>a b. lt (k_suffix a) (k_suffix b)) ks \<Longrightarrow> sorted_wrt (\<lambda>a b. lt (k_suffix a) (k_suffix b)) (filter P ks)"
  by (induction ks) auto

lemma Transform_state:
  assumes "\<forall>k\<in>set (sp_keys s). range_kind k"
  shows "\<exists>t. Transform cmp (=) sortKeys snapshot False s = Inr t \<and>
    sp_start t = sp_start s \<and> sp_end t = sp_end s \<and> sp_order t = BySuffixAsc \<and>
    sorted_wrt (\<lambda>a b. lt (k_suffix a) (k_suffix b)) (sp_keys t) \<and>
    (\<forall>k\<in>set (sp_keys t). Key_Kind k = InternalKeyKindRangeKeySet) \<and>
    map_of (map (\<lambda>k. (k_suffix k, k_value k)) (sp_keys t)) =
      rk_state (filter (Key_VisibleAt snapshot) (sp_keys s)) Map.empty"
proof -
  obtain kept del where c: "coalesce cmp (=) snapshot (sp_keys s) = kept @ (case del of Some d \<Rightarrow> [d] | None \<Rightarrow> [])"
      "sorted_wrt (\<lambda>a b. lt (k_suffix a) (k_suffix b)) kept" "\<forall>k\<in>set kept. k \<in> set (sp_keys s) \<and> \<not> is_del k"
      "\<And>m. rk_state (filter (Key_VisibleAt snapshot) (sp_keys s)) m = rk_state kept (case del of None \<Rightarrow> m | Some _ \<Rightarrow> Map.empty)"
      "\<forall>d. del = Some d \<longrightarrow> is_del d \<and> d \<in> set (sp_keys s) \<and>
         (\<exists>new rest. filter (Key_VisibleAt snapshot) (sp_keys s) = new @ d # rest \<and> set kept \<subseteq> set new)"
    using coalesce_spec [OF assms, of snapshot] by blast
  define sets where "sets = filter (\<lambda>k. Key_Kind k = InternalKeyKindRangeKeySet) kept"
  have "\<forall>k\<in>set (kept @ (case del of Some d \<Rightarrow> [d] | None \<Rightarrow> [])). range_kind k"
    using c(3,5) assms by (auto split: option.splits)
  then have "transform_keys (kept @ (case del of Some d \<Rightarrow> [d] | None \<Rightarrow> [])) [] = Inr sets"
    using c(5) by (auto simp add: transform_keys_eq sets_def is_del_def kind_defs split: option.splits)
  then have t: "Transform cmp (=) sortKeys snapshot False s =
      Inr \<lparr>sp_start = sp_start s, sp_end = sp_end s, sp_keys = sets, sp_order = BySuffixAsc\<rparr>"
    by (simp add: Transform_def c(1))
  have "map_of (map (\<lambda>k. (k_suffix k, k_value k)) sets) = rk_state kept Map.empty"
    unfolding sets_def using c(2,3) assms by (intro map_of_sets sorted_suffix_distinct) auto
  moreover have "rk_state (filter (Key_VisibleAt snapshot) (sp_keys s)) Map.empty = rk_state kept Map.empty"
    using c(4) [of Map.empty] by (simp split: option.splits)
  ultimately show ?thesis
    using t sorted_filter_suffix [OF c(2)] by (simp add: sets_def)
qed

text \<open>A permutation of keys with distinct suffixes and no deletion describes the same state.\<close>

lemma rk_state_perm:
  assumes "distinct (map k_suffix ks)" "\<forall>k\<in>set ks. range_kind k \<and> \<not> is_del k" "mset ks' = mset ks"
  shows "rk_state ks' m = rk_state ks m"
proof
  fix x
  have s: "set ks' = set ks" using assms(3) by (rule mset_eq_setD)
  have d: "distinct (map k_suffix ks')"
    using assms(1,3) by (metis mset_eq_imp_distinct_iff mset_map)
  have "find (\<lambda>k. k_suffix k = x) ks' = find (\<lambda>k. k_suffix k = x) ks"
    using find_distinct [OF d, of x] find_distinct [OF assms(1), of x] s by (metis not_Some_eq)
  then show "rk_state ks' m x = rk_state ks m x" using assms(2) s by (simp add: rk_state_first)
qed

lemma trailer_last:
  assumes "trailer_desc ks" "mset ks = mset (kept @ [d])" "\<forall>k\<in>set kept. k_trailer d < k_trailer k"
  shows "\<exists>ks'. ks = ks' @ [d] \<and> mset ks' = mset kept"
proof -
  have "d \<in> set ks" using mset_eq_setD [OF assms(2)] by simp
  then obtain a b where ab: "ks = a @ d # b" by (meson split_list)
  then have m: "mset (a @ b) = mset kept" using assms(2) by simp
  have "k_trailer x \<le> k_trailer d" if "x \<in> set b" for x
    using assms(1) that by (auto simp add: ab trailer_desc_def sorted_wrt_append)
  moreover have "k_trailer d < k_trailer x" if "x \<in> set b" for x
    using mset_eq_setD [OF m] that assms(3) by auto
  ultimately have "b = []" by (cases b) (auto simp add: leD)
  then show ?thesis using ab m by auto
qed

lemma Coalesce_state:
  assumes sk: "sorts_by keysBySeqNumKind_Less sortKeys"
    and keys: "trailer_desc keys" "\<forall>k\<in>set keys. range_kind k"
  shows "rk_state (Coalesce cmp (=) sortKeys keys) m = rk_state keys m \<and>
    trailer_desc (Coalesce cmp (=) sortKeys keys) \<and> set (Coalesce cmp (=) sortKeys keys) \<subseteq> set keys \<and>
    length (Coalesce cmp (=) sortKeys keys) \<le> length (remdups (map k_suffix keys)) + 1"
proof -
  have vis: "filter (Key_VisibleAt (- 1)) keys = keys" by (simp add: Key_VisibleAt_max)
  obtain kept del where c: "coalesce cmp (=) (- 1) keys = kept @ (case del of Some d \<Rightarrow> [d] | None \<Rightarrow> [])"
      "sorted_wrt (\<lambda>a b. lt (k_suffix a) (k_suffix b)) kept" "\<forall>k\<in>set kept. k \<in> set keys \<and> \<not> is_del k"
      "\<And>m. rk_state keys m = rk_state kept (case del of None \<Rightarrow> m | Some _ \<Rightarrow> Map.empty)"
      "\<forall>d. del = Some d \<longrightarrow> is_del d \<and> d \<in> set keys \<and> (\<exists>new rest. keys = new @ d # rest \<and> set kept \<subseteq> set new)"
    using coalesce_spec [OF keys(2), of "- 1", unfolded vis] by blast
  define out where "out = Coalesce cmp (=) sortKeys keys"
  have out: "mset out = mset (kept @ (case del of Some d \<Rightarrow> [d] | None \<Rightarrow> []))" "trailer_desc out"
    using sorts_byD [OF sk, of "coalesce cmp (=) (- 1) keys"]
    by (simp_all add: out_def Coalesce_def c(1) trailer_desc_def keysBySeqNumKind_Less_def not_less)
  have dist: "distinct (map k_suffix kept)" using c(2) by (rule sorted_suffix_distinct)
  have kind: "\<forall>k\<in>set kept. range_kind k \<and> \<not> is_del k" using c(3) keys(2) by blast
  have "rk_state out m = rk_state keys m"
  proof (cases del)
    case None
    then show ?thesis using rk_state_perm [OF dist kind, of out m] out(1) c(4) [of m] by simp
  next
    case (Some d)
    then obtain new rest where d: "is_del d" "keys = new @ d # rest" "set kept \<subseteq> set new" using c(5) by blast
    have "k_trailer d < k_trailer k" if "k \<in> set kept" for k
    proof -
      have "k_trailer d \<le> k_trailer k"
        using keys(1) d(2,3) that by (auto simp add: trailer_desc_def sorted_wrt_append)
      moreover have "k_trailer d \<noteq> k_trailer k" using c(3) d(1) that by (auto simp add: is_del_def Key_Kind_def)
      ultimately show ?thesis by simp
    qed
    then obtain ks' where "out = ks' @ [d]" "mset ks' = mset kept"
      using trailer_last [OF out(2), of kept d] out(1) Some by auto
    then show ?thesis
      using rk_state_del [OF d(1), of ks' "[]" m] rk_state_perm [OF dist kind, of ks' Map.empty] c(4) [of m] Some by simp
  qed
  moreover have "set out \<subseteq> set keys"
    using mset_eq_setD [OF out(1)] c(3,5) by (auto split: option.splits)
  moreover have "length out \<le> length (remdups (map k_suffix keys)) + 1"
  proof -
    have "length kept = card (set (map k_suffix kept))" using distinct_card [OF dist] by simp
    also have "\<dots> \<le> card (set (map k_suffix keys))" using c(3) by (intro card_mono) auto
    finally have "length kept \<le> length (remdups (map k_suffix keys))" by (simp add: length_remdups_card_conv)
    moreover have "length out \<le> length kept + 1"
      using mset_eq_length [OF out(1)] by (simp split: option.splits)
    ultimately show ?thesis by simp
  qed
  ultimately show ?thesis using out(2) by (simp add: out_def)
qed

end

section \<open>The properties of range keys\<close>

text \<open>C30. A span of range keys survives its encoding as point keys: \<^verbatim>\<open>Encoder.Encode\<close>, whatever an earlier call left
  in its buffer, emits without an error or a panic a sequence of internal keys and values which \<^verbatim>\<open>Decode\<close> turns back
  into spans with the bounds of the encoded one, whose keys put together are its keys in their order. The keys are in
  trailer order, have a value only on sets and no suffix on deletes, and there is one delete at most for a sequence
  number; the end key, each suffix and each value are shorter than 4 GiB.\<close>

theorem encode_decode_span:
  assumes "canonical_keys (sp_keys s)" "length (sp_end s) + 10 + keys_size (sp_keys s) < 2 ^ 64"
    and "length (sp_end s) < 2 ^ 32" "small_keys (sp_keys s)"
  shows "\<exists>ps e'. Encoder_Encode collect s (e, []) = Inr (e', ps) \<and> decodes_to s ps (sp_keys s)"
proof (cases "sp_keys s")
  case Nil
  then show ?thesis by (simp add: Encoder_Encode_def decodes_to_Nil)
next
  case (Cons k ks)
  have "group_keys (Key_SeqNum k) [] [] False = []" by (simp add: group_keys_def)
  then show ?thesis
    using Encode_keys_decodes [of "Key_SeqNum k" "e\<lparr>enc_sets := [], enc_unsets := []\<rparr>" False "k # ks" s "[]"] assms
    by (simp add: Cons Encoder_Encode_def del: Encode_keys.simps)
qed

definition rk_example :: Span where
  "rk_example = \<lparr>sp_start = [97], sp_end = [99], sp_keys =
     [\<lparr>k_trailer = MakeTrailer 9 InternalKeyKindRangeKeySet, k_suffix = [3], k_value = [7, 7]\<rparr>,
      \<lparr>k_trailer = MakeTrailer 9 InternalKeyKindRangeKeyUnset, k_suffix = [2], k_value = []\<rparr>,
      \<lparr>k_trailer = MakeTrailer 7 InternalKeyKindRangeKeySet, k_suffix = [2], k_value = [8]\<rparr>,
      \<lparr>k_trailer = MakeTrailer 6 InternalKeyKindRangeKeySet, k_suffix = [1], k_value = [5]\<rparr>,
      \<lparr>k_trailer = MakeTrailer 5 InternalKeyKindRangeKeyDelete, k_suffix = [], k_value = []\<rparr>,
      \<lparr>k_trailer = MakeTrailer 4 InternalKeyKindRangeKeySet, k_suffix = [3], k_value = [1]\<rparr>],
     sp_order = ByTrailerDesc\<rparr>"

lemma rk_example_ok:
  "canonical_keys (sp_keys rk_example)" "length (sp_end rk_example) + 10 + keys_size (sp_keys rk_example) < 2 ^ 64"
  "\<forall>k\<in>set (sp_keys rk_example). range_kind k" "trailer_desc (sp_keys rk_example)"
  "length (sp_end rk_example) < 2 ^ 32" "small_keys (sp_keys rk_example)"
  by (simp_all add: rk_example_def small_keys_def canonical_keys_def canonical_key_def trailer_desc_def MakeTrailer_def Key_Kind_def
      keys_size_def key_size_def range_kind_def IsRangeKey_def kind_defs)

theorem encode_decode_span_witness:
  "\<exists>ps e'. Encoder_Encode collect rk_example (\<lparr>enc_buf = [1, 2, 3], enc_unsets = [], enc_sets = []\<rparr>, []) = Inr (e', ps) \<and>
     decodes_to rk_example ps (sp_keys rk_example)"
  by (rule encode_decode_span [OF rk_example_ok(1,2,5,6)])

text \<open>C31. The buffer lengths computed ahead of an encoding, \<^verbatim>\<open>EncodedSetValueLen\<close> and
  \<^verbatim>\<open>EncodedUnsetValueLen\<close>, are exactly what the encoders write: in a buffer of this length or a longer one they
  do not panic, return this length as the number of bytes written, put the encoding there and leave the rest alone.
  The 32-bit counts need strings below 4 GiB.\<close>

theorem encoded_value_lengths_exact:
  assumes "length e < 2 ^ 32" "\<forall>sv\<in>set svs. length (sv_suffix sv) < 2 ^ 32 \<and> length (sv_value sv) < 2 ^ 32"
    and "\<forall>u\<in>set us. length u < 2 ^ 32"
  shows "EncodedSetValueLen e svs = length (set_value e svs) \<and> EncodedUnsetValueLen e us = length (unset_value e us) \<and>
    (\<forall>dst. EncodedSetValueLen e svs \<le> length dst \<longrightarrow> EncodeSetValue dst e svs =
       Inr (set_value e svs @ drop (EncodedSetValueLen e svs) dst, EncodedSetValueLen e svs)) \<and>
    (\<forall>dst. EncodedUnsetValueLen e us \<le> length dst \<longrightarrow> EncodeUnsetValue dst e us =
       Inr (unset_value e us @ drop (EncodedUnsetValueLen e us) dst, EncodedUnsetValueLen e us))"
  using EncodedSetValueLen_eq [OF assms(1,2)] EncodedUnsetValueLen_eq [OF assms(1,3)]
  by (simp add: EncodeSetValue_fits EncodeUnsetValue_fits)

theorem encoded_value_lengths_exact_witness:
  "EncodeSetValue (replicate 210 9) [1, 2] [\<lparr>sv_suffix = [1], sv_value = replicate 200 0\<rparr>] =
     Inr (set_value [1, 2] [\<lparr>sv_suffix = [1], sv_value = replicate 200 0\<rparr>] @ drop 207 (replicate 210 9), 207) \<and>
   EncodeUnsetValue (replicate 8 9) [1, 2] [[4], [5, 6]] = Inr ([2, 1, 2, 1, 4, 2, 5, 6], 8)"
proof -
  have "EncodedSetValueLen [1, 2] [\<lparr>sv_suffix = [1], sv_value = replicate 200 0\<rparr>] = 207" "EncodedUnsetValueLen [1, 2] [[4], [5, 6]] = 8"
    "unset_value [1, 2] [[4], [5, 6]] = [2, 1, 2, 1, 4, 2, 5, 6]" by code_simp+
  then show ?thesis
    using encoded_value_lengths_exact [of "[1, 2]" "[\<lparr>sv_suffix = [1], sv_value = replicate 200 0\<rparr>]" "[[4], [5, 6]]"] by simp
qed

subsection \<open>Values of 4 GiB\<close>

lemma lenVarint_wraps:
  assumes "2 ^ 32 \<le> n" "n < 2 ^ 32 + 2 ^ 28"
  shows "lenVarint n < length (put_uvarint (of_nat n))"
proof -
  have "unat (of_nat n :: u64) = n" using assms(2) by (intro unat_of_nat64) simp
  then have "4 < length (put_uvarint (of_nat n))" using assms(1) by (intro length_put_uvarint_ge) simp
  moreover have "unat (of_nat n :: u32) = n - 2 ^ 32"
    using assms by (simp add: unsigned_of_nat take_bit_eq_mod mod_if)
  then have "unat (ucast (of_nat n :: u32) :: u64) = n - 2 ^ 32"
    using assms by (simp add: unsigned_ucast_eq take_bit_nat_eq_self)
  then have "lenVarint n \<le> 4"
    using length_put_uvarint_le [of "ucast (of_nat n :: u32) :: u64" 3] assms by (simp add: lenVarint_def lenVarint_from_eq)
  ultimately show ?thesis by simp
qed

lemma emit_encoded_eq:
  assumes "encode (take l (if length (enc_buf e) < l then replicate l 0 else enc_buf e)) = Inr (out, n)"
  shows "emit_encoded collect ik l encode (e, st) =
    Inr (e\<lparr>enc_buf := out @ drop l (if length (enc_buf e) < l then replicate l 0 else enc_buf e)\<rparr>, st @ [(ik, out)])"
  using assms by (cases "length (enc_buf e) < l") (simp_all add: emit_encoded_def collect_def)

text \<open>A set whose value's length is encoded in more bytes than were counted: the value is cut off.\<close>

lemma EncodeSetValue_short:
  assumes len: "length e < 2 ^ 32" "length suff < 2 ^ 32" and v: "10 \<le> length v" "lenVarint (length v) < length (put_len v)"
    and dst: "length dst = EncodedSetValueLen e [\<lparr>sv_suffix = suff, sv_value = v\<rparr>]"
  shows "\<exists>m n. m < length v \<and> EncodeSetValue dst e [\<lparr>sv_suffix = suff, sv_value = v\<rparr>] =
    Inr (put_len e @ e @ put_len suff @ suff @ put_len v @ take m v, n)"
proof -
  let ?A = "put_len e @ e @ put_len suff @ suff" and ?c = "lenVarint (length v)"
  define k m where "k = length (put_len v)" and "m = ?c + length v - k"
  have d: "length dst = length ?A + (?c + length v)"
    using len by (simp add: dst EncodedSetValueLen_def lenVarint_eq put_len_def)
  have k: "k \<le> 10" "?c < k" "m < length v" "?c + length v = k + m"
    using length_put_len [of v] v by (simp_all add: k_def m_def)
  have "writes (\<lambda>d. rbind (put_string e d) (put_string suff)) ((put_len e @ e) @ (put_len suff @ suff))"
    by (intro writes_append writes_put_string)
  then have w: "rbind (put_string e (dst, 0)) (put_string suff) = Inr (?A @ drop (length ?A) dst, length ?A)"
    using d unfolding writes_def by (drule_tac spec [of _ "[]"]) (simp del: rbind_eq_Inr)
  have tail: "put_string v (?A @ drop (length ?A) dst, length ?A) = Inr (?A @ put_len v @ take m v, length dst)"
  proof -
    define D where "D = drop (length ?A) dst"
    have D: "length D = k + m" using d k(4) by (simp add: D_def)
    have 1: "copy_at (length ?A) (put_len v) (?A @ D) = ?A @ put_len v @ drop k D"
      using D by (simp add: copy_at_def k_def)
    have 2: "copy_at (length ?A + k) v (?A @ put_len v @ drop k D) = ?A @ put_len v @ take m v"
      using D k(3) by (simp add: copy_at_def k_def)
    have 3: "length (?A @ D) = length ?A + k + m" using D by simp
    have "\<not> length (?A @ D) < length ?A + k" using 3 by simp
    then have "put_string v (?A @ D, length ?A) = Inr (?A @ put_len v @ take m v, length ?A + k + min (length v) (length (?A @ D) - (length ?A + k)))"
      unfolding put_string_def case_prod_conv Let_def put_len_def [symmetric] k_def [symmetric] 1 2 by simp
    moreover have "length ?A + k + min (length v) (length (?A @ D) - (length ?A + k)) = length dst"
      using 3 k(3,4) d by simp
    ultimately show ?thesis unfolding D_def by simp
  qed
  have nil: "encodeSetSuffixValues [] = Inr" by (simp add: fun_eq_iff)
  have "EncodeSetValue dst e [\<lparr>sv_suffix = suff, sv_value = v\<rparr>] = rbind (rbind (put_string e (dst, 0)) (put_string suff)) (put_string v)"
    unfolding EncodeSetValue_def rbind_assoc by (rule arg_cong [of _ _ "rbind _"]) (simp add: fun_eq_iff nil rbind_return del: rbind_eq_Inr)
  then show ?thesis using w tail k(3) by auto
qed

lemma decode_short_value:
  assumes "length e < 2 ^ 32" "length suff < 2 ^ 32" "length v < 2 ^ 63" "m < length v"
  shows "Rangekey_Decode (MakeInternalKey u seq InternalKeyKindRangeKeySet) (put_len e @ e @ put_len suff @ suff @ put_len v @ take m v) [] =
    Inl RkPanic"
proof -
  let ?rest = "put_len suff @ suff @ put_len v @ take m v"
  have "length (put_len e @ e @ ?rest) < 2 ^ 64"
    using assms length_put_len [of e] length_put_len [of suff] length_put_len [of v] by simp
  then have d: "DecodeEndKey InternalKeyKindRangeKeySet (put_len e @ e @ ?rest) = Inr (Some (e, ?rest))"
    by (intro DecodeEndKey_put) simp_all
  have "decodeVarstring (put_len v @ take m v) = Inl RkPanic"
    using assms(3,4) by (simp add: decodeVarstring_def put_len_def Uvarint_put_append unat_of_nat64 Let_def)
  then have "decode_sets t ?rest [] = Inl RkPanic" for t
    using assms(2) by (simp add: decode_sets.simps [of t ?rest] decodeSuffixValue_def decodeVarstring_put)
  then show ?thesis using d by (simp add: Rangekey_Decode_def)
qed

text \<open>C32. The counts of \<^verbatim>\<open>lenVarint\<close> have 32 bits. For a range key whose value has 4 GiB or little more, the buffer of
  the encoder is some bytes too short: the encoder emits without an error a value whose end is missing, and decoding
  it panics.\<close>

theorem oversized_value_truncated:
  assumes "sp_keys s = [k]" "Key_Kind k = InternalKeyKindRangeKeySet" "length (sp_end s) < 2 ^ 32" "length (k_suffix k) < 2 ^ 32"
    and "2 ^ 32 \<le> length (k_value k)" "length (k_value k) < 2 ^ 32 + 2 ^ 28"
  shows "\<exists>e' ik v m. Encoder_Encode collect s (e, []) = Inr (e', [(ik, v)]) \<and> m < length (k_value k) \<and>
    v = put_len (sp_end s) @ sp_end s @ put_len (k_suffix k) @ k_suffix k @ put_len (k_value k) @ take m (k_value k) \<and>
    Rangekey_Decode ik v [] = Inl RkPanic"
proof -
  have comm: "a\<lparr>enc_unsets := us, enc_sets := ss\<rparr> = a\<lparr>enc_sets := ss, enc_unsets := us\<rparr>" for us ss and a :: Encoder by simp
  let ?sv = "[\<lparr>sv_suffix = k_suffix k, sv_value = k_value k\<rparr>]" and ?ik = "MakeInternalKey (sp_start s) (Key_SeqNum k) InternalKeyKindRangeKeySet"
  let ?l = "EncodedSetValueLen (sp_end s) ?sv" and ?e = "e\<lparr>enc_sets := ?sv, enc_unsets := []\<rparr>"
  define buf where "buf = (if length (enc_buf e) < ?l then replicate ?l 0 else enc_buf e)"
  have B: "buf = (if length (enc_buf ?e) < ?l then replicate ?l 0 else enc_buf ?e)" by (simp add: buf_def)
  have "length (take ?l buf) = ?l" by (simp add: buf_def)
  then obtain m n where m: "m < length (k_value k)" "EncodeSetValue (take ?l buf) (sp_end s) ?sv =
      Inr (put_len (sp_end s) @ sp_end s @ put_len (k_suffix k) @ k_suffix k @ put_len (k_value k) @ take m (k_value k), n)"
    using EncodeSetValue_short [OF assms(3,4), of "k_value k" "take ?l buf"] assms(5,6) lenVarint_wraps [OF assms(5,6)]
    by (auto simp add: put_len_def)
  let ?v = "put_len (sp_end s) @ sp_end s @ put_len (k_suffix k) @ k_suffix k @ put_len (k_value k) @ take m (k_value k)"
  have "Encoder_Encode collect s (e, []) = Encoder_flush collect s (Key_SeqNum k) False (?e, [])"
    by (simp add: Encoder_Encode_def assms(1,2) comm)
  also have "\<dots> = emit_encoded collect ?ik ?l (\<lambda>dst. EncodeSetValue dst (sp_end s) ?sv) (?e, [])"
    by (cases "emit_encoded collect ?ik ?l (\<lambda>dst. EncodeSetValue dst (sp_end s) ?sv) (?e, [])")
       (auto simp add: Encoder_flush_def emit_encoded_def Let_def)
  also have "\<dots> = Inr (?e\<lparr>enc_buf := ?v @ drop ?l buf\<rparr>, [(?ik, ?v)])"
    using emit_encoded_eq [where encode = "\<lambda>dst. EncodeSetValue dst (sp_end s) ?sv" and e = ?e, OF m(2) [unfolded B], folded B] by simp
  finally show ?thesis
    using m(1) decode_short_value [OF assms(3,4) _ m(1)] assms(6) by fastforce
qed

theorem oversized_value_truncated_witness:
  "let k = \<lparr>k_trailer = MakeTrailer 7 InternalKeyKindRangeKeySet, k_suffix = [1], k_value = replicate (2 ^ 32) 0\<rparr>
   in \<exists>e' ik v. Encoder_Encode collect \<lparr>sp_start = [97], sp_end = [99], sp_keys = [k], sp_order = ByTrailerDesc\<rparr>
          (\<lparr>enc_buf = [], enc_unsets = [], enc_sets = []\<rparr>, []) = Inr (e', [(ik, v)]) \<and> Rangekey_Decode ik v [] = Inl RkPanic"
proof -
  let ?k = "\<lparr>k_trailer = MakeTrailer 7 InternalKeyKindRangeKeySet, k_suffix = [1], k_value = replicate (2 ^ 32) (0 :: byte)\<rparr>"
  let ?s = "\<lparr>sp_start = [97], sp_end = [99], sp_keys = [?k], sp_order = ByTrailerDesc\<rparr>"
  have l: "length (k_value ?k) = 2 ^ 32" by (simp only: Key.simps length_replicate)
  have "\<exists>e' ik v m. Encoder_Encode collect ?s (\<lparr>enc_buf = [], enc_unsets = [], enc_sets = []\<rparr>, []) = Inr (e', [(ik, v)]) \<and>
      m < length (k_value ?k) \<and> v = put_len (sp_end ?s) @ sp_end ?s @ put_len (k_suffix ?k) @ k_suffix ?k @ put_len (k_value ?k) @ take m (k_value ?k) \<and>
      Rangekey_Decode ik v [] = Inl RkPanic"
    by (rule oversized_value_truncated) (unfold l, simp_all only: Span.simps Key.simps Key_Kind_MakeTrailer, simp_all)
  then show ?thesis unfolding Let_def by blast
qed

subsection \<open>Coalescing\<close>

text \<open>C28. What a user's iterator sees of a span of range keys: the coalescing transform returns, for a
  span of range keys and a snapshot, a span with the same bounds that holds sets only, in strictly
  ascending order of their suffixes, and the suffixes and values it holds are the state obtained by
  applying the keys visible at the snapshot from the oldest to the newest, where a set binds its suffix,
  an unset removes it and a delete removes everything.\<close>

theorem transform_resolves_state:
  assumes "\<forall>k\<in>set (sp_keys s). range_kind k"
  shows "\<exists>t. Transform bytes_compare (=) sortKeys snapshot False s = Inr t \<and>
    sp_start t = sp_start s \<and> sp_end t = sp_end s \<and> sp_order t = BySuffixAsc \<and>
    sorted_wrt (\<lambda>a b. bytes_compare (k_suffix a) (k_suffix b) < 0) (sp_keys t) \<and>
    (\<forall>k\<in>set (sp_keys t). Key_Kind k = InternalKeyKindRangeKeySet) \<and>
    map_of (map (\<lambda>k. (k_suffix k, k_value k)) (sp_keys t)) =
      rk_state (filter (Key_VisibleAt snapshot) (sp_keys s)) Map.empty"
  by (rule dflt.Transform_state [OF assms])

theorem transform_resolves_state_witness:
  "\<exists>t. Transform bytes_compare (=) (stable_sort keysBySeqNumKind_Less) 8 False rk_example = Inr t \<and>
    map_of (map (\<lambda>k. (k_suffix k, k_value k)) (sp_keys t)) = [[2] \<mapsto> [8], [1] \<mapsto> [5]]"
proof -
  have "rk_state (filter (Key_VisibleAt 8) (sp_keys rk_example)) Map.empty = [[2] \<mapsto> [8], [1] \<mapsto> [5]]"
    by (auto simp add: rk_example_def Key_VisibleAt_def Key_SeqNum_def MakeTrailer_def InternalKeySeqNumBatch_def
        rk_state_def rk_apply_def Key_Kind_def kind_defs)
  then show ?thesis using transform_resolves_state [OF rk_example_ok(3), of "stable_sort keysBySeqNumKind_Less" 8] by auto
qed

text \<open>C29. Coalescing during compactions loses nothing: the keys that \<^verbatim>\<open>Coalesce\<close> leaves are keys of the
  span in trailer order, in all at most one more than the number of its suffixes, and whatever older keys
  lie below the span, at lower levels, the two describe the same state on top of them.\<close>

theorem coalesce_keeps_state:
  assumes "sorts_by keysBySeqNumKind_Less sortKeys" "trailer_desc keys" "\<forall>k\<in>set keys. range_kind k"
  shows "rk_state (Coalesce bytes_compare (=) sortKeys keys) older = rk_state keys older \<and>
    trailer_desc (Coalesce bytes_compare (=) sortKeys keys) \<and> set (Coalesce bytes_compare (=) sortKeys keys) \<subseteq> set keys \<and>
    length (Coalesce bytes_compare (=) sortKeys keys) \<le> length (remdups (map k_suffix keys)) + 1"
  by (rule dflt.Coalesce_state [OF assms])

theorem coalesce_keeps_state_witness:
  "rk_state (Coalesce bytes_compare (=) (stable_sort keysBySeqNumKind_Less) (sp_keys rk_example)) [[9] \<mapsto> [9]] =
     rk_state (sp_keys rk_example) [[9] \<mapsto> [9]] \<and>
   trailer_desc (Coalesce bytes_compare (=) (stable_sort keysBySeqNumKind_Less) (sp_keys rk_example))"
  using coalesce_keeps_state [OF sorts_keys rk_example_ok(4,3), of "[[9] \<mapsto> [9]]"] by simp

end
