(* ===== verification/BatchProofs.thy ===== *)
theory BatchProofs
  imports BatchIter RangekeyProofs
begin

text \<open>
  The correctness of batches (\<^verbatim>\<open>batch.go\<close>). \<open>batch_rep\<close> relates a batch to the list of the records written to it:
  its bytes, counts, sizes, format version and three indexes. Every operation keeps it or fails as documented, so
  reading a batch, counting it again from its bytes and applying it to another are statements on lists of records.
\<close>

section \<open>Length prefixes\<close>

lemma unat_of_nat_u32: "n < 2 ^ 32 \<Longrightarrow> unat (of_nat n :: u32) = n"
  by (simp add: unsigned_of_nat take_bit_nat_eq_self)

lemma put_uvarint32_eq: "put_uvarint32 x = put_uvarint (ucast x)"
proof (induction x rule: put_uvarint32.induct)
  case (1 x)
  have "unat x < 2 ^ 64" using unsigned_less [of x, where 'a = nat] by simp
  then have lt: "(ucast x :: u64) < 128 \<longleftrightarrow> x < 128"
    by (simp add: word_less_nat_alt unsigned_ucast_eq take_bit_nat_eq_self)
  have dr: "drop_bit 7 (ucast x :: u64) = ucast (drop_bit 7 x)"
    by (rule bit_word_eqI) (auto simp add: bit_simps dest: bit_imp_le_length)
  have uc: "(ucast (ucast x :: u64) :: byte) = ucast x"
    by (rule bit_word_eqI) (auto simp add: bit_simps dest: bit_imp_le_length)
  show ?case
    using 1 lt by (simp add: put_uvarint32.simps [of x] put_uvarint.simps [of "ucast x"] dr uc)
qed

lemma put_uvarint32_nonempty [simp]: "put_uvarint32 x \<noteq> []"
  by (simp add: put_uvarint32_eq)

lemma length_put_uvarint32: "length (put_uvarint32 x) \<le> 5"
proof -
  have "unat (ucast x :: u64) < 128 ^ Suc 4"
    using unsigned_less [of x, where 'a = nat] by (simp add: unsigned_ucast_eq take_bit_nat_eq_self)
  then show ?thesis unfolding put_uvarint32_eq by (rule order_trans [OF length_put_uvarint_le]) simp
qed

lemma join7: "push_bit 7 (drop_bit 7 x) OR ucast ((ucast x :: byte) AND 127) = (x :: u32)"
proof (rule bit_word_eqI)
  fix k assume k: "k < LENGTH(32)"
  show "bit (push_bit 7 (drop_bit 7 x) OR ucast ((ucast x :: byte) AND 127)) k = bit x k"
    using k by (cases "k < 7") (auto simp add: bit_simps bit_127_iff)
qed

lemma ucast_byte32: "x < 128 \<Longrightarrow> ucast (ucast x :: byte) = (x :: u32)" "x < 128 \<Longrightarrow> (ucast x :: byte) < 128"
  by (simp_all add: word_unat_eq_iff unsigned_ucast_eq word_less_nat_alt take_bit_eq_mod unat_mod)

lemma drop_bit_28: "drop_bit 28 (x :: u32) < 128"
proof -
  have "unat (drop_bit 28 x) < 128"
    using unsigned_less [of x, where 'a = nat] by (simp add: drop_bit_eq_div unat_div)
  then show ?thesis by (simp add: word_less_nat_alt)
qed

text \<open>A join of the seven-bit groups, in the order in which the reader writes it.\<close>

lemma join7_shift:
  "push_bit (n + 7) (drop_bit (n + 7) x) OR push_bit n (ucast ((ucast (drop_bit n x) :: byte) AND 127)) =
     push_bit n (drop_bit n (x :: u32))"
  using arg_cong [OF join7 [of "drop_bit n x"], of "push_bit n"]
  by (simp add: push_bit_or push_bit_push_bit drop_bit_drop_bit add.commute)

lemma join7_shift_or:
  "push_bit (n + 7) (drop_bit (n + 7) x) OR push_bit n (ucast ((ucast (drop_bit n x) :: byte) AND 127)) OR z =
     push_bit n (drop_bit n (x :: u32)) OR z"
  by (simp add: join7_shift flip: or.assoc)

lemma batchDecodeStr_put:
  assumes "length s < 2 ^ 32" "length (s @ rest) < 2 ^ 32"
  shows "batchDecodeStr (put_uvarint32 (of_nat (length s)) @ s @ rest) = Inr (Some (rest, s))"
proof -
  let ?x = "of_nat (length s) :: u32"
  have x: "unat ?x = length s" using assms(1) by (rule unat_of_nat_u32)
  have fin: "\<not> of_nat (length s + length rest) < ?x"
    using assms(2) x unat_of_nat_u32 [of "length s + length rest"] by (simp add: word_less_nat_alt)
  note j = join7 [of ?x] join7_shift_or [of 7 ?x] join7_shift_or [of 14 ?x] join7_shift_or [of 21 ?x]
  note b = ucast_byte32 [of ?x] ucast_byte32 [of "drop_bit 7 ?x"] ucast_byte32 [of "drop_bit 14 ?x"]
    ucast_byte32 [of "drop_bit 21 ?x"] ucast_byte32 [OF drop_bit_28 [of ?x]]
  note p = put_uvarint32.simps [of ?x] put_uvarint32.simps [of "drop_bit 7 ?x"] put_uvarint32.simps [of "drop_bit 14 ?x"]
    put_uvarint32.simps [of "drop_bit 21 ?x"] put_uvarint32.simps [of "drop_bit 28 ?x"]
  have tail: "(let d1 = drop (length (put_uvarint32 ?x)) (put_uvarint32 ?x @ s @ rest)
      in if of_nat (length d1) < ?x then Inr None else Inr (Some (drop (unat ?x) d1, take (unat ?x) d1))) =
      (Inr (Some (rest, s)) :: batch_panic + (bytes \<times> bytes) option)"
    using fin x by simp
  consider "?x < 128" | "\<not> ?x < 128" "drop_bit 7 ?x < 128" | "\<not> ?x < 128" "\<not> drop_bit 7 ?x < 128" "drop_bit 14 ?x < 128"
    | "\<not> ?x < 128" "\<not> drop_bit 7 ?x < 128" "\<not> drop_bit 14 ?x < 128" "drop_bit 21 ?x < 128"
    | "\<not> ?x < 128" "\<not> drop_bit 7 ?x < 128" "\<not> drop_bit 14 ?x < 128" "\<not> drop_bit 21 ?x < 128" by blast
  then show ?thesis
  proof cases
    case 1
    then show ?thesis using fin x b by (simp add: p batchDecodeStr_def)
  next
    case 2
    then show ?thesis using fin x b j by (simp add: p batchDecodeStr_def or_128 or_128_and_127 drop_bit_drop_bit)
  next
    case 3
    then show ?thesis using fin x b j by (simp add: p batchDecodeStr_def or_128 or_128_and_127 drop_bit_drop_bit)
  next
    case 4
    then show ?thesis using fin x b j by (simp add: p batchDecodeStr_def or_128 or_128_and_127 drop_bit_drop_bit)
  next
    case 5
    then show ?thesis using fin x b j drop_bit_28 [of ?x]
      by (simp add: p batchDecodeStr_def or_128 or_128_and_127 drop_bit_drop_bit)
  qed
qed

section \<open>Records\<close>

type_synonym batch_record = "kind \<times> bytes \<times> bytes"

definition rec_bytes :: "batch_record \<Rightarrow> bytes" where
  "rec_bytes = (\<lambda>(kind, key, v). kind # put_uvarint32 (of_nat (length key)) @ key @
     (if has_value kind then put_uvarint32 (of_nat (length v)) @ v else []))"

definition valid_record :: "batch_record \<Rightarrow> bool" where
  "valid_record = (\<lambda>(kind, key, v). kind \<le> InternalKeyKindMax \<and> (has_value kind \<or> v = []))"

abbreviation recs_bytes :: "batch_record list \<Rightarrow> bytes" where
  "recs_bytes rs \<equiv> concat (map rec_bytes rs)"

lemma length_rec_bytes: "2 \<le> length (rec_bytes r)"
proof -
  obtain kind key v where r: "r = (kind, key, v)" by (cases r)
  show ?thesis by (simp add: r rec_bytes_def Suc_le_eq)
qed

lemma rec_bytes_nonempty [simp]: "rec_bytes r \<noteq> []"
  using length_rec_bytes [of r] by auto

lemma length_recs_bytes: "2 * length rs \<le> length (recs_bytes rs)"
proof (induction rs)
  case (Cons r rs)
  then show ?case using length_rec_bytes [of r] by simp
qed simp

lemma BatchReader_Next_record:
  assumes "valid_record (kind, key, v)" "length (rec_bytes (kind, key, v) @ rest) < 2 ^ 32"
  shows "BatchReader_Next (rec_bytes (kind, key, v) @ rest) = Inr (NextEntry kind key v rest)"
proof -
  let ?tail = "(if has_value kind then put_uvarint32 (of_nat (length v)) @ v else []) @ rest"
  have k: "batchDecodeStr (put_uvarint32 (of_nat (length key)) @ key @ ?tail) = Inr (Some (?tail, key))"
    using assms(2) by (intro batchDecodeStr_put) (auto simp add: rec_bytes_def)
  have v: "batchDecodeStr (put_uvarint32 (of_nat (length v)) @ v @ rest) = Inr (Some (rest, v))" if "has_value kind"
    using assms(2) that by (intro batchDecodeStr_put) (auto simp add: rec_bytes_def)
  define d where "d = rec_bytes (kind, key, v) @ rest"
  have d: "drop 1 d = put_uvarint32 (of_nat (length key)) @ key @ ?tail" "d ! 0 = kind" "length d \<noteq> 0"
    by (simp_all add: d_def rec_bytes_def)
  have "\<not> InternalKeyKindMax < kind" "\<not> has_value kind \<Longrightarrow> v = []" using assms(1) by (auto simp add: valid_record_def)
  then have "BatchReader_Next d = Inr (NextEntry kind key v rest)"
    unfolding BatchReader_Next_def Let_def d k using v d(3) by simp
  then show ?thesis by (simp add: d_def)
qed

text \<open>All the records of an input, read with the reader's \<^verbatim>\<open>Next\<close>.\<close>

function read_records :: "bytes \<Rightarrow> batch_panic + batch_error + batch_record list" where
  "read_records r =
     rbind (BatchReader_Next r) (\<lambda>n. case n of
       NextEnd \<Rightarrow> Inr (Inr [])
     | NextErr e \<Rightarrow> Inr (Inl e)
     | NextEntry kind key v r1 \<Rightarrow> rbind (read_records r1) (\<lambda>s. Inr (rbind s (\<lambda>rs. Inr ((kind, key, v) # rs)))))"
  by pat_completeness auto
termination
  by (relation "measure length") (auto dest: BatchReader_Next_shorter)

declare read_records.simps [simp del]

lemma BatchReader_Next_end [simp]: "BatchReader_Next [] = Inr NextEnd"
  by (simp add: BatchReader_Next_def)

lemma read_records_bytes:
  assumes "list_all valid_record rs" "length (recs_bytes rs) < 2 ^ 32"
  shows "read_records (recs_bytes rs) = Inr (Inr rs)"
  using assms
proof (induction rs)
  case Nil
  then show ?case by (simp add: read_records.simps [of "[]"])
next
  case (Cons r rs)
  obtain kind key v where r: "r = (kind, key, v)" by (cases r)
  have "BatchReader_Next (rec_bytes r @ recs_bytes rs) = Inr (NextEntry kind key v (recs_bytes rs))"
    unfolding r using Cons.prems by (intro BatchReader_Next_record) (auto simp add: r)
  then show ?case using Cons by (simp add: read_records.simps [of "rec_bytes (kind, key, v) @ recs_bytes rs"] r)
qed

text \<open>The positions of the records.\<close>

fun placed :: "nat \<Rightarrow> batch_record list \<Rightarrow> (nat \<times> batch_record) list" where
  "placed p [] = []"
| "placed p (r # rs) = (p, r) # placed (p + length (rec_bytes r)) rs"

lemma placed_append: "placed p (rs @ rs') = placed p rs @ placed (p + length (recs_bytes rs)) rs'"
  by (induction rs arbitrary: p) (simp_all add: add.assoc)

lemma map_snd_placed [simp]: "map snd (placed p rs) = rs"
  by (induction rs arbitrary: p) simp_all

lemma placed_bounds:
  "(q, r) \<in> set (placed p rs) \<Longrightarrow> p \<le> q \<and> q + length (rec_bytes r) \<le> p + length (recs_bytes rs)"
  by (induction rs arbitrary: p) force+

lemma placed_bytes:
  "(q, r) \<in> set (placed (length h) rs) \<Longrightarrow> \<exists>a c. h @ recs_bytes rs = a @ rec_bytes r @ c \<and> length a = q"
proof (induction rs arbitrary: h)
  case (Cons r' rs)
  show ?case
  proof (cases "(q, r) \<in> set (placed (length (h @ rec_bytes r')) rs)")
    case True
    then show ?thesis using Cons.IH [of "h @ rec_bytes r'"] by simp
  next
    case False
    then have "q = length h" "r = r'" using Cons.prems by auto
    then show ?thesis by auto
  qed
qed simp

lemma record_key_rec:
  assumes "length (rec_bytes (kind, key, v)) < 2 ^ 32"
  shows "record_key (a @ rec_bytes (kind, key, v) @ c) (length a) = Some key"
proof -
  let ?x = "ucast (of_nat (length key) :: u32) :: u64"
  have x: "unat ?x = length key"
    using assms by (simp add: rec_bytes_def unsigned_ucast_eq unsigned_of_nat take_bit_nat_eq_self)
  obtain t where d: "drop (length a + 1) (a @ rec_bytes (kind, key, v) @ c) = put_uvarint ?x @ key @ t"
    by (auto simp add: rec_bytes_def put_uvarint32_eq)
  have "Uvarint (put_uvarint ?x @ key @ t) = (?x, int (length (put_uvarint ?x)))" by (rule Uvarint_put_append)
  then show ?thesis unfolding record_key_def d by (simp add: x)
qed

section \<open>Adding a record\<close>

lemma double_until_returns: "0 < n \<Longrightarrow> \<exists>m. double_until n sz = Some m \<and> sz \<le> m \<and> n \<le> m"
proof (induction "sz - n" arbitrary: n rule: less_induct)
  case less
  show ?case
  proof (cases "n < sz")
    case True
    have "sz - n * 2 < sz - n" using True less.prems by simp
    then obtain m where "double_until (n * 2) sz = Some m" "sz \<le> m" "n * 2 \<le> m"
      using less.hyps [of "n * 2"] less.prems by auto
    then show ?thesis using True double_until.simps [of n sz] by auto
  qed (simp add: double_until.simps [of n sz])
qed

definition started :: "Batch \<Rightarrow> bytes" where
  "started b = (if b_data b = [] then replicate batchHeaderLen 0 else b_data b)"

definition space_ok :: "Batch \<Rightarrow> bool" where
  "space_ok b \<longleftrightarrow> length (b_data b) \<le> b_cap b"

lemma ensure_init_spec:
  assumes "space_ok b"
  obtains c where "ensure_init sz b = Inr (b\<lparr>b_data := started b, b_cap := c\<rparr>)" "length (started b) \<le> c" "0 < c"
proof (cases "b_data b = []")
  case True
  obtain m where m: "double_until batchInitialSize sz = Some m" "batchInitialSize \<le> m"
    using double_until_returns [of batchInitialSize sz] by (auto simp add: batchInitialSize_def)
  show thesis
    using True m that [of "if b_cap b < m then m else b_cap b"]
    by (simp add: ensure_init_def batch_init_def started_def batchInitialSize_def batchHeaderLen_def)
next
  case False
  have "b\<lparr>b_data := started b, b_cap := b_cap b\<rparr> = b" using False by (simp add: started_def)
  then show thesis using False assms that [of "b_cap b"]
    by (cases "b_data b") (simp_all add: ensure_init_def started_def space_ok_def)
qed

lemma batch_grow_spec:
  assumes "length (b_data b) \<le> b_cap b" "0 < b_cap b"
  shows "batch_grow env n b = Inl PanicBatchTooLarge \<and> maxBatchSize \<le> length (b_data b) + n \<or>
    (length (b_data b) + n < maxBatchSize \<and>
     (\<exists>c X. batch_grow env n b = Inr (b\<lparr>b_data := b_data b @ X, b_cap := c\<rparr>) \<and> length X = n \<and> length (b_data b) + n \<le> c))"
proof (cases "length (b_data b) + n < maxBatchSize")
  case True
  let ?X = "map (be_mem env (b_data b)) [length (b_data b)..<length (b_data b) + n]"
  obtain m where m: "double_until (2 * b_cap b) (length (b_data b) + n) = Some m" "length (b_data b) + n \<le> m"
    using double_until_returns [of "2 * b_cap b" "length (b_data b) + n"] assms by auto
  have len: "length ?X = n" by simp
  have "\<exists>c. batch_grow env n b = Inr (b\<lparr>b_data := b_data b @ ?X, b_cap := c\<rparr>) \<and> length (b_data b) + n \<le> c"
  proof (cases "b_cap b < length (b_data b) + n")
    case grow: True
    then show ?thesis using True m by (intro exI [of _ m]) (simp add: batch_grow_def Let_def)
  next
    case False
    then show ?thesis using True by (intro exI [of _ "b_cap b"]) (simp add: batch_grow_def Let_def)
  qed
  then show ?thesis using True len by blast
qed (simp add: batch_grow_def Let_def)

text \<open>What the preparation of a record leaves: room for the key and the value.\<close>

definition prepared :: "kind \<Rightarrow> bytes \<Rightarrow> bytes \<Rightarrow> bool \<Rightarrow> nat \<Rightarrow> Batch \<Rightarrow> Batch" where
  "prepared kind X Y kv c b =
     (let k = put_uvarint32 (of_nat (length X)); v = put_uvarint32 (of_nat (length Y)); pos = length (started b)
      in b\<lparr>b_data := started b @ kind # k @ X @ (if kv then v @ Y else []), b_cap := c, b_count := b_count b + 1,
           b_memTableSize := b_memTableSize b + memTableEntrySize (length X) (length Y),
           b_deferredOp := (b_deferredOp b)\<lparr>op_offset := of_nat pos, op_key := (pos + 1 + length k, length X),
             op_value := (if kv then (pos + 1 + length k + length X + length v, length Y) else (0, 0))\<rparr>\<rparr>)"

lemma copy_at_middle: "length src = length b \<Longrightarrow> i = length a \<Longrightarrow> copy_at i src (a @ b @ c) = a @ src @ c"
  by (simp add: copy_at_def)

lemma split_length: "n \<le> length xs \<Longrightarrow> \<exists>a b. xs = a @ b \<and> length a = n"
  by (rule exI [of _ "take n xs"], rule exI [of _ "drop n xs"]) simp

definition put_key_value :: "nat \<Rightarrow> nat \<Rightarrow> kind \<Rightarrow> nat \<Rightarrow> bytes \<Rightarrow> bytes" where
  "put_key_value keyLen valueLen kind pos d =
     (let k = put_uvarint32 (of_nat keyLen); v = put_uvarint32 (of_nat valueLen)
      in take (pos + 1 + length k + keyLen + length v + valueLen)
           (copy_at (pos + 1 + length k + keyLen) v (copy_at (pos + 1) k (d[pos := kind]))))"

lemma put_key_value_eq:
  assumes "length S = 11 + kl + vl"
  obtains X Y where "put_key_value kl vl kind (length d) (d @ S) =
      d @ kind # put_uvarint32 (of_nat kl) @ X @ put_uvarint32 (of_nat vl) @ Y" "length X = kl" "length Y = vl"
proof -
  let ?k = "put_uvarint32 (of_nat kl)" and ?v = "put_uvarint32 (of_nat vl)"
  have l: "length ?k \<le> 5" "length ?v \<le> 5" by (rule length_put_uvarint32)+
  obtain s S1 where s: "S = s # S1" using assms by (cases S) auto
  obtain A S2 where A: "S1 = A @ S2" "length A = length ?k" using split_length [of "length ?k" S1] assms l by (auto simp add: s)
  obtain X S3 where X: "S2 = X @ S3" "length X = kl" using split_length [of kl S2] assms l by (auto simp add: s A)
  obtain B S4 where B: "S3 = B @ S4" "length B = length ?v" using split_length [of "length ?v" S3] assms l by (auto simp add: s A X)
  obtain Y S5 where Y: "S4 = Y @ S5" "length Y = vl" using split_length [of vl S4] assms l by (auto simp add: s A X B)
  have "(d @ S)[length d := kind] = (d @ [kind]) @ A @ X @ B @ Y @ S5" by (simp add: s A X B Y list_update_append)
  moreover have "copy_at (length d + 1) ?k ((d @ [kind]) @ A @ X @ B @ Y @ S5) = (d @ kind # ?k @ X) @ B @ Y @ S5"
    using A by (subst copy_at_middle) simp_all
  moreover have "copy_at (length d + 1 + length ?k + kl) ?v ((d @ kind # ?k @ X) @ B @ Y @ S5) = (d @ kind # ?k @ X) @ ?v @ Y @ S5"
    using X B by (subst copy_at_middle) simp_all
  ultimately have "put_key_value kl vl kind (length d) (d @ S) = d @ kind # ?k @ X @ ?v @ Y"
    using X Y by (simp add: put_key_value_def)
  then show thesis using that X Y by blast
qed

lemma prepare_kv:
  assumes "space_ok b" "\<not> b_committing b"
  shows "prepareDeferredKeyValueRecord env kl vl kind b = Inl PanicBatchTooLarge \<and>
      maxBatchSize \<le> length (started b) + 11 + kl + vl \<or>
    length (started b) + 11 + kl + vl < maxBatchSize \<and>
    (\<exists>X Y c. prepareDeferredKeyValueRecord env kl vl kind b = Inr (prepared kind X Y True c b) \<and>
       length X = kl \<and> length Y = vl \<and> length (b_data (prepared kind X Y True c b)) \<le> c)"
proof -
  obtain c0 where i: "ensure_init (kl + vl + 2 * MaxVarintLen64 + batchHeaderLen) b =
      Inr (b\<lparr>b_data := started b, b_cap := c0\<rparr>)" "length (started b) \<le> c0" "0 < c0"
    using ensure_init_spec [OF assms(1)] by blast
  define b3 where "b3 = b\<lparr>b_data := started b, b_cap := c0, b_count := b_count b + 1,
    b_memTableSize := b_memTableSize b + memTableEntrySize kl vl,
    b_deferredOp := (b_deferredOp b)\<lparr>op_offset := of_nat (length (started b))\<rparr>\<rparr>"
  have d3: "b_data b3 = started b" "b_cap b3 = c0" by (simp_all add: b3_def)
  have n: "1 + 2 * maxVarintLen32 + kl + vl = 11 + kl + vl" by (simp add: maxVarintLen32_def)
  have unf: "prepareDeferredKeyValueRecord env kl vl kind b =
      rbind (batch_grow env (11 + kl + vl) b3) (\<lambda>b4.
        Inr (b4\<lparr>b_data := put_key_value kl vl kind (length (started b)) (b_data b4),
          b_deferredOp := (b_deferredOp b4)\<lparr>op_key := (length (started b) + 1 + length (put_uvarint32 (of_nat kl)), kl),
            op_value := (length (started b) + 1 + length (put_uvarint32 (of_nat kl)) + kl + length (put_uvarint32 (of_nat vl)), vl)\<rparr>\<rparr>))"
    using assms(2) i(1) by (simp add: prepareDeferredKeyValueRecord_def b3_def Let_def put_key_value_def n [simplified] add.assoc)
  consider (big) "batch_grow env (11 + kl + vl) b3 = Inl PanicBatchTooLarge" "maxBatchSize \<le> length (started b) + (11 + kl + vl)"
    | (ok) c S where "length (started b) + (11 + kl + vl) < maxBatchSize" "length S = 11 + kl + vl"
        "batch_grow env (11 + kl + vl) b3 = Inr (b3\<lparr>b_data := started b @ S, b_cap := c\<rparr>)" "length (started b) + (11 + kl + vl) \<le> c"
    using batch_grow_spec [of b3 env "11 + kl + vl"] i by (auto simp add: d3)
  then show ?thesis
  proof cases
    case big
    then show ?thesis using unf by simp
  next
    case ok
    obtain X Y where p: "put_key_value kl vl kind (length (started b)) (started b @ S) =
        started b @ kind # put_uvarint32 (of_nat kl) @ X @ put_uvarint32 (of_nat vl) @ Y" "length X = kl" "length Y = vl"
      using put_key_value_eq [OF ok(2)] by metis
    have "prepareDeferredKeyValueRecord env kl vl kind b = Inr (prepared kind X Y True c b)"
      unfolding unf ok(3) using p by (simp add: prepared_def b3_def Let_def)
    moreover have "length (b_data (prepared kind X Y True c b)) \<le> c"
      using ok(4) p length_put_uvarint32 [of "of_nat kl"] length_put_uvarint32 [of "of_nat vl"]
      by (simp add: prepared_def Let_def)
    ultimately show ?thesis using ok(1) p by auto
  qed
qed

definition put_key :: "nat \<Rightarrow> kind \<Rightarrow> nat \<Rightarrow> bytes \<Rightarrow> bytes" where
  "put_key keyLen kind pos d =
     (let k = put_uvarint32 (of_nat keyLen) in take (pos + 1 + length k + keyLen) (copy_at (pos + 1) k (d[pos := kind])))"

lemma put_key_eq:
  assumes "length S = 6 + kl"
  obtains X where "put_key kl kind (length d) (d @ S) = d @ kind # put_uvarint32 (of_nat kl) @ X" "length X = kl"
proof -
  let ?k = "put_uvarint32 (of_nat kl)"
  have l: "length ?k \<le> 5" by (rule length_put_uvarint32)
  obtain s S1 where s: "S = s # S1" using assms by (cases S) auto
  obtain A S2 where A: "S1 = A @ S2" "length A = length ?k" using split_length [of "length ?k" S1] assms l by (auto simp add: s)
  obtain X S3 where X: "S2 = X @ S3" "length X = kl" using split_length [of kl S2] assms l by (auto simp add: s A)
  have "(d @ S)[length d := kind] = (d @ [kind]) @ A @ X @ S3" by (simp add: s A X list_update_append)
  moreover have "copy_at (length d + 1) ?k ((d @ [kind]) @ A @ X @ S3) = (d @ kind # ?k @ X) @ S3"
    using A by (subst copy_at_middle) simp_all
  ultimately have "put_key kl kind (length d) (d @ S) = d @ kind # ?k @ X"
    using X by (simp add: put_key_def)
  then show thesis using that X by blast
qed

lemma prepare_k:
  assumes "space_ok b" "\<not> b_committing b"
  shows "prepareDeferredKeyRecord env kl kind b = Inl PanicBatchTooLarge \<and>
      maxBatchSize \<le> length (started b) + 6 + kl \<or>
    length (started b) + 6 + kl < maxBatchSize \<and>
    (\<exists>X c. prepareDeferredKeyRecord env kl kind b = Inr (prepared kind X [] False c b) \<and>
       length X = kl \<and> length (b_data (prepared kind X [] False c b)) \<le> c)"
proof -
  obtain c0 where i: "ensure_init (kl + MaxVarintLen64 + batchHeaderLen) b =
      Inr (b\<lparr>b_data := started b, b_cap := c0\<rparr>)" "length (started b) \<le> c0" "0 < c0"
    using ensure_init_spec [OF assms(1)] by blast
  define b3 where "b3 = b\<lparr>b_data := started b, b_cap := c0, b_count := b_count b + 1,
    b_memTableSize := b_memTableSize b + memTableEntrySize kl 0,
    b_deferredOp := (b_deferredOp b)\<lparr>op_offset := of_nat (length (started b))\<rparr>\<rparr>"
  have d3: "b_data b3 = started b" "b_cap b3 = c0" by (simp_all add: b3_def)
  have n: "1 + maxVarintLen32 + kl = 6 + kl" by (simp add: maxVarintLen32_def)
  have unf: "prepareDeferredKeyRecord env kl kind b =
      rbind (batch_grow env (6 + kl) b3) (\<lambda>b4.
        Inr (b4\<lparr>b_data := put_key kl kind (length (started b)) (b_data b4),
          b_deferredOp := (b_deferredOp b4)\<lparr>op_key := (length (started b) + 1 + length (put_uvarint32 (of_nat kl)), kl),
            op_value := (0, 0)\<rparr>\<rparr>))"
    using assms(2) i(1) by (simp add: prepareDeferredKeyRecord_def b3_def Let_def put_key_def n [simplified] add.assoc)
  consider (big) "batch_grow env (6 + kl) b3 = Inl PanicBatchTooLarge" "maxBatchSize \<le> length (started b) + (6 + kl)"
    | (ok) c S where "length (started b) + (6 + kl) < maxBatchSize" "length S = 6 + kl"
        "batch_grow env (6 + kl) b3 = Inr (b3\<lparr>b_data := started b @ S, b_cap := c\<rparr>)" "length (started b) + (6 + kl) \<le> c"
    using batch_grow_spec [of b3 env "6 + kl"] i by (auto simp add: d3)
  then show ?thesis
  proof cases
    case big
    then show ?thesis using unf by simp
  next
    case ok
    obtain X where p: "put_key kl kind (length (started b)) (started b @ S) = started b @ kind # put_uvarint32 (of_nat kl) @ X"
        "length X = kl"
      using put_key_eq [OF ok(2)] by metis
    have "prepareDeferredKeyRecord env kl kind b = Inr (prepared kind X [] False c b)"
      unfolding unf ok(3) using p by (simp add: prepared_def b3_def Let_def)
    moreover have "length (b_data (prepared kind X [] False c b)) \<le> c"
      using ok(4) p length_put_uvarint32 [of "of_nat kl"] by (simp add: prepared_def Let_def)
    ultimately show ?thesis using ok(1) p by auto
  qed
qed

lemma prepared_fields [simp]:
  "b_data (prepared kind X Y kv c b) =
     started b @ kind # put_uvarint32 (of_nat (length X)) @ X @ (if kv then put_uvarint32 (of_nat (length Y)) @ Y else [])"
  "b_cap (prepared kind X Y kv c b) = c"
  "b_count (prepared kind X Y kv c b) = b_count b + 1"
  "b_memTableSize (prepared kind X Y kv c b) = b_memTableSize b + memTableEntrySize (length X) (length Y)"
  "b_cmp (prepared kind X Y kv c b) = b_cmp b" "b_abbreviatedKey (prepared kind X Y kv c b) = b_abbreviatedKey b"
  "b_db (prepared kind X Y kv c b) = b_db b"
  "b_countRangeDels (prepared kind X Y kv c b) = b_countRangeDels b"
  "b_countRangeKeys (prepared kind X Y kv c b) = b_countRangeKeys b"
  "b_index (prepared kind X Y kv c b) = b_index b"
  "b_rangeDelIndex (prepared kind X Y kv c b) = b_rangeDelIndex b"
  "b_rangeKeyIndex (prepared kind X Y kv c b) = b_rangeKeyIndex b"
  "b_minimumFormatMajorVersion (prepared kind X Y kv c b) = b_minimumFormatMajorVersion b"
  "b_ingestedSSTBatch (prepared kind X Y kv c b) = b_ingestedSSTBatch b"
  "b_committing (prepared kind X Y kv c b) = b_committing b"
  "op_offset (b_deferredOp (prepared kind X Y kv c b)) = of_nat (length (started b))"
  "op_index (b_deferredOp (prepared kind X Y kv c b)) = op_index (b_deferredOp b)"
  by (simp_all add: prepared_def Let_def)

text \<open>Copying the key and the value fills the room.\<close>

lemma copy_key_prepared:
  assumes "length key = length X"
  shows "copy_key key (prepared kind X Y kv c b) = prepared kind key Y kv c b"
proof -
  let ?pre = "started b @ kind # put_uvarint32 (of_nat (length X))"
  have "b_data (prepared kind X Y kv c b) = ?pre @ X @ (if kv then put_uvarint32 (of_nat (length Y)) @ Y else [])"
    by simp
  moreover have "op_key (b_deferredOp (prepared kind X Y kv c b)) = (length ?pre, length X)"
    by (simp add: prepared_def Let_def)
  ultimately have "copy_key key (prepared kind X Y kv c b) = (prepared kind X Y kv c b)
      \<lparr>b_data := ?pre @ key @ (if kv then put_uvarint32 (of_nat (length Y)) @ Y else [])\<rparr>"
    using assms by (simp add: copy_key_def copy_slice_def) (simp add: copy_at_def)
  then show ?thesis using assms by (simp add: prepared_def Let_def)
qed

lemma copy_value_prepared:
  assumes "length v = length Y"
  shows "copy_value v (prepared kind X Y True c b) = prepared kind X v True c b"
proof -
  let ?pre = "started b @ kind # put_uvarint32 (of_nat (length X)) @ X @ put_uvarint32 (of_nat (length Y))"
  have "b_data (prepared kind X Y True c b) = ?pre @ Y" by simp
  moreover have "op_value (b_deferredOp (prepared kind X Y True c b)) = (length ?pre, length Y)"
    by (simp add: prepared_def Let_def)
  ultimately have "copy_value v (prepared kind X Y True c b) = (prepared kind X Y True c b)\<lparr>b_data := ?pre @ v\<rparr>"
    using assms by (simp add: copy_value_def copy_slice_def) (simp add: copy_at_def)
  then show ?thesis using assms by (simp add: prepared_def Let_def)
qed

section \<open>What a batch represents\<close>

declare of_nat_add [simp del]

definition is_range_key :: "kind \<Rightarrow> bool" where
  "is_range_key kind \<longleftrightarrow>
     kind \<in> {InternalKeyKindRangeKeySet, InternalKeyKindRangeKeyUnset, InternalKeyKindRangeKeyDelete}"

definition is_point :: "kind \<Rightarrow> bool" where
  "is_point kind \<longleftrightarrow> kind \<noteq> InternalKeyKindLogData \<and> kind \<noteq> InternalKeyKindRangeDelete \<and> \<not> is_range_key kind"

definition counted :: "kind \<Rightarrow> bool" where
  "counted kind \<longleftrightarrow> kind \<noteq> InternalKeyKindLogData"

definition records :: "(kind \<Rightarrow> bool) \<Rightarrow> batch_record list \<Rightarrow> batch_record list" where
  "records sel rs = filter (\<lambda>r. sel (fst r)) rs"

definition rec_size :: "batch_record \<Rightarrow> u64" where
  "rec_size = (\<lambda>(kind, key, v). memTableEntrySize (length key) (length v))"

definition mem_size :: "batch_record list \<Rightarrow> u64" where
  "mem_size rs = sum_list (map rec_size rs)"

definition format_of :: "batch_record list \<Rightarrow> nat" where
  "format_of rs =
     (if \<exists>r\<in>set rs. fst r = InternalKeyKindDeleteSized then FormatDeleteSizedAndObsolete
      else if \<exists>r\<in>set rs. is_range_key (fst r) then FormatRangeKeys else 0)"

text \<open>The entries of an index: the keys of the records of some kinds, with their offsets.\<close>

definition entry_of :: "nat \<times> batch_record \<Rightarrow> bytes \<times> u32" where
  "entry_of = (\<lambda>(p, kind, key, v). (key, of_nat p))"

definition entries_of :: "(kind \<Rightarrow> bool) \<Rightarrow> batch_record list \<Rightarrow> (bytes \<times> u32) list" where
  "entries_of sel rs = map entry_of (filter (\<lambda>(p, r). sel (fst r)) (placed batchHeaderLen rs))"

definition idx_ok ::
    "(bytes \<Rightarrow> bytes \<Rightarrow> int) \<Rightarrow> (bytes \<Rightarrow> u64) \<Rightarrow> (kind \<Rightarrow> bool) \<Rightarrow> bytes \<Rightarrow> Skiplist \<Rightarrow> batch_record list \<Rightarrow> bool" where
  "idx_ok cmp abk sel st s rs \<longleftrightarrow>
     (\<exists>es. index_rep cmp abk st s es \<and> newest_sorted cmp es \<and> mset es = mset (entries_of sel rs) \<and>
        sk_len s \<le> 368 + 184 * length es)"

definition range_idx_ok ::
    "(bytes \<Rightarrow> bytes \<Rightarrow> int) \<Rightarrow> (bytes \<Rightarrow> u64) \<Rightarrow> (kind \<Rightarrow> bool) \<Rightarrow> bytes \<Rightarrow> Skiplist option \<Rightarrow> batch_record list \<Rightarrow> bool" where
  "range_idx_ok cmp abk sel st i rs =
     (case i of None \<Rightarrow> entries_of sel rs = [] | Some s \<Rightarrow> idx_ok cmp abk sel st s rs)"

definition indexes_ok :: "(bytes \<Rightarrow> bytes \<Rightarrow> int) \<Rightarrow> (bytes \<Rightarrow> u64) \<Rightarrow> Batch \<Rightarrow> batch_record list \<Rightarrow> bool" where
  "indexes_ok cmp abk b rs =
     (case b_index b of
        None \<Rightarrow> b_rangeDelIndex b = None \<and> b_rangeKeyIndex b = None
      | Some s \<Rightarrow>
          b_cmp b = cmp \<and> b_abbreviatedKey b = abk \<and> idx_ok cmp abk is_point (b_data b) s rs \<and>
          range_idx_ok cmp abk (\<lambda>k. k = InternalKeyKindRangeDelete) (b_data b) (b_rangeDelIndex b) rs \<and>
          range_idx_ok cmp abk is_range_key (b_data b) (b_rangeKeyIndex b) rs)"

definition data_ok :: "bytes \<Rightarrow> batch_record list \<Rightarrow> bool" where
  "data_ok data rs \<longleftrightarrow>
     data = [] \<and> rs = [] \<or> (\<exists>h. length h = batchHeaderLen \<and> data = h @ recs_bytes rs)"

text \<open>A batch to which the operations of \<open>rs\<close> were added.\<close>

definition batch_rep :: "(bytes \<Rightarrow> bytes \<Rightarrow> int) \<Rightarrow> (bytes \<Rightarrow> u64) \<Rightarrow> Batch \<Rightarrow> batch_record list \<Rightarrow> bool" where
  "batch_rep cmp abk b rs \<longleftrightarrow>
     list_all valid_record rs \<and> data_ok (b_data b) rs \<and> length (b_data b) < maxBatchSize \<and> space_ok b \<and>
     b_count b = of_nat (length (records counted rs)) \<and>
     b_countRangeDels b = of_nat (length (records (\<lambda>k. k = InternalKeyKindRangeDelete) rs)) \<and>
     b_countRangeKeys b = of_nat (length (records is_range_key rs)) \<and>
     b_memTableSize b = mem_size (records counted rs) \<and>
     b_minimumFormatMajorVersion b = format_of rs \<and> \<not> b_ingestedSSTBatch b \<and>
     indexes_ok cmp abk b rs"

lemma records_append [simp]: "records sel (rs @ rs') = records sel rs @ records sel rs'"
  by (simp add: records_def)

lemma entries_of_append:
  "entries_of sel (rs @ [r]) = entries_of sel rs @
     (if sel (fst r) then [(fst (snd r), of_nat (batchHeaderLen + length (recs_bytes rs)))] else [])"
  by (cases r) (auto simp add: entries_of_def placed_append entry_of_def)

lemma entries_of_Nil [simp]: "entries_of sel [] = []"
  by (simp add: entries_of_def)

lemma data_ok_started: "data_ok (b_data b) rs \<Longrightarrow> \<exists>h. length h = batchHeaderLen \<and> started b = h @ recs_bytes rs"
  by (cases "b_data b = []") (auto simp add: data_ok_def started_def batchHeaderLen_def)

lemma length_started: "data_ok (b_data b) rs \<Longrightarrow> length (started b) = batchHeaderLen + length (recs_bytes rs)"
  using data_ok_started [of b rs] by auto

lemma entries_bounds:
  assumes "e \<in> set (entries_of sel rs)" "batchHeaderLen + length (recs_bytes rs) < 2 ^ 32"
  shows "batchHeaderLen \<le> unat (snd e)" "unat (snd e) < batchHeaderLen + length (recs_bytes rs)"
proof -
  obtain q r where e: "snd e = of_nat q" "(q, r) \<in> set (placed batchHeaderLen rs)"
    using assms(1) by (auto simp add: entries_of_def entry_of_def)
  note b = placed_bounds [OF e(2)]
  have "unat (of_nat q :: u32) = q" using b assms(2) by (intro unat_of_nat_u32) linarith
  then show "batchHeaderLen \<le> unat (snd e)" "unat (snd e) < batchHeaderLen + length (recs_bytes rs)"
    using b e(1) length_rec_bytes [of r] by simp_all
qed

lemma set_entries: "mset es = mset (entries_of sel rs) \<Longrightarrow> set es = set (entries_of sel rs)"
  by (metis set_mset_mset)

context abbreviated_order
begin

text \<open>An index that does not get a record stays right as the data grows, and as the header changes.\<close>

lemma idx_ok_grow:
  assumes "idx_ok cmp abk sel st s rs" "length st \<le> length st'"
    and "drop batchHeaderLen (take (length st) st') = drop batchHeaderLen st"
    and "batchHeaderLen + length (recs_bytes rs) < 2 ^ 32"
  shows "idx_ok cmp abk sel st' s rs"
proof -
  obtain es where es: "index_rep cmp abk st s es" "newest_sorted cmp es" "mset es = mset (entries_of sel rs)"
      "sk_len s \<le> 368 + 184 * length es"
    using assms(1) by (auto simp add: idx_ok_def)
  have "\<forall>e\<in>set es. batchHeaderLen \<le> unat (snd e)"
    using set_entries [OF es(3)] entries_bounds(1) assms(4) by auto
  then have "index_rep cmp abk st' s es" by (rule index_rep_grow [OF es(1) assms(2) _ assms(3)])
  then show ?thesis using es by (auto simp add: idx_ok_def)
qed

lemma idx_ok_skip: "\<not> sel (fst r) \<Longrightarrow> idx_ok cmp abk sel st s (rs @ [r]) = idx_ok cmp abk sel st s rs"
  by (simp add: idx_ok_def entries_of_append)

lemma idx_ok_new:
  assumes "NewSkiplist env cmp abk = Some s" "entries_of sel rs = []"
  shows "idx_ok cmp abk sel st s rs"
  using index_rep_init [OF assms(1)] assms(2) by (auto simp add: idx_ok_def newest_sorted_def)

lemma idx_ok_add:
  assumes "idx_ok cmp abk sel st s rs" "st = h @ recs_bytes rs @ rec_bytes r @ t" "length h = batchHeaderLen"
    and "length st < 2 ^ 32" "sel (fst r)" "368 + 184 * Suc (length rs) \<le> maxNodesSize"
  obtains s1 where "skl_Add env st (of_nat (batchHeaderLen + length (recs_bytes rs))) s = Some (None, s1)"
    "idx_ok cmp abk sel st s1 (rs @ [r])"
proof -
  let ?p = "batchHeaderLen + length (recs_bytes rs)"
  obtain kind key v where r: "r = (kind, key, v)" by (cases r)
  obtain es where es: "index_rep cmp abk st s es" "newest_sorted cmp es" "mset es = mset (entries_of sel rs)"
      "sk_len s \<le> 368 + 184 * length es"
    using assms(1) by (auto simp add: idx_ok_def)
  have p: "unat (of_nat ?p :: u32) = ?p" "?p + 2 \<le> length st"
    using assms(2-4) length_rec_bytes [of r] by (simp_all add: unat_of_nat_u32)
  have key: "record_key st ?p = Some key"
    using record_key_rec [of kind key v "h @ recs_bytes rs" t] assms(2-4) by (simp add: r)
  have "length es = length (entries_of sel rs)" using es(3) by (metis size_mset)
  also have "\<dots> \<le> length (placed batchHeaderLen rs)" by (simp add: entries_of_def)
  also have "\<dots> = length rs" by (metis length_map map_snd_placed)
  finally have n: "length es \<le> length rs" .
  have lt: "\<forall>x\<in>set es. snd x < of_nat ?p"
    using set_entries [OF es(3)] entries_bounds(2) p assms(4) by (auto simp add: word_less_nat_alt)
  show thesis
  proof (rule index_rep_add [OF es(1) assms(4), of "of_nat ?p" key env])
    fix s1 assume a: "skl_Add env st (of_nat ?p) s = Some (None, s1)"
      "index_rep cmp abk st s1 (insert_newest cmp (key, of_nat ?p) es)" "sk_len s1 \<le> sk_len s + maxNodeSize"
    let ?es = "insert_newest cmp (key, of_nat ?p) es"
    have "newest_sorted cmp ?es" by (rule newest_sorted_insert [OF es(2)]) (use lt in simp)
    moreover have "mset ?es = mset (entries_of sel (rs @ [r]))"
      using es(3) assms(5) by (simp add: mset_insert_newest entries_of_append r)
    moreover have "length ?es = Suc (length es)" by (metis mset_insert_newest size_add_mset size_mset)
    then have "sk_len s1 \<le> 368 + 184 * length ?es" using a(3) es(4) by (simp add: maxNodeSize_def)
    ultimately show thesis using that [of s1] a(1,2) by (auto simp add: idx_ok_def)
  qed (use p key n es(4) assms(6) in \<open>simp_all add: maxNodeSize_def\<close>)
qed

end

section \<open>The indexes of a batch under its operations\<close>

lemma is_point_disjoint:
  "is_point k \<Longrightarrow> k \<noteq> InternalKeyKindRangeDelete \<and> \<not> is_range_key k"
  "\<not> is_range_key InternalKeyKindRangeDelete" "\<not> is_point InternalKeyKindRangeDelete"
  "is_range_key k \<Longrightarrow> k \<noteq> InternalKeyKindRangeDelete \<and> \<not> is_point k"
  by (auto simp add: is_point_def is_range_key_def InternalKeyKindRangeDelete_def InternalKeyKindRangeKeySet_def
      InternalKeyKindRangeKeyUnset_def InternalKeyKindRangeKeyDelete_def)

text \<open>The data of a batch with the records of \<open>rs\<close>, which are in the indexes, and then \<open>r\<close>, which is not yet.\<close>

definition with_last :: "bytes \<Rightarrow> batch_record list \<Rightarrow> batch_record \<Rightarrow> bool" where
  "with_last st rs r \<longleftrightarrow>
     (\<exists>h t. length h = batchHeaderLen \<and> st = h @ recs_bytes rs @ rec_bytes r @ t) \<and> length st < 2 ^ 32 \<and>
     368 + 184 * Suc (length rs) \<le> maxNodesSize"

context abbreviated_order
begin

lemma range_idx_ok_skip:
  "\<not> sel (fst r) \<Longrightarrow> range_idx_ok cmp abk sel st i (rs @ [r]) = range_idx_ok cmp abk sel st i rs"
  by (cases i) (simp_all add: range_idx_ok_def idx_ok_skip entries_of_append)

lemma range_idx_ok_grow:
  assumes "range_idx_ok cmp abk sel st i rs" "length st \<le> length st'"
    and "drop batchHeaderLen (take (length st) st') = drop batchHeaderLen st"
    and "batchHeaderLen + length (recs_bytes rs) < 2 ^ 32"
  shows "range_idx_ok cmp abk sel st' i rs"
  using assms idx_ok_grow [OF _ assms(2-4)] by (cases i) (simp_all add: range_idx_ok_def)

lemma indexes_ok_grow:
  assumes "indexes_ok cmp abk b rs" "length (b_data b) \<le> length st'"
    and "drop batchHeaderLen (take (length (b_data b)) st') = drop batchHeaderLen (b_data b)"
    and "batchHeaderLen + length (recs_bytes rs) < 2 ^ 32"
  shows "indexes_ok cmp abk (b\<lparr>b_data := st'\<rparr>) rs"
  using assms(1) idx_ok_grow [OF _ assms(2-4)] range_idx_ok_grow [OF _ assms(2-4)]
  by (cases "b_index b") (simp_all add: indexes_ok_def)

lemma indexes_ok_skip:
  assumes "indexes_ok cmp abk b rs" "fst r = InternalKeyKindLogData"
  shows "indexes_ok cmp abk b (rs @ [r])"
proof -
  have "\<not> is_point (fst r)" "fst r \<noteq> InternalKeyKindRangeDelete" "\<not> is_range_key (fst r)"
    unfolding assms(2)
    by (simp_all add: is_point_def is_range_key_def InternalKeyKindLogData_def InternalKeyKindRangeDelete_def
        InternalKeyKindRangeKeySet_def InternalKeyKindRangeKeyUnset_def InternalKeyKindRangeKeyDelete_def)
  then show ?thesis using assms(1)
    by (simp add: indexes_ok_def idx_ok_skip range_idx_ok_skip split: option.splits)
qed

lemma add_point_ok:
  assumes "indexes_ok cmp abk b rs" "with_last (b_data b) rs r" "is_point (fst r)"
  obtains i where "index_add env (point_ref b) (of_nat (batchHeaderLen + length (recs_bytes rs))) b = Inr (None, b\<lparr>b_index := i\<rparr>)"
    "b_index b = None \<longleftrightarrow> i = None" "indexes_ok cmp abk (b\<lparr>b_index := i\<rparr>) (rs @ [r])"
proof (cases "b_index b")
  case None
  have "b\<lparr>b_index := None\<rparr> = b" using None by simp
  then show thesis using that [of None] None assms(1)
    by (simp add: index_add_def point_ref_def indexes_ok_def)
next
  case (Some s)
  obtain h t where h: "length h = batchHeaderLen" "b_data b = h @ recs_bytes rs @ rec_bytes r @ t" "length (b_data b) < 2 ^ 32"
      "368 + 184 * Suc (length rs) \<le> maxNodesSize"
    using assms(2) by (auto simp add: with_last_def)
  have ok: "idx_ok cmp abk is_point (b_data b) s rs" using assms(1) Some by (simp add: indexes_ok_def)
  obtain s1 where s1: "skl_Add (be_skl env) (b_data b) (of_nat (batchHeaderLen + length (recs_bytes rs))) s = Some (None, s1)"
      "idx_ok cmp abk is_point (b_data b) s1 (rs @ [r])"
    using idx_ok_add [OF ok h(2,1,3) assms(3) h(4)] by blast
  have "index_add env (point_ref b) (of_nat (batchHeaderLen + length (recs_bytes rs))) b = Inr (None, b\<lparr>b_index := Some s1\<rparr>)"
    using Some s1(1) by (simp add: index_add_def point_ref_def)
  moreover have "indexes_ok cmp abk (b\<lparr>b_index := Some s1\<rparr>) (rs @ [r])"
    using assms(1,3) Some s1(2) is_point_disjoint(1) [OF assms(3)] by (simp add: indexes_ok_def range_idx_ok_skip)
  ultimately show thesis using that [of "Some s1"] Some by simp
qed

lemma use_rangeDelIndex_ok:
  assumes "indexes_ok cmp abk b' rs" "b_index b' = b_index b" "b_rangeDelIndex b' = b_rangeDelIndex b" "b_cmp b' = b_cmp b"
    and "b_abbreviatedKey b' = b_abbreviatedKey b"
  obtains t q i where "use_rangeDelIndex env b = Inr (b\<lparr>b_tombstones := t, b_tombstonesSeqNum := q, b_rangeDelIndex := i\<rparr>)"
    "indexes_ok cmp abk (b'\<lparr>b_tombstones := t, b_tombstonesSeqNum := q, b_rangeDelIndex := i\<rparr>) rs" "b_index b = None \<longleftrightarrow> i = None"
proof (cases "b_index b")
  case None
  have "b\<lparr>b_tombstones := b_tombstones b, b_tombstonesSeqNum := b_tombstonesSeqNum b, b_rangeDelIndex := None\<rparr> = b"
    using assms None by (simp add: indexes_ok_def)
  moreover have "indexes_ok cmp abk (b'\<lparr>b_tombstones := b_tombstones b, b_tombstonesSeqNum := b_tombstonesSeqNum b, b_rangeDelIndex := None\<rparr>) rs"
    using assms None by (simp add: indexes_ok_def)
  ultimately show thesis using that [where t = "b_tombstones b" and q = "b_tombstonesSeqNum b" and i = None] None by (simp add: use_rangeDelIndex_def)
next
  case (Some s)
  obtain s0 where s0: "NewSkiplist (be_skl env) cmp abk = Some s0" using NewSkiplist_returns by blast
  let ?i = "case b_rangeDelIndex b of None \<Rightarrow> s0 | Some s1 \<Rightarrow> s1"
  have "use_rangeDelIndex env b = Inr (b\<lparr>b_tombstones := None, b_tombstonesSeqNum := 0, b_rangeDelIndex := Some ?i\<rparr>)"
    using Some s0 assms by (simp add: use_rangeDelIndex_def indexes_ok_def split: option.splits)
  moreover have "indexes_ok cmp abk (b'\<lparr>b_tombstones := None, b_tombstonesSeqNum := 0, b_rangeDelIndex := Some ?i\<rparr>) rs"
    using Some assms idx_ok_new [OF s0] by (auto simp add: indexes_ok_def range_idx_ok_def split: option.splits)
  moreover have "b_index b = None \<longleftrightarrow> Some ?i = None" using Some by simp
  ultimately show thesis by (rule that)
qed

lemma use_rangeKeyIndex_ok:
  assumes "indexes_ok cmp abk b' rs" "b_index b' = b_index b" "b_rangeKeyIndex b' = b_rangeKeyIndex b" "b_cmp b' = b_cmp b"
    and "b_abbreviatedKey b' = b_abbreviatedKey b"
  obtains t q i where "use_rangeKeyIndex env b = Inr (b\<lparr>b_rangeKeys := t, b_rangeKeysSeqNum := q, b_rangeKeyIndex := i\<rparr>)"
    "indexes_ok cmp abk (b'\<lparr>b_rangeKeys := t, b_rangeKeysSeqNum := q, b_rangeKeyIndex := i\<rparr>) rs" "b_index b = None \<longleftrightarrow> i = None"
proof (cases "b_index b")
  case None
  have "b\<lparr>b_rangeKeys := b_rangeKeys b, b_rangeKeysSeqNum := b_rangeKeysSeqNum b, b_rangeKeyIndex := None\<rparr> = b"
    using assms None by (simp add: indexes_ok_def)
  moreover have "indexes_ok cmp abk (b'\<lparr>b_rangeKeys := b_rangeKeys b, b_rangeKeysSeqNum := b_rangeKeysSeqNum b, b_rangeKeyIndex := None\<rparr>) rs"
    using assms None by (simp add: indexes_ok_def)
  ultimately show thesis using that [where t = "b_rangeKeys b" and q = "b_rangeKeysSeqNum b" and i = None] None by (simp add: use_rangeKeyIndex_def)
next
  case (Some s)
  obtain s0 where s0: "NewSkiplist (be_skl env) cmp abk = Some s0" using NewSkiplist_returns by blast
  let ?i = "case b_rangeKeyIndex b of None \<Rightarrow> s0 | Some s1 \<Rightarrow> s1"
  have "use_rangeKeyIndex env b = Inr (b\<lparr>b_rangeKeys := None, b_rangeKeysSeqNum := 0, b_rangeKeyIndex := Some ?i\<rparr>)"
    using Some s0 assms by (simp add: use_rangeKeyIndex_def indexes_ok_def split: option.splits)
  moreover have "indexes_ok cmp abk (b'\<lparr>b_rangeKeys := None, b_rangeKeysSeqNum := 0, b_rangeKeyIndex := Some ?i\<rparr>) rs"
    using Some assms idx_ok_new [OF s0] by (auto simp add: indexes_ok_def range_idx_ok_def split: option.splits)
  moreover have "b_index b = None \<longleftrightarrow> Some ?i = None" using Some by simp
  ultimately show thesis by (rule that)
qed

lemma add_rangeDel_ok:
  assumes "indexes_ok cmp abk b rs" "with_last (b_data b) rs r" "fst r = InternalKeyKindRangeDelete"
    and "b_index b = None \<longleftrightarrow> b_rangeDelIndex b = None" "b_index b \<noteq> None \<Longrightarrow> ref = RangeDelIndex"
  obtains i where "index_add env ref (of_nat (batchHeaderLen + length (recs_bytes rs))) b = Inr (None, b\<lparr>b_rangeDelIndex := i\<rparr>)"
    "indexes_ok cmp abk (b\<lparr>b_rangeDelIndex := i\<rparr>) (rs @ [r])"
proof (cases "b_index b")
  case None
  have "b\<lparr>b_rangeDelIndex := None\<rparr> = b" using None assms(1) by (simp add: indexes_ok_def)
  then show thesis using that [of None] None assms(1) by (cases ref) (simp_all add: index_add_def indexes_ok_def)
next
  case (Some s0)
  obtain s where s: "b_rangeDelIndex b = Some s" using assms(4) Some by auto
  obtain h t where h: "length h = batchHeaderLen" "b_data b = h @ recs_bytes rs @ rec_bytes r @ t" "length (b_data b) < 2 ^ 32"
      "368 + 184 * Suc (length rs) \<le> maxNodesSize"
    using assms(2) by (auto simp add: with_last_def)
  let ?sel = "\<lambda>k. k = InternalKeyKindRangeDelete"
  have ok: "idx_ok cmp abk ?sel (b_data b) s rs" using assms(1) Some s by (simp add: indexes_ok_def range_idx_ok_def)
  obtain s1 where s1: "skl_Add (be_skl env) (b_data b) (of_nat (batchHeaderLen + length (recs_bytes rs))) s = Some (None, s1)"
      "idx_ok cmp abk ?sel (b_data b) s1 (rs @ [r])"
    using idx_ok_add [OF ok h(2,1,3) assms(3) h(4)] by blast
  have "index_add env ref (of_nat (batchHeaderLen + length (recs_bytes rs))) b = Inr (None, b\<lparr>b_rangeDelIndex := Some s1\<rparr>)"
    using Some s s1(1) assms(5) by (simp add: index_add_def)
  moreover have "indexes_ok cmp abk (b\<lparr>b_rangeDelIndex := Some s1\<rparr>) (rs @ [r])"
    using assms(1,3) Some s1(2) is_point_disjoint(2,3)
    by (simp add: indexes_ok_def range_idx_ok_skip idx_ok_skip) (simp add: range_idx_ok_def)
  ultimately show thesis using that by blast
qed

lemma add_rangeKey_ok:
  assumes "indexes_ok cmp abk b rs" "with_last (b_data b) rs r" "is_range_key (fst r)"
    and "b_index b = None \<longleftrightarrow> b_rangeKeyIndex b = None" "b_index b \<noteq> None \<Longrightarrow> ref = RangeKeyIndex"
  obtains i where "index_add env ref (of_nat (batchHeaderLen + length (recs_bytes rs))) b = Inr (None, b\<lparr>b_rangeKeyIndex := i\<rparr>)"
    "indexes_ok cmp abk (b\<lparr>b_rangeKeyIndex := i\<rparr>) (rs @ [r])"
proof (cases "b_index b")
  case None
  have "b\<lparr>b_rangeKeyIndex := None\<rparr> = b" using None assms(1) by (simp add: indexes_ok_def)
  then show thesis using that [of None] None assms(1) by (cases ref) (simp_all add: index_add_def indexes_ok_def)
next
  case (Some s0)
  obtain s where s: "b_rangeKeyIndex b = Some s" using assms(4) Some by auto
  obtain h t where h: "length h = batchHeaderLen" "b_data b = h @ recs_bytes rs @ rec_bytes r @ t" "length (b_data b) < 2 ^ 32"
      "368 + 184 * Suc (length rs) \<le> maxNodesSize"
    using assms(2) by (auto simp add: with_last_def)
  have ok: "idx_ok cmp abk is_range_key (b_data b) s rs" using assms(1) Some s by (simp add: indexes_ok_def range_idx_ok_def)
  obtain s1 where s1: "skl_Add (be_skl env) (b_data b) (of_nat (batchHeaderLen + length (recs_bytes rs))) s = Some (None, s1)"
      "idx_ok cmp abk is_range_key (b_data b) s1 (rs @ [r])"
    using idx_ok_add [OF ok h(2,1,3) assms(3) h(4)] by blast
  have "index_add env ref (of_nat (batchHeaderLen + length (recs_bytes rs))) b = Inr (None, b\<lparr>b_rangeKeyIndex := Some s1\<rparr>)"
    using Some s s1(1) assms(5) by (simp add: index_add_def)
  moreover have "indexes_ok cmp abk (b\<lparr>b_rangeKeyIndex := Some s1\<rparr>) (rs @ [r])"
    using assms(1,3) Some s1(2) is_point_disjoint(4) [OF assms(3)]
    by (simp add: indexes_ok_def range_idx_ok_skip idx_ok_skip) (simp add: range_idx_ok_def)
  ultimately show thesis using that by blast
qed

end

section \<open>The operations of a batch\<close>

datatype batch_op =
    OpSet bytes bytes
  | OpMerge bytes bytes
  | OpDelete bytes
  | OpDeleteSized bytes u32
  | OpSingleDelete bytes
  | OpDeleteRange bytes bytes
  | OpRangeKeySet bytes bytes bytes bytes
  | OpRangeKeyUnset bytes bytes bytes
  | OpRangeKeyDelete bytes bytes
  | OpLogData bytes

fun run_op :: "batch_env \<Rightarrow> batch_op \<Rightarrow> Batch \<Rightarrow> batch_result" where
  "run_op env (OpSet key v) = Batch_Set env key v"
| "run_op env (OpMerge key v) = Batch_Merge env key v"
| "run_op env (OpDelete key) = Batch_Delete env key"
| "run_op env (OpDeleteSized key n) = Batch_DeleteSized env key n"
| "run_op env (OpSingleDelete key) = Batch_SingleDelete env key"
| "run_op env (OpDeleteRange s e) = Batch_DeleteRange env s e"
| "run_op env (OpRangeKeySet s e suff v) = Batch_RangeKeySet env s e suff v"
| "run_op env (OpRangeKeyUnset s e suff) = Batch_RangeKeyUnset env s e suff"
| "run_op env (OpRangeKeyDelete s e) = Batch_RangeKeyDelete env s e"
| "run_op env (OpLogData data) = Batch_LogData env data"

text \<open>The record an operation adds, and the space it asks for.\<close>

fun op_record :: "batch_op \<Rightarrow> batch_record" where
  "op_record (OpSet key v) = (InternalKeyKindSet, key, v)"
| "op_record (OpMerge key v) = (InternalKeyKindMerge, key, v)"
| "op_record (OpDelete key) = (InternalKeyKindDelete, key, [])"
| "op_record (OpDeleteSized key n) =
     (InternalKeyKindDeleteSized, key, put_uvarint (ucast n + of_nat (length key)))"
| "op_record (OpSingleDelete key) = (InternalKeyKindSingleDelete, key, [])"
| "op_record (OpDeleteRange s e) = (InternalKeyKindRangeDelete, s, e)"
| "op_record (OpRangeKeySet s e suff v) =
     (InternalKeyKindRangeKeySet, s, set_value e [\<lparr>sv_suffix = suff, sv_value = v\<rparr>])"
| "op_record (OpRangeKeyUnset s e suff) = (InternalKeyKindRangeKeyUnset, s, unset_value e [suff])"
| "op_record (OpRangeKeyDelete s e) = (InternalKeyKindRangeKeyDelete, s, e)"
| "op_record (OpLogData data) = (InternalKeyKindLogData, data, [])"

definition rec_space :: "batch_record \<Rightarrow> nat" where
  "rec_space = (\<lambda>(kind, key, v). if has_value kind then 11 + length key + length v else 6 + length key)"

lemmas kind_classes = has_value_def is_point_def is_range_key_def counted_def

lemma valid_op_record: "valid_record (op_record op)"
  by (cases op) (simp_all add: valid_record_def kind_defs has_value_def)

lemma length_rec_space: "length (rec_bytes r) \<le> rec_space r"
proof -
  obtain kind key v where r: "r = (kind, key, v)" by (cases r)
  show ?thesis using length_put_uvarint32 [of "of_nat (length key)"] length_put_uvarint32 [of "of_nat (length v)"]
    by (simp add: r rec_bytes_def rec_space_def)
qed

text \<open>What adding a record does to a batch, its indexes apart.\<close>

definition appended :: "batch_record \<Rightarrow> Batch \<Rightarrow> Batch \<Rightarrow> bool" where
  "appended r b b1 \<longleftrightarrow>
     b_data b1 = started b @ rec_bytes r \<and> space_ok b1 \<and>
     b_count b1 = b_count b + (if counted (fst r) then 1 else 0) \<and>
     b_countRangeDels b1 = b_countRangeDels b + (if fst r = InternalKeyKindRangeDelete then 1 else 0) \<and>
     b_countRangeKeys b1 = b_countRangeKeys b + (if is_range_key (fst r) then 1 else 0) \<and>
     b_memTableSize b1 = b_memTableSize b + (if counted (fst r) then rec_size r else 0) \<and>
     b_minimumFormatMajorVersion b1 = max (b_minimumFormatMajorVersion b) (format_of [r]) \<and>
     b_ingestedSSTBatch b1 = b_ingestedSSTBatch b \<and> b_committing b1 = b_committing b \<and> b_db b1 = b_db b"

lemma format_of_append: "format_of (rs @ [r]) = max (format_of rs) (format_of [r])"
  by (auto simp add: format_of_def FormatDeleteSizedAndObsolete_def FormatRangeKeys_def)

lemma mem_size_append [simp]: "mem_size (rs @ rs') = mem_size rs + mem_size rs'"
  by (simp add: mem_size_def)

lemma records_single: "records sel [r] = (if sel (fst r) then [r] else [])"
  by (simp add: records_def)

lemma rep_appended:
  assumes "batch_rep cmp abk b rs" "appended r b b1" "valid_record r" "length (b_data b1) < maxBatchSize"
    and "indexes_ok cmp abk b1 (rs @ [r])"
  shows "batch_rep cmp abk b1 (rs @ [r])"
proof -
  note B = assms(1) [unfolded batch_rep_def] and A = assms(2) [unfolded appended_def]
  have "data_ok (b_data b1) (rs @ [r])"
    using B A data_ok_started [of b rs] by (auto simp add: data_ok_def)
  then show ?thesis
    using B A assms(3-5) unfolding batch_rep_def
    by (simp add: records_single format_of_append of_nat_add mem_size_def)
qed

definition outcome :: "(bytes \<Rightarrow> bytes \<Rightarrow> int) \<Rightarrow> (bytes \<Rightarrow> u64) \<Rightarrow> batch_record list \<Rightarrow> batch_record \<Rightarrow> Batch \<Rightarrow> batch_result \<Rightarrow> bool" where
  "outcome cmp abk rs r b res \<longleftrightarrow>
     (if maxBatchSize \<le> length (started b) + rec_space r then res = Inl PanicBatchTooLarge
      else \<exists>b1. res = Inr (None, b1) \<and> appended r b b1 \<and> batch_rep cmp abk b1 (rs @ [r]))"

lemma maxBatchSize_less: "maxBatchSize < 2 ^ 32"
  by (simp add: maxBatchSize_def)

context abbreviated_order
begin

lemma grown_ok:
  assumes "batch_rep cmp abk b rs" "b_data b1 = started b @ rec_bytes r" "length (started b) + rec_space r < maxBatchSize"
    and "b_index b1 = b_index b" "b_rangeDelIndex b1 = b_rangeDelIndex b" "b_rangeKeyIndex b1 = b_rangeKeyIndex b"
    and "b_cmp b1 = b_cmp b" "b_abbreviatedKey b1 = b_abbreviatedKey b"
    and "368 + 184 * Suc (length rs) \<le> maxNodesSize"
  shows "indexes_ok cmp abk b1 rs" "with_last (b_data b1) rs r" "length (b_data b1) < maxBatchSize"
    "length (started b) = batchHeaderLen + length (recs_bytes rs)"
proof -
  note B = assms(1) [unfolded batch_rep_def]
  have data: "data_ok (b_data b) rs" using B by blast
  obtain h where h: "length h = batchHeaderLen" "started b = h @ recs_bytes rs" using data_ok_started [OF data] by blast
  show len: "length (b_data b1) < maxBatchSize" using assms(2,3) length_rec_space [of r] by simp
  show pos: "length (started b) = batchHeaderLen + length (recs_bytes rs)" using h by simp
  show "with_last (b_data b1) rs r"
  proof -
    have "length h = batchHeaderLen \<and> b_data b1 = h @ recs_bytes rs @ rec_bytes r @ []" using h assms(2) by simp
    then show ?thesis using assms(9) len maxBatchSize_less unfolding with_last_def by (meson less_trans)
  qed
  have "indexes_ok cmp abk (b\<lparr>b_data := b_data b1\<rparr>) rs"
  proof (rule indexes_ok_grow)
    show "drop batchHeaderLen (take (length (b_data b)) (b_data b1)) = drop batchHeaderLen (b_data b)"
      by (cases "b_data b = []") (simp_all add: assms(2) started_def)
    show "batchHeaderLen + length (recs_bytes rs) < 2 ^ 32" using assms(3) pos maxBatchSize_less by linarith
  qed (use B in \<open>simp_all add: assms(2) started_def\<close>)
  then show "indexes_ok cmp abk b1 rs" using assms(4-8) by (cases "b_index b") (simp_all add: indexes_ok_def)
qed

end

lemma copy_set_op_index [simp]:
  "copy_key key (set_op_index r b) = set_op_index r (copy_key key b)"
  "copy_value v (set_op_index r b) = set_op_index r (copy_value v b)"
  by (simp_all add: copy_key_def copy_value_def copy_slice_def set_op_index_def)

lemma set_op_index_fields [simp]:
  "b_data (set_op_index r b) = b_data b" "b_cap (set_op_index r b) = b_cap b" "b_count (set_op_index r b) = b_count b"
  "b_memTableSize (set_op_index r b) = b_memTableSize b" "b_cmp (set_op_index r b) = b_cmp b"
  "b_abbreviatedKey (set_op_index r b) = b_abbreviatedKey b" "b_db (set_op_index r b) = b_db b"
  "b_countRangeDels (set_op_index r b) = b_countRangeDels b" "b_countRangeKeys (set_op_index r b) = b_countRangeKeys b"
  "b_index (set_op_index r b) = b_index b" "b_rangeDelIndex (set_op_index r b) = b_rangeDelIndex b"
  "b_rangeKeyIndex (set_op_index r b) = b_rangeKeyIndex b"
  "b_minimumFormatMajorVersion (set_op_index r b) = b_minimumFormatMajorVersion b"
  "b_ingestedSSTBatch (set_op_index r b) = b_ingestedSSTBatch b" "b_committing (set_op_index r b) = b_committing b"
  "op_offset (b_deferredOp (set_op_index r b)) = op_offset (b_deferredOp b)"
  "op_index (b_deferredOp (set_op_index r b)) = r"
  by (simp_all add: set_op_index_def)

lemma started_update [simp]:
  "started (b\<lparr>b_minimumFormatMajorVersion := f\<rparr>) = started b" "started (b\<lparr>b_ingestedSSTBatch := g\<rparr>) = started b"
  by (simp_all add: started_def)

text \<open>The batch with its record, before it is added to an index.\<close>

definition filled :: "batch_record \<Rightarrow> nat \<Rightarrow> Batch \<Rightarrow> Batch" where
  "filled = (\<lambda>(kind, key, v) c b. prepared kind key v (has_value kind) c b)"

lemma filled_fields [simp]:
  "b_data (filled r c b) = started b @ rec_bytes r" "b_cap (filled r c b) = c" "b_count (filled r c b) = b_count b + 1"
  "b_memTableSize (filled r c b) = b_memTableSize b + rec_size r"
  "b_cmp (filled r c b) = b_cmp b" "b_abbreviatedKey (filled r c b) = b_abbreviatedKey b" "b_db (filled r c b) = b_db b"
  "b_countRangeDels (filled r c b) = b_countRangeDels b" "b_countRangeKeys (filled r c b) = b_countRangeKeys b"
  "b_index (filled r c b) = b_index b" "b_rangeDelIndex (filled r c b) = b_rangeDelIndex b"
  "b_rangeKeyIndex (filled r c b) = b_rangeKeyIndex b"
  "b_minimumFormatMajorVersion (filled r c b) = b_minimumFormatMajorVersion b"
  "b_ingestedSSTBatch (filled r c b) = b_ingestedSSTBatch b" "b_committing (filled r c b) = b_committing b"
  "op_offset (b_deferredOp (filled r c b)) = of_nat (length (started b))"
  "op_index (b_deferredOp (filled r c b)) = op_index (b_deferredOp b)"
  by (simp_all add: filled_def rec_bytes_def rec_size_def split: prod.splits)

lemma prepare_kv_cases:
  assumes "space_ok b" "\<not> b_committing b" "has_value kind"
  obtains (big) "prepareDeferredKeyValueRecord env (length key) (length v) kind b = Inl PanicBatchTooLarge"
      "maxBatchSize \<le> length (started b) + rec_space (kind, key, v)"
  | (fits) X Y c where "length (started b) + rec_space (kind, key, v) < maxBatchSize"
      "prepareDeferredKeyValueRecord env (length key) (length v) kind b = Inr (prepared kind X Y True c b)"
      "length X = length key" "length Y = length v" "length (started b @ rec_bytes (kind, key, v)) \<le> c"
      "copy_value v (copy_key key (prepared kind X Y True c b)) = filled (kind, key, v) c b"
  using prepare_kv [OF assms(1,2), of env "length key" "length v" kind] assms(3)
  by (auto simp add: rec_space_def rec_bytes_def filled_def copy_key_prepared copy_value_prepared)

lemma prepare_k_cases:
  assumes "space_ok b" "\<not> b_committing b" "\<not> has_value kind"
  obtains (big) "prepareDeferredKeyRecord env (length key) kind b = Inl PanicBatchTooLarge"
      "maxBatchSize \<le> length (started b) + rec_space (kind, key, [])"
  | (fits) X c where "length (started b) + rec_space (kind, key, []) < maxBatchSize"
      "prepareDeferredKeyRecord env (length key) kind b = Inr (prepared kind X [] False c b)"
      "length X = length key" "length (started b @ rec_bytes (kind, key, [])) \<le> c"
      "copy_key key (prepared kind X [] False c b) = filled (kind, key, []) c b"
  using prepare_k [OF assms(1,2), of env "length key" kind] assms(3)
  by (auto simp add: rec_space_def rec_bytes_def filled_def copy_key_prepared)

context abbreviated_order
begin

text \<open>The point operations end by adding the record to the index of points.\<close>

lemma finish_point_outcome:
  assumes rep: "batch_rep cmp abk b rs" and n: "368 + 184 * Suc (length rs) \<le> maxNodesSize"
    and r: "valid_record r" "is_point (fst r)"
    and fits: "length (started b) + rec_space r < maxBatchSize" and c: "length (started b @ rec_bytes r) \<le> c"
    and f: "f = max (b_minimumFormatMajorVersion b) (format_of [r])"
  shows "outcome cmp abk rs r b (finish_point env (set_op_index x (filled r c (b\<lparr>b_minimumFormatMajorVersion := f\<rparr>))))"
proof -
  let ?b = "b\<lparr>b_minimumFormatMajorVersion := f\<rparr>"
  let ?b1 = "set_op_index x (filled r c ?b)"
  have g: "indexes_ok cmp abk ?b1 rs" "with_last (b_data ?b1) rs r" "length (b_data ?b1) < maxBatchSize"
      "length (started b) = batchHeaderLen + length (recs_bytes rs)"
    using grown_ok [OF rep, of ?b1 r] fits n by simp_all
  have off: "op_offset (b_deferredOp ?b1) = of_nat (batchHeaderLen + length (recs_bytes rs))" using g(4) by simp
  obtain i where i: "finish_point env ?b1 = Inr (None, ?b1\<lparr>b_index := i\<rparr>)" "indexes_ok cmp abk (?b1\<lparr>b_index := i\<rparr>) (rs @ [r])"
    using add_point_ok [OF g(1,2) r(2)] off unfolding finish_point_def by metis
  have a: "appended r b (?b1\<lparr>b_index := i\<rparr>)"
    using r(2) c f by (simp add: appended_def space_ok_def) (simp add: is_point_def counted_def)
  show ?thesis using rep_appended [OF rep a r(1) _ i(2)] i(1) a fits g(3) by (auto simp add: outcome_def)
qed

lemma finish_point_plain:
  assumes "batch_rep cmp abk b rs" "368 + 184 * Suc (length rs) \<le> maxNodesSize" "valid_record r" "is_point (fst r)"
    and "length (started b) + rec_space r < maxBatchSize" "length (started b @ rec_bytes r) \<le> c" "format_of [r] = 0"
  shows "outcome cmp abk rs r b (finish_point env (set_op_index x (filled r c b)))"
  using finish_point_outcome [OF assms(1-6) refl, of env x] assms(7) by simp

lemma rep_space: "batch_rep cmp abk b rs \<Longrightarrow> space_ok b"
  by (simp add: batch_rep_def)

lemma kv_point_outcome:
  assumes "batch_rep cmp abk b rs" "368 + 184 * Suc (length rs) \<le> maxNodesSize" "\<not> b_committing b"
    and "has_value kind" "is_point kind" "valid_record (kind, key, v)" "format_of [(kind, key, v)] = 0"
  shows "outcome cmp abk rs (kind, key, v) b
    (rbind (prepareDeferredKeyValueRecord env (length key) (length v) kind b)
      (\<lambda>b1. finish_point env (copy_value v (copy_key key (set_op_index (point_ref b1) b1)))))"
proof (rule prepare_kv_cases [OF rep_space [OF assms(1)] assms(3,4), of env key v])
  fix X Y c
  assume a: "length (started b) + rec_space (kind, key, v) < maxBatchSize"
    "prepareDeferredKeyValueRecord env (length key) (length v) kind b = Inr (prepared kind X Y True c b)"
    "length (started b @ rec_bytes (kind, key, v)) \<le> c"
    "copy_value v (copy_key key (prepared kind X Y True c b)) = filled (kind, key, v) c b"
  then show ?thesis
    using finish_point_plain [OF assms(1,2,6) _ a(1,3) assms(7), of env "point_ref (prepared kind X Y True c b)"] assms(5) by simp
qed (simp add: outcome_def)

lemma k_point_outcome:
  assumes "batch_rep cmp abk b rs" "368 + 184 * Suc (length rs) \<le> maxNodesSize" "\<not> b_committing b"
    and "\<not> has_value kind" "is_point kind" "valid_record (kind, key, [])" "format_of [(kind, key, [])] = 0"
  shows "outcome cmp abk rs (kind, key, []) b
    (rbind (prepareDeferredKeyRecord env (length key) kind b)
      (\<lambda>b1. finish_point env (copy_key key (set_op_index (point_ref b1) b1))))"
proof (rule prepare_k_cases [OF rep_space [OF assms(1)] assms(3,4), of env key])
  fix X c
  assume a: "length (started b) + rec_space (kind, key, []) < maxBatchSize"
    "prepareDeferredKeyRecord env (length key) kind b = Inr (prepared kind X [] False c b)"
    "length (started b @ rec_bytes (kind, key, [])) \<le> c"
    "copy_key key (prepared kind X [] False c b) = filled (kind, key, []) c b"
  then show ?thesis
    using finish_point_plain [OF assms(1,2,6) _ a(1,3) assms(7), of env "point_ref (prepared kind X [] False c b)"] assms(5) by simp
qed (simp add: outcome_def)

lemma rbind_Inr_right: "rbind (rbind x (\<lambda>y. Inr (g y))) f = rbind x (\<lambda>y. f (g y))"
  by (cases x) simp_all

lemma point_ops_outcome:
  assumes "batch_rep cmp abk b rs" "368 + 184 * Suc (length rs) \<le> maxNodesSize" "\<not> b_committing b"
  shows "outcome cmp abk rs (InternalKeyKindSet, key, v) b (Batch_Set env key v b)"
    "outcome cmp abk rs (InternalKeyKindMerge, key, v) b (Batch_Merge env key v b)"
    "outcome cmp abk rs (InternalKeyKindDelete, key, []) b (Batch_Delete env key b)"
    "outcome cmp abk rs (InternalKeyKindSingleDelete, key, []) b (Batch_SingleDelete env key b)"
  unfolding Batch_Set_def Batch_Merge_def Batch_Delete_def Batch_SingleDelete_def SetDeferred_def MergeDeferred_def
    DeleteDeferred_def SingleDeleteDeferred_def rbind_Inr_right
  by (rule kv_point_outcome [OF assms] k_point_outcome [OF assms]; simp add: kind_defs kind_classes valid_record_def format_of_def)+

lemma DeleteSized_outcome:
  assumes "batch_rep cmp abk b rs" "368 + 184 * Suc (length rs) \<le> maxNodesSize" "\<not> b_committing b"
  shows "outcome cmp abk rs (op_record (OpDeleteSized key n)) b (Batch_DeleteSized env key n b)"
proof -
  let ?v = "put_uvarint (ucast n + of_nat (length key))" and ?k = InternalKeyKindDeleteSized
  let ?f = "max (b_minimumFormatMajorVersion b) FormatDeleteSizedAndObsolete"
  let ?b = "b\<lparr>b_minimumFormatMajorVersion := ?f\<rparr>"
  have hv: "has_value ?k" by (simp add: has_value_def)
  have fmt: "format_of [(?k, key, ?v)] = FormatDeleteSizedAndObsolete" by (simp add: format_of_def)
  have raise: "(if b_minimumFormatMajorVersion b < FormatDeleteSizedAndObsolete
      then b\<lparr>b_minimumFormatMajorVersion := FormatDeleteSizedAndObsolete\<rparr> else b) = ?b"
    by (simp add: max_def)
  have eq: "Batch_DeleteSized env key n b =
      rbind (prepareDeferredKeyValueRecord env (length key) (length ?v) ?k ?b) (\<lambda>b1.
        finish_point env (copy_key key (copy_value ?v (set_op_index (point_ref b1) b1))))"
    unfolding Batch_DeleteSized_def DeleteSizedDeferred_def Let_def raise rbind_Inr_right ..
  have space: "space_ok ?b" using rep_space [OF assms(1)] by (simp add: space_ok_def)
  show ?thesis
  proof (rule prepare_kv_cases [OF space _ hv, of env key ?v])
    fix X Y c
    assume a: "length (started ?b) + rec_space (?k, key, ?v) < maxBatchSize"
      "prepareDeferredKeyValueRecord env (length key) (length ?v) ?k ?b = Inr (prepared ?k X Y True c ?b)"
      "length X = length key" "length Y = length ?v" "length (started ?b @ rec_bytes (?k, key, ?v)) \<le> c"
    have "copy_key key (copy_value ?v (prepared ?k X Y True c ?b)) = filled (?k, key, ?v) c ?b"
      using a(3,4) hv by (simp add: filled_def copy_key_prepared copy_value_prepared)
    then show ?thesis
      using finish_point_outcome [OF assms(1,2) valid_op_record [of "OpDeleteSized key n"], of c ?f env "point_ref (prepared ?k X Y True c ?b)"]
        a(1,5) fmt unfolding eq a(2) by (simp add: is_point_def is_range_key_def kind_defs)
  qed (use assms(3) eq in \<open>simp_all add: outcome_def\<close>)
qed

end

text \<open>The range operations fill in the key and the value after the index of ranges was chosen.\<close>

lemma copy_ranges [simp]:
  "copy_key key (b\<lparr>b_countRangeDels := n, b_tombstones := t, b_tombstonesSeqNum := q, b_rangeDelIndex := i\<rparr>) =
     (copy_key key b)\<lparr>b_countRangeDels := n, b_tombstones := t, b_tombstonesSeqNum := q, b_rangeDelIndex := i\<rparr>"
  "copy_value v (b\<lparr>b_countRangeDels := n, b_tombstones := t, b_tombstonesSeqNum := q, b_rangeDelIndex := i\<rparr>) =
     (copy_value v b)\<lparr>b_countRangeDels := n, b_tombstones := t, b_tombstonesSeqNum := q, b_rangeDelIndex := i\<rparr>"
  "copy_key key (b\<lparr>b_countRangeKeys := n, b_minimumFormatMajorVersion := f, b_rangeKeys := t, b_rangeKeysSeqNum := q, b_rangeKeyIndex := i\<rparr>) =
     (copy_key key b)\<lparr>b_countRangeKeys := n, b_minimumFormatMajorVersion := f, b_rangeKeys := t, b_rangeKeysSeqNum := q, b_rangeKeyIndex := i\<rparr>"
  "copy_value v (b\<lparr>b_countRangeKeys := n, b_minimumFormatMajorVersion := f, b_rangeKeys := t, b_rangeKeysSeqNum := q, b_rangeKeyIndex := i\<rparr>) =
     (copy_value v b)\<lparr>b_countRangeKeys := n, b_minimumFormatMajorVersion := f, b_rangeKeys := t, b_rangeKeysSeqNum := q, b_rangeKeyIndex := i\<rparr>"
  by (simp_all add: copy_key_def copy_value_def copy_slice_def)

lemma copy_set_range_op_index [simp]:
  "copy_key key (set_range_op_index r b) = set_range_op_index r (copy_key key b)"
  "copy_value v (set_range_op_index r b) = set_range_op_index r (copy_value v b)"
  by (cases "b_index b"; simp add: set_range_op_index_def copy_key_def copy_value_def copy_slice_def set_op_index_def)+

lemma set_range_op_index_fields [simp]:
  "b_data (set_range_op_index r b) = b_data b" "b_cap (set_range_op_index r b) = b_cap b"
  "b_count (set_range_op_index r b) = b_count b" "b_memTableSize (set_range_op_index r b) = b_memTableSize b"
  "b_cmp (set_range_op_index r b) = b_cmp b" "b_abbreviatedKey (set_range_op_index r b) = b_abbreviatedKey b"
  "b_db (set_range_op_index r b) = b_db b" "b_countRangeDels (set_range_op_index r b) = b_countRangeDels b"
  "b_countRangeKeys (set_range_op_index r b) = b_countRangeKeys b" "b_index (set_range_op_index r b) = b_index b"
  "b_rangeDelIndex (set_range_op_index r b) = b_rangeDelIndex b"
  "b_rangeKeyIndex (set_range_op_index r b) = b_rangeKeyIndex b"
  "b_minimumFormatMajorVersion (set_range_op_index r b) = b_minimumFormatMajorVersion b"
  "b_ingestedSSTBatch (set_range_op_index r b) = b_ingestedSSTBatch b" "b_committing (set_range_op_index r b) = b_committing b"
  "op_offset (b_deferredOp (set_range_op_index r b)) = op_offset (b_deferredOp b)"
  "b_index b \<noteq> None \<Longrightarrow> op_index (b_deferredOp (set_range_op_index r b)) = r"
  by (cases "b_index b"; simp add: set_range_op_index_def)+

lemma indexes_ok_cong:
  assumes "b_index b' = b_index b" "b_rangeDelIndex b' = b_rangeDelIndex b" "b_rangeKeyIndex b' = b_rangeKeyIndex b"
    "b_cmp b' = b_cmp b" "b_abbreviatedKey b' = b_abbreviatedKey b" "b_data b' = b_data b"
  shows "indexes_ok cmp abk b' rs = indexes_ok cmp abk b rs"
  using assms by (cases "b_index b") (simp_all add: indexes_ok_def)

lemma incrementRangeKeysCount_fields:
  "incrementRangeKeysCount env b = Inr b1 \<Longrightarrow> b_data b1 = b_data b \<and>
     op_key (b_deferredOp b1) = op_key (b_deferredOp b) \<and> op_value (b_deferredOp b1) = op_value (b_deferredOp b)"
  by (auto simp add: incrementRangeKeysCount_def use_rangeKeyIndex_def set_range_op_index_def set_op_index_def Let_def split: option.splits if_splits)

text \<open>The value that \<^verbatim>\<open>RangeKeySet\<close> writes to has the length it asked for.\<close>

lemma rangeKeyDeferred_value:
  assumes "space_ok b" "\<not> b_committing b" "rangeKeyDeferred kind env (length s) l b = Inr b1"
  shows "\<exists>i. op_value (b_deferredOp (copy_key s b1)) = (i, l) \<and> i + l \<le> length (b_data (copy_key s b1))"
proof -
  obtain X Y c where p: "prepareDeferredKeyValueRecord env (length s) l kind b = Inr (prepared kind X Y True c b)"
      "length Y = l" "incrementRangeKeysCount env (prepared kind X Y True c b) = Inr b1"
    using prepare_kv [OF assms(1,2), of env "length s" l kind] assms(3) by (auto simp add: rangeKeyDeferred_def)
  show ?thesis
    using incrementRangeKeysCount_fields [OF p(3)] p(2)
    by (simp add: prepared_def Let_def copy_key_def copy_slice_def)
qed

context abbreviated_order
begin

lemma rangeDel_outcome:
  assumes rep: "batch_rep cmp abk b rs" and n: "368 + 184 * Suc (length rs) \<le> maxNodesSize" and cm: "\<not> b_committing b"
  shows "outcome cmp abk rs (InternalKeyKindRangeDelete, s, e) b (Batch_DeleteRange env s e b)"
proof -
  let ?r = "(InternalKeyKindRangeDelete, s, e)"
  have hv: "has_value InternalKeyKindRangeDelete" by (simp add: has_value_def)
  show ?thesis
  proof (rule prepare_kv_cases [OF rep_space [OF rep] cm hv, of env s e])
    fix X Y c
    assume a: "length (started b) + rec_space ?r < maxBatchSize"
      "prepareDeferredKeyValueRecord env (length s) (length e) InternalKeyKindRangeDelete b = Inr (prepared InternalKeyKindRangeDelete X Y True c b)"
      "length (started b @ rec_bytes ?r) \<le> c"
      "copy_value e (copy_key s (prepared InternalKeyKindRangeDelete X Y True c b)) = filled ?r c b"
    let ?P = "prepared InternalKeyKindRangeDelete X Y True c b"
    let ?F = "filled ?r c b" and ?n = "b_countRangeDels b + 1"
    have g: "indexes_ok cmp abk ?F rs" "with_last (b_data ?F) rs ?r" "length (b_data ?F) < maxBatchSize"
        "length (started b) = batchHeaderLen + length (recs_bytes rs)"
      using grown_ok [OF rep, of ?F ?r] a(1) n by simp_all
    have g': "indexes_ok cmp abk (?F\<lparr>b_countRangeDels := ?n\<rparr>) rs"
      using g(1) by (simp add: indexes_ok_cong [of "?F\<lparr>b_countRangeDels := ?n\<rparr>" ?F])
    obtain t q i where u: "use_rangeDelIndex env (?P\<lparr>b_countRangeDels := ?n\<rparr>) =
          Inr (?P\<lparr>b_countRangeDels := ?n, b_tombstones := t, b_tombstonesSeqNum := q, b_rangeDelIndex := i\<rparr>)"
        "indexes_ok cmp abk (?F\<lparr>b_countRangeDels := ?n, b_tombstones := t, b_tombstonesSeqNum := q, b_rangeDelIndex := i\<rparr>) rs"
        "b_index b = None \<longleftrightarrow> i = None"
      by (rule use_rangeDelIndex_ok [OF g', of "?P\<lparr>b_countRangeDels := ?n\<rparr>" env]) simp_all
    let ?G = "?F\<lparr>b_countRangeDels := ?n, b_tombstones := t, b_tombstonesSeqNum := q, b_rangeDelIndex := i\<rparr>"
    let ?H = "set_range_op_index RangeDelIndex ?G"
    have ix: "indexes_ok cmp abk ?H rs" using u(2) by (simp add: indexes_ok_cong [of ?H ?G])
    obtain i' where f: "index_add env (op_index (b_deferredOp ?H)) (of_nat (batchHeaderLen + length (recs_bytes rs))) ?H =
          Inr (None, ?H\<lparr>b_rangeDelIndex := i'\<rparr>)"
        "indexes_ok cmp abk (?H\<lparr>b_rangeDelIndex := i'\<rparr>) (rs @ [?r])"
      by (rule add_rangeDel_ok [OF ix, of ?r "op_index (b_deferredOp ?H)" env]) (use g(2) u(3) in simp_all)
    have "Batch_DeleteRange env s e b = DeferredBatchOp_Finish env ?H"
      unfolding Batch_DeleteRange_def DeleteRangeDeferred_def a(2) by (simp add: u(1) a(4))
    also have "\<dots> = Inr (None, ?H\<lparr>b_rangeDelIndex := i'\<rparr>)"
      unfolding DeferredBatchOp_Finish_def using f(1) g(4) by simp
    finally have eq: "Batch_DeleteRange env s e b = Inr (None, ?H\<lparr>b_rangeDelIndex := i'\<rparr>)" .
    have ap: "appended ?r b (?H\<lparr>b_rangeDelIndex := i'\<rparr>)"
      unfolding appended_def using a(3)
      by (simp add: space_ok_def format_of_def counted_def is_range_key_def kind_defs)
    then show ?thesis
      using rep_appended [OF rep ap _ _ f(2)] eq a(1) g(3) hv by (auto simp add: outcome_def valid_record_def kind_defs)
  qed (simp add: outcome_def Batch_DeleteRange_def DeleteRangeDeferred_def)
qed

lemma rangeKey_outcome:
  assumes rep: "batch_rep cmp abk b rs" and n: "368 + 184 * Suc (length rs) \<le> maxNodesSize" and cm: "\<not> b_committing b"
    and k: "is_range_key kind"
  shows "outcome cmp abk rs (kind, s, v) b
    (rbind (rangeKeyDeferred kind env (length s) (length v) b) (\<lambda>b1. DeferredBatchOp_Finish env (copy_value v (copy_key s b1))))"
    (is "outcome _ _ _ _ _ ?res")
proof -
  let ?r = "(kind, s, v)"
  have hv: "has_value kind" using k by (auto simp add: has_value_def is_range_key_def)
  have k': "kind \<noteq> InternalKeyKindRangeDelete" "counted kind" "kind \<noteq> InternalKeyKindDeleteSized" "kind \<le> InternalKeyKindMax"
    using k by (auto simp add: is_range_key_def counted_def kind_defs)
  show ?thesis
  proof (rule prepare_kv_cases [OF rep_space [OF rep] cm hv, of env s v])
    fix X Y c
    assume a: "length (started b) + rec_space ?r < maxBatchSize"
      "prepareDeferredKeyValueRecord env (length s) (length v) kind b = Inr (prepared kind X Y True c b)"
      "length (started b @ rec_bytes ?r) \<le> c"
      "copy_value v (copy_key s (prepared kind X Y True c b)) = filled ?r c b"
    let ?P = "prepared kind X Y True c b" and ?F = "filled ?r c b" and ?n = "b_countRangeKeys b + 1"
    let ?f = "max (b_minimumFormatMajorVersion b) FormatRangeKeys"
    let ?P1 = "?P\<lparr>b_countRangeKeys := ?n, b_minimumFormatMajorVersion := ?f\<rparr>"
    let ?F1 = "?F\<lparr>b_countRangeKeys := ?n, b_minimumFormatMajorVersion := ?f\<rparr>"
    have g: "indexes_ok cmp abk ?F rs" "with_last (b_data ?F) rs ?r" "length (b_data ?F) < maxBatchSize"
        "length (started b) = batchHeaderLen + length (recs_bytes rs)"
      using grown_ok [OF rep, of ?F ?r] a(1) n by simp_all
    have g': "indexes_ok cmp abk ?F1 rs" using g(1) by (simp add: indexes_ok_cong [of ?F1 ?F])
    obtain t q i where u: "use_rangeKeyIndex env ?P1 = Inr (?P1\<lparr>b_rangeKeys := t, b_rangeKeysSeqNum := q, b_rangeKeyIndex := i\<rparr>)"
        "indexes_ok cmp abk (?F1\<lparr>b_rangeKeys := t, b_rangeKeysSeqNum := q, b_rangeKeyIndex := i\<rparr>) rs"
        "b_index b = None \<longleftrightarrow> i = None"
      by (rule use_rangeKeyIndex_ok [OF g', of ?P1 env]) simp_all
    let ?G = "?F1\<lparr>b_rangeKeys := t, b_rangeKeysSeqNum := q, b_rangeKeyIndex := i\<rparr>"
    let ?H = "set_range_op_index RangeKeyIndex ?G"
    have ix: "indexes_ok cmp abk ?H rs" using u(2) by (simp add: indexes_ok_cong [of ?H ?G])
    obtain i' where f: "index_add env (op_index (b_deferredOp ?H)) (of_nat (batchHeaderLen + length (recs_bytes rs))) ?H =
          Inr (None, ?H\<lparr>b_rangeKeyIndex := i'\<rparr>)"
        "indexes_ok cmp abk (?H\<lparr>b_rangeKeyIndex := i'\<rparr>) (rs @ [?r])"
      by (rule add_rangeKey_ok [OF ix, of ?r "op_index (b_deferredOp ?H)" env]) (use g(2) u(3) k in simp_all)
    have same: "?P\<lparr>b_countRangeKeys := ?n, b_minimumFormatMajorVersion := b_minimumFormatMajorVersion b\<rparr> = ?P\<lparr>b_countRangeKeys := ?n\<rparr>"
      by (simp add: prepared_def Let_def)
    have raise: "incrementRangeKeysCount env ?P =
        rbind (use_rangeKeyIndex env ?P1) (\<lambda>b3. Inr (set_range_op_index RangeKeyIndex b3))"
      by (cases "b_minimumFormatMajorVersion b < FormatRangeKeys") (simp_all add: incrementRangeKeysCount_def max_def same)
    have "?res = DeferredBatchOp_Finish env ?H"
      unfolding rangeKeyDeferred_def a(2) by (simp add: raise u(1) a(4))
    also have "\<dots> = Inr (None, ?H\<lparr>b_rangeKeyIndex := i'\<rparr>)"
      unfolding DeferredBatchOp_Finish_def using f(1) g(4) by simp
    finally have eq: "?res = Inr (None, ?H\<lparr>b_rangeKeyIndex := i'\<rparr>)" .
    have ap: "appended ?r b (?H\<lparr>b_rangeKeyIndex := i'\<rparr>)"
      unfolding appended_def using a(3) k k' by (simp add: space_ok_def format_of_def)
    then show ?thesis
      using rep_appended [OF rep ap _ _ f(2)] eq a(1) g(3) hv k' by (auto simp add: outcome_def valid_record_def)
  qed (simp add: outcome_def rangeKeyDeferred_def)
qed

lemma LogData_outcome:
  assumes rep: "batch_rep cmp abk b rs" and n: "368 + 184 * Suc (length rs) \<le> maxNodesSize" and cm: "\<not> b_committing b"
  shows "outcome cmp abk rs (InternalKeyKindLogData, d, []) b (Batch_LogData env d b)"
proof -
  let ?r = "(InternalKeyKindLogData, d, [] :: bytes)"
  have hv: "\<not> has_value InternalKeyKindLogData" by (simp add: has_value_def kind_defs)
  show ?thesis
  proof (rule prepare_k_cases [OF rep_space [OF rep] cm hv, of env d])
    fix X c
    assume a: "length (started b) + rec_space ?r < maxBatchSize"
      "prepareDeferredKeyRecord env (length d) InternalKeyKindLogData b = Inr (prepared InternalKeyKindLogData X [] False c b)"
      "length (started b @ rec_bytes ?r) \<le> c"
      "copy_key d (prepared InternalKeyKindLogData X [] False c b) = filled ?r c b"
    let ?G = "(filled ?r c b)\<lparr>b_count := b_count b, b_memTableSize := b_memTableSize b\<rparr>"
    have g: "indexes_ok cmp abk ?G rs" "length (b_data ?G) < maxBatchSize" using grown_ok [OF rep, of ?G ?r] a(1) n by simp_all
    have ap: "appended ?r b ?G"
      using a(3) by (simp add: appended_def space_ok_def format_of_def counted_def is_range_key_def kind_defs)
    have "indexes_ok cmp abk ?G (rs @ [?r])" using indexes_ok_skip [OF g(1)] by simp
    then show ?thesis
      using rep_appended [OF rep ap] a g(2) ap by (auto simp add: outcome_def Batch_LogData_def valid_record_def kind_defs)
  qed (simp add: outcome_def Batch_LogData_def)
qed

lemma rangeKey_encoded:
  assumes "space_ok b" "\<not> b_committing b" "l = length v" "\<And>dst. length dst = length v \<Longrightarrow> encode dst = Inr (v, length v)"
  shows "rbind (rangeKeyDeferred kind env (length s) l b) (\<lambda>b1. encode_value env l encode (copy_key s b1)) =
    rbind (rangeKeyDeferred kind env (length s) (length v) b) (\<lambda>b1. DeferredBatchOp_Finish env (copy_value v (copy_key s b1)))"
proof (cases "rangeKeyDeferred kind env (length s) (length v) b")
  case (Inr b1)
  obtain i where "op_value (b_deferredOp (copy_key s b1)) = (i, length v)" "i + length v \<le> length (b_data (copy_key s b1))"
    using rangeKeyDeferred_value [OF assms(1,2) Inr] by blast
  then show ?thesis using Inr assms(3,4) by (simp add: encode_value_def)
qed (simp add: assms(3))

lemma RangeKeySet_outcome:
  assumes "batch_rep cmp abk b rs" "368 + 184 * Suc (length rs) \<le> maxNodesSize" "\<not> b_committing b"
  shows "outcome cmp abk rs (op_record (OpRangeKeySet s e suff v)) b (Batch_RangeKeySet env s e suff v b)"
proof -
  let ?sv = "[\<lparr>sv_suffix = suff, sv_value = v\<rparr>]"
  have k: "is_range_key InternalKeyKindRangeKeySet" by (simp add: is_range_key_def)
  have len: "length e \<le> EncodedSetValueLen e ?sv" "length suff \<le> EncodedSetValueLen e ?sv" "length v \<le> EncodedSetValueLen e ?sv"
    by (simp_all add: EncodedSetValueLen_def)
  have len': "length e \<le> length (set_value e ?sv)" "length suff \<le> length (set_value e ?sv)"
    "length v \<le> length (set_value e ?sv)"
    by (simp_all add: set_value_def put_len_def)
  show ?thesis
  proof (cases "EncodedSetValueLen e ?sv = length (set_value e ?sv)")
    case True
    then have "EncodeSetValue dst e ?sv = Inr (set_value e ?sv, length (set_value e ?sv))" if "length dst = length (set_value e ?sv)" for dst
      using EncodeSetValue_fits [of e ?sv dst] that by simp
    then show ?thesis
      using rangeKey_outcome [OF assms k, of s "set_value e ?sv" env] rangeKey_encoded [OF rep_space [OF assms(1)] assms(3) True]
      by (simp add: Batch_RangeKeySet_def rangeKeySetDeferred_def Let_def)
  next
    case False
    then have "2 ^ 32 \<le> length e \<or> 2 ^ 32 \<le> length suff \<or> 2 ^ 32 \<le> length v"
      using EncodedSetValueLen_eq [of e ?sv] by (auto simp flip: not_less)
    then have big: "maxBatchSize \<le> EncodedSetValueLen e ?sv" "maxBatchSize \<le> length (set_value e ?sv)"
      using len len' maxBatchSize_less by linarith+
    have hv: "has_value InternalKeyKindRangeKeySet" by (simp add: has_value_def)
    have "prepareDeferredKeyValueRecord env (length s) (EncodedSetValueLen e ?sv) InternalKeyKindRangeKeySet b = Inl PanicBatchTooLarge"
      using prepare_kv [OF rep_space [OF assms(1)] assms(3), of env "length s" "EncodedSetValueLen e ?sv"] big(1) by auto
    then show ?thesis using big(2) hv
      by (simp add: outcome_def Batch_RangeKeySet_def rangeKeySetDeferred_def rangeKeyDeferred_def rec_space_def)
  qed
qed

lemma RangeKeyUnset_outcome:
  assumes "batch_rep cmp abk b rs" "368 + 184 * Suc (length rs) \<le> maxNodesSize" "\<not> b_committing b"
  shows "outcome cmp abk rs (op_record (OpRangeKeyUnset s e suff)) b (Batch_RangeKeyUnset env s e suff b)"
proof -
  have k: "is_range_key InternalKeyKindRangeKeyUnset" by (simp add: is_range_key_def)
  show ?thesis
  proof (cases "EncodedUnsetValueLen e [suff] = length (unset_value e [suff])")
    case True
    then have "EncodeUnsetValue dst e [suff] = Inr (unset_value e [suff], length (unset_value e [suff]))" if "length dst = length (unset_value e [suff])" for dst
      using EncodeUnsetValue_fits [of e "[suff]" dst] that by simp
    then show ?thesis
      using rangeKey_outcome [OF assms k, of s "unset_value e [suff]" env] rangeKey_encoded [OF rep_space [OF assms(1)] assms(3) True]
      by (simp add: Batch_RangeKeyUnset_def rangeKeyUnsetDeferred_def Let_def)
  next
    case False
    then have "2 ^ 32 \<le> length e \<or> 2 ^ 32 \<le> length suff" using EncodedUnsetValueLen_eq [of e "[suff]"] by (auto simp flip: not_less)
    moreover have "length e + length suff \<le> EncodedUnsetValueLen e [suff]" by (simp add: EncodedUnsetValueLen_def)
    moreover have "length e + length suff \<le> length (unset_value e [suff])" by (simp add: unset_value_def)
    ultimately have big: "maxBatchSize \<le> EncodedUnsetValueLen e [suff]" "maxBatchSize \<le> length (unset_value e [suff])"
      using maxBatchSize_less by linarith+
    have hv: "has_value InternalKeyKindRangeKeyUnset" by (simp add: has_value_def)
    have "prepareDeferredKeyValueRecord env (length s) (EncodedUnsetValueLen e [suff]) InternalKeyKindRangeKeyUnset b = Inl PanicBatchTooLarge"
      using prepare_kv [OF rep_space [OF assms(1)] assms(3), of env "length s" "EncodedUnsetValueLen e [suff]"] big(1) by auto
    then show ?thesis using big(2) hv
      by (simp add: outcome_def Batch_RangeKeyUnset_def rangeKeyUnsetDeferred_def rangeKeyDeferred_def rec_space_def)
  qed
qed

lemma run_op_outcome:
  assumes "batch_rep cmp abk b rs" "368 + 184 * Suc (length rs) \<le> maxNodesSize" "\<not> b_committing b"
  shows "outcome cmp abk rs (op_record op) b (run_op env op b)"
proof (cases op)
  case (OpRangeKeyDelete s e)
  have "is_range_key InternalKeyKindRangeKeyDelete" by (simp add: is_range_key_def)
  then show ?thesis using rangeKey_outcome [OF assms, of _ s e env] OpRangeKeyDelete
    by (simp add: Batch_RangeKeyDelete_def RangeKeyDeleteDeferred_def)
qed (use point_ops_outcome [OF assms] DeleteSized_outcome [OF assms] rangeDel_outcome [OF assms] RangeKeySet_outcome [OF assms]
    RangeKeyUnset_outcome [OF assms] LogData_outcome [OF assms] in simp_all)

end

section \<open>Sequences of operations\<close>

fun run_ops :: "batch_env \<Rightarrow> batch_op list \<Rightarrow> Batch \<Rightarrow> batch_result" where
  "run_ops env [] b = Inr (None, b)"
| "run_ops env (op # ops) b =
     rbind (run_op env op b) (\<lambda>(err, b1). case err of Some e \<Rightarrow> Inr (Some e, b1) | None \<Rightarrow> run_ops env ops b1)"

definition ops_space :: "batch_op list \<Rightarrow> nat" where
  "ops_space ops = sum_list (map (\<lambda>op. rec_space (op_record op)) ops)"

text \<open>Operations for which a batch and its indexes have room.\<close>

definition ops_fit :: "batch_op list \<Rightarrow> bool" where
  "ops_fit ops \<longleftrightarrow> batchHeaderLen + ops_space ops < maxBatchSize \<and> 368 + 184 * length ops \<le> maxNodesSize"

context abbreviated_order
begin

lemma run_ops_rep:
  assumes "batch_rep cmp abk b rs" "\<not> b_committing b" "length (started b) + ops_space ops < maxBatchSize"
    and "368 + 184 * (length rs + length ops) \<le> maxNodesSize"
  shows "\<exists>b1. run_ops env ops b = Inr (None, b1) \<and> batch_rep cmp abk b1 (rs @ map op_record ops) \<and>
    \<not> b_committing b1 \<and> b_db b1 = b_db b \<and>
    b_data b1 = (if ops = [] then b_data b else started b @ recs_bytes (map op_record ops))"
  using assms
proof (induction ops arbitrary: b rs)
  case (Cons op ops)
  let ?r = "op_record op"
  have fit: "length (started b) + rec_space ?r < maxBatchSize" "368 + 184 * Suc (length rs) \<le> maxNodesSize"
    using Cons.prems(3,4) by (simp_all add: ops_space_def)
  have "outcome cmp abk rs ?r b (run_op env op b)" by (rule run_op_outcome [OF Cons.prems(1) fit(2) Cons.prems(2)])
  then obtain b1 where b1: "run_op env op b = Inr (None, b1)" "appended ?r b b1" "batch_rep cmp abk b1 (rs @ [?r])"
    using fit(1) by (auto simp add: outcome_def)
  have data: "b_data b1 = started b @ rec_bytes ?r" and keep: "b_committing b1 = b_committing b" "b_db b1 = b_db b"
    using b1(2) by (simp_all add: appended_def)
  have st: "length (started b1) \<le> length (started b) + rec_space ?r"
    using length_rec_space [of ?r] by (simp add: started_def [of b1] data)
  have "\<exists>b2. run_ops env ops b1 = Inr (None, b2) \<and> batch_rep cmp abk b2 ((rs @ [?r]) @ map op_record ops) \<and>
      \<not> b_committing b2 \<and> b_db b2 = b_db b1 \<and>
      b_data b2 = (if ops = [] then b_data b1 else started b1 @ recs_bytes (map op_record ops))"
    by (rule Cons.IH [OF b1(3)]) (use Cons.prems st keep in \<open>simp_all add: ops_space_def\<close>)
  moreover have "started b1 = started b @ rec_bytes ?r" by (simp add: started_def [of b1] data)
  ultimately show ?case using b1(1) keep data by auto
qed (simp add: ops_space_def)

end

lemma new_batch_rep: "batch_rep cmp abk (newBatchWithSize n) []"
  by (simp add: batch_rep_def newBatchWithSize_def newBatch_def empty_Batch_def data_ok_def space_ok_def maxBatchSize_def
      records_def mem_size_def format_of_def indexes_ok_def)

text \<open>The batches a database hands out.\<close>

definition fresh_batch :: "batch_env \<Rightarrow> Batch \<Rightarrow> bool" where
  "fresh_batch env b \<longleftrightarrow>
     (\<exists>n. b = newBatchWithSize n) \<or> newIndexedBatch env bytes_compare AbbreviatedKey = Some b"

lemma fresh_batch_rep:
  assumes "fresh_batch env b"
  shows "batch_rep bytes_compare AbbreviatedKey b []" "b_data b = []" "\<not> b_committing b" "b_db b"
proof -
  have "batch_rep bytes_compare AbbreviatedKey b []" if new: "newIndexedBatch env bytes_compare AbbreviatedKey = Some b"
  proof -
    obtain s where s: "NewSkiplist (be_skl env) bytes_compare AbbreviatedKey = Some s"
        "b = (empty_Batch True)\<lparr>b_cmp := bytes_compare, b_abbreviatedKey := AbbreviatedKey, b_index := Some s\<rparr>"
      using new by (auto simp add: newIndexedBatch_def split: option.splits)
    have "idx_ok bytes_compare AbbreviatedKey is_point [] s []" by (rule abbr.idx_ok_new [OF s(1)]) simp
    then show ?thesis
      by (simp add: s(2) batch_rep_def empty_Batch_def data_ok_def space_ok_def maxBatchSize_def
          records_def mem_size_def format_of_def indexes_ok_def range_idx_ok_def)
  qed
  then show "batch_rep bytes_compare AbbreviatedKey b []" using assms new_batch_rep by (auto simp add: fresh_batch_def)
  show "b_data b = []" "\<not> b_committing b" "b_db b"
    using assms by (auto simp add: fresh_batch_def newBatchWithSize_def newBatch_def empty_Batch_def newIndexedBatch_def
        split: option.splits)
qed

section \<open>The representation\<close>

lemma batch_count_small:
  assumes "batch_rep cmp abk b rs"
  shows "unat (b_count b) = length (records counted rs)" "length (records counted rs) < 2 ^ 32 - 1"
proof -
  note B = assms [unfolded batch_rep_def]
  have "length (recs_bytes rs) \<le> length (b_data b)" using B by (auto simp add: data_ok_def)
  moreover have "length (records counted rs) \<le> length rs" by (simp add: records_def)
  ultimately show lt: "length (records counted rs) < 2 ^ 32 - 1"
    using length_recs_bytes [of rs] B by (simp add: maxBatchSize_def)
  have "b_count b = of_nat (length (records counted rs))" using B by blast
  then show "unat (b_count b) = length (records counted rs)" using lt by (simp add: unat_of_nat64)
qed

lemma copy_at_header: "copy_at 8 c (h @ t) = (take 8 h @ c) @ t" if "length h = 12" "length c = 4"
  using that by (simp add: copy_at_def)

context abbreviated_order
begin

lemma Batch_Repr_rep:
  assumes rep: "batch_rep cmp abk b rs"
  obtains h b1 where "Batch_Repr b = Inr (b_data b1, b1)" "batch_rep cmp abk b1 rs"
    "b_data b1 = h @ recs_bytes rs" "length h = batchHeaderLen" "drop 8 h = le_encode 4 (of_nat (length (records counted rs)) :: u32)"
    "b_committing b1 = b_committing b" "b_db b1 = b_db b"
proof -
  note B = rep [unfolded batch_rep_def]
  obtain c where i: "ensure_init batchHeaderLen b = Inr (b\<lparr>b_data := started b, b_cap := c\<rparr>)" "length (started b) \<le> c"
    using ensure_init_spec [OF rep_space [OF rep]] by blast
  obtain h where h: "length h = batchHeaderLen" "started b = h @ recs_bytes rs" using data_ok_started B by blast
  note n = batch_count_small [OF rep]
  let ?c = "ucast (b_count b) :: u32"
  have c: "?c = of_nat (length (records counted rs))"
    using n B by (simp add: word_unat_eq_iff unsigned_ucast_eq unsigned_of_nat take_bit_nat_eq_self)
  let ?h = "take 8 h @ le_encode 4 ?c"
  let ?b1 = "b\<lparr>b_data := ?h @ recs_bytes rs, b_cap := c\<rparr>"
  have cp: "copy_at 8 (le_encode 4 ?c) (h @ recs_bytes rs) = ?h @ recs_bytes rs"
    using h(1) by (intro copy_at_header) (simp_all add: batchHeaderLen_def)
  have len: "length ?h = batchHeaderLen" using h(1) by (simp add: batchHeaderLen_def)
  have eq: "Batch_Repr b = Inr (b_data ?b1, ?b1)"
    using i(1) n h cp by (simp add: Batch_Repr_def Batch_Count_def put_header_def batchCountOffset_def batchHeaderLen_def)
  have small: "batchHeaderLen + length (recs_bytes rs) < maxBatchSize"
    using B h by (cases "b_data b = []") (auto simp add: data_ok_def batchHeaderLen_def maxBatchSize_def)
  have ld: "length (b_data b) \<le> length (?h @ recs_bytes rs)"
    using h len B by (auto simp add: data_ok_def)
  have dr: "drop batchHeaderLen (take (length (b_data b)) (?h @ recs_bytes rs)) = drop batchHeaderLen (b_data b)"
    using h len B by (auto simp add: data_ok_def)
  have "indexes_ok cmp abk (b\<lparr>b_data := ?h @ recs_bytes rs\<rparr>) rs"
    by (rule indexes_ok_grow [OF _ ld dr]) (use B small maxBatchSize_less in \<open>auto\<close>)
  then have "indexes_ok cmp abk ?b1 rs" using indexes_ok_cong [of ?b1 "b\<lparr>b_data := ?h @ recs_bytes rs\<rparr>" cmp abk rs] by simp
  moreover have "data_ok (?h @ recs_bytes rs) rs" using len by (auto simp add: data_ok_def)
  moreover have "length (?h @ recs_bytes rs) < maxBatchSize" "length (?h @ recs_bytes rs) \<le> c"
    using small len i(2) h by simp_all
  ultimately have "batch_rep cmp abk ?b1 rs" using B unfolding batch_rep_def space_ok_def by simp
  moreover have "drop 8 ?h = le_encode 4 (of_nat (length (records counted rs)) :: u32)"
    using h(1) c by (simp add: batchHeaderLen_def)
  ultimately show thesis using that [of ?b1 ?h] eq len by simp
qed

end

lemma built_batch:
  assumes "fresh_batch env b0" "ops_fit ops"
  obtains b where "run_ops env ops b0 = Inr (None, b)" "batch_rep bytes_compare AbbreviatedKey b (map op_record ops)"
    "\<not> b_committing b" "b_db b" "b_data b = [] \<longleftrightarrow> ops = []"
proof -
  note f = fresh_batch_rep [OF assms(1)]
  have "length (started b0) + ops_space ops < maxBatchSize" "368 + 184 * (length [] + length ops) \<le> maxNodesSize"
    using assms(2) f(2) by (simp_all add: ops_fit_def started_def)
  from abbr.run_ops_rep [OF f(1,3) this, of env] show thesis using f(2,4) that by (auto simp add: started_def batchHeaderLen_def split: if_splits)
qed

subsection \<open>Recounting\<close>

definition recounted :: "batch_record list \<Rightarrow> Batch \<Rightarrow> Batch" where
  "recounted rs b =
     b\<lparr>b_memTableSize := b_memTableSize b + mem_size rs,
       b_countRangeDels := b_countRangeDels b + of_nat (length (records (\<lambda>k. k = InternalKeyKindRangeDelete) rs)),
       b_countRangeKeys := b_countRangeKeys b + of_nat (length (records is_range_key rs)),
       b_minimumFormatMajorVersion :=
         (if \<exists>r\<in>set rs. fst r = InternalKeyKindDeleteSized then max (b_minimumFormatMajorVersion b) FormatDeleteSizedAndObsolete
          else b_minimumFormatMajorVersion b)\<rparr>"

lemma refresh_loop_records:
  assumes "list_all valid_record rs" "length (recs_bytes rs) < 2 ^ 32" "\<forall>r\<in>set rs. fst r \<noteq> InternalKeyKindIngestSST"
  shows "refresh_loop (recs_bytes rs) b =
    (let b1 = recounted rs b in Inr (None, if 0 < b_countRangeKeys b1 then raise_format FormatRangeKeys b1 else b1))"
  using assms
proof (induction rs arbitrary: b)
  case Nil
  have "recounted [] b = b" by (simp add: recounted_def mem_size_def records_def)
  then show ?case by (simp add: refresh_loop.simps [of "[]"])
next
  case (Cons r rs)
  obtain kind key v where r: "r = (kind, key, v)" by (cases r)
  have nxt: "BatchReader_Next (rec_bytes r @ recs_bytes rs) = Inr (NextEntry kind key v (recs_bytes rs))"
    unfolding r using Cons.prems by (intro BatchReader_Next_record) (auto simp add: r)
  define b1 where "b1 = count_kind kind b"
  define b2 where "b2 = (if kind = InternalKeyKindDeleteSized then raise_format FormatDeleteSizedAndObsolete b1 else b1)"
  define b3 where "b3 = b2\<lparr>b_memTableSize := b_memTableSize b2 + memTableEntrySize (length key) (length v)\<rparr>"
  have "refresh_loop (rec_bytes r @ recs_bytes rs) b = refresh_loop (recs_bytes rs) b3"
    unfolding refresh_loop.simps [of "rec_bytes r @ recs_bytes rs"] nxt
    using Cons.prems(3) by (simp add: r b1_def b2_def b3_def Let_def)
  moreover have "recounted rs b3 = recounted (r # rs) b"
    unfolding b3_def b2_def b1_def recounted_def count_kind_def raise_format_def
    by (auto simp add: r mem_size_def records_def rec_size_def is_range_key_def kind_defs max_def)
  ultimately show ?case using Cons.IH [of b3] Cons.prems by simp
qed

lemma op_not_ingest: "fst (op_record op) \<noteq> InternalKeyKindIngestSST"
  by (cases op) (simp_all add: kind_defs)

lemma mem_size_split: "mem_size rs = mem_size (records sel rs) + mem_size (records (\<lambda>k. \<not> sel k) rs)"
  by (induction rs) (simp_all add: mem_size_def records_def)

lemma raise_format_recounted:
  assumes "length rs < 2 ^ 64" "b_minimumFormatMajorVersion b = 0" "b_countRangeKeys b = 0"
  shows "b_minimumFormatMajorVersion (if 0 < b_countRangeKeys (recounted rs b) then raise_format FormatRangeKeys (recounted rs b)
      else recounted rs b) = format_of rs"
proof -
  have "length (records is_range_key rs) < 2 ^ 64" using assms(1) by (simp add: records_def le_less_trans [OF length_filter_le])
  then have "unat (b_countRangeKeys (recounted rs b)) = length (records is_range_key rs)"
    using assms(3) by (simp add: recounted_def unat_of_nat64)
  then have "0 < b_countRangeKeys (recounted rs b) \<longleftrightarrow> (\<exists>r\<in>set rs. is_range_key (fst r))"
    by (simp add: word_less_nat_alt records_def filter_empty_conv)
  then show ?thesis using assms(2)
    by (simp add: raise_format_def recounted_def format_of_def FormatDeleteSizedAndObsolete_def FormatRangeKeys_def)
qed

lemma SetRepr_records:
  assumes "list_all valid_record rs" "\<forall>r\<in>set rs. fst r \<noteq> InternalKeyKindIngestSST"
    and "repr = h @ recs_bytes rs" "length h = batchHeaderLen" "length repr < 2 ^ 32" "b_db b"
  obtains b2 where "SetRepr repr cap b = Inr (None, b2)" "b_data b2 = repr" "b_cap b2 = cap"
    "b_count b2 = ucast (le_decode (drop 8 h) :: u32)"
    "b_countRangeDels b2 = of_nat (length (records (\<lambda>k. k = InternalKeyKindRangeDelete) rs))"
    "b_countRangeKeys b2 = of_nat (length (records is_range_key rs))"
    "b_memTableSize b2 = mem_size rs" "b_minimumFormatMajorVersion b2 = format_of rs"
proof -
  let ?b = "b\<lparr>b_data := repr, b_cap := cap, b_count := ucast (le_decode (drop 8 h) :: u32), b_memTableSize := 0, b_countRangeDels := 0,
    b_countRangeKeys := 0, b_minimumFormatMajorVersion := 0\<rparr>"
  let ?b1 = "recounted rs ?b"
  let ?b2 = "if 0 < b_countRangeKeys ?b1 then raise_format FormatRangeKeys ?b1 else ?b1"
  have len: "length (recs_bytes rs) < 2 ^ 32" "length rs < 2 ^ 64" using assms(3,5) length_recs_bytes [of rs] by simp_all
  have sl: "slice 8 12 repr = drop 8 h" using assms(3,4) by (simp add: slice_def batchHeaderLen_def)
  have ne: "repr \<noteq> []" "\<not> length repr < batchHeaderLen" "drop batchHeaderLen repr = recs_bytes rs"
    using assms(3,4) by (auto simp add: batchHeaderLen_def)
  have "SetRepr repr cap b = refresh_loop (recs_bytes rs) ?b"
    using assms(6) ne by (simp add: SetRepr_def sl refreshMemTableSize_def Batch_Reader_def ensure_init_def Let_def)
  also have "\<dots> = Inr (None, ?b2)" using refresh_loop_records [OF assms(1) len(1) assms(2)] by (simp add: Let_def)
  finally have eq: "SetRepr repr cap b = Inr (None, ?b2)" .
  have fmt: "b_minimumFormatMajorVersion ?b2 = format_of rs" by (rule raise_format_recounted [OF len(2)]) simp_all
  show thesis
    by (rule that [OF eq _ _ _ _ _ _ fmt]) (simp_all add: raise_format_def recounted_def)
qed

section \<open>The properties of batches\<close>

text \<open>C33. Every operation on a well-formed batch has one of three outcomes: the documented panic when the
  batch is being committed, the documented panic when the record could make the data reach 4 GiB, and
  otherwise a well-formed batch with exactly one more record at its end: data, counts, memtable size,
  format version and the three indexes included. No other panic, endless loop or error occurs while the
  nodes of an index fit in 4 GiB.\<close>

theorem batch_operation_outcomes:
  assumes "batch_rep bytes_compare AbbreviatedKey b rs" "368 + 184 * (length rs + 1) \<le> maxNodesSize"
  shows "if b_committing b then run_op env op b = Inl PanicCommitting
    else if maxBatchSize \<le> length (started b) + rec_space (op_record op) then run_op env op b = Inl PanicBatchTooLarge
    else \<exists>b1. run_op env op b = Inr (None, b1) \<and> batch_rep bytes_compare AbbreviatedKey b1 (rs @ [op_record op])"
proof (cases "b_committing b")
  case True
  then show ?thesis
    by (cases op) (simp_all add: prepareDeferredKeyValueRecord_def prepareDeferredKeyRecord_def Batch_Set_def SetDeferred_def
        Batch_Merge_def MergeDeferred_def Batch_Delete_def DeleteDeferred_def Batch_DeleteSized_def DeleteSizedDeferred_def
        Batch_SingleDelete_def SingleDeleteDeferred_def Batch_DeleteRange_def DeleteRangeDeferred_def Batch_RangeKeySet_def
        rangeKeySetDeferred_def rangeKeyDeferred_def Batch_RangeKeyUnset_def rangeKeyUnsetDeferred_def Batch_RangeKeyDelete_def
        RangeKeyDeleteDeferred_def Batch_LogData_def Let_def)
next
  case False
  have "outcome bytes_compare AbbreviatedKey rs (op_record op) b (run_op env op b)"
    using abbr.run_op_outcome [OF assms(1) _ False] assms(2) by simp
  then show ?thesis using False by (auto simp add: outcome_def)
qed

definition batch_example_env :: batch_env where
  "batch_example_env = \<lparr>be_skl = index_example_env, be_mem = \<lambda>_ _. 0, be_append_cap = \<lambda>_ n. n\<rparr>"

lemma small_record: "length key + length v \<le> 1000 \<Longrightarrow> \<not> maxBatchSize \<le> 12 + rec_space (kind, key, v)"
  by (simp add: rec_space_def maxBatchSize_def)

theorem batch_operation_outcomes_witness:
  "\<exists>b1. run_op batch_example_env (OpDeleteRange [97] [99]) (newBatchWithSize 64) = Inr (None, b1) \<and>
    batch_rep bytes_compare AbbreviatedKey b1 [(InternalKeyKindRangeDelete, [97], [99])]"
proof -
  have st: "length (started (newBatchWithSize 64)) = 12" "\<not> b_committing (newBatchWithSize 64)"
    by (simp_all add: started_def newBatchWithSize_def newBatch_def empty_Batch_def batchHeaderLen_def)
  show ?thesis
    using batch_operation_outcomes [OF new_batch_rep, of 64 batch_example_env "OpDeleteRange [97] [99]"] st small_record [of "[97]" "[99]"]
    by (simp add: maxNodesSize_def del: run_op.simps)
qed

text \<open>C34. What is written to a batch is what is read from its representation: after any operations that fit,
  on a batch or an indexed batch, \<^verbatim>\<open>Repr\<close> returns data from which the reader yields the records of the
  operations in order and then the end, and \<^verbatim>\<open>ReadBatch\<close> the number of records other than log data.\<close>

theorem batch_records_roundtrip:
  assumes "fresh_batch env b0" "ops_fit ops"
  shows "\<exists>b repr b1. run_ops env ops b0 = Inr (None, b) \<and> Batch_Repr b = Inr (repr, b1) \<and>
    read_records (fst (ReadBatch repr)) = Inr (Inr (map op_record ops)) \<and>
    unat (snd (ReadBatch repr)) = length (filter (\<lambda>op. fst (op_record op) \<noteq> InternalKeyKindLogData) ops)"
proof -
  let ?rs = "map op_record ops"
  obtain b where b: "run_ops env ops b0 = Inr (None, b)" "batch_rep bytes_compare AbbreviatedKey b ?rs"
    using built_batch [OF assms] by blast
  obtain h b1 where r: "Batch_Repr b = Inr (b_data b1, b1)" "batch_rep bytes_compare AbbreviatedKey b1 ?rs" "b_data b1 = h @ recs_bytes ?rs"
      "length h = batchHeaderLen" "drop 8 h = le_encode 4 (of_nat (length (records counted ?rs)) :: u32)"
    using abbr.Batch_Repr_rep [OF b(2)] by metis
  have len: "length (b_data b1) < 2 ^ 32" "list_all valid_record ?rs"
    using r(2) maxBatchSize_less by (simp_all add: batch_rep_def)
  have rd: "read_records (recs_bytes ?rs) = Inr (Inr ?rs)"
    by (rule read_records_bytes) (use len r(3) in simp_all)
  have cnt: "length (records counted ?rs) = length (filter (\<lambda>op. fst (op_record op) \<noteq> InternalKeyKindLogData) ops)"
    by (simp add: records_def counted_def filter_map comp_def)
  have sl: "slice batchCountOffset batchHeaderLen (b_data b1) = drop 8 h"
    using r(3,4) by (simp add: slice_def batchHeaderLen_def batchCountOffset_def)
  have "unat (of_nat (length (records counted ?rs)) :: u32) = length (records counted ?rs)"
    using batch_count_small(2) [OF r(2)] by (intro unat_of_nat_u32) simp
  then have "fst (ReadBatch (b_data b1)) = recs_bytes ?rs" "unat (snd (ReadBatch (b_data b1))) = length (records counted ?rs)"
    using r(3-5) sl length_recs_bytes [of ?rs]
    by (cases "ops = []"; simp add: ReadBatch_def records_def)+
  then show ?thesis using b(1) r(1) rd cnt by auto
qed

theorem batch_records_roundtrip_witness:
  "\<exists>b repr b1. run_ops batch_example_env [OpSet [97] [1, 2], OpLogData [5], OpDeleteSized [98] 300, OpRangeKeySet [97] [99] [] [7]]
      (newBatchWithSize 0) = Inr (None, b) \<and> Batch_Repr b = Inr (repr, b1) \<and>
    read_records (fst (ReadBatch repr)) = Inr (Inr (map op_record
      [OpSet [97] [1, 2], OpLogData [5], OpDeleteSized [98] 300, OpRangeKeySet [97] [99] [] [7]])) \<and>
    unat (snd (ReadBatch repr)) = 3"
proof -
  let ?ops = "[OpSet [97] [1, 2], OpLogData [5], OpDeleteSized [98] 300, OpRangeKeySet [97] [99] [] [7]]"
  have "ops_fit ?ops"
    using length_put_uvarint_10 [of "301"]
    by (simp add: ops_fit_def ops_space_def rec_space_def maxBatchSize_def maxNodesSize_def batchHeaderLen_def set_value_def put_len_def)
  moreover have "length (filter (\<lambda>op. fst (op_record op) \<noteq> InternalKeyKindLogData) ?ops) = 3" by (simp add: kind_defs)
  moreover have "fresh_batch batch_example_env (newBatchWithSize 0)" by (auto simp add: fresh_batch_def)
  ultimately show ?thesis using batch_records_roundtrip [of batch_example_env "newBatchWithSize 0" ?ops] by metis
qed

text \<open>C35. A batch that is given the representation of another counts as the other did: the numbers of records, of
  range deletions and of range keys, and the format version needed, are those the operations kept; the
  memtable size is that of the operations plus an entry for each record of log data, which the operations
  do not count.\<close>

theorem SetRepr_recounts:
  assumes "fresh_batch env b0" "ops_fit ops" "run_ops env ops b0 = Inr (None, b)" "Batch_Repr b = Inr (repr, b1)" "b_db b'"
  shows "\<exists>b2. SetRepr repr cap b' = Inr (None, b2) \<and> b_data b2 = repr \<and> b_count b2 = b_count b \<and>
    b_countRangeDels b2 = b_countRangeDels b \<and> b_countRangeKeys b2 = b_countRangeKeys b \<and>
    b_minimumFormatMajorVersion b2 = b_minimumFormatMajorVersion b \<and>
    b_memTableSize b2 = b_memTableSize b + mem_size (records (\<lambda>k. k = InternalKeyKindLogData) (map op_record ops))"
proof -
  let ?rs = "map op_record ops"
  have rep: "batch_rep bytes_compare AbbreviatedKey b ?rs" using built_batch [OF assms(1,2)] assms(3) by auto
  note B = rep [unfolded batch_rep_def]
  obtain h b1' where q: "Batch_Repr b = Inr (b_data b1', b1')" "batch_rep bytes_compare AbbreviatedKey b1' ?rs"
      "b_data b1' = h @ recs_bytes ?rs" "length h = batchHeaderLen"
      "drop 8 h = le_encode 4 (of_nat (length (records counted ?rs)) :: u32)"
    by (rule abbr.Batch_Repr_rep [OF rep])
  have r: "batch_rep bytes_compare AbbreviatedKey b1 ?rs" "repr = h @ recs_bytes ?rs" "b_data b1 = repr" using q(1-3) assms(4) by simp_all
  have len: "length repr < 2 ^ 32" using r(1,3) maxBatchSize_less by (simp add: batch_rep_def)
  have v: "list_all valid_record ?rs" "\<forall>r\<in>set ?rs. fst r \<noteq> InternalKeyKindIngestSST"
    using valid_op_record op_not_ingest by (simp_all add: list_all_iff)
  obtain b2 where b2: "SetRepr repr cap b' = Inr (None, b2)" "b_data b2 = repr" "b_cap b2 = cap"
    "b_count b2 = ucast (le_decode (drop 8 h) :: u32)"
    "b_countRangeDels b2 = of_nat (length (records (\<lambda>k. k = InternalKeyKindRangeDelete) ?rs))"
    "b_countRangeKeys b2 = of_nat (length (records is_range_key ?rs))"
    "b_memTableSize b2 = mem_size ?rs" "b_minimumFormatMajorVersion b2 = format_of ?rs"
    by (rule SetRepr_records [OF v r(2) q(4) len assms(5)])
  have "unat (of_nat (length (records counted ?rs)) :: u32) = length (records counted ?rs)"
    using batch_count_small(2) [OF rep] by (intro unat_of_nat_u32) simp
  then have "b_count b2 = b_count b"
    using b2(4) q(5) batch_count_small [OF rep]
    by (simp add: word_unat_eq_iff unsigned_ucast_eq take_bit_nat_eq_self)
  moreover have "mem_size ?rs = b_memTableSize b + mem_size (records (\<lambda>k. k = InternalKeyKindLogData) ?rs)"
    using mem_size_split [of ?rs counted] B by (simp add: counted_def)
  moreover have "b_countRangeDels b2 = b_countRangeDels b" "b_countRangeKeys b2 = b_countRangeKeys b"
      "b_minimumFormatMajorVersion b2 = b_minimumFormatMajorVersion b"
    using b2(5,6,8) B by simp_all
  ultimately show ?thesis using b2(1,2,7) by auto
qed

theorem SetRepr_recounts_witness:
  "\<exists>b repr b1 b2. run_ops batch_example_env [OpDeleteRange [97] [99], OpLogData [5]] (newBatchWithSize 0) = Inr (None, b) \<and>
    Batch_Repr b = Inr (repr, b1) \<and> SetRepr repr 100 newBatch = Inr (None, b2) \<and> b_countRangeDels b2 = b_countRangeDels b \<and>
    b_memTableSize b2 = b_memTableSize b + 196"
proof -
  let ?ops = "[OpDeleteRange [97] [99], OpLogData [5]]"
  have fit: "ops_fit ?ops"
    by (simp add: ops_fit_def ops_space_def rec_space_def maxBatchSize_def maxNodesSize_def batchHeaderLen_def)
  have fr: "fresh_batch batch_example_env (newBatchWithSize 0)" by (auto simp add: fresh_batch_def)
  obtain b where b: "run_ops batch_example_env ?ops (newBatchWithSize 0) = Inr (None, b)"
      "batch_rep bytes_compare AbbreviatedKey b (map op_record ?ops)"
    using built_batch [OF fr fit] by metis
  obtain repr b1 where r: "Batch_Repr b = Inr (repr, b1)" using abbr.Batch_Repr_rep [OF b(2)] by metis
  have "b_db newBatch" by (simp add: newBatch_def empty_Batch_def)
  moreover have "mem_size (records (\<lambda>k. k = InternalKeyKindLogData) (map op_record ?ops)) = 196"
    by (simp add: mem_size_def records_def rec_size_def memTableEntrySize_def MaxNodeSize_def kind_defs)
  ultimately show ?thesis using SetRepr_recounts [OF fr fit b(1) r, of newBatch 100] b(1) r by auto
qed

section \<open>Applying a batch to a batch\<close>

text \<open>Batches that differ in their indexes and cached fragments only.\<close>

definition alike :: "Batch \<Rightarrow> Batch \<Rightarrow> bool" where
  "alike b b' \<longleftrightarrow>
     b_data b' = b_data b \<and> b_cap b' = b_cap b \<and> b_count b' = b_count b \<and> b_countRangeDels b' = b_countRangeDels b \<and>
     b_countRangeKeys b' = b_countRangeKeys b \<and> b_memTableSize b' = b_memTableSize b \<and>
     b_minimumFormatMajorVersion b' = b_minimumFormatMajorVersion b \<and> b_ingestedSSTBatch b' = b_ingestedSSTBatch b \<and>
     b_committing b' = b_committing b \<and> b_db b' = b_db b \<and> (b_index b' = None \<longleftrightarrow> b_index b = None)"

definition tallied :: "batch_record list \<Rightarrow> Batch \<Rightarrow> Batch" where
  "tallied rs b =
     b\<lparr>b_memTableSize := b_memTableSize b + mem_size rs,
       b_countRangeDels := b_countRangeDels b + of_nat (length (records (\<lambda>k. k = InternalKeyKindRangeDelete) rs)),
       b_countRangeKeys := b_countRangeKeys b + of_nat (length (records is_range_key rs))\<rparr>"

text \<open>The index step of the loop for one record.\<close>

definition apply_index :: "batch_env \<Rightarrow> kind \<Rightarrow> u32 \<Rightarrow> Batch \<Rightarrow> batch_result" where
  "apply_index env kind off b =
     (case b_index b of
        None \<Rightarrow> Inr (None, b)
      | Some _ \<Rightarrow>
          if kind = InternalKeyKindRangeDelete then rbind (use_rangeDelIndex env b) (index_add env RangeDelIndex off)
          else if is_range_key kind then rbind (use_rangeKeyIndex env b) (index_add env RangeKeyIndex off)
          else index_add env PointIndex off b)"

context abbreviated_order
begin

lemma apply_index_ok:
  assumes "indexes_ok cmp abk b rs" "with_last (b_data b) rs r" "fst r \<noteq> InternalKeyKindLogData"
  obtains b1 where "apply_index env (fst r) (of_nat (batchHeaderLen + length (recs_bytes rs))) b = Inr (None, b1)"
    "alike b b1" "indexes_ok cmp abk b1 (rs @ [r])"
proof (cases "b_index b")
  case None
  then show thesis using that [of b] assms(1) by (simp add: apply_index_def alike_def indexes_ok_def)
next
  case (Some s)
  let ?off = "of_nat (batchHeaderLen + length (recs_bytes rs)) :: u32"
  consider (del) "fst r = InternalKeyKindRangeDelete" | (key) "is_range_key (fst r)" "fst r \<noteq> InternalKeyKindRangeDelete"
    | (pt) "is_point (fst r)" using assms(3) by (auto simp add: is_point_def)
  then show thesis
  proof cases
    case del
    obtain t q i where u: "use_rangeDelIndex env b = Inr (b\<lparr>b_tombstones := t, b_tombstonesSeqNum := q, b_rangeDelIndex := i\<rparr>)"
        "indexes_ok cmp abk (b\<lparr>b_tombstones := t, b_tombstonesSeqNum := q, b_rangeDelIndex := i\<rparr>) rs" "b_index b = None \<longleftrightarrow> i = None"
      by (rule use_rangeDelIndex_ok [OF assms(1), of b env]) simp_all
    let ?b = "b\<lparr>b_tombstones := t, b_tombstonesSeqNum := q, b_rangeDelIndex := i\<rparr>"
    obtain i' where f: "index_add env RangeDelIndex ?off ?b = Inr (None, ?b\<lparr>b_rangeDelIndex := i'\<rparr>)"
        "indexes_ok cmp abk (?b\<lparr>b_rangeDelIndex := i'\<rparr>) (rs @ [r])"
      by (rule add_rangeDel_ok [OF u(2), of r RangeDelIndex env]) (use assms(2) del u(3) in simp_all)
    show thesis using that [OF _ _ f(2)] Some del u(1) f(1) by (simp add: apply_index_def alike_def)
  next
    case key
    obtain t q i where u: "use_rangeKeyIndex env b = Inr (b\<lparr>b_rangeKeys := t, b_rangeKeysSeqNum := q, b_rangeKeyIndex := i\<rparr>)"
        "indexes_ok cmp abk (b\<lparr>b_rangeKeys := t, b_rangeKeysSeqNum := q, b_rangeKeyIndex := i\<rparr>) rs" "b_index b = None \<longleftrightarrow> i = None"
      by (rule use_rangeKeyIndex_ok [OF assms(1), of b env]) simp_all
    let ?b = "b\<lparr>b_rangeKeys := t, b_rangeKeysSeqNum := q, b_rangeKeyIndex := i\<rparr>"
    obtain i' where f: "index_add env RangeKeyIndex ?off ?b = Inr (None, ?b\<lparr>b_rangeKeyIndex := i'\<rparr>)"
        "indexes_ok cmp abk (?b\<lparr>b_rangeKeyIndex := i'\<rparr>) (rs @ [r])"
      by (rule add_rangeKey_ok [OF u(2), of r RangeKeyIndex env]) (use assms(2) key u(3) in simp_all)
    show thesis using that [OF _ _ f(2)] Some key u(1) f(1) by (simp add: apply_index_def alike_def)
  next
    case pt
    obtain i where f: "index_add env (point_ref b) ?off b = Inr (None, b\<lparr>b_index := i\<rparr>)" "b_index b = None \<longleftrightarrow> i = None"
        "indexes_ok cmp abk (b\<lparr>b_index := i\<rparr>) (rs @ [r])"
      by (rule add_point_ok [OF assms(1,2) pt])
    show thesis using that [OF _ _ f(3)] Some f(1,2) is_point_disjoint(1) [OF pt]
      by (simp add: apply_index_def alike_def point_ref_def)
  qed
qed

lemma apply_loop_ok:
  assumes "b_data b = h @ recs_bytes (rs @ todo)" "length h = batchHeaderLen" "length (b_data b) < 2 ^ 32"
    and "indexes_ok cmp abk b rs" "list_all valid_record todo"
    and "\<forall>r\<in>set todo. fst r \<noteq> InternalKeyKindLogData \<and> fst r \<noteq> InternalKeyKindIngestSST"
    and "368 + 184 * (length rs + length todo) \<le> maxNodesSize"
  shows "\<exists>b1. apply_loop env (recs_bytes todo) b = Inr (None, b1) \<and> alike (tallied todo b) b1 \<and> indexes_ok cmp abk b1 (rs @ todo)"
  using assms
proof (induction todo arbitrary: rs b)
  case Nil
  then show ?case by (simp add: apply_loop.simps [of env "[]"] tallied_def alike_def mem_size_def records_def)
next
  case (Cons r todo)
  obtain kind key v where r: "r = (kind, key, v)" by (cases r)
  define iter where "iter = rec_bytes r @ recs_bytes todo"
  have len: "length iter < 2 ^ 32" "length (b_data b) - length iter = batchHeaderLen + length (recs_bytes rs)" "length iter \<noteq> 0"
    using Cons.prems(1-3) by (simp_all add: iter_def)
  have nxt: "BatchReader_Next iter = Inr (NextEntry kind key v (recs_bytes todo))"
    using BatchReader_Next_record [of kind key v "recs_bytes todo"] Cons.prems(5) len(1) by (simp add: iter_def r)
  define b1 where "b1 = count_kind kind b"
  have b1: "b_index b1 = b_index b" "b_rangeDelIndex b1 = b_rangeDelIndex b" "b_rangeKeyIndex b1 = b_rangeKeyIndex b"
    "b_cmp b1 = b_cmp b" "b_abbreviatedKey b1 = b_abbreviatedKey b" "b_data b1 = b_data b"
    by (simp_all add: b1_def count_kind_def)
  have ix: "indexes_ok cmp abk b1 rs" using Cons.prems(4) indexes_ok_cong [OF b1] by simp
  have "b_data b1 = h @ recs_bytes rs @ rec_bytes r @ recs_bytes todo" using Cons.prems(1) b1(6) by simp
  then have wl: "with_last (b_data b1) rs r"
    unfolding with_last_def using Cons.prems(2,3,7) b1(6) by auto
  obtain b2 where b2: "apply_index env kind (of_nat (batchHeaderLen + length (recs_bytes rs))) b1 = Inr (None, b2)"
      "alike b1 b2" "indexes_ok cmp abk b2 (rs @ [r])"
    using apply_index_ok [OF ix wl, of env] Cons.prems(6) by (auto simp add: r)
  define b3 where "b3 = b2\<lparr>b_memTableSize := b_memTableSize b2 + memTableEntrySize (length key) (length v)\<rparr>"
  have step: "apply_loop env iter b = apply_loop env (recs_bytes todo) b3"
    unfolding apply_loop.simps [of env iter] nxt
    using len(2,3) Cons.prems(6) b2(1) [unfolded apply_index_def is_range_key_def] by (simp add: r Let_def b3_def flip: b1_def)
  have "\<exists>b4. apply_loop env (recs_bytes todo) b3 = Inr (None, b4) \<and> alike (tallied todo b3) b4 \<and>
      indexes_ok cmp abk b4 ((rs @ [r]) @ todo)"
  proof (rule Cons.IH)
    show "indexes_ok cmp abk b3 (rs @ [r])" using b2(3) indexes_ok_cong [of b3 b2] by (simp add: b3_def)
  qed (use Cons.prems b2(2) b1(6) in \<open>simp_all add: b3_def alike_def\<close>)
  moreover have "alike (tallied todo b3) b4 \<Longrightarrow> alike (tallied (r # todo) b) b4" for b4
    using b2(2) b1(1) unfolding alike_def tallied_def b3_def b1_def count_kind_def
    by (auto simp add: r mem_size_def records_def rec_size_def is_range_key_def kind_defs)
  ultimately show ?case using step by (auto simp add: iter_def)
qed

lemma Batch_Count_rep:
  assumes "batch_rep cmp abk b rs"
  shows "Batch_Count b = Inr (of_nat (length (records counted rs)))"
proof -
  note n = batch_count_small [OF assms]
  have "(ucast (b_count b) :: u32) = of_nat (length (records counted rs))"
    using n by (simp add: word_unat_eq_iff unsigned_ucast_eq unsigned_of_nat take_bit_nat_eq_self)
  then show ?thesis using n by (simp add: Batch_Count_def)
qed

lemma Apply_ok:
  assumes cap: "\<forall>c n. n \<le> be_append_cap env c n" and rep: "batch_rep cmp abk b rs" "b_db b"
    and rep2: "batch_rep cmp abk b2 rs2" "\<forall>r\<in>set rs2. fst r \<noteq> InternalKeyKindLogData \<and> fst r \<noteq> InternalKeyKindIngestSST"
    and fit: "length (started b) + length (recs_bytes rs2) < maxBatchSize" "368 + 184 * (length rs + length rs2) \<le> maxNodesSize"
  shows "\<exists>b1. Batch_Apply env b2 b = Inr (None, b1) \<and> b_minimumFormatMajorVersion b1 = b_minimumFormatMajorVersion b \<and>
    b_data b1 = (if b_data b2 = [] then b_data b else started b @ recs_bytes rs2) \<and>
    batch_rep cmp abk (b1\<lparr>b_minimumFormatMajorVersion := format_of (rs @ rs2)\<rparr>) (rs @ rs2)"
proof (cases "b_data b2 = []")
  case True
  then have "rs2 = []" using rep2(1) by (auto simp add: batch_rep_def data_ok_def batchHeaderLen_def)
  moreover have "b\<lparr>b_minimumFormatMajorVersion := format_of rs\<rparr> = b" using rep(1) by (simp add: batch_rep_def)
  moreover have "\<not> b_ingestedSSTBatch b" using rep(1) by (simp add: batch_rep_def)
  ultimately show ?thesis using True rep(1) by (simp add: Batch_Apply_def)
next
  case False
  note B = rep(1) [unfolded batch_rep_def] and B2 = rep2(1) [unfolded batch_rep_def]
  obtain h2 where h2: "length h2 = batchHeaderLen" "b_data b2 = h2 @ recs_bytes rs2" using False B2 by (auto simp add: data_ok_def)
  obtain h where h: "length h = batchHeaderLen" "started b = h @ recs_bytes rs" using data_ok_started B by blast
  obtain c where i: "ensure_init 0 b = Inr (b\<lparr>b_data := started b, b_cap := c\<rparr>)" "length (started b) \<le> c"
    using ensure_init_spec [OF rep_space [OF rep(1)]] by blast
  let ?D = "started b @ recs_bytes rs2"
  define c' where "c' = (if c < length ?D then be_append_cap env c (length ?D) else c)"
  have c': "length ?D \<le> c'" using cap by (simp add: c'_def)
  let ?n1 = "length (records counted rs)" and ?n2 = "length (records counted rs2)"
  have "?n1 \<le> length rs" "?n2 \<le> length rs2" by (simp_all add: records_def)
  then have n: "?n1 + ?n2 < 2 ^ 32"
    using fit(1) h length_recs_bytes [of rs] length_recs_bytes [of rs2] maxBatchSize_less by simp
  have cnt: "ucast ((of_nat ?n1 :: u32) + of_nat ?n2) = (of_nat (?n1 + ?n2) :: u64)"
    using n by (simp add: word_unat_eq_iff unsigned_ucast_eq unsigned_of_nat take_bit_nat_eq_self flip: of_nat_add)
  let ?b3 = "b\<lparr>b_data := ?D, b_cap := c', b_count := of_nat (?n1 + ?n2)\<rparr>"
  have eq: "Batch_Apply env b2 b = apply_loop env (recs_bytes rs2) ?b3"
  proof -
    have d2: "drop batchHeaderLen (b_data b2) = recs_bytes rs2" "\<not> length (b_data b2) < batchHeaderLen" using h2 by simp_all
    have "Batch_Count (b\<lparr>b_data := d, b_cap := k\<rparr>) = Batch_Count b" for d k by (simp add: Batch_Count_def)
    then show ?thesis
      using False d2 B rep(2) i(1) Batch_Count_rep [OF rep(1)] Batch_Count_rep [OF rep2(1)] cnt
      by (simp add: Batch_Apply_def setCount_def Let_def c'_def)
  qed
  have ld: "length (b_data b) \<le> length ?D" by (simp add: started_def)
  have dr: "drop batchHeaderLen (take (length (b_data b)) ?D) = drop batchHeaderLen (b_data b)"
    by (cases "b_data b = []") (simp_all add: started_def)
  have "indexes_ok cmp abk (b\<lparr>b_data := ?D\<rparr>) rs"
    by (rule indexes_ok_grow [OF _ ld dr]) (use B h fit(1) maxBatchSize_less in auto)
  then have ix: "indexes_ok cmp abk ?b3 rs" using indexes_ok_cong [of ?b3 "b\<lparr>b_data := ?D\<rparr>" cmp abk rs] by simp
  obtain b1 where b1: "apply_loop env (recs_bytes rs2) ?b3 = Inr (None, b1)" "alike (tallied rs2 ?b3) b1" "indexes_ok cmp abk b1 (rs @ rs2)"
    using apply_loop_ok [of ?b3 h rs rs2 env] ix B2 rep2(2) fit h maxBatchSize_less by auto
  let ?b1 = "b1\<lparr>b_minimumFormatMajorVersion := format_of (rs @ rs2)\<rparr>"
  have A: "b_data b1 = ?D" "b_cap b1 = c'" "b_count b1 = of_nat (?n1 + ?n2)"
      "b_minimumFormatMajorVersion b1 = b_minimumFormatMajorVersion b" "b_ingestedSSTBatch b1 = b_ingestedSSTBatch b"
      "b_memTableSize b1 = b_memTableSize b + mem_size rs2"
      "b_countRangeDels b1 = b_countRangeDels b + of_nat (length (records (\<lambda>k. k = InternalKeyKindRangeDelete) rs2))"
      "b_countRangeKeys b1 = b_countRangeKeys b + of_nat (length (records is_range_key rs2))"
    using b1(2) by (simp_all add: alike_def tallied_def)
  have all: "records counted rs2 = rs2" using rep2(2) by (simp add: records_def counted_def)
  have ix1: "indexes_ok cmp abk ?b1 (rs @ rs2)" using b1(3) indexes_ok_cong [of ?b1 b1 cmp abk "rs @ rs2"] by simp
  have "data_ok (b_data ?b1) (rs @ rs2)" using A(1) h by (auto simp add: data_ok_def)
  then have "batch_rep cmp abk ?b1 (rs @ rs2)"
    using B B2 A c' fit(1) ix1 all unfolding batch_rep_def space_ok_def by (simp add: of_nat_add)
  then show ?thesis using eq b1(1) A(1,4) False by auto
qed

end

text \<open>C36. \<^verbatim>\<open>Apply\<close> on a batch is running the operations of the other one: whatever the operations of the two
  batches, the second without log data, the result has the data, the counts, the memtable size and the
  indexes of a batch that got all the operations in order. Only the format version is not: it stays that
  of the receiver, also when the operations applied need a newer one.\<close>

theorem Apply_runs_operations:
  assumes "\<forall>c n. n \<le> be_append_cap env c n" "fresh_batch env b0" "fresh_batch env b0'" "ops_fit (ops @ ops2)"
    and "run_ops env ops b0 = Inr (None, b)" "run_ops env ops2 b0' = Inr (None, b2)"
    and "\<forall>op\<in>set ops2. fst (op_record op) \<noteq> InternalKeyKindLogData"
  shows "\<exists>b1 b'. Batch_Apply env b2 b = Inr (None, b1) \<and> run_ops env ops2 b = Inr (None, b') \<and>
    b_data b1 = b_data b' \<and> b_count b1 = b_count b' \<and> b_countRangeDels b1 = b_countRangeDels b' \<and>
    b_countRangeKeys b1 = b_countRangeKeys b' \<and> b_memTableSize b1 = b_memTableSize b' \<and>
    batch_rep bytes_compare AbbreviatedKey b' (map op_record (ops @ ops2)) \<and>
    batch_rep bytes_compare AbbreviatedKey (b1\<lparr>b_minimumFormatMajorVersion := b_minimumFormatMajorVersion b'\<rparr>) (map op_record (ops @ ops2)) \<and>
    b_minimumFormatMajorVersion b1 = b_minimumFormatMajorVersion b"
proof -
  let ?rs = "map op_record ops" and ?rs2 = "map op_record ops2"
  have fit: "ops_fit ops" "ops_fit ops2" using assms(4) by (simp_all add: ops_fit_def ops_space_def)
  have b: "batch_rep bytes_compare AbbreviatedKey b ?rs" "\<not> b_committing b" "b_db b"
    using built_batch [OF assms(2) fit(1)] assms(5) by auto
  have b2: "batch_rep bytes_compare AbbreviatedKey b2 ?rs2" "b_data b2 = [] \<longleftrightarrow> ops2 = []"
    using built_batch [OF assms(3) fit(2)] assms(6) by auto
  have "length (recs_bytes xs) \<le> sum_list (map rec_space xs)" for xs
    by (induction xs) (simp_all add: add_mono length_rec_space)
  from this [of ?rs] this [of ?rs2] have sp: "length (recs_bytes ?rs) \<le> ops_space ops" "length (recs_bytes ?rs2) \<le> ops_space ops2"
    by (simp_all add: ops_space_def comp_def)
  have "data_ok (b_data b) ?rs" using b(1) by (simp add: batch_rep_def)
  then have st: "length (started b) + ops_space ops2 < maxBatchSize" "368 + 184 * (length ?rs + length ops2) \<le> maxNodesSize"
    using assms(4) sp length_started [of b ?rs] by (simp_all add: ops_fit_def ops_space_def)
  obtain b' where b': "run_ops env ops2 b = Inr (None, b')" "batch_rep bytes_compare AbbreviatedKey b' (?rs @ ?rs2)"
      "b_data b' = (if ops2 = [] then b_data b else started b @ recs_bytes ?rs2)"
    using abbr.run_ops_rep [OF b(1,2) st, of env] by auto
  have nl: "\<forall>r\<in>set ?rs2. fst r \<noteq> InternalKeyKindLogData \<and> fst r \<noteq> InternalKeyKindIngestSST"
    using assms(7) op_not_ingest by auto
  obtain b1 where b1: "Batch_Apply env b2 b = Inr (None, b1)" "b_minimumFormatMajorVersion b1 = b_minimumFormatMajorVersion b"
      "b_data b1 = (if b_data b2 = [] then b_data b else started b @ recs_bytes ?rs2)"
      "batch_rep bytes_compare AbbreviatedKey (b1\<lparr>b_minimumFormatMajorVersion := format_of (?rs @ ?rs2)\<rparr>) (?rs @ ?rs2)"
    using abbr.Apply_ok [OF assms(1) b(1,3) b2(1) nl] st sp by auto
  have "b_minimumFormatMajorVersion b' = format_of (?rs @ ?rs2)" using b'(2) by (simp add: batch_rep_def)
  moreover have "b_count b1 = b_count b'" "b_countRangeDels b1 = b_countRangeDels b'" "b_countRangeKeys b1 = b_countRangeKeys b'"
      "b_memTableSize b1 = b_memTableSize b'"
    using b1(4) b'(2) by (simp_all add: batch_rep_def)
  ultimately show ?thesis using b1 b' b2(2) by simp
qed

text \<open>A range key needs a newer format, and the receiver does not learn of it.\<close>

theorem Apply_runs_operations_witness:
  "\<exists>b b2 b1. run_ops batch_example_env [OpSet [97] [1]] (newBatchWithSize 0) = Inr (None, b) \<and>
    run_ops batch_example_env [OpRangeKeyDelete [97] [99]] (newBatchWithSize 0) = Inr (None, b2) \<and>
    Batch_Apply batch_example_env b2 b = Inr (None, b1) \<and> b_countRangeKeys b1 = 1 \<and>
    b_minimumFormatMajorVersion b2 = FormatRangeKeys \<and> b_minimumFormatMajorVersion b1 = 0"
proof -
  let ?ops = "[OpSet [97] [1]]" and ?ops2 = "[OpRangeKeyDelete [97] [99]]"
  have fit: "ops_fit (?ops @ ?ops2)" "ops_fit ?ops" "ops_fit ?ops2"
    by (simp_all add: ops_fit_def ops_space_def rec_space_def maxBatchSize_def maxNodesSize_def batchHeaderLen_def)
  have fr: "fresh_batch batch_example_env (newBatchWithSize 0)" by (auto simp add: fresh_batch_def)
  obtain b where b: "run_ops batch_example_env ?ops (newBatchWithSize 0) = Inr (None, b)"
      "batch_rep bytes_compare AbbreviatedKey b (map op_record ?ops)"
    using built_batch [OF fr fit(2)] by metis
  obtain b2 where b2: "run_ops batch_example_env ?ops2 (newBatchWithSize 0) = Inr (None, b2)"
      "batch_rep bytes_compare AbbreviatedKey b2 (map op_record ?ops2)"
    using built_batch [OF fr fit(3)] by metis
  have "\<forall>c n. n \<le> be_append_cap batch_example_env c n" by (simp add: batch_example_env_def)
  from Apply_runs_operations [OF this fr fr fit(1) b(1) b2(1)]
  obtain b1 where b1: "Batch_Apply batch_example_env b2 b = Inr (None, b1)" "b_minimumFormatMajorVersion b1 = b_minimumFormatMajorVersion b"
      "\<exists>f. batch_rep bytes_compare AbbreviatedKey (b1\<lparr>b_minimumFormatMajorVersion := f\<rparr>) (map op_record (?ops @ ?ops2))"
    by (auto simp add: kind_defs)
  have "b_minimumFormatMajorVersion b = 0" "b_minimumFormatMajorVersion b2 = FormatRangeKeys" "b_countRangeKeys b1 = 1"
    using b(2) b2(2) b1(3) by (auto simp add: batch_rep_def format_of_def records_def is_range_key_def kind_defs)
  then show ?thesis using b(1) b2(1) b1(1,2) by auto
qed

end
