(* ===== verification/FlushableProofs.thy ===== *)
theory FlushableProofs
  imports BatchProofs
begin

text \<open>
  The correctness of flushable batches (\<^verbatim>\<open>batch.go\<close>): the sorted entries, the fragments and the iterators of a
  large batch against the operations that built it.
\<close>

section \<open>Flushable batches\<close>

text \<open>The entry of the record with number \<open>i\<close> at position \<open>p\<close>.\<close>

definition fentry :: "nat \<times> nat \<times> batch_record \<Rightarrow> flushableBatchEntry" where
  "fentry = (\<lambda>(i, p, kind, key, v).
     let s = of_nat (p + 1 + length (put_uvarint32 (of_nat (length key))))
     in \<lparr>fe_offset = of_nat p, fe_index = of_nat i, fe_keyStart = s, fe_keyEnd = s + of_nat (length key)\<rparr>)"

lemma put_uvarint32_0 [simp]: "put_uvarint32 0 = [0]"
  by (simp add: put_uvarint32.simps [of 0])

lemma flushable_entry_record:
  assumes "data = a @ rec_bytes (kind, key, v) @ c" "length data < 2 ^ 32" "length a = p"
  shows "flushable_entry data (rec_bytes (kind, key, v) @ c) (of_nat i) key = fentry (i, p, kind, key, v)"
proof -
  let ?k = "put_uvarint32 (of_nat (length key))"
  let ?tail = "(if has_value kind then put_uvarint32 (of_nat (length v)) @ v else []) @ c"
  have eq: "rec_bytes (kind, key, v) @ c = kind # ?k @ key @ ?tail" by (simp add: rec_bytes_def)
  have len: "length data = p + 1 + length ?k + length key + length ?tail"
    unfolding assms(1) eq using assms(3) by (simp add: algebra_simps)
  have "batchDecodeStr (?k @ key @ ?tail) = Inr (Some (?tail, key))"
    using assms(2) len by (intro batchDecodeStr_put) simp_all
  then have "key_position data (rec_bytes (kind, key, v) @ c) = p + 1 + length ?k"
    unfolding key_position_def eq using len by simp
  moreover have "length data - length (rec_bytes (kind, key, v) @ c) = p" using assms(1,3) by simp
  moreover have "(of_nat (length key) :: u32) = 0 \<longleftrightarrow> key = []"
    using unat_of_nat_u32 [of "length key"] assms(2) len by (simp add: word_unat_eq_iff)
  ultimately show ?thesis
    by (cases "key = []") (simp_all add: flushable_entry_def fentry_def Let_def of_nat_add)
qed

type_synonym numbered = "nat \<times> nat \<times> batch_record"

definition numbered_records :: "batch_record list \<Rightarrow> numbered list" where
  "numbered_records rs = enumerate 0 (placed batchHeaderLen rs)"

definition kind_of :: "numbered \<Rightarrow> kind" where
  "kind_of x = fst (snd (snd x))"

lemma flushable_loop_records:
  assumes "data = h @ recs_bytes (pre @ todo)" "length data < 2 ^ 32" "list_all valid_record todo"
  shows "flushable_loop data (recs_bytes todo) (of_nat (length pre)) es =
    Inr (Inr (foldl (\<lambda>es x. add_entry (kind_of x) (fentry x) es) es
      (enumerate (length pre) (placed (length h + length (recs_bytes pre)) todo))))"
  using assms
proof (induction todo arbitrary: pre es)
  case Nil
  then show ?case by (simp add: flushable_loop.simps [of _ "[]"])
next
  case (Cons r todo)
  obtain kind key v where r: "r = (kind, key, v)" by (cases r)
  define iter where "iter = rec_bytes r @ recs_bytes todo"
  have len: "length iter < 2 ^ 32" "length iter \<noteq> 0" using Cons.prems(1,2) by (simp_all add: iter_def)
  have nxt: "BatchReader_Next iter = Inr (NextEntry kind key v (recs_bytes todo))"
    using BatchReader_Next_record [of kind key v "recs_bytes todo"] Cons.prems(3) len(1) by (simp add: iter_def r)
  let ?x = "(length pre, length h + length (recs_bytes pre), r)"
  have "flushable_entry data iter (of_nat (length pre)) key = fentry ?x"
    using flushable_entry_record [of data "h @ recs_bytes pre" kind key v "recs_bytes todo"] Cons.prems(1,2)
    by (simp add: iter_def r)
  then have "flushable_loop data iter (of_nat (length pre)) es =
      flushable_loop data (recs_bytes todo) (of_nat (length (pre @ [r]))) (add_entry (kind_of ?x) (fentry ?x) es)"
    unfolding flushable_loop.simps [of data iter] nxt using len(2) by (simp add: r kind_of_def of_nat_add add.commute)
  then show ?case
    using Cons.IH [of "pre @ [r]" "add_entry (kind_of ?x) (fentry ?x) es"] Cons.prems by (simp add: iter_def add.assoc)
qed

definition is_flush_point :: "kind \<Rightarrow> bool" where
  "is_flush_point kind \<longleftrightarrow> kind \<noteq> InternalKeyKindRangeDelete \<and> \<not> is_range_key kind"

lemma add_entry_eq:
  "add_entry k e (a, b, c) =
     (a @ (if is_flush_point k then [e] else []), b @ (if k = InternalKeyKindRangeDelete then [e] else []),
      c @ (if is_range_key k then [e] else []))"
  unfolding add_entry_def is_flush_point_def is_range_key_def by (simp add: kind_defs)

lemma add_entries_classify:
  "foldl (\<lambda>es x. add_entry (kind_of x) (fentry x) es) (a, b, c) xs =
     (a @ map fentry (filter (\<lambda>x. is_flush_point (kind_of x)) xs),
      b @ map fentry (filter (\<lambda>x. kind_of x = InternalKeyKindRangeDelete) xs),
      c @ map fentry (filter (\<lambda>x. is_range_key (kind_of x)) xs))"
  by (induction xs arbitrary: a b c) (simp_all add: add_entry_eq)

section \<open>What an iterator yields\<close>

text \<open>The keys and values that come out of an iterator whose last call had the result given, by \<^verbatim>\<open>Next\<close>.\<close>

inductive yields :: "('i \<Rightarrow> batch_panic + 'k option \<times> 'i) \<Rightarrow> batch_panic + 'k option \<times> 'i \<Rightarrow> 'k list \<Rightarrow> bool" for nxt where
  yields_end: "yields nxt (Inr (None, it)) []"
| yields_step: "yields nxt (nxt it) ks \<Longrightarrow> yields nxt (Inr (Some k, it)) (k # ks)"

inductive_cases yields_noneE: "yields nxt (Inr (None, it)) ks"
inductive_cases yields_someE: "yields nxt (Inr (Some k, it)) ks"
inductive_cases yields_panicE: "yields nxt (Inl p) ks"

lemma yields_det: "yields nxt r ks \<Longrightarrow> yields nxt r ks' \<Longrightarrow> ks = ks'"
proof (induction arbitrary: ks' rule: yields.induct)
  case (yields_end it)
  then show ?case by (rule yields_noneE) simp
next
  case (yields_step it ks k)
  show ?case using yields_step.prems by (rule yields_someE) (use yields_step.IH in simp)
qed

text \<open>Fragmenting what an iterator yields.\<close>

lemma fragment_loop_yields:
  fixes nxt :: "'i \<Rightarrow> batch_panic + (InternalKey \<times> bytes) option \<times> 'i"
  assumes "yields nxt (Inr r) kvs" "list_all2 (\<lambda>(k, v) s. decode k v = Inr s) kvs ss"
    and "frag_run cmp sortSpans sortKeys (map FragAdd ss) f = Inr f'"
  shows "fragment_loop cmp sortSpans sortKeys decode nxt f r = Some (Inr (None, f'))"
  using assms
proof (induction "Inr r :: batch_panic + (InternalKey \<times> bytes) option \<times> 'i" kvs arbitrary: r f ss rule: yields.induct)
  case (yields_end it)
  then show ?case by (simp add: fragment_loop.simps [of cmp sortSpans sortKeys decode nxt f])
next
  case (yields_step it ks k)
  obtain ik v where k: "k = (ik, v)" by (cases k)
  obtain s ss' where ss: "ss = s # ss'" "decode ik v = Inr s" "list_all2 (\<lambda>(k, v) s. decode k v = Inr s) ks ss'"
    using yields_step.prems(1) by (cases ss) (auto simp add: k)
  obtain f1 where f1: "Fragmenter_Add cmp sortSpans sortKeys s f = Inr f1" "frag_run cmp sortSpans sortKeys (map FragAdd ss') f1 = Inr f'"
    using yields_step.prems(2) by (cases "Fragmenter_Add cmp sortSpans sortKeys s f") (auto simp add: ss)
  obtain r1 where r1: "nxt it = Inr r1" using yields_step.hyps(1) by (cases rule: yields.cases) auto
  show ?case using yields_step.hyps(2) [OF r1 ss(3) f1(2)] f1(1) r1 ss(2) k
    by (simp add: fragment_loop.simps [of cmp sortSpans sortKeys decode nxt f])
qed

section \<open>The iterator of a flushable batch\<close>

text \<open>The key and value of an entry.\<close>

definition fkey :: "u64 \<Rightarrow> numbered \<Rightarrow> InternalKey" where
  "fkey seq = (\<lambda>(i, p, kind, key, v). MakeInternalKey key (seq + of_nat i) kind)"

definition fvalue :: "numbered \<Rightarrow> bytes" where
  "fvalue = (\<lambda>(i, p, kind, key, v). v)"

text \<open>The records of a batch in an order, and the iterator over their entries.\<close>

definition over :: "flushableBatchIter \<Rightarrow> batch_record list \<Rightarrow> numbered list \<Rightarrow> bool" where
  "over it rs xs \<longleftrightarrow>
     (\<exists>h. length h = batchHeaderLen \<and> fb_data (fi_batch it) = h @ recs_bytes rs) \<and> length (fb_data (fi_batch it)) < 2 ^ 32 \<and>
     list_all valid_record rs \<and> set xs \<subseteq> set (numbered_records rs) \<and> fi_offsets it = map fentry xs"

lemma numbered_in:
  assumes "(i, p, r) \<in> set (numbered_records rs)"
  shows "i < length rs" "(p, r) \<in> set (placed batchHeaderLen rs)" "rs ! i = r"
proof -
  have l: "length (placed batchHeaderLen rs) = length rs" by (metis length_map map_snd_placed)
  have "i < length (placed batchHeaderLen rs)" "placed batchHeaderLen rs ! i = (p, r)"
    using assms by (auto simp add: numbered_records_def in_set_enumerate_eq)
  then show "i < length rs" "(p, r) \<in> set (placed batchHeaderLen rs)" "rs ! i = r"
    using l by (simp, metis nth_mem, metis l map_snd_placed nth_map snd_conv)
qed

lemma fentry_data:
  assumes "(i, p, kind, key, v) \<in> set (numbered_records rs)" "data = h @ recs_bytes rs" "length h = batchHeaderLen" "length data < 2 ^ 32"
    and "list_all valid_record rs"
  defines "e \<equiv> fentry (i, p, kind, key, v)"
  shows "unat (fe_offset e) < length data" "data ! unat (fe_offset e) = kind"
    "subslice data (fe_keyStart e) (fe_keyEnd e) = Some key" "fe_index e = of_nat i" "unat (fe_keyEnd e) \<le> length data"
    "has_value kind \<Longrightarrow> \<exists>rest. batchDecodeStr (drop (unat (fe_keyEnd e)) data) = Inr (Some (rest, v))"
    "slice (unat (fe_keyStart e)) (unat (fe_keyEnd e)) data = key" "unat (fe_offset e) = p" "valid_record (kind, key, v)"
proof -
  let ?k = "put_uvarint32 (of_nat (length key))"
  obtain a c where d: "data = a @ rec_bytes (kind, key, v) @ c" "length a = p"
    using placed_bytes [of p "(kind, key, v)" h rs] numbered_in(2) [OF assms(1)] assms(2,3) by metis
  let ?t = "if has_value kind then put_uvarint32 (of_nat (length v)) @ v else []"
  define st where "st = p + 1 + length ?k"
  have eq: "data = a @ kind # ?k @ key @ ?t @ c" by (simp add: d rec_bytes_def)
  have len: "length data = st + length key + length (?t @ c)" using d(2) by (simp add: eq st_def)
  have s: "unat (of_nat st :: u32) = st" "unat (of_nat st + of_nat (length key) :: u32) = st + length key"
    using assms(4) len unat_of_nat_u32 [of st] unat_of_nat_u32 [of "st + length key"] by (simp_all flip: of_nat_add)
  have p: "unat (of_nat p :: u32) = p" using assms(4) len by (intro unat_of_nat_u32) (simp add: st_def)
  have e: "fe_offset e = of_nat p" "fe_keyStart e = of_nat st" "fe_keyEnd e = of_nat st + of_nat (length key)" "fe_index e = of_nat i"
    unfolding e_def fentry_def st_def by (simp_all only: Let_def prod.case flushableBatchEntry.simps)
  have sl: "slice st (st + length key) data = key" "drop (st + length key) data = ?t @ c"
    using d(2) by (simp_all add: slice_def eq st_def)
  show "fe_index e = of_nat i" by (rule e)
  show "unat (fe_offset e) = p" "unat (fe_offset e) < length data" "data ! unat (fe_offset e) = kind"
    using p len d(2) by (simp_all add: e eq nth_append st_def)
  show "slice (unat (fe_keyStart e)) (unat (fe_keyEnd e)) data = key" "unat (fe_keyEnd e) \<le> length data"
    using s sl len by (simp_all add: e)
  then show "subslice data (fe_keyStart e) (fe_keyEnd e) = Some key"
    using s by (simp add: subslice_def e word_le_nat_alt)
  show "valid_record (kind, key, v)"
    using numbered_in [OF assms(1)] assms(5) by (metis list_all_length)
  show "\<exists>rest. batchDecodeStr (drop (unat (fe_keyEnd e)) data) = Inr (Some (rest, v))" if "has_value kind"
  proof -
    have "drop (unat (fe_keyEnd e)) data = put_uvarint32 (of_nat (length v)) @ v @ c"
      using that s sl(2) by (simp add: e)
    then show ?thesis using batchDecodeStr_put [of v c] assms(4) len that by simp
  qed
qed

definition fpair :: "u64 \<Rightarrow> numbered \<Rightarrow> InternalKey \<times> bytes" where
  "fpair seq x = (fkey seq x, fvalue x)"

lemma UserKey_fkey [simp]: "UserKey (fkey seq (i, p, kind, key, v)) = key"
  by (simp add: fkey_def MakeInternalKey_def)

lemma over_update [simp]:
  "over (it\<lparr>fi_index := j\<rparr>) rs xs = over it rs xs" "over (it\<lparr>fi_key := k\<rparr>) rs xs = over it rs xs"
  "over (it\<lparr>fi_err := e\<rparr>) rs xs = over it rs xs" "over (it\<lparr>fi_key := k, fi_index := j\<rparr>) rs xs = over it rs xs"
  by (simp_all add: over_def)

lemma over_nth:
  assumes "over it rs xs" "j < length xs" "xs ! j = (i, p, kind, key, v)"
  obtains h where "(i, p, kind, key, v) \<in> set (numbered_records rs)" "fb_data (fi_batch it) = h @ recs_bytes rs"
    "length h = batchHeaderLen" "length (fb_data (fi_batch it)) < 2 ^ 32" "list_all valid_record rs"
    "fi_offsets it ! j = fentry (i, p, kind, key, v)" "length (fi_offsets it) = length xs" "i < 2 ^ 32"
proof -
  have mem: "(i, p, kind, key, v) \<in> set (numbered_records rs)"
    using assms nth_mem [OF assms(2)] by (auto simp add: over_def)
  obtain h where h: "fb_data (fi_batch it) = h @ recs_bytes rs" "length h = batchHeaderLen"
      "length (fb_data (fi_batch it)) < 2 ^ 32" "list_all valid_record rs"
    using assms(1) by (auto simp add: over_def)
  have "length rs < 2 ^ 32" using h length_recs_bytes [of rs] by simp
  then have "i < 2 ^ 32" using numbered_in(1) [OF mem] by simp
  then show thesis using that mem h assms by (auto simp add: over_def)
qed

lemma flushable_getKey_over:
  assumes "over it rs xs" "j < length xs"
  shows "flushable_getKey it j = Inr (fkey (fb_seqNum (fi_batch it)) (xs ! j))"
proof -
  obtain i p kind key v where x: "xs ! j = (i, p, kind, key, v)" by (metis prod_cases5)
  obtain h where h: "(i, p, kind, key, v) \<in> set (numbered_records rs)" "fb_data (fi_batch it) = h @ recs_bytes rs"
    "length h = batchHeaderLen" "length (fb_data (fi_batch it)) < 2 ^ 32" "list_all valid_record rs"
    "fi_offsets it ! j = fentry (i, p, kind, key, v)" "length (fi_offsets it) = length xs" "i < 2 ^ 32"
    by (rule over_nth [OF assms x])
  note e = fentry_data [OF h(1-5)]
  have "ucast (of_nat i :: u32) = (of_nat i :: u64)"
    using h(8) by (simp add: word_unat_eq_iff unsigned_ucast_eq unsigned_of_nat take_bit_nat_eq_self)
  then show ?thesis
    using assms(2) h(7) e by (simp add: flushable_getKey_def h(6) x fkey_def Let_def)
qed

lemma flushable_value_over:
  assumes "over it rs xs" "j < length xs" "fi_index it = int j"
  shows "flushable_value it = Inr (fvalue (xs ! j), it)"
proof -
  obtain i p kind key v where x: "xs ! j = (i, p, kind, key, v)" by (metis prod_cases5)
  obtain h where h: "(i, p, kind, key, v) \<in> set (numbered_records rs)" "fb_data (fi_batch it) = h @ recs_bytes rs"
    "length h = batchHeaderLen" "length (fb_data (fi_batch it)) < 2 ^ 32" "list_all valid_record rs"
    "fi_offsets it ! j = fentry (i, p, kind, key, v)" "length (fi_offsets it) = length xs" "i < 2 ^ 32"
    by (rule over_nth [OF assms(1,2) x])
  note e = fentry_data [OF h(1-5)]
  have k: "\<not> InternalKeyKindMax < kind" "\<not> has_value kind \<Longrightarrow> v = []" using e(9) by (auto simp add: valid_record_def)
  show ?thesis
  proof (cases "has_value kind")
    case True
    obtain rest where "batchDecodeStr (drop (unat (fe_keyEnd (fentry (i, p, kind, key, v)))) (fb_data (fi_batch it))) = Inr (Some (rest, v))"
      using e(6) [OF True] by blast
    then show ?thesis using assms(2,3) h(7) e(1,2,5) k(1) True by (simp add: flushable_value_def h(6) x fvalue_def Let_def)
  next
    case False
    then show ?thesis using assms(2,3) h(7) e(1,2) k by (simp add: flushable_value_def h(6) x fvalue_def Let_def)
  qed
qed

definition fbelow :: "(bytes \<Rightarrow> bytes \<Rightarrow> int) \<Rightarrow> bytes option \<Rightarrow> numbered \<Rightarrow> bool" where
  "fbelow cmp u x = (case u of None \<Rightarrow> True | Some k \<Rightarrow> cmp (fst (snd (snd (snd x)))) k < 0)"

definition fabove :: "(bytes \<Rightarrow> bytes \<Rightarrow> int) \<Rightarrow> bytes option \<Rightarrow> numbered \<Rightarrow> bool" where
  "fabove cmp l x = (case l of None \<Rightarrow> True | Some k \<Rightarrow> \<not> cmp (fst (snd (snd (snd x)))) k < 0)"

lemma forward_yields:
  assumes "over it rs xs" "j \<le> length xs"
  shows "yields flushable_Next (flushable_forward (it\<lparr>fi_index := int j\<rparr>))
    (map (fpair (fb_seqNum (fi_batch it))) (takeWhile (fbelow (fb_cmp (fi_batch it)) (fi_upper it)) (drop j xs)))"
  using assms
proof (induction "length xs - j" arbitrary: it j)
  case 0
  have "length (fi_offsets it) = length xs" using 0 by (simp add: over_def)
  then show ?case using 0 by (simp add: flushable_forward_def yields_end)
next
  case (Suc n)
  obtain i p kind key v where x: "xs ! j = (i, p, kind, key, v)" by (metis prod_cases5)
  have j: "j < length xs" and len: "length (fi_offsets it) = length xs" using Suc by (simp_all add: over_def)
  let ?it = "it\<lparr>fi_index := int j\<rparr>"
  let ?k = "fkey (fb_seqNum (fi_batch it)) (xs ! j)"
  have ov: "over ?it rs xs" "over (?it\<lparr>fi_key := ?k\<rparr>) rs xs" using Suc.prems(1) by simp_all
  have key: "flushable_getKey ?it j = Inr ?k" using flushable_getKey_over [OF ov(1) j] by simp
  have val: "flushable_value (?it\<lparr>fi_key := ?k\<rparr>) = Inr (fvalue (xs ! j), ?it\<lparr>fi_key := ?k\<rparr>)"
    by (rule flushable_value_over [OF ov(2) j]) simp
  have uk: "UserKey ?k = fst (snd (snd (snd (xs ! j))))" by (simp add: x)
  show ?case
  proof (cases "fbelow (fb_cmp (fi_batch it)) (fi_upper it) (xs ! j)")
    case True
    then have nb: "\<not> (case fi_upper it of Some u \<Rightarrow> 0 \<le> fb_cmp (fi_batch it) (UserKey ?k) u | None \<Rightarrow> False)"
      unfolding uk fbelow_def by (cases "fi_upper it") simp_all
    have fw: "flushable_forward ?it = Inr (Some (?k, fvalue (xs ! j)), ?it\<lparr>fi_key := ?k\<rparr>)"
      using j len key val nb by (cases "fi_upper it") (simp_all add: flushable_forward_def Let_def)
    have nx: "flushable_Next (?it\<lparr>fi_key := ?k\<rparr>) = flushable_forward ((?it\<lparr>fi_key := ?k\<rparr>)\<lparr>fi_index := int (Suc j)\<rparr>)"
      using j len by (simp add: flushable_Next_def add.commute)
    have "yields flushable_Next (flushable_forward ((?it\<lparr>fi_key := ?k\<rparr>)\<lparr>fi_index := int (Suc j)\<rparr>))
      (map (fpair (fb_seqNum (fi_batch it))) (takeWhile (fbelow (fb_cmp (fi_batch it)) (fi_upper it)) (drop (Suc j) xs)))"
      using Suc.hyps(1) [of "Suc j" "?it\<lparr>fi_key := ?k\<rparr>"] Suc.hyps(2) ov(2) j by simp
    then have Y: "yields flushable_Next (flushable_Next (?it\<lparr>fi_key := ?k\<rparr>))
      (map (fpair (fb_seqNum (fi_batch it))) (takeWhile (fbelow (fb_cmp (fi_batch it)) (fi_upper it)) (drop (Suc j) xs)))"
      unfolding nx .
    have fp: "fpair (fb_seqNum (fi_batch it)) (xs ! j) = (?k, fvalue (xs ! j))" by (simp add: fpair_def)
    show ?thesis unfolding fw Cons_nth_drop_Suc [OF j, symmetric] using yields_step [OF Y] True fp by simp
  next
    case False
    then have nb: "(case fi_upper it of Some u \<Rightarrow> 0 \<le> fb_cmp (fi_batch it) (UserKey ?k) u | None \<Rightarrow> False)"
      unfolding uk fbelow_def by (cases "fi_upper it") simp_all
    have "flushable_forward ?it = Inr (None, ?it\<lparr>fi_key := ?k, fi_index := int (length (fi_offsets it))\<rparr>)"
      using j len key nb by (cases "fi_upper it") (simp_all add: flushable_forward_def Let_def)
    then show ?thesis using False j by (simp add: yields_end flip: Cons_nth_drop_Suc)
  qed
qed

lemma backward_yields:
  assumes "over it rs xs" "j \<le> length xs"
  shows "yields flushable_Prev (flushable_backward (it\<lparr>fi_index := int j - 1\<rparr>))
    (map (fpair (fb_seqNum (fi_batch it))) (takeWhile (fabove (fb_cmp (fi_batch it)) (fi_lower it)) (rev (take j xs))))"
  using assms
proof (induction j arbitrary: it)
  case 0
  then show ?case by (simp add: flushable_backward_def yields_end)
next
  case (Suc j)
  obtain i p kind key v where x: "xs ! j = (i, p, kind, key, v)" by (metis prod_cases5)
  have j: "j < length xs" and len: "length (fi_offsets it) = length xs" using Suc.prems by (simp_all add: over_def)
  let ?it = "it\<lparr>fi_index := int j\<rparr>"
  let ?k = "fkey (fb_seqNum (fi_batch it)) (xs ! j)"
  have ov: "over ?it rs xs" "over (?it\<lparr>fi_key := ?k\<rparr>) rs xs" using Suc.prems(1) by simp_all
  have key: "flushable_getKey ?it j = Inr ?k" using flushable_getKey_over [OF ov(1) j] by simp
  have val: "flushable_value (?it\<lparr>fi_key := ?k\<rparr>) = Inr (fvalue (xs ! j), ?it\<lparr>fi_key := ?k\<rparr>)"
    by (rule flushable_value_over [OF ov(2) j]) simp
  have uk: "UserKey ?k = fst (snd (snd (snd (xs ! j))))" by (simp add: x)
  have rv: "rev (take (Suc j) xs) = xs ! j # rev (take j xs)" using j by (simp add: take_Suc_conv_app_nth)
  show ?case
  proof (cases "fabove (fb_cmp (fi_batch it)) (fi_lower it) (xs ! j)")
    case True
    then have nb: "\<not> (case fi_lower it of Some l \<Rightarrow> fb_cmp (fi_batch it) (UserKey ?k) l < 0 | None \<Rightarrow> False)"
      unfolding uk fabove_def by (cases "fi_lower it") simp_all
    have bw: "flushable_backward ?it = Inr (Some (?k, fvalue (xs ! j)), ?it\<lparr>fi_key := ?k\<rparr>)"
      using j len key val nb by (cases "fi_lower it") (simp_all add: flushable_backward_def Let_def)
    have pv: "flushable_Prev (?it\<lparr>fi_key := ?k\<rparr>) = flushable_backward ((?it\<lparr>fi_key := ?k\<rparr>)\<lparr>fi_index := int j - 1\<rparr>)"
      by (simp add: flushable_Prev_def)
    have "yields flushable_Prev (flushable_backward ((?it\<lparr>fi_key := ?k\<rparr>)\<lparr>fi_index := int j - 1\<rparr>))
      (map (fpair (fb_seqNum (fi_batch it))) (takeWhile (fabove (fb_cmp (fi_batch it)) (fi_lower it)) (rev (take j xs))))"
      using Suc.IH [of "?it\<lparr>fi_key := ?k\<rparr>"] ov(2) j by simp
    then have Y: "yields flushable_Prev (flushable_Prev (?it\<lparr>fi_key := ?k\<rparr>))
      (map (fpair (fb_seqNum (fi_batch it))) (takeWhile (fabove (fb_cmp (fi_batch it)) (fi_lower it)) (rev (take j xs))))"
      unfolding pv .
    have fp: "fpair (fb_seqNum (fi_batch it)) (xs ! j) = (?k, fvalue (xs ! j))" by (simp add: fpair_def)
    show ?thesis unfolding rv using yields_step [OF Y] True fp bw by simp
  next
    case False
    then have nb: "(case fi_lower it of Some l \<Rightarrow> fb_cmp (fi_batch it) (UserKey ?k) l < 0 | None \<Rightarrow> False)"
      unfolding uk fabove_def by (cases "fi_lower it") simp_all
    have "flushable_backward ?it = Inr (None, ?it\<lparr>fi_key := ?k, fi_index := -1\<rparr>)"
      using j len key nb by (cases "fi_lower it") (simp_all add: flushable_backward_def Let_def)
    then show ?thesis using False rv by (simp add: yields_end)
  qed
qed

lemma ends_yield:
  assumes "over it rs xs"
  shows "yields flushable_Next (flushable_First it)
      (map (fpair (fb_seqNum (fi_batch it))) (takeWhile (fbelow (fb_cmp (fi_batch it)) (fi_upper it)) xs))"
    "yields flushable_Prev (flushable_Last it)
      (map (fpair (fb_seqNum (fi_batch it))) (takeWhile (fabove (fb_cmp (fi_batch it)) (fi_lower it)) (rev xs)))"
proof -
  have len: "length (fi_offsets it) = length xs" and ov: "over (it\<lparr>fi_err := False\<rparr>) rs xs" using assms by (simp_all add: over_def)
  then have ne: "fi_offsets it = [] \<longleftrightarrow> xs = []" by auto
  show "yields flushable_Next (flushable_First it)
      (map (fpair (fb_seqNum (fi_batch it))) (takeWhile (fbelow (fb_cmp (fi_batch it)) (fi_upper it)) xs))"
    using forward_yields [OF ov, of 0] ne by (cases "xs = []") (simp_all add: flushable_First_def yields_end Let_def)
  show "yields flushable_Prev (flushable_Last it)
      (map (fpair (fb_seqNum (fi_batch it))) (takeWhile (fabove (fb_cmp (fi_batch it)) (fi_lower it)) (rev xs)))"
    using backward_yields [OF ov, of "length xs"] ne len by (cases "xs = []") (simp_all add: flushable_Last_def yields_end Let_def)
qed

subsection \<open>Seeks\<close>

lemma flushable_search_split:
  "\<lbrakk>\<And>j. j < hi \<Longrightarrow> f j = Inr (n \<le> j); lo \<le> n; n \<le> hi\<rbrakk> \<Longrightarrow> flushable_search f lo hi = Inr n"
proof (induction f lo hi rule: flushable_search.induct)
  case (1 f lo hi)
  show ?case
  proof (cases "lo < hi")
    case True
    let ?h = "(lo + hi) div 2"
    have h: "?h < hi" "lo \<le> ?h" using True by simp_all
    have fh: "f ?h = Inr (n \<le> ?h)" using "1.prems"(1) h(1) by blast
    show ?thesis
    proof (cases "n \<le> ?h")
      case le: True
      have "flushable_search f lo ?h = Inr n"
        by (rule "1.IH"(2) [OF True refl fh]) (use "1.prems" le h in auto)
      then show ?thesis using True fh le by (simp add: flushable_search.simps [of f lo hi] Let_def)
    next
      case gt: False
      have "flushable_search f (?h + 1) hi = Inr n"
        by (rule "1.IH"(1) [OF True refl fh]) (use "1.prems" gt h in auto)
      then show ?thesis using True fh gt by (simp add: flushable_search.simps [of f lo hi] Let_def)
    qed
  qed (use "1.prems" in \<open>simp add: flushable_search.simps [of f lo hi]\<close>)
qed

definition ukey :: "numbered \<Rightarrow> bytes" where
  "ukey = (\<lambda>(i, p, kind, key, v). key)"

lemma ukey_fkey [simp]: "UserKey (fkey seq x) = ukey x"
  by (cases x) (simp add: fkey_def ukey_def MakeInternalKey_def split: prod.splits)

lemma fkey_valid:
  assumes "x \<in> set (numbered_records rs)" "list_all valid_record rs"
  shows "InternalKey_Valid (fkey seq x)"
proof -
  obtain i p kind key v where x: "x = (i, p, kind, key, v)" by (metis prod_cases5)
  have "valid_record (kind, key, v)" using numbered_in [OF assms(1) [unfolded x]] assms(2) by (metis list_all_length)
  then show ?thesis by (simp add: x fkey_def MakeInternalKey_def InternalKey_Valid_def Kind_def trailer_Kind valid_record_def)
qed

lemma sorted_split:
  assumes "\<And>a b. R a b \<Longrightarrow> P b \<Longrightarrow> P a" "sorted_wrt R xs"
  shows "take (length (filter P xs)) xs = filter P xs" "drop (length (filter P xs)) xs = filter (\<lambda>x. \<not> P x) xs"
proof -
  have "take (length (filter P xs)) xs = filter P xs \<and> drop (length (filter P xs)) xs = filter (\<lambda>x. \<not> P x) xs"
    using assms(2)
  proof (induction xs)
    case (Cons x xs)
    show ?case
    proof (cases "P x")
      case False
      then have "\<forall>y\<in>set xs. \<not> P y" using assms(1) Cons.prems by auto
      then have "filter P xs = []" "filter (\<lambda>x. \<not> P x) xs = xs" by (auto simp add: filter_empty_conv filter_id_conv)
      then show ?thesis using False by simp
    qed (use Cons in simp)
  qed simp
  then show "take (length (filter P xs)) xs = filter P xs" "drop (length (filter P xs)) xs = filter (\<lambda>x. \<not> P x) xs" by simp_all
qed

context key_order
begin

lemma seek_index_over:
  assumes ov: "over it rs xs" and c: "fb_cmp (fi_batch it) = cmp" and so: "sorted_wrt (\<lambda>a b. cmp (ukey a) (ukey b) \<le> 0) xs"
  shows "seek_index key it = Inr (length (filter (\<lambda>x. cmp (ukey x) key < 0) xs))"
proof -
  let ?P = "\<lambda>x. cmp (ukey x) key < 0"
  let ?n = "length (filter ?P xs)"
  note sp = sorted_split [OF _ so, of ?P]
  have n: "?n \<le> length xs" by simp
  have P: "?P (xs ! j) \<longleftrightarrow> j < ?n" if j: "j < length xs" for j
  proof
    assume "j < ?n"
    then have "xs ! j \<in> set (take ?n xs)" using j by (auto simp add: in_set_conv_nth intro!: exI [of _ j])
    then show "?P (xs ! j)" using sp(1) cmp_le_less_trans by auto
  next
    assume p: "?P (xs ! j)"
    show "j < ?n"
    proof (rule ccontr)
      assume "\<not> j < ?n"
      then have "xs ! j \<in> set (drop ?n xs)" using j by (auto simp add: in_set_conv_nth intro!: exI [of _ "j - ?n"])
      then show False using sp(2) cmp_le_less_trans p by auto
    qed
  qed
  have "rbind (flushable_getKey it j) (\<lambda>k. Inr (InternalCompare cmp (MakeSearchKey key) k \<le> 0)) = (Inr (?n \<le> j) :: batch_panic + bool)"
    if j: "j < length xs" for j
  proof -
    have v: "InternalKey_Valid (fkey (fb_seqNum (fi_batch it)) (xs ! j))"
      by (rule fkey_valid [of _ rs]) (use ov j nth_mem [OF j] in \<open>auto simp add: over_def\<close>)
    have "cmp key (ukey (xs ! j)) \<le> 0 \<longleftrightarrow> \<not> ?P (xs ! j)" using cmp_swap [of key "ukey (xs ! j)"] by linarith
    then show ?thesis using flushable_getKey_over [OF ov j] search_key_le [OF v, of key] P [OF j] by (simp add: not_less)
  qed
  then have "flushable_search (\<lambda>j. rbind (flushable_getKey it j) (\<lambda>k. Inr (InternalCompare cmp (MakeSearchKey key) k \<le> 0))) 0 (length xs) = Inr ?n"
    using n by (intro flushable_search_split) auto
  then show ?thesis using ov c by (simp add: seek_index_def over_def)
qed

lemma seeks_yield:
  assumes "over it rs xs" "fb_cmp (fi_batch it) = cmp" "sorted_wrt (\<lambda>a b. cmp (ukey a) (ukey b) \<le> 0) xs"
  shows "yields flushable_Next (flushable_SeekGE key it)
      (map (fpair (fb_seqNum (fi_batch it))) (takeWhile (fbelow cmp (fi_upper it)) (filter (\<lambda>x. \<not> cmp (ukey x) key < 0) xs)))"
    "yields flushable_Prev (flushable_SeekLT key it)
      (map (fpair (fb_seqNum (fi_batch it))) (takeWhile (fabove cmp (fi_lower it)) (rev (filter (\<lambda>x. cmp (ukey x) key < 0) xs))))"
proof -
  let ?n = "length (filter (\<lambda>x. cmp (ukey x) key < 0) xs)"
  have ov: "over (it\<lparr>fi_err := False\<rparr>) rs xs" using assms(1) by simp
  have ix: "seek_index key (it\<lparr>fi_err := False\<rparr>) = Inr ?n" by (rule seek_index_over [OF ov _ assms(3)]) (simp add: assms(2))
  have n: "?n \<le> length xs" by simp
  have sp: "take ?n xs = filter (\<lambda>x. cmp (ukey x) key < 0) xs" "drop ?n xs = filter (\<lambda>x. \<not> cmp (ukey x) key < 0) xs"
    using sorted_split [OF _ assms(3), of "\<lambda>x. cmp (ukey x) key < 0"] cmp_le_less_trans by auto
  show "yields flushable_Next (flushable_SeekGE key it)
      (map (fpair (fb_seqNum (fi_batch it))) (takeWhile (fbelow cmp (fi_upper it)) (filter (\<lambda>x. \<not> cmp (ukey x) key < 0) xs)))"
    using forward_yields [OF ov n, unfolded sp] by (simp add: flushable_SeekGE_def ix assms(2) Let_def)
  show "yields flushable_Prev (flushable_SeekLT key it)
      (map (fpair (fb_seqNum (fi_batch it))) (takeWhile (fabove cmp (fi_lower it)) (rev (filter (\<lambda>x. cmp (ukey x) key < 0) xs))))"
    using backward_yields [OF ov n, unfolded sp] by (simp add: flushable_SeekLT_def ix assms(2) Let_def)
qed

end

section \<open>The order of the entries\<close>

lemma mset_map_lift: "mset zs = mset (map f xs) \<Longrightarrow> \<exists>ys. mset ys = mset xs \<and> zs = map f ys"
proof (induction zs arbitrary: xs)
  case (Cons z zs)
  then have "z \<in> set (map f xs)" by (metis list.set_intros(1) mset_eq_setD)
  then obtain x where x: "x \<in> set xs" "f x = z" by auto
  have "mset xs = add_mset x (mset (remove1 x xs))" using x(1) by simp
  then have "mset (map f xs) = add_mset z (mset (map f (remove1 x xs)))" using x(2) by (metis image_mset_add_mset mset_map)
  then have "mset zs = mset (map f (remove1 x xs))" using Cons.prems by simp
  then obtain ys where "mset ys = mset (remove1 x xs)" "zs = map f ys" using Cons.IH by blast
  then show ?case using x by (intro exI [of _ "x # ys"]) simp
qed simp

lemma placed_increasing: "sorted_wrt (\<lambda>a b. fst a < fst b) (placed p rs)"
proof (induction rs arbitrary: p)
  case (Cons r rs)
  have "p < q" if "(q, r') \<in> set (placed (p + length (rec_bytes r)) rs)" for q r'
    using placed_bounds [OF that] length_rec_bytes [of r] by simp
  then show ?case using Cons.IH by auto
qed simp

lemma numbered_increasing:
  assumes "(i, p, r) \<in> set (numbered_records rs)" "(j, q, r') \<in> set (numbered_records rs)" "p < q"
  shows "i < j"
proof (rule ccontr)
  assume "\<not> i < j"
  let ?P = "placed batchHeaderLen rs"
  have a: "i < length ?P" "?P ! i = (p, r)" "j < length ?P" "?P ! j = (q, r')"
    using assms(1,2) by (auto simp add: numbered_records_def in_set_enumerate_eq)
  show False
  proof (cases "i = j")
    case False
    then have "j < i" using \<open>\<not> i < j\<close> by simp
    then have "fst (?P ! j) < fst (?P ! i)" using sorted_wrt_nth_less [OF placed_increasing] a(1) by blast
    then show False using a assms(3) by simp
  qed (use a assms(3) in simp)
qed

lemma numbered_distinct: "distinct (numbered_records rs)"
  by (simp add: numbered_records_def)

lemma numbered_inj:
  assumes "(i, p, r) \<in> set (numbered_records rs)" "(j, p, r') \<in> set (numbered_records rs)"
  shows "(i, p, r) = (j, p, r')"
proof -
  let ?P = "placed batchHeaderLen rs"
  have a: "i < length ?P" "?P ! i = (p, r)" "j < length ?P" "?P ! j = (p, r')"
    using assms by (auto simp add: numbered_records_def in_set_enumerate_eq)
  have "i = j"
  proof (rule ccontr)
    assume "i \<noteq> j"
    then have "fst (?P ! i) < fst (?P ! j) \<or> fst (?P ! j) < fst (?P ! i)"
      using sorted_wrt_nth_less [OF placed_increasing] a(1,3) by (metis linorder_neqE_nat)
    then show False using a by simp
  qed
  then show ?thesis using a by simp
qed

context key_order
begin

lemma flushable_Less_entries:
  assumes "x \<in> set (numbered_records rs)" "y \<in> set (numbered_records rs)"
    and "data = h @ recs_bytes rs" "length h = batchHeaderLen" "length data < 2 ^ 32" "list_all valid_record rs"
  shows "flushable_Less cmp data (fentry x) (fentry y) \<longleftrightarrow>
    cmp (ukey x) (ukey y) < 0 \<or> ukey x = ukey y \<and> fst (snd y) < fst (snd x)"
proof -
  obtain i p kind key v where x: "x = (i, p, kind, key, v)" by (metis prod_cases5)
  obtain j q kind' key' v' where y: "y = (j, q, kind', key', v')" by (metis prod_cases5)
  note ex = fentry_data [OF assms(1) [unfolded x] assms(3-6)]
  note ey = fentry_data [OF assms(2) [unfolded y] assms(3-6)]
  show ?thesis
    unfolding flushable_Less_def x y Let_def ex(7) ey(7) word_less_nat_alt ex(8) ey(8)
    using cmp_eq [of key key'] by (auto simp add: ukey_def)
qed

text \<open>Sorting the entries of records leaves them in the order of their internal keys.\<close>

lemma sorted_entries:
  assumes "sorts_by (flushable_Less cmp data) srt" "set xs \<subseteq> set (numbered_records rs)" "distinct xs"
    and "data = h @ recs_bytes rs" "length h = batchHeaderLen" "length data < 2 ^ 32" "list_all valid_record rs"
  obtains ys where "srt (map fentry xs) = map fentry ys" "mset ys = mset xs"
    "sorted_wrt (\<lambda>a b. cmp (ukey a) (ukey b) < 0 \<or> ukey a = ukey b \<and> fst b < fst a) ys"
proof -
  have s: "mset (srt (map fentry xs)) = mset (map fentry xs)"
      "sorted_wrt (\<lambda>a b. \<not> flushable_Less cmp data b a) (srt (map fentry xs))"
    using assms(1) by (simp_all add: sorts_by_def)
  obtain ys where ys: "mset ys = mset xs" "srt (map fentry xs) = map fentry ys" using mset_map_lift [OF s(1)] by blast
  have st: "set ys = set xs" using ys(1) by (metis set_mset_mset)
  have "distinct ys" using ys(1) assms(3) by (metis mset_eq_imp_distinct_iff)
  then have "sorted_wrt (\<lambda>a b. a \<noteq> b \<and> \<not> flushable_Less cmp data (fentry b) (fentry a)) ys"
    using s(2) ys(2) by (simp add: sorted_wrt_map distinct_conv_nth sorted_wrt_iff_nth_less)
  then have "sorted_wrt (\<lambda>a b. cmp (ukey a) (ukey b) < 0 \<or> ukey a = ukey b \<and> fst b < fst a) ys"
  proof (rule sorted_wrt_mono_rel [rotated])
    fix a b assume ab: "a \<in> set ys" "b \<in> set ys" and r: "a \<noteq> b \<and> \<not> flushable_Less cmp data (fentry b) (fentry a)"
    obtain i p r1 where a: "a = (i, p, r1)" by (metis prod_cases3)
    obtain j q r2 where b: "b = (j, q, r2)" by (metis prod_cases3)
    have m: "a \<in> set (numbered_records rs)" "b \<in> set (numbered_records rs)" using ab st assms(2) by auto
    have nl: "\<not> cmp (ukey b) (ukey a) < 0" "ukey b = ukey a \<Longrightarrow> \<not> p < q"
      using r flushable_Less_entries [OF m(2,1) assms(4-7)] by (auto simp add: a b)
    have "p \<noteq> q" using numbered_inj [of i p r1 rs j r2] m r a b by auto
    then have "ukey b = ukey a \<Longrightarrow> j < i" using nl(2) numbered_increasing [of j q r2 rs i p r1] m a b by auto
    then show "cmp (ukey a) (ukey b) < 0 \<or> ukey a = ukey b \<and> fst b < fst a"
      using nl(1) cmp_swap [of "ukey b" "ukey a"] cmp_eq [of "ukey a" "ukey b"] by (auto simp add: a b)
  qed
  then show thesis using that ys by blast
qed

lemma fkeys_ordered:
  assumes "sorted_wrt (\<lambda>a b. cmp (ukey a) (ukey b) < 0 \<or> ukey a = ukey b \<and> fst b < fst a) ys"
    and "set ys \<subseteq> set (numbered_records rs)" "unat seq + length rs \<le> 2 ^ 56"
  shows "sorted_wrt (\<lambda>a b. InternalCompare cmp (fkey seq a) (fkey seq b) < 0) ys"
  using assms(1)
proof (rule sorted_wrt_mono_rel [rotated])
  fix a b assume ab: "a \<in> set ys" "b \<in> set ys" and r: "cmp (ukey a) (ukey b) < 0 \<or> ukey a = ukey b \<and> fst b < fst a"
  have sn: "unat (SeqNum (fkey seq x)) = unat seq + fst x" if "x \<in> set ys" for x
  proof -
    obtain i p kind key v where x: "x = (i, p, kind, key, v)" by (metis prod_cases5)
    have i: "i < length rs" using numbered_in(1) [of i p "(kind, key, v)" rs] that assms(2) x by blast
    then have "unat (seq + of_nat i) = unat seq + i"
      using assms(3) unsigned_less [of seq, where 'a = nat] by (simp add: unat_word_ariths unsigned_of_nat take_bit_nat_eq_self)
    moreover from this have "SeqNum (fkey seq x) = seq + of_nat i"
      unfolding x fkey_def MakeInternalKey_def SeqNum_def prod.case InternalKey.simps using i assms(3) by (intro trailer_SeqNum) simp
    ultimately show ?thesis by (simp add: x)
  qed
  from r show "InternalCompare cmp (fkey seq a) (fkey seq b) < 0"
  proof
    assume "ukey a = ukey b \<and> fst b < fst a"
    then show ?thesis using sn ab by (intro newer_first) (simp_all add: word_less_nat_alt)
  qed (simp add: InternalCompare_less)
qed

end

section \<open>Fragments of the range operations\<close>

context key_order
begin

lemma frag_run_adds:
  assumes "sorts_by keysBySeqNumKind_Less sortKeys" "sorts_by (spansByEndKey_Less cmp) sortSpans"
    and "sorted_wrt (\<lambda>a b. cmp (sp_start a) (sp_start b) \<le> 0) ss" "\<forall>s\<in>set ss. sp_order s = ByTrailerDesc"
  obtains f where "frag_run cmp sortSpans sortKeys (map FragAdd ss) new_Fragmenter = Inr f" "fragmented cmp (fr_out f)"
    "\<forall>s\<in>set (fr_out f). emitted_ok s" "\<forall>u. keys_at cmp (fr_out f) u = keys_at cmp ss u"
proof -
  have added: "added_spans (map FragAdd xs) = xs" for xs by (induction xs) auto
  show thesis
    using frag_run_correct [OF frag_inv_new assms(1,2), of "map FragAdd ss"] assms(3,4) that
    by (auto simp add: sorted_wrt_map added cmp_empty)
qed

lemma fragmentRangeDels_yields:
  fixes nxt :: "'i \<Rightarrow> batch_panic + (InternalKey \<times> bytes) option \<times> 'i"
  assumes "sorts_by keysBySeqNumKind_Less sortKeys" "sorts_by (spansByEndKey_Less cmp) sortSpans"
    and "yields nxt first kvs" "sorted_wrt (\<lambda>a b. cmp (UserKey (fst a)) (UserKey (fst b)) \<le> 0) kvs"
  obtains f where "fragmentRangeDels cmp sortSpans sortKeys nxt first = Inr f" "fragmented cmp (fr_out f)"
    "\<forall>s\<in>set (fr_out f). emitted_ok s" "\<forall>u. keys_at cmp (fr_out f) u = keys_at cmp (map (\<lambda>(k, v). Rangedel_Decode k v []) kvs) u"
proof -
  let ?ss = "map (\<lambda>(k, v). Rangedel_Decode k v []) kvs"
  have so: "sorted_wrt (\<lambda>a b. cmp (sp_start a) (sp_start b) \<le> 0) ?ss"
    using assms(4) by (simp add: sorted_wrt_map Rangedel_Decode_def case_prod_beta)
  have od: "\<forall>s\<in>set ?ss. sp_order s = ByTrailerDesc" by (auto simp add: Rangedel_Decode_def)
  obtain f where f: "frag_run cmp sortSpans sortKeys (map FragAdd ?ss) new_Fragmenter = Inr f" "fragmented cmp (fr_out f)"
    "\<forall>s\<in>set (fr_out f). emitted_ok s" "\<forall>u. keys_at cmp (fr_out f) u = keys_at cmp ?ss u"
    by (rule frag_run_adds [OF assms(1,2) so od])
  obtain r where r: "first = Inr r" using assms(3) by (cases rule: yields.cases) auto
  have dec: "list_all2 (\<lambda>(k, v) s. (\<lambda>k v. Inr (Rangedel_Decode k v [])) k v = (Inr s :: rk_error + Span)) kvs ?ss"
    by (auto simp add: list_all2_conv_all_nth case_prod_beta)
  have "fragment_loop cmp sortSpans sortKeys (\<lambda>k v. Inr (Rangedel_Decode k v [])) nxt new_Fragmenter r = Some (Inr (None, f))"
    by (rule fragment_loop_yields [OF assms(3) [unfolded r] dec f(1)])
  then have "fragmentRangeDels cmp sortSpans sortKeys nxt first = Inr f" by (simp add: fragmentRangeDels_def r)
  then show thesis using that f by blast
qed

lemma fragmentRangeKeys_yields:
  fixes nxt :: "'i \<Rightarrow> batch_panic + (InternalKey \<times> bytes) option \<times> 'i"
  assumes "sorts_by keysBySeqNumKind_Less sortKeys" "sorts_by (spansByEndKey_Less cmp) sortSpans"
    and "yields nxt first kvs" "list_all2 (\<lambda>(k, v) s. Rangekey_Decode k v [] = Inr s) kvs ss"
    and "sorted_wrt (\<lambda>a b. cmp (sp_start a) (sp_start b) \<le> 0) ss" "\<forall>s\<in>set ss. sp_order s = ByTrailerDesc"
  obtains f where "fragmentRangeKeys cmp sortSpans sortKeys nxt first = Inr (None, f)" "fragmented cmp (fr_out f)"
    "\<forall>s\<in>set (fr_out f). emitted_ok s" "\<forall>u. keys_at cmp (fr_out f) u = keys_at cmp ss u"
proof -
  obtain f where f: "frag_run cmp sortSpans sortKeys (map FragAdd ss) new_Fragmenter = Inr f" "fragmented cmp (fr_out f)"
    "\<forall>s\<in>set (fr_out f). emitted_ok s" "\<forall>u. keys_at cmp (fr_out f) u = keys_at cmp ss u"
    by (rule frag_run_adds [OF assms(1,2,5,6)])
  obtain r where r: "first = Inr r" using assms(3) by (cases rule: yields.cases) auto
  have "fragment_loop cmp sortSpans sortKeys (\<lambda>k v. Rangekey_Decode k v []) nxt new_Fragmenter r = Some (Inr (None, f))"
    by (rule fragment_loop_yields [OF assms(3) [unfolded r] _ f(1)]) (use assms(4) in simp)
  then have "fragmentRangeKeys cmp sortSpans sortKeys nxt first = Inr (None, f)" by (simp add: fragmentRangeKeys_def r)
  then show thesis using that f by blast
qed

end

text \<open>The span an operation on a range stands for, with the trailer of its key.\<close>

fun op_range :: "u64 \<Rightarrow> batch_op \<Rightarrow> Span" where
  "op_range t (OpDeleteRange s e) =
     \<lparr>sp_start = s, sp_end = e, sp_keys = [\<lparr>k_trailer = t, k_suffix = [], k_value = []\<rparr>], sp_order = ByTrailerDesc\<rparr>"
| "op_range t (OpRangeKeySet s e suff v) =
     \<lparr>sp_start = s, sp_end = e, sp_keys = [\<lparr>k_trailer = t, k_suffix = suff, k_value = v\<rparr>], sp_order = ByTrailerDesc\<rparr>"
| "op_range t (OpRangeKeyUnset s e suff) =
     \<lparr>sp_start = s, sp_end = e, sp_keys = [\<lparr>k_trailer = t, k_suffix = suff, k_value = []\<rparr>], sp_order = ByTrailerDesc\<rparr>"
| "op_range t (OpRangeKeyDelete s e) =
     \<lparr>sp_start = s, sp_end = e, sp_keys = [\<lparr>k_trailer = t, k_suffix = [], k_value = []\<rparr>], sp_order = ByTrailerDesc\<rparr>"
| "op_range t _ = \<lparr>sp_start = [], sp_end = [], sp_keys = [], sp_order = ByTrailerDesc\<rparr>"

text \<open>The key and the span of the operation with number \<open>i\<close> of a batch with a sequence number.\<close>

definition op_pair :: "u64 \<Rightarrow> nat \<times> batch_op \<Rightarrow> InternalKey \<times> bytes" where
  "op_pair seq = (\<lambda>(i, op). case op_record op of (kind, key, v) \<Rightarrow> (MakeInternalKey key (seq + of_nat i) kind, v))"

definition op_span :: "u64 \<Rightarrow> nat \<times> batch_op \<Rightarrow> Span" where
  "op_span seq = (\<lambda>(i, op). op_range (MakeTrailer (seq + of_nat i) (fst (op_record op))) op)"

lemma op_range_simps [simp]: "sp_order (op_range t op) = ByTrailerDesc"
  by (cases op) simp_all

lemma op_range_start:
  "fst (op_record op) = InternalKeyKindRangeDelete \<or> is_range_key (fst (op_record op)) \<Longrightarrow> sp_start (op_range t op) = fst (snd (op_record op))"
  by (cases op) (simp_all add: is_range_key_def kind_defs)

lemma decode_range_del:
  assumes "fst (op_record op) = InternalKeyKindRangeDelete"
  shows "(\<lambda>(k, v). Rangedel_Decode k v []) (op_pair seq (i, op)) = op_span seq (i, op)"
  using assms by (cases op)
    (simp_all add: op_pair_def op_span_def Rangedel_Decode_def kind_defs)

lemma decode_range_key:
  assumes "is_range_key (fst (op_record op))" "length (snd (snd (op_record op))) < 2 ^ 32"
  shows "(\<lambda>(k, v). Rangekey_Decode k v []) (op_pair seq (i, op)) = Inr (op_span seq (i, op))"
proof (cases op)
  case (OpRangeKeySet s e suff v)
  let ?sv = "[\<lparr>sv_suffix = suff, sv_value = v\<rparr>]"
  have len: "length (put_len e @ e @ set_suffixes ?sv) < 2 ^ 64" "length suff < 2 ^ 64" "length v < 2 ^ 64"
    using assms(2) by (simp_all add: OpRangeKeySet set_value_def)
  have "set_suffixes ?sv \<noteq> []" by simp
  then have "DecodeEndKey InternalKeyKindRangeKeySet (set_value e ?sv) = Inr (Some (e, set_suffixes ?sv))"
    unfolding set_value_def by (rule DecodeEndKey_put [OF disjI1 [OF refl] _ len(1)])
  then show ?thesis using decode_sets_encode [of ?sv] len(2,3)
    by (simp add: OpRangeKeySet op_pair_def op_span_def Rangekey_Decode_def del: set_suffixes.simps)
next
  case (OpRangeKeyUnset s e suff)
  have len: "length (put_len e @ e @ unset_suffixes [suff]) < 2 ^ 64" "length suff < 2 ^ 64"
    using assms(2) by (simp_all add: OpRangeKeyUnset unset_value_def)
  have "unset_suffixes [suff] \<noteq> []" by simp
  then have "DecodeEndKey InternalKeyKindRangeKeyUnset (unset_value e [suff]) = Inr (Some (e, unset_suffixes [suff]))"
    unfolding unset_value_def by (rule DecodeEndKey_put [OF disjI2 [OF refl] _ len(1)])
  then show ?thesis using decode_unsets_encode [of "[suff]"] len(2)
    by (simp add: OpRangeKeyUnset op_pair_def op_span_def Rangekey_Decode_def kind_defs del: unset_suffixes.simps)
next
  case (OpRangeKeyDelete s e)
  then show ?thesis
    by (simp add: op_pair_def op_span_def Rangekey_Decode_def DecodeEndKey_def kind_defs)
qed (use assms(1) in \<open>simp_all add: is_range_key_def kind_defs\<close>)

section \<open>Making a flushable batch\<close>

definition opn :: "batch_op list \<Rightarrow> numbered \<Rightarrow> nat \<times> batch_op" where
  "opn ops x = (fst x, ops ! fst x)"

definition selected :: "(kind \<Rightarrow> bool) \<Rightarrow> batch_op list \<Rightarrow> (nat \<times> batch_op) list" where
  "selected sel ops = filter (\<lambda>(i, op). sel (fst (op_record op))) (enumerate 0 ops)"

lemma numbered_op:
  assumes "x \<in> set (numbered_records (map op_record ops))"
  shows "fpair seq x = op_pair seq (opn ops x)" "kind_of x = fst (op_record (ops ! fst x))" "fst x < length ops"
    "ukey x = fst (snd (op_record (ops ! fst x)))"
proof -
  obtain i p r where x: "x = (i, p, r)" by (metis prod_cases3)
  have i: "i < length ops" "op_record (ops ! i) = r"
    using numbered_in(1,3) [OF assms [unfolded x]] by simp_all
  show "fpair seq x = op_pair seq (opn ops x)" "kind_of x = fst (op_record (ops ! fst x))" "fst x < length ops"
    "ukey x = fst (snd (op_record (ops ! fst x)))"
    using i by (cases r; simp add: x fpair_def fkey_def fvalue_def op_pair_def opn_def kind_of_def ukey_def)+
qed

lemma numbered_selected:
  "map (opn ops) (filter (\<lambda>x. sel (kind_of x)) (numbered_records (map op_record ops))) = selected sel ops"
proof -
  let ?N = "numbered_records (map op_record ops)"
  have l: "length (placed batchHeaderLen (map op_record ops)) = length ops" by (metis length_map map_snd_placed)
  have "map (opn ops) ?N = enumerate 0 ops"
    by (rule nth_equalityI) (simp_all add: numbered_records_def l opn_def nth_enumerate_eq)
  moreover have "filter (\<lambda>x. sel (kind_of x)) ?N = filter ((\<lambda>(i, op). sel (fst (op_record op))) \<circ> opn ops) ?N"
    by (rule filter_cong) (simp_all add: opn_def numbered_op(2))
  ultimately show ?thesis unfolding selected_def by (metis filter_map)
qed

text \<open>The batch's part of a flushable batch: the data, and the entries of each class in order.\<close>

definition ordered_entries :: "batch_op list \<Rightarrow> (kind \<Rightarrow> bool) \<Rightarrow> numbered list \<Rightarrow> bool" where
  "ordered_entries ops sel ys \<longleftrightarrow>
     mset ys = mset (filter (\<lambda>x. sel (kind_of x)) (numbered_records (map op_record ops))) \<and>
     sorted_wrt (\<lambda>a b. bytes_compare (ukey a) (ukey b) < 0 \<or> ukey a = ukey b \<and> fst b < fst a) ys"

lemma ordered_entries_facts:
  assumes "ordered_entries ops sel ys"
  shows "set ys \<subseteq> set (numbered_records (map op_record ops))"
    "mset (map (fpair seq) ys) = mset (map (op_pair seq) (selected sel ops))"
    "x \<in> set ys \<Longrightarrow> sel (kind_of x)" "sorted_wrt (\<lambda>a b. bytes_compare (ukey a) (ukey b) \<le> 0) ys"
    "mset (map (opn ops) ys) = mset (selected sel ops)"
proof -
  let ?X = "filter (\<lambda>x. sel (kind_of x)) (numbered_records (map op_record ops))"
  have m: "mset ys = mset ?X" using assms by (simp add: ordered_entries_def)
  then have st: "set ys = set ?X" by (metis set_mset_mset)
  then show sub: "set ys \<subseteq> set (numbered_records (map op_record ops))" and "x \<in> set ys \<Longrightarrow> sel (kind_of x)" by auto
  show o: "mset (map (opn ops) ys) = mset (selected sel ops)"
    unfolding numbered_selected [symmetric] mset_map m ..
  have "map (fpair seq) ys = map (op_pair seq) (map (opn ops) ys)"
    using sub by (auto simp add: numbered_op(1))
  then show "mset (map (fpair seq) ys) = mset (map (op_pair seq) (selected sel ops))"
    using o by (metis mset_map)
  show "sorted_wrt (\<lambda>a b. bytes_compare (ukey a) (ukey b) \<le> 0) ys"
    using assms unfolding ordered_entries_def by (auto elim!: sorted_wrt_mono_rel [rotated] simp add: dflt.cmp_refl)
qed

definition holds_ops :: "batch_op list \<Rightarrow> bytes \<Rightarrow> bool" where
  "holds_ops ops data \<longleftrightarrow>
     (\<exists>h. length h = batchHeaderLen \<and> data = h @ recs_bytes (map op_record ops)) \<and> length data < 2 ^ 32"

lemma over_entries:
  assumes "holds_ops ops (fb_data f)" "ordered_entries ops sel ys"
  shows "over (new_flushable_iter f (map fentry ys) lower upper) (map op_record ops) ys"
  using assms(1) ordered_entries_facts(1) [OF assms(2)] valid_op_record
  by (auto simp add: over_def holds_ops_def new_flushable_iter_def list_all_iff)

lemma sort_entries:
  assumes "holds_ops ops data" "sorts_by (flushable_Less bytes_compare data) srt"
  obtains ys where "srt (map fentry (filter (\<lambda>x. sel (kind_of x)) (numbered_records (map op_record ops)))) = map fentry ys"
    "ordered_entries ops sel ys"
proof -
  obtain h where h: "data = h @ recs_bytes (map op_record ops)" "length h = batchHeaderLen" "length data < 2 ^ 32"
    using assms(1) by (auto simp add: holds_ops_def)
  have v: "list_all valid_record (map op_record ops)" using valid_op_record by (simp add: list_all_iff)
  let ?X = "filter (\<lambda>x. sel (kind_of x)) (numbered_records (map op_record ops))"
  obtain ys where "srt (map fentry ?X) = map fentry ys" "mset ys = mset ?X"
      "sorted_wrt (\<lambda>a b. bytes_compare (ukey a) (ukey b) < 0 \<or> ukey a = ukey b \<and> fst b < fst a) ys"
    by (rule dflt.sorted_entries [OF assms(2) filter_is_subset _ h v]) (simp_all add: numbered_distinct)
  then show thesis using that unfolding ordered_entries_def by blast
qed

lemma yields_entries:
  assumes "holds_ops ops (fb_data f)" "ordered_entries ops sel ys"
  shows "yields flushable_Next (flushable_First (new_flushable_iter f (map fentry ys) None None)) (map (fpair (fb_seqNum f)) ys)"
proof -
  have "takeWhile (fbelow (fb_cmp f) None) ys = ys" by (simp add: takeWhile_eq_all_conv fbelow_def)
  then show ?thesis using ends_yield(1) [OF over_entries [OF assms, of None None]] by (simp only: new_flushable_iter_def flushableBatchIter.simps)
qed

lemma fragment_dels:
  assumes "sorts_by keysBySeqNumKind_Less sortKeys" "sorts_by (spansByEndKey_Less bytes_compare) sortSpans"
    and "holds_ops ops (fb_data f)" "ordered_entries ops (\<lambda>k. k = InternalKeyKindRangeDelete) ys"
  obtains g where "fragmentRangeDels bytes_compare sortSpans sortKeys flushable_Next
      (flushable_First (new_flushable_iter f (map fentry ys) None None)) = Inr g" "fragmented bytes_compare (fr_out g)"
    "\<forall>s\<in>set (fr_out g). emitted_ok s"
    "\<forall>u. keys_at bytes_compare (fr_out g) u =
       keys_at bytes_compare (map (op_span (fb_seqNum f)) (selected (\<lambda>k. k = InternalKeyKindRangeDelete) ops)) u"
proof -
  let ?kvs = "map (fpair (fb_seqNum f)) ys"
  note o = ordered_entries_facts [OF assms(4)]
  have so: "sorted_wrt (\<lambda>a b. bytes_compare (UserKey (fst a)) (UserKey (fst b)) \<le> 0) ?kvs"
    using o(4) by (simp add: sorted_wrt_map fpair_def)
  have "(\<lambda>(k, v). Rangedel_Decode k v []) (fpair (fb_seqNum f) x) = op_span (fb_seqNum f) (opn ops x)" if "x \<in> set ys" for x
    using decode_range_del [of "ops ! fst x"] o(1,3) that numbered_op(1,2) [of x ops] by (auto simp add: opn_def)
  then have "map (\<lambda>(k, v). Rangedel_Decode k v []) ?kvs = map (op_span (fb_seqNum f)) (map (opn ops) ys)" by simp
  then have "mset (map (\<lambda>(k, v). Rangedel_Decode k v []) ?kvs) = mset (map (op_span (fb_seqNum f)) (selected (\<lambda>k. k = InternalKeyKindRangeDelete) ops))"
    using o(5) by (metis mset_map)
  from keys_at_mset [OF this] show thesis
    using dflt.fragmentRangeDels_yields [OF assms(1,2) yields_entries [OF assms(3,4)] so] that by metis
qed

lemma length_rec_member: "r \<in> set rs \<Longrightarrow> length (rec_bytes r) \<le> length (recs_bytes rs)"
  by (induction rs) auto

lemma fragment_keys:
  assumes "sorts_by keysBySeqNumKind_Less sortKeys" "sorts_by (spansByEndKey_Less bytes_compare) sortSpans"
    and "holds_ops ops (fb_data f)" "ordered_entries ops is_range_key ys"
  obtains g where "fragmentRangeKeys bytes_compare sortSpans sortKeys flushable_Next
      (flushable_First (new_flushable_iter f (map fentry ys) None None)) = Inr (None, g)" "fragmented bytes_compare (fr_out g)"
    "\<forall>s\<in>set (fr_out g). emitted_ok s"
    "\<forall>u. keys_at bytes_compare (fr_out g) u = keys_at bytes_compare (map (op_span (fb_seqNum f)) (selected is_range_key ops)) u"
proof -
  let ?kvs = "map (fpair (fb_seqNum f)) ys" and ?ss = "map (op_span (fb_seqNum f)) (map (opn ops) ys)"
  note o = ordered_entries_facts [OF assms(4)]
  have op: "is_range_key (fst (op_record (ops ! fst x)))" "ukey x = sp_start (op_span (fb_seqNum f) (opn ops x))"
      "(\<lambda>(k, v). Rangekey_Decode k v []) (fpair (fb_seqNum f) x) = Inr (op_span (fb_seqNum f) (opn ops x))" if x: "x \<in> set ys" for x
  proof -
    have n: "x \<in> set (numbered_records (map op_record ops))" using o(1) x by blast
    show k: "is_range_key (fst (op_record (ops ! fst x)))" using o(3) [OF x] numbered_op(2) [OF n] by simp
    show "ukey x = sp_start (op_span (fb_seqNum f) (opn ops x))"
      using k by (simp add: numbered_op(4) [OF n] op_span_def opn_def op_range_start)
    have "op_record (ops ! fst x) \<in> set (map op_record ops)" using numbered_op(3) [OF n] by simp
    then have "length (rec_bytes (op_record (ops ! fst x))) \<le> length (recs_bytes (map op_record ops))"
      by (rule length_rec_member)
    then have "length (rec_bytes (op_record (ops ! fst x))) < 2 ^ 32" using assms(3) by (auto simp add: holds_ops_def)
    moreover have "length (snd (snd r)) \<le> length (rec_bytes r)" if "is_range_key (fst r)" for r
      using that by (cases r) (auto simp add: rec_bytes_def is_range_key_def has_value_def)
    ultimately have "length (snd (snd (op_record (ops ! fst x)))) < 2 ^ 32" using k le_less_trans by blast
    then show "(\<lambda>(k, v). Rangekey_Decode k v []) (fpair (fb_seqNum f) x) = Inr (op_span (fb_seqNum f) (opn ops x))"
      using decode_range_key [OF k] numbered_op(1) [OF n] by (simp add: opn_def)
  qed
  have dec: "list_all2 (\<lambda>(k, v) s. Rangekey_Decode k v [] = Inr s) ?kvs ?ss"
    using op(3) by (auto simp add: list_all2_conv_all_nth case_prod_beta)
  have so: "sorted_wrt (\<lambda>a b. bytes_compare (sp_start a) (sp_start b) \<le> 0) ?ss"
    unfolding sorted_wrt_map by (rule sorted_wrt_mono_rel [OF _ o(4)]) (simp add: op(2))
  have od: "\<forall>s\<in>set ?ss. sp_order s = ByTrailerDesc" by (auto simp add: op_span_def opn_def)
  have "mset ?ss = mset (map (op_span (fb_seqNum f)) (selected is_range_key ops))" using o(5) by (metis mset_map)
  from keys_at_mset [OF this] show thesis
    using dflt.fragmentRangeKeys_yields [OF assms(1,2) yields_entries [OF assms(3,4)] dec so od] that by metis
qed

text \<open>What the fragments of a class of operations are.\<close>

definition fragments_of :: "batch_op list \<Rightarrow> (kind \<Rightarrow> bool) \<Rightarrow> u64 \<Rightarrow> Span list \<Rightarrow> bool" where
  "fragments_of ops sel seq ss \<longleftrightarrow>
     fragmented bytes_compare ss \<and> (\<forall>s\<in>set ss. emitted_ok s) \<and>
     (\<forall>u. keys_at bytes_compare ss u = keys_at bytes_compare (map (op_span seq) (selected sel ops)) u)"

lemma fragments_of_Nil: "selected sel ops = [] \<Longrightarrow> fragments_of ops sel seq []"
  by (simp add: fragments_of_def fragmented_def)

lemma selected_Nil:
  "filter (\<lambda>x. sel (kind_of x)) (numbered_records (map op_record ops)) = [] \<Longrightarrow> selected sel ops = []"
  using numbered_selected [of ops sel] by simp

lemma fresh_header:
  assumes "take 8 (b_data b) = replicate 8 0" "b_data b \<noteq> []" "8 \<le> length (b_data b)"
  shows "Batch_SeqNum b = Inr (0, b)"
proof -
  have "le_decode (replicate 8 (0 :: byte)) = (0 :: u64)" by (simp add: eval_nat_numeral)
  then have "le_read 8 (b_data b) = Some (0 :: u64)" using assms(1,3) by (simp add: le_read_def)
  then show ?thesis using assms(2) by (simp add: Batch_SeqNum_def ensure_init_def)
qed

lemma flushable_loop_ops:
  assumes "holds_ops ops data"
  defines "X \<equiv> \<lambda>sel. map fentry (filter (\<lambda>x. sel (kind_of x)) (numbered_records (map op_record ops)))"
  shows "(if batchHeaderLen < length data then flushable_loop data (drop batchHeaderLen data) 0 ([], [], [])
      else Inr (Inr ([], [], []))) = Inr (Inr (X is_flush_point, X (\<lambda>k. k = InternalKeyKindRangeDelete), X is_range_key))"
proof -
  let ?rs = "map op_record ops"
  obtain h where h: "length h = batchHeaderLen" "data = h @ recs_bytes ?rs" "length data < 2 ^ 32"
    using assms(1) by (auto simp add: holds_ops_def)
  have v: "list_all valid_record ?rs" using valid_op_record by (simp add: list_all_iff)
  show ?thesis
  proof (cases "batchHeaderLen < length data")
    case True
    have "drop batchHeaderLen data = recs_bytes ?rs" using h by simp
    then show ?thesis
      using flushable_loop_records [of data h "[]" ?rs "([], [], [])"] h v True
      by (simp add: X_def add_entries_classify flip: numbered_records_def)
  next
    case False
    then have "ops = []" using h length_recs_bytes [of ?rs] by simp
    then show ?thesis using False by (simp add: X_def numbered_records_def)
  qed
qed

lemma newFlushable_ok:
  assumes sorts: "sorts_by (flushable_Less bytes_compare (b_data b)) sortEntries" "sorts_by keysBySeqNumKind_Less sortKeys"
      "sorts_by (spansByEndKey_Less bytes_compare) sortSpans"
    and rep: "batch_rep bytes_compare AbbreviatedKey b (map op_record ops)" and ne: "b_data b \<noteq> []"
    and hdr: "take 8 (b_data b) = replicate 8 0"
  obtains f ys where "newFlushableBatch sortEntries sortSpans sortKeys bytes_compare b = Inr (Inr f)"
    "fb_data f = b_data b" "fb_seqNum f = 0" "fb_cmp f = bytes_compare" "fb_offsets f = map fentry ys"
    "ordered_entries ops is_flush_point ys" "holds_ops ops (b_data b)"
    "fragments_of ops (\<lambda>k. k = InternalKeyKindRangeDelete) 0 (fb_tombstones f)" "fragments_of ops is_range_key 0 (fb_rangeKeys f)"
proof -
  note B = rep [unfolded batch_rep_def]
  let ?rs = "map op_record ops" and ?del = "\<lambda>k. k = InternalKeyKindRangeDelete"
  let ?X = "\<lambda>sel. filter (\<lambda>x. sel (kind_of x)) (numbered_records ?rs)"
  obtain h where h: "length h = batchHeaderLen" "b_data b = h @ recs_bytes ?rs" using B ne by (auto simp add: data_ok_def)
  have len: "length (b_data b) < 2 ^ 32" using B maxBatchSize_less by simp
  have ho: "holds_ops ops (b_data b)" using h len by (auto simp add: holds_ops_def)
  have "length (b_data b) \<le> b_cap b" using B by (simp add: space_ok_def)
  then have cap: "b_cap b \<noteq> 0" using ne by (cases "b_data b") auto
  have seq: "Batch_SeqNum b = Inr (0, b)" by (rule fresh_header [OF hdr ne]) (use h in \<open>simp add: batchHeaderLen_def\<close>)
  obtain yp where yp: "sortEntries (map fentry (?X is_flush_point)) = map fentry yp" "ordered_entries ops is_flush_point yp"
    by (rule sort_entries [OF ho sorts(1)])
  obtain yd where yd: "sortEntries (map fentry (?X ?del)) = map fentry yd" "ordered_entries ops ?del yd"
    by (rule sort_entries [OF ho sorts(1), of ?del])
  obtain yk where yk: "sortEntries (map fentry (?X is_range_key)) = map fentry yk" "ordered_entries ops is_range_key yk"
    by (rule sort_entries [OF ho sorts(1)])
  note loop = flushable_loop_ops [OF ho]
  let ?f = "\<lparr>fb_cmp = bytes_compare, fb_data = b_data b, fb_cap = b_cap b, fb_seqNum = 0, fb_offsets = map fentry yp,
      fb_tombstones = [], fb_rangeKeys = []\<rparr>"
  have ho': "holds_ops ops (fb_data ?f)" using ho by simp
  obtain g where g: "fragmentRangeDels bytes_compare sortSpans sortKeys flushable_Next
      (flushable_First (new_flushable_iter ?f (map fentry yd) None None)) = Inr g" "fragments_of ops ?del 0 (fr_out g)"
    using fragment_dels [OF sorts(2,3) ho' yd(2)] unfolding fragments_of_def by (metis flushableBatch.select_convs(4))
  obtain k where k: "fragmentRangeKeys bytes_compare sortSpans sortKeys flushable_Next
      (flushable_First (new_flushable_iter ?f (map fentry yk) None None)) = Inr (None, k)" "fragments_of ops is_range_key 0 (fr_out k)"
    using fragment_keys [OF sorts(2,3) ho' yk(2)] unfolding fragments_of_def by (metis flushableBatch.select_convs(4))
  let ?ts = "if ?X ?del = [] then [] else fr_out g" and ?ks = "if ?X is_range_key = [] then [] else fr_out k"
  let ?f3 = "?f\<lparr>fb_tombstones := ?ts, fb_rangeKeys := ?ks\<rparr>"
  have "newFlushableBatch sortEntries sortSpans sortKeys bytes_compare b = Inr (Inr ?f3)"
    unfolding newFlushableBatch_def Let_def
    using abbr.Batch_Count_rep [OF rep] seq cap g(1) k(1) by (simp add: loop yp(1) yd(1) yk(1))
  moreover have "fragments_of ops ?del 0 ?ts" "fragments_of ops is_range_key 0 ?ks"
    using g(2) k(2) fragments_of_Nil selected_Nil by auto
  ultimately show thesis using that [of ?f3 yp] yp(2) ho by simp
qed

definition shift_key :: "u64 \<Rightarrow> Key \<Rightarrow> Key" where
  "shift_key seq k = k\<lparr>k_trailer := MakeTrailer (Key_SeqNum k + seq) (Key_Kind k)\<rparr>"

lemma shift_keys_eq: "shift_keys seq s = s\<lparr>sp_keys := map (shift_key seq) (sp_keys s)\<rparr>"
  by (simp add: shift_keys_def shift_key_def cong: map_cong)

lemma keys_at_shift: "keys_at cmp (map (shift_keys seq) ss) u = image_mset (shift_key seq) (keys_at cmp ss u)"
  by (induction ss) (simp_all add: shift_keys_eq Span_Contains_def)

lemma selected_member: "(i, op) \<in> set (selected sel ops) \<Longrightarrow> i < length ops \<and> sel (fst (op_record op))"
  by (auto simp add: selected_def in_set_enumerate_eq)

lemma op_span_keys:
  assumes "k \<in> set (sp_keys (op_span seq (i, op)))"
  shows "k_trailer k = MakeTrailer (seq + of_nat i) (fst (op_record op))"
  using assms by (cases op) (auto simp add: op_span_def)

lemma Key_SeqNum_Make:
  assumes "k_trailer k = MakeTrailer n kind" "unat n < 2 ^ 56"
  shows "Key_SeqNum k = n" "Key_Kind k = kind"
proof -
  show "Key_Kind k = kind"
    using assms(1) trailer_Kind [of n kind] by (simp add: Key_Kind_def MakeTrailer_def TrailerKind_def)
  show "Key_SeqNum k = n" using assms trailer_SeqNum [of n kind] by (simp add: Key_SeqNum_def MakeTrailer_def)
qed

lemma shift_op_span:
  assumes "i < 2 ^ 56"
  shows "shift_keys seq (op_span 0 (i, op)) = op_span seq (i, op)"
proof -
  have n: "unat (of_nat i :: u64) < 2 ^ 56" using assms by (simp add: unat_of_nat64)
  have "k \<in> set (sp_keys (op_span 0 (i, op))) \<Longrightarrow> shift_key seq k = k\<lparr>k_trailer := MakeTrailer (seq + of_nat i) (fst (op_record op))\<rparr>" for k
    using Key_SeqNum_Make [of k "of_nat i"] op_span_keys [of k 0 i op] n by (simp add: shift_key_def add.commute)
  then have "shift_keys seq (op_span 0 (i, op)) = (op_span 0 (i, op))\<lparr>sp_keys :=
      map (\<lambda>k. k\<lparr>k_trailer := MakeTrailer (seq + of_nat i) (fst (op_record op))\<rparr>) (sp_keys (op_span 0 (i, op)))\<rparr>"
    by (simp add: shift_keys_eq cong: map_cong)
  also have "\<dots> = op_span seq (i, op)" by (cases op) (simp_all add: op_span_def)
  finally show ?thesis .
qed

lemma fragments_shift:
  assumes fr: "fragments_of ops sel 0 ss" and seq: "unat seq + length ops \<le> 2 ^ 56"
  shows "fragments_of ops sel seq (map (shift_keys seq) ss)"
proof -
  note F = fr [unfolded fragments_of_def]
  have "op_span seq y = shift_keys seq (op_span 0 y)" if y: "y \<in> set (selected sel ops)" for y
  proof -
    obtain i op where "y = (i, op)" by (cases y)
    moreover from this have "i < 2 ^ 56" using selected_member [of i op sel ops] y seq by simp
    ultimately show ?thesis using shift_op_span by simp
  qed
  then have "map (op_span seq) (selected sel ops) = map (shift_keys seq) (map (op_span 0) (selected sel ops))" by simp
  then have keys: "keys_at bytes_compare (map (shift_keys seq) ss) u = keys_at bytes_compare (map (op_span seq) (selected sel ops)) u" for u
    using F by (simp add: keys_at_shift del: map_map)
  have small: "unat (k_trailer (shift_key seq k)) = unat (k_trailer k) + unat seq * 256" if s: "s \<in> set ss" and k: "k \<in> set (sp_keys s)" for s k
  proof -
    have "Span_Contains bytes_compare (sp_start s) s" using F s by (simp add: Span_Contains_def fragmented_def dflt.cmp_refl)
    then have "k \<in># keys_at bytes_compare ss (sp_start s)" using s k by (auto simp add: keys_at_def)
    then have "k \<in># keys_at bytes_compare (map (op_span 0) (selected sel ops)) (sp_start s)" using F by simp
    then obtain i op where i: "(i, op) \<in> set (selected sel ops)" "k \<in> set (sp_keys (op_span 0 (i, op)))" by (auto simp add: keys_at_def)
    have lt: "i + unat seq < 2 ^ 56" using selected_member [OF i(1)] seq by simp
    have n: "unat (of_nat i :: u64) = i" using lt by (intro unat_of_nat64) simp
    have t: "k_trailer k = MakeTrailer (of_nat i) (fst (op_record op))" using op_span_keys [OF i(2)] by simp
    have sk: "Key_SeqNum k = of_nat i" "Key_Kind k = fst (op_record op)" using Key_SeqNum_Make [OF t] n lt by simp_all
    have ns: "unat (of_nat i + seq) = i + unat seq" using lt n by (simp add: unat_word_ariths)
    show ?thesis using unat_MakeTrailer [of "of_nat i" "fst (op_record op)"] unat_MakeTrailer [of "of_nat i + seq" "fst (op_record op)"] n ns lt
      by (simp add: shift_key_def sk t)
  qed
  have "emitted_ok (shift_keys seq s)" if s: "s \<in> set ss" for s
  proof -
    have e: "sp_order s = ByTrailerDesc" "sorted_wrt (\<lambda>a b. k_trailer b \<le> k_trailer a) (sp_keys s)"
      using F s by (simp_all add: emitted_ok_def trailer_desc_def)
    have "sorted_wrt (\<lambda>a b. k_trailer (shift_key seq b) \<le> k_trailer (shift_key seq a)) (sp_keys s)"
      by (rule sorted_wrt_mono_rel [OF _ e(2)]) (simp add: word_le_nat_alt small [OF s])
    then show ?thesis using e(1) by (simp add: emitted_ok_def trailer_desc_def shift_keys_eq sorted_wrt_map)
  qed
  moreover have "fragmented bytes_compare (map (shift_keys seq) ss)"
    using F by (simp add: fragmented_def sorted_wrt_map shift_keys_eq)
  ultimately show ?thesis using keys by (simp add: fragments_of_def)
qed

text \<open>The flushable batch made from a batch of operations, once it has its sequence number.\<close>

lemma flushable_ready:
  assumes sorts: "sorts_by (flushable_Less bytes_compare (b_data b)) sortEntries" "sorts_by keysBySeqNumKind_Less sortKeys"
      "sorts_by (spansByEndKey_Less bytes_compare) sortSpans"
    and run: "fresh_batch env b0" "ops_fit ops" "ops \<noteq> []" "run_ops env ops b0 = Inr (None, b)"
    and seq: "unat seq + length ops \<le> 2 ^ 56"
  obtains f f' ys where "newFlushableBatch sortEntries sortSpans sortKeys bytes_compare b = Inr (Inr f)"
    "flushable_setSeqNum seq f = Inr f'" "fb_data f' = b_data b" "fb_seqNum f' = seq" "fb_cmp f' = bytes_compare"
    "fb_offsets f' = map fentry ys" "ordered_entries ops is_flush_point ys" "holds_ops ops (b_data b)"
    "fragments_of ops (\<lambda>k. k = InternalKeyKindRangeDelete) seq (fb_tombstones f')" "fragments_of ops is_range_key seq (fb_rangeKeys f')"
proof -
  note fr = fresh_batch_rep [OF run(1)]
  have "length (started b0) + ops_space ops < maxBatchSize" "368 + 184 * (length [] + length ops) \<le> maxNodesSize"
    using run(2) fr(2) by (simp_all add: ops_fit_def started_def)
  then have b: "batch_rep bytes_compare AbbreviatedKey b (map op_record ops)" "b_data b = started b0 @ recs_bytes (map op_record ops)"
    using abbr.run_ops_rep [OF fr(1,3), of ops env] run(3,4) by auto
  then have d: "b_data b = replicate 12 0 @ recs_bytes (map op_record ops)" using fr(2) by (simp add: started_def batchHeaderLen_def)
  have hdr: "take 8 (b_data b) = replicate 8 0" "b_data b \<noteq> []" by (simp_all add: d)
  obtain f ys where f: "newFlushableBatch sortEntries sortSpans sortKeys bytes_compare b = Inr (Inr f)"
    "fb_data f = b_data b" "fb_seqNum f = 0" "fb_cmp f = bytes_compare" "fb_offsets f = map fentry ys"
    "ordered_entries ops is_flush_point ys" "holds_ops ops (b_data b)"
    "fragments_of ops (\<lambda>k. k = InternalKeyKindRangeDelete) 0 (fb_tombstones f)" "fragments_of ops is_range_key 0 (fb_rangeKeys f)"
    by (rule newFlushable_ok [OF sorts b(1) hdr(2,1)])
  show thesis
    by (rule that [OF f(1) _ _ _ _ _ f(6,7), of "f\<lparr>fb_seqNum := seq, fb_tombstones := map (shift_keys seq) (fb_tombstones f),
        fb_rangeKeys := map (shift_keys seq) (fb_rangeKeys f)\<rparr>"])
      (use f fragments_shift [OF _ seq] in \<open>simp_all add: flushable_setSeqNum_def\<close>)
qed

lemma flushable_yields:
  assumes "fb_seqNum f = seq" "fb_offsets f = map fentry ys" "ordered_entries ops is_flush_point ys" "holds_ops ops (fb_data f)"
  shows "yields flushable_Next (flushable_First (flushable_newIter None None f)) (map (fpair seq) ys)"
  using yields_entries [OF assms(4,3)] assms(1,2) by (simp add: flushable_newIter_def)

lemma flushable_seeks:
  assumes "fb_seqNum f = seq" "fb_cmp f = bytes_compare" "fb_offsets f = map fentry ys" "ordered_entries ops is_flush_point ys"
    and "holds_ops ops (fb_data f)"
  shows "yields flushable_Next (flushable_SeekGE key (flushable_newIter lower upper f))
      (takeWhile (\<lambda>kv. \<forall>u. upper = Some u \<longrightarrow> bytes_compare (UserKey (fst kv)) u < 0)
        (filter (\<lambda>kv. 0 \<le> bytes_compare (UserKey (fst kv)) key) (map (fpair seq) ys)))"
    "yields flushable_Prev (flushable_SeekLT key (flushable_newIter lower upper f))
      (takeWhile (\<lambda>kv. \<forall>l. lower = Some l \<longrightarrow> 0 \<le> bytes_compare (UserKey (fst kv)) l)
        (rev (filter (\<lambda>kv. bytes_compare (UserKey (fst kv)) key < 0) (map (fpair seq) ys))))"
proof -
  let ?it = "new_flushable_iter f (map fentry ys) lower upper"
  have it: "fi_batch ?it = f" "fi_upper ?it = upper" "fi_lower ?it = lower" by (simp_all add: new_flushable_iter_def)
  have b: "fbelow bytes_compare upper = (\<lambda>x. \<forall>u. upper = Some u \<longrightarrow> bytes_compare (ukey x) u < 0)"
    "fabove bytes_compare lower = (\<lambda>x. \<forall>l. lower = Some l \<longrightarrow> 0 \<le> bytes_compare (ukey x) l)"
    by (auto simp add: fbelow_def fabove_def ukey_def fun_eq_iff not_less split: option.splits)
  note s = dflt.seeks_yield [OF over_entries [OF assms(5,4)] _ ordered_entries_facts(4) [OF assms(4)], of lower upper key, unfolded it, OF assms(2)]
  show "yields flushable_Next (flushable_SeekGE key (flushable_newIter lower upper f))
      (takeWhile (\<lambda>kv. \<forall>u. upper = Some u \<longrightarrow> bytes_compare (UserKey (fst kv)) u < 0)
        (filter (\<lambda>kv. 0 \<le> bytes_compare (UserKey (fst kv)) key) (map (fpair seq) ys)))"
    using s(1) by (simp add: flushable_newIter_def assms(1,3) b takeWhile_map filter_map comp_def fpair_def not_less)
  show "yields flushable_Prev (flushable_SeekLT key (flushable_newIter lower upper f))
      (takeWhile (\<lambda>kv. \<forall>l. lower = Some l \<longrightarrow> 0 \<le> bytes_compare (UserKey (fst kv)) l)
        (rev (filter (\<lambda>kv. bytes_compare (UserKey (fst kv)) key < 0) (map (fpair seq) ys))))"
    using s(2) by (simp add: flushable_newIter_def assms(1,3) b takeWhile_map filter_map comp_def fpair_def rev_map)
qed

text \<open>What the iterator goes over are the point operations and the log data, since the default case of the loop takes both.\<close>

lemma selected_flush_point:
  "mset (map g (selected is_flush_point ops)) =
     mset (map g (selected is_point ops)) + mset (map g (selected (\<lambda>k. k = InternalKeyKindLogData) ops))"
proof -
  have log: "is_flush_point InternalKeyKindLogData" by (simp add: is_flush_point_def is_range_key_def kind_defs)
  have "mset (map g (filter (\<lambda>(i, op). is_flush_point (fst (op_record op))) xs)) =
      mset (map g (filter (\<lambda>(i, op). is_point (fst (op_record op))) xs)) +
      mset (map g (filter (\<lambda>(i, op). fst (op_record op) = InternalKeyKindLogData) xs))" for xs
  proof (induction xs)
    case (Cons x xs)
    obtain i op where x: "x = (i, op)" by fastforce
    have "is_flush_point (fst (op_record op)) \<longleftrightarrow> is_point (fst (op_record op)) \<or> fst (op_record op) = InternalKeyKindLogData"
      "\<not> (is_point (fst (op_record op)) \<and> fst (op_record op) = InternalKeyKindLogData)"
      using log by (auto simp add: is_point_def is_flush_point_def)
    then show ?case using Cons by (auto simp add: x)
  qed simp
  then show ?thesis by (simp add: selected_def)
qed

text \<open>C37. A flushable batch holds what the batch holds: making it from the operations of a batch and giving it a
  sequence number never fails, whatever \<^verbatim>\<open>sort.Sort\<close> makes of equal elements. Its iterator yields the
  point operations and, although log data is documented never to reach a memtable, the log data, once each and in
  strictly ascending order of internal keys; the sequence number of an operation is the batch's plus its position.
  Its seeks agree with that list within the bounds. Its tombstones and its range keys are fragments, and at every
  user key they hold exactly the keys of the operations whose range contains it.\<close>

theorem flushable_batch_contents:
  assumes "sorts_by (flushable_Less bytes_compare (b_data b)) sortEntries" "sorts_by keysBySeqNumKind_Less sortKeys"
    and "sorts_by (spansByEndKey_Less bytes_compare) sortSpans"
    and "fresh_batch env b0" "ops_fit ops" "ops \<noteq> []" "run_ops env ops b0 = Inr (None, b)" "unat seq + length ops \<le> 2 ^ 56"
  shows "\<exists>f f' kvs. newFlushableBatch sortEntries sortSpans sortKeys bytes_compare b = Inr (Inr f) \<and>
    flushable_setSeqNum seq f = Inr f' \<and>
    yields flushable_Next (flushable_First (flushable_newIter None None f')) kvs \<and>
    sorted_wrt (\<lambda>a b. InternalCompare bytes_compare (fst a) (fst b) < 0) kvs \<and>
    mset kvs = mset (map (op_pair seq) (selected is_point ops)) +
      mset (map (op_pair seq) (selected (\<lambda>k. k = InternalKeyKindLogData) ops)) \<and>
    (\<forall>key lower upper. yields flushable_Next (flushable_SeekGE key (flushable_newIter lower upper f'))
      (takeWhile (\<lambda>kv. \<forall>u. upper = Some u \<longrightarrow> bytes_compare (UserKey (fst kv)) u < 0)
        (filter (\<lambda>kv. 0 \<le> bytes_compare (UserKey (fst kv)) key) kvs))) \<and>
    (\<forall>key lower upper. yields flushable_Prev (flushable_SeekLT key (flushable_newIter lower upper f'))
      (takeWhile (\<lambda>kv. \<forall>l. lower = Some l \<longrightarrow> 0 \<le> bytes_compare (UserKey (fst kv)) l)
        (rev (filter (\<lambda>kv. bytes_compare (UserKey (fst kv)) key < 0) kvs)))) \<and>
    fragmented bytes_compare (fb_tombstones f') \<and> fragmented bytes_compare (fb_rangeKeys f') \<and>
    (\<forall>u. keys_at bytes_compare (fb_tombstones f') u =
       keys_at bytes_compare (map (op_span seq) (selected (\<lambda>k. k = InternalKeyKindRangeDelete) ops)) u \<and>
     keys_at bytes_compare (fb_rangeKeys f') u = keys_at bytes_compare (map (op_span seq) (selected is_range_key ops)) u)"
proof -
  obtain f f' ys where f: "newFlushableBatch sortEntries sortSpans sortKeys bytes_compare b = Inr (Inr f)"
    "flushable_setSeqNum seq f = Inr f'" "fb_data f' = b_data b" "fb_seqNum f' = seq" "fb_cmp f' = bytes_compare"
    "fb_offsets f' = map fentry ys" "ordered_entries ops is_flush_point ys" "holds_ops ops (b_data b)"
    "fragments_of ops (\<lambda>k. k = InternalKeyKindRangeDelete) seq (fb_tombstones f')" "fragments_of ops is_range_key seq (fb_rangeKeys f')"
    by (rule flushable_ready [OF assms])
  have ho: "holds_ops ops (fb_data f')" using f(3,8) by simp
  note o = ordered_entries_facts [OF f(7)]
  have "sorted_wrt (\<lambda>a b. InternalCompare bytes_compare (fkey seq a) (fkey seq b) < 0) ys"
    using f(7) dflt.fkeys_ordered [of ys "map op_record ops" seq] o(1) assms(8) by (simp add: ordered_entries_def)
  then have so: "sorted_wrt (\<lambda>a b. InternalCompare bytes_compare (fst a) (fst b) < 0) (map (fpair seq) ys)"
    by (simp add: sorted_wrt_map fpair_def)
  show ?thesis
    using f(1,2,9,10) so o(2) [of seq, unfolded selected_flush_point] flushable_yields [OF f(4,6,7) ho]
      flushable_seeks [OF f(4,5,6,7) ho]
    unfolding fragments_of_def by blast
qed

lemma sorts_entries: "sorts_by (flushable_Less bytes_compare data) (stable_sort (flushable_Less bytes_compare data))"
proof (rule stable_sort_sorts)
  define K where "K e = slice (unat (fe_keyStart e)) (unat (fe_keyEnd e)) data" for e :: flushableBatchEntry
  have L: "flushable_Less bytes_compare data a b \<longleftrightarrow>
      bytes_compare (K a) (K b) < 0 \<or> K a = K b \<and> fe_offset b < fe_offset a" for a b :: flushableBatchEntry
    using dflt.cmp_eq [of "K a" "K b"] by (auto simp add: flushable_Less_def Let_def K_def)
  have swap: "bytes_compare y x < 0 \<longleftrightarrow> 0 < bytes_compare x y" for x y
    using dflt.cmp_swap [of x y] by linarith
  fix a b c
  show "\<not> flushable_Less bytes_compare data b a" if "flushable_Less bytes_compare data a b"
  proof (cases "K a = K b")
    case True
    then have z: "bytes_compare (K a) (K b) = 0" "bytes_compare (K b) (K a) = 0" by (simp_all add: dflt.cmp_refl)
    from that have "fe_offset b < fe_offset a" by (simp add: L z)
    then show ?thesis by (auto simp add: L z dest: order_less_asym)
  next
    case False
    then have "bytes_compare (K a) (K b) < 0" "K b \<noteq> K a" using that by (auto simp add: L)
    moreover from this(1) have "\<not> bytes_compare (K b) (K a) < 0" unfolding swap [of "K b" "K a"] by linarith
    ultimately show ?thesis by (simp add: L)
  qed
  show "\<not> flushable_Less bytes_compare data c a"
    if *: "\<not> flushable_Less bytes_compare data b a" "\<not> flushable_Less bytes_compare data c b"
  proof -
    have n: "\<not> bytes_compare (K b) (K a) < 0" "\<not> bytes_compare (K c) (K b) < 0"
        "K b = K a \<longrightarrow> \<not> fe_offset a < fe_offset b" "K c = K b \<longrightarrow> \<not> fe_offset b < fe_offset c"
      using * unfolding L by blast+
    have ab: "bytes_compare (K a) (K b) \<le> 0" and bc: "bytes_compare (K b) (K c) \<le> 0"
      using n(1,2) unfolding swap [of "K b" "K a"] swap [of "K c" "K b"] by linarith+
    have ac: "\<not> bytes_compare (K c) (K a) < 0"
      using dflt.cmp_trans [OF ab bc] unfolding swap [of "K c" "K a"] by linarith
    have "K b = K a \<and> K c = K b" if ca: "K c = K a"
      using ab bc dflt.cmp_antisym [of "K a" "K b"] unfolding ca by simp
    then have "\<not> (K c = K a \<and> fe_offset a < fe_offset c)" using n(3,4) by fastforce
    with ac show ?thesis unfolding L by blast
  qed
qed

theorem flushable_batch_contents_witness:
  "\<exists>b f f' kvs. run_ops batch_example_env [OpSet [98] [1], OpDeleteRange [97] [99], OpDelete [98], OpRangeKeySet [97] [99] [] [7], OpLogData [5]]
      (newBatchWithSize 0) = Inr (None, b) \<and>
    newFlushableBatch (stable_sort (flushable_Less bytes_compare (b_data b))) (stable_sort (spansByEndKey_Less bytes_compare))
      (stable_sort keysBySeqNumKind_Less) bytes_compare b = Inr (Inr f) \<and>
    flushable_setSeqNum 10 f = Inr f' \<and> yields flushable_Next (flushable_First (flushable_newIter None None f')) kvs \<and>
    mset kvs = {#(MakeInternalKey [98] 10 InternalKeyKindSet, [1]), (MakeInternalKey [98] 12 InternalKeyKindDelete, []),
      (MakeInternalKey [5] 14 InternalKeyKindLogData, [])#}"
proof -
  let ?ops = "[OpSet [98] [1], OpDeleteRange [97] [99], OpDelete [98], OpRangeKeySet [97] [99] [] [7], OpLogData [5]]"
  have fit: "ops_fit ?ops"
    by (simp add: ops_fit_def ops_space_def rec_space_def maxBatchSize_def maxNodesSize_def batchHeaderLen_def set_value_def put_len_def)
  have fr: "fresh_batch batch_example_env (newBatchWithSize 0)" by (auto simp add: fresh_batch_def)
  obtain b where b: "run_ops batch_example_env ?ops (newBatchWithSize 0) = Inr (None, b)" using built_batch [OF fr fit] by metis
  have pts: "map (op_pair 10) (selected is_point ?ops) =
      [(MakeInternalKey [98] 10 InternalKeyKindSet, [1]), (MakeInternalKey [98] 12 InternalKeyKindDelete, [])]"
    and log: "map (op_pair 10) (selected (\<lambda>k. k = InternalKeyKindLogData) ?ops) = [(MakeInternalKey [5] 14 InternalKeyKindLogData, [])]"
    by (simp_all add: selected_def op_pair_def is_point_def is_range_key_def kind_defs)
  have sum: "mset (map (op_pair 10) (selected is_point ?ops)) + mset (map (op_pair 10) (selected (\<lambda>k. k = InternalKeyKindLogData) ?ops)) =
      {#(MakeInternalKey [98] 10 InternalKeyKindSet, [1]), (MakeInternalKey [98] 12 InternalKeyKindDelete, []),
        (MakeInternalKey [5] 14 InternalKeyKindLogData, [])#}"
    unfolding pts log by simp
  have "unat (10 :: u64) + length ?ops \<le> 2 ^ 56" by simp
  from flushable_batch_contents [OF sorts_entries sorts_keys sorts_spans fr fit _ b this, unfolded sum] b show ?thesis by blast
qed

text \<open>C38. Log data takes sequence numbers of a flushable batch that the batch does not have: a batch is given as many
  sequence numbers as its count says, which leaves records of log data out, but the iterator numbers
  operations by their position, log data included. After log data, the last operation of the batch has
  a sequence number past those of the batch.\<close>

theorem log_data_shifts_sequence_numbers:
  assumes "sorts_by (flushable_Less bytes_compare (b_data b)) sortEntries" "sorts_by keysBySeqNumKind_Less sortKeys"
    and "sorts_by (spansByEndKey_Less bytes_compare) sortSpans"
    and "fresh_batch env b0" "ops_fit (ops @ [OpSet key v])" "run_ops env (ops @ [OpSet key v]) b0 = Inr (None, b)"
    and "unat seq + length ops < 2 ^ 56" "OpLogData d \<in> set ops"
  shows "\<exists>f f' kvs. newFlushableBatch sortEntries sortSpans sortKeys bytes_compare b = Inr (Inr f) \<and>
    flushable_setSeqNum seq f = Inr f' \<and> yields flushable_Next (flushable_First (flushable_newIter None None f')) kvs \<and>
    (\<exists>k. (k, v) \<in> set kvs \<and> UserKey k = key \<and> unat seq + unat (b_count b) \<le> unat (SeqNum k))"
proof -
  let ?ops = "ops @ [OpSet key v]" and ?n = "length ops"
  have sq: "unat seq + length ?ops \<le> 2 ^ 56" using assms(7) by simp
  obtain f f' ys where f: "newFlushableBatch sortEntries sortSpans sortKeys bytes_compare b = Inr (Inr f)"
    "flushable_setSeqNum seq f = Inr f'" "fb_data f' = b_data b" "fb_seqNum f' = seq" "fb_cmp f' = bytes_compare"
    "fb_offsets f' = map fentry ys" "ordered_entries ?ops is_flush_point ys" "holds_ops ?ops (b_data b)"
    by (rule flushable_ready [OF assms(1-5) _ assms(6) sq]) simp_all
  let ?k = "MakeInternalKey key (seq + of_nat ?n) InternalKeyKindSet"
  have "(?n, OpSet key v) \<in> set (selected is_flush_point ?ops)"
    by (simp add: selected_def in_set_enumerate_eq is_flush_point_def is_range_key_def kind_defs)
  then have "op_pair seq (?n, OpSet key v) \<in> set (map (op_pair seq) (selected is_flush_point ?ops))" by simp
  moreover have "set (map (fpair seq) ys) = set (map (op_pair seq) (selected is_flush_point ?ops))"
    using ordered_entries_facts(2) [OF f(7), of seq] by (metis set_mset_mset)
  ultimately have mem: "(?k, v) \<in> set (map (fpair seq) ys)" by (simp add: op_pair_def)
  have n: "unat (seq + of_nat ?n) = unat seq + ?n" using assms(7) by (simp add: unat_word_ariths unsigned_of_nat take_bit_nat_eq_self)
  then have "SeqNum ?k = seq + of_nat ?n"
    unfolding SeqNum_def MakeInternalKey_def InternalKey.simps using assms(7) by (intro trailer_SeqNum) simp
  then have sn: "unat (SeqNum ?k) = unat seq + ?n" using n by simp
  have rep: "batch_rep bytes_compare AbbreviatedKey b (map op_record ?ops)" using built_batch [OF assms(4,5)] assms(6) by auto
  have "length (filter (\<lambda>op. counted (fst (op_record op))) ops) < ?n"
    by (rule length_filter_less [OF assms(8)]) (simp add: counted_def)
  then have "unat (b_count b) \<le> ?n"
    using batch_count_small(1) [OF rep] by (simp add: records_def filter_map comp_def counted_def kind_defs)
  then have "\<exists>k. (k, v) \<in> set (map (fpair seq) ys) \<and> UserKey k = key \<and> unat seq + unat (b_count b) \<le> unat (SeqNum k)"
    using mem sn by (intro exI [of _ ?k]) simp
  then show ?thesis using f(1,2) flushable_yields [OF f(4,6,7)] f(3,8) by metis
qed

theorem log_data_shifts_sequence_numbers_witness:
  "\<exists>b f f' kvs. run_ops batch_example_env [OpLogData [5], OpSet [97] [1]] (newBatchWithSize 0) = Inr (None, b) \<and>
    newFlushableBatch (stable_sort (flushable_Less bytes_compare (b_data b))) (stable_sort (spansByEndKey_Less bytes_compare))
      (stable_sort keysBySeqNumKind_Less) bytes_compare b = Inr (Inr f) \<and>
    flushable_setSeqNum 10 f = Inr f' \<and> yields flushable_Next (flushable_First (flushable_newIter None None f')) kvs \<and>
    b_count b = 1 \<and> (\<exists>k. (k, [1]) \<in> set kvs \<and> 11 \<le> unat (SeqNum k))"
proof -
  let ?ops = "[OpLogData [5]] @ [OpSet [97] [1]]"
  have fit: "ops_fit ?ops" by (simp add: ops_fit_def ops_space_def rec_space_def maxBatchSize_def maxNodesSize_def batchHeaderLen_def)
  have fr: "fresh_batch batch_example_env (newBatchWithSize 0)" by (auto simp add: fresh_batch_def)
  obtain b where b: "run_ops batch_example_env ?ops (newBatchWithSize 0) = Inr (None, b)"
      "batch_rep bytes_compare AbbreviatedKey b (map op_record ?ops)" using built_batch [OF fr fit] by metis
  have c: "b_count b = 1" using b(2) by (simp add: batch_rep_def records_def counted_def kind_defs)
  obtain f f' kvs k where "newFlushableBatch (stable_sort (flushable_Less bytes_compare (b_data b))) (stable_sort (spansByEndKey_Less bytes_compare))
      (stable_sort keysBySeqNumKind_Less) bytes_compare b = Inr (Inr f)" "flushable_setSeqNum 10 f = Inr f'"
      "yields flushable_Next (flushable_First (flushable_newIter None None f')) kvs" "(k, [1]) \<in> set kvs"
      "unat (10 :: u64) + unat (b_count b) \<le> unat (SeqNum k)"
    using log_data_shifts_sequence_numbers [OF sorts_entries sorts_keys sorts_spans fr fit b(1), of 10 "[5]"] by auto
  moreover have "run_ops batch_example_env [OpLogData [5], OpSet [97] [1]] (newBatchWithSize 0) = Inr (None, b)"
    using b(1) by (simp only: append.simps)
  moreover have "unat (10 :: u64) + unat (b_count b) = 11" by (simp add: c)
  ultimately show ?thesis using c by metis
qed

end
