(* ===== verification/Spec2Isabelle.thy ===== *)
theory Spec2Isabelle
  imports RecordProofs Transactions Filenames VersionEdit FlushableProofs
begin

text \<open>
  A verification of EStore, a key-value store with encryption at rest (a fork of Pebble).

  A store keeps what it is given in batches, a log, memtables and sorted tables, and records which tables make it up in
  version edits. All files are encrypted and authenticated with AES-GCM. The key of each file is derived from the
  master key and a random salt; the salts are kept in the file SALTCHAIN, a chain of authenticated blocks. The log and
  the MANIFEST, which holds the version edits, have one format of encrypted chunks. A transaction advances a counter
  that is kept in the store and with a trusted source, so that an old copy of the store is recognised.

  \<^bold>\<open>Theories\<close>, and the code under \<^verbatim>\<open>src\<close> they model. Definitions have the names of the code; a struct is a
  record, an error or a panic is the left side of a sum, \<^verbatim>\<open>nil\<close> is \<open>None\<close> or the empty list.

  \<^item> \<open>Prelude\<close>: results of fallible code, little-endian and varint encodings (\<^verbatim>\<open>encoding/binary\<close>), comparison of
    byte strings (\<^verbatim>\<open>bytes\<close>), numbers in strings (\<^verbatim>\<open>strconv\<close>), slices.
  \<^item> \<open>Crypto\<close>: the primitives of Go's standard library that the code calls (AES, GCM, SHA-256, HMAC), and HKDF as an
    instance of the key derivation, which is a parameter of the model; the locale \<open>cipher_provider\<close> is what a user of
    \<^verbatim>\<open>cipher.AEAD\<close> relies on.
  \<^item> \<open>Vfs\<close>: the files of \<^verbatim>\<open>vfs/mem_fs.go\<close> with synced and unsynced data, injected errors (\<^verbatim>\<open>vfs/errorfs\<close>) and the
    approved writes of \<^verbatim>\<open>vfs/edg.go\<close>.
  \<^item> \<open>Edg\<close>: \<^verbatim>\<open>internal/edg\<close>, the ciphers, the key manager and its salt chain; \<open>cipher_provider\<close> is interpreted for
    \<^verbatim>\<open>GetCipher\<close>.
  \<^item> \<open>RecordLog\<close>, \<open>RecordProofs\<close>: \<^verbatim>\<open>record/record.go\<close> and \<^verbatim>\<open>record/edg.go\<close>, the writer and the reader of logs.
  \<^item> \<open>Transactions\<close>: \<^verbatim>\<open>transaction.go\<close> and \<^verbatim>\<open>edg.go\<close>. The store is seen through the calls it offers; \<open>step\<close> is the
    relation of one call of a commit, which may fail, or a crash, and \<open>commit_steps\<close> connects it to \<^verbatim>\<open>Commit\<close>.
  \<^item> \<open>InternalKey\<close>, \<open>Filenames\<close>: \<^verbatim>\<open>internal/base\<close>, the comparer, internal keys and file names. The locales
    \<open>key_order\<close> and \<open>comparer\<close> are the contract of \<^verbatim>\<open>base.Comparer\<close>, interpreted for the default one.
  \<^item> \<open>FileMetadata\<close>, \<open>VersionEdit\<close>: \<^verbatim>\<open>internal/manifest/version.go\<close> and \<^verbatim>\<open>version_edit.go\<close>, the bounds of files, the
    order of a level, the overlaps of level 0, and version edits with their encoding and accumulation.
  \<^item> \<open>Keyspan\<close>, \<open>KeyspanProofs\<close>: \<^verbatim>\<open>internal/keyspan\<close>, spans, the fragmenter and the iterator over fragments; the locale
    \<open>fragment_iter\<close> is what searches rely on, interpreted for the iterator over a slice.
  \<^item> \<open>Rangekey\<close>, \<open>RangekeyProofs\<close>: \<^verbatim>\<open>internal/rangekey\<close> and \<^verbatim>\<open>internal/rangedel\<close>, the encoding of range keys into the
    buffer of an encoder, and their coalescing.
  \<^item> \<open>Batchskl\<close>, \<open>BatchsklProofs\<close>: \<^verbatim>\<open>internal/batchskl\<close>, the skiplist that indexes a batch, and its iterator; the locale
    \<open>abbreviated_order\<close> is what it needs of a comparer, interpreted for the default one.
  \<^item> \<open>Batch\<close>, \<open>BatchIter\<close>, \<open>BatchProofs\<close>, \<open>FlushableProofs\<close>: \<^verbatim>\<open>batch.go\<close>, batches and their representation, their
    iterators, and flushable batches, which stand for a memtable when a batch is large.

  \<^bold>\<open>What is shown.\<close>

  \<^item> Keys: an invariant of the key manager, kept by every operation, says that its fields and its file agree on the keys
    created. So the key a file was encrypted with is found again after a restart or a crash; the last MAC of the chain
    determines the whole file up to an HMAC collision; a failed sync breaks the chain. OPTIONS files decrypt to what
    was encrypted.
  \<^item> Logs: what is written is read back. Whatever bytes the file has, what is read is a prefix of what was written, or
    some chunk is a forgery.
  \<^item> Transactions: an invariant of the counters under failures and crashes gives that the current store is always
    accepted and a copy from before a committed transaction is refused; a copy from within a commit is accepted.
  \<^item> Keys, names, files and edits: separators and search keys, round trips of internal keys, file names and version
    edits (with an encoding that cannot be read back), the exact meaning of the checks on levels, the least fixed point
    of the overlap search, and accumulation of edits against their effect one by one.
  \<^item> Spans and range keys: fragments hold at every user key what the spans held; lookups, visibility and coalescing
    agree with the meaning of the keys; encoded spans are decoded, below 4 GiB, and not above.
  \<^item> Batches: a relation between a batch and the list of its records is kept by every operation, so a batch is its list
    of operations for the reader, for \<^verbatim>\<open>SetRepr\<close>, for \<^verbatim>\<open>Apply\<close>, for the index and for a flushable batch, with the
    exceptions that are findings: log data, and the format version after \<^verbatim>\<open>Apply\<close>.

  \<^bold>\<open>Bounds and termination.\<close> Words have the width of the code where it computes with them: chunk numbers, counters,
  sequence numbers, trailers, and the 32-bit offsets and counts of batches. Lengths and file positions are natural
  numbers. Loops that consume their input have a measure, the bytes left. Loops that could run for ever (the doubling of
  a capacity, the walk along a skiplist, the search for overlaps, the iteration that fragments a batch) are partial
  functions with values in \<open>option\<close>, and the theorems show that they return. One more, \<open>skip_hidden\<close>, with which
  \<^verbatim>\<open>batchIter\<close> passes over records newer than its snapshot, is modelled, but no theorem is about it. The only fuel
  is that of \<open>skl_scan\<close>, which collects what an iterator yields; one more than the number of entries is enough.

  \<^bold>\<open>Arguments.\<close> What is not under \<^verbatim>\<open>src\<close> or not determined is an argument: the key derivation function, random salts and
  the random numbers and initial memory of skiplists, the schedule of injected errors, results of the trusted counter, the
  growth of slices by \<^verbatim>\<open>append\<close>, and \<^verbatim>\<open>sort.Sort\<close> with its documented contract \<open>sorts_by\<close>.

  \<^bold>\<open>Not modelled.\<close> The database itself, the commit pipeline, the log writer of the write-ahead log and memtables are
  concurrent: their correctness is about interleavings of goroutines and atomic memory, and a sequential reading would
  not be faithful. Tables, the caches, compactions, ingestion and the iterators that merge tables build on compressed
  blocks reached through unsafe pointers and on the database. The directory tree of \<^verbatim>\<open>vfs/mem_fs.go\<close>, B-trees of
  files, \<^verbatim>\<open>BulkVersionEdit.Apply\<close>, reference counts of versions, printing and the parsers of test input are left out. File
  systems of the host, object storage and tools are input and output.
\<close>

end
